(* ===== verification/AF_Prelude.thy ===== *)
theory AF_Prelude
  imports Main
begin

text \<open>
  Shared vocabulary of the development: the faults a C++ execution can run into, the result
  type of effectful operations, its sequencing operator with the rules that make symbolic
  execution a matter of \<open>simp\<close>, and a few generic lemmas on lists.
\<close>

section \<open>Faults and effects\<close>

text \<open>
  What the C++ code can run into besides returning. An \<open>assert\<close> whose condition is false is
  \<open>Assert_Failed\<close>; reading or writing a member through a null pointer is \<open>Null_Deref\<close>,
  through a pointer to no live object (freed, never initialised, a dummy) \<open>Wild_Deref\<close>;
  using an iterator after its element was erased is \<open>Invalid_Iterator\<close>; \<open>std::any_cast\<close> to
  another type throws \<open>Bad_Any_Cast\<close>; \<open>unordered_map::at\<close> on a missing key throws
  \<open>Out_Of_Range\<close>; deleting an object that is not live is \<open>Bad_Free\<close>; two threads inside code
  that only one may run are \<open>Data_Race\<close>; calling an empty \<open>std::function\<close> throws
  \<open>Bad_Function_Call\<close>.
\<close>

datatype fault =
    Assert_Failed
  | Null_Deref
  | Wild_Deref
  | Invalid_Iterator
  | Bad_Any_Cast
  | Out_Of_Range
  | Bad_Free
  | Data_Race
  | Bad_Function_Call

text \<open>
  An effect is \<open>None\<close> when the code does not return, and otherwise a fault or a value.
\<close>

type_synonym 'a eff = "(fault + 'a) option"

abbreviation ok :: "'a \<Rightarrow> 'a eff" where
  "ok x \<equiv> Some (Inr x)"

abbreviation fail :: "fault \<Rightarrow> 'a eff" where
  "fail e \<equiv> Some (Inl e)"

definition and_then :: "'a eff \<Rightarrow> ('a \<Rightarrow> 'b eff) \<Rightarrow> 'b eff" where
  "and_then m f = Option.bind m (\<lambda>r. case r of Inl e \<Rightarrow> Some (Inl e) | Inr x \<Rightarrow> f x)"

definition check :: "bool \<Rightarrow> fault \<Rightarrow> unit eff" where
  "check b e = (if b then ok () else fail e)"

definition assert_that :: "bool \<Rightarrow> unit eff" where
  "assert_that b = check b Assert_Failed"

subsection \<open>Symbolic execution\<close>

lemma and_then_simps [simp]:
  "and_then None f = None"
  "and_then (fail e) f = fail e"
  "and_then (ok x) f = f x"
  by (simp_all add: and_then_def)

text \<open>
  The continuation is not rewritten before the first computation is known: loops can then be
  unfolded by the simplifier one iteration at a time.
\<close>

lemma and_then_weak_cong [cong]: "m = m' \<Longrightarrow> and_then m f = and_then m' f"
  by simp

lemma and_then_ok_iff:
  "and_then m f = ok y \<longleftrightarrow> (\<exists>x. m = ok x \<and> f x = ok y)"
  by (cases m) (auto simp: and_then_def split: sum.splits)

lemma and_then_assoc: "and_then (and_then m f) g = and_then m (\<lambda>x. and_then (f x) g)"
  by (cases m) (auto simp: and_then_def split: sum.splits)

lemma and_then_mono [partial_function_mono]:
  assumes "mono_option B" and "\<And>y. mono_option (\<lambda>f. C y f)"
  shows "mono_option (\<lambda>f. and_then (B f) (\<lambda>y. C y f))"
  unfolding and_then_def
proof (rule bind_mono [OF assms(1)])
  fix r :: "fault + 'c"
  show "mono_option (\<lambda>f. case r of Inl e \<Rightarrow> Some (Inl e) | Inr x \<Rightarrow> C x f)"
    using assms(2) by (cases r) (simp_all add: option.const_mono)
qed

lemma check_simps [simp]:
  "check True e = ok ()"
  "check False e = fail e"
  by (simp_all add: check_def)

lemma assert_that_simps [simp]:
  "assert_that True = ok ()"
  "assert_that False = fail Assert_Failed"
  by (simp_all add: assert_that_def)

lemma check_ok_iff [simp]: "check b e = ok u \<longleftrightarrow> b"
  by (simp add: check_def)

lemma assert_that_ok_iff [simp]: "assert_that b = ok u \<longleftrightarrow> b"
  by (simp add: assert_that_def)

section \<open>Generic lemmas\<close>

text \<open>Facts on lists used by more than one component.\<close>

lemma last_disjoint: "set xs \<inter> A = {} \<Longrightarrow> xs \<noteq> [] \<Longrightarrow> last xs \<notin> A"
  using last_in_set by blast

lemma take_min_length: "take (min n (length xs)) xs = take n xs"
  by (simp add: min_def)

lemma drop_min_length: "drop (min n (length xs)) xs = drop n xs"
  by (simp add: min_def)

text \<open>The sum of a measure over a list one element of which is replaced.\<close>

lemma sum_list_upd:
  fixes f :: "'a \<Rightarrow> 'b::comm_monoid_add"
  assumes "k < length xs"
  shows "sum_list (map f (xs[k := v])) + f (xs ! k) = sum_list (map f xs) + f v"
  using assms
proof (induction xs arbitrary: k)
  case (Cons a xs)
  then show ?case
    by (cases k) (auto simp: add_ac)
qed simp

text \<open>The collections the component theories add to.\<close>

named_theorems heap_simps \<open>how reads and predicates see a heap write\<close>
named_theorems frame_rules \<open>representation predicates outside the written footprint\<close>

section \<open>Threads\<close>

text \<open>The thread that moves, with the others around it.\<close>

lemma split_at_thread:
  assumes "i < length xs"
  obtains us vs where "xs = us @ xs ! i # vs" and "length us = i"
  using assms id_take_nth_drop [OF assms] by (metis length_take min.absorb4)

end
