(* ===== verification/Msg_Heap.thy ===== *)
theory Msg_Heap
  imports AF_Prelude
begin

text \<open>
  The store the intrusive containers of \<open>detail/\<close> work on. The containers link the messages
  themselves: a message carries the public members \<open>next\<close> and \<open>prev\<close>
  (\<open>base/message.hpp\<close>), and the same \<open>next\<close> member is used first by the mailbox stack and
  later by the cache list, so both are functions of one heap.
\<close>

section \<open>Pointers\<close>

text \<open>
  The pointers of type \<open>message*\<close> that occur in a mailbox. \<open>Node n\<close> is a message allocated
  by \<open>new\<close>; \<open>Head_S q\<close>, \<open>Sep_S q\<close> and \<open>Tail_S q\<close> are the addresses of the three sentinel
  messages embedded in the cache of mailbox \<open>q\<close>; \<open>Empty_D q\<close> and \<open>Blocked_D q\<close> are the two
  dummies \<open>stack_empty_dummy\<close> and \<open>reader_blocked_dummy\<close>, computed from the mailbox's own
  address and never dereferenced; \<open>Uninit\<close> is the value of a member no constructor has set.
\<close>

datatype ptr =
    Null
  | Uninit
  | Node nat
  | Head_S nat
  | Sep_S nat
  | Tail_S nat
  | Empty_D nat
  | Blocked_D nat

record 'm heap =
  nxt :: "ptr \<Rightarrow> ptr"
  prv :: "ptr \<Rightarrow> ptr"
  cell :: "ptr \<Rightarrow> 'm option"

fun is_object :: "ptr \<Rightarrow> bool" where
  "is_object (Node _) = True"
| "is_object (Head_S _) = True"
| "is_object (Sep_S _) = True"
| "is_object (Tail_S _) = True"
| "is_object _ = False"

definition live :: "'m heap \<Rightarrow> ptr \<Rightarrow> bool" where
  "live h p \<longleftrightarrow> is_object p \<and> cell h p \<noteq> None"

definition deref_fault :: "ptr \<Rightarrow> fault" where
  "deref_fault p = (if p = Null then Null_Deref else Wild_Deref)"

section \<open>Member access\<close>

definition get_next :: "'m heap \<Rightarrow> ptr \<Rightarrow> ptr eff" where
  "get_next h p = (if live h p then ok (nxt h p) else fail (deref_fault p))"

definition get_prev :: "'m heap \<Rightarrow> ptr \<Rightarrow> ptr eff" where
  "get_prev h p = (if live h p then ok (prv h p) else fail (deref_fault p))"

definition get_value :: "'m heap \<Rightarrow> ptr \<Rightarrow> 'm eff" where
  "get_value h p = (if live h p then ok (the (cell h p)) else fail (deref_fault p))"

definition set_next :: "'m heap \<Rightarrow> ptr \<Rightarrow> ptr \<Rightarrow> 'm heap eff" where
  "set_next h p v =
     (if live h p then ok (h\<lparr>nxt := (nxt h)(p := v)\<rparr>) else fail (deref_fault p))"

definition set_prev :: "'m heap \<Rightarrow> ptr \<Rightarrow> ptr \<Rightarrow> 'm heap eff" where
  "set_prev h p v =
     (if live h p then ok (h\<lparr>prv := (prv h)(p := v)\<rparr>) else fail (deref_fault p))"

text \<open>
  \<open>delete p\<close> ends the object's lifetime; \<open>delete nullptr\<close> does nothing.
  \<open>new_node\<close> places a message whose constructor left both links unset.
\<close>

definition delete_node :: "'m heap \<Rightarrow> ptr \<Rightarrow> 'm heap eff" where
  "delete_node h p =
     (if p = Null then ok h
      else if live h p then ok (h\<lparr>cell := (cell h)(p := None)\<rparr>) else fail Bad_Free)"

definition new_node :: "'m heap \<Rightarrow> nat \<Rightarrow> 'm \<Rightarrow> 'm heap" where
  "new_node h n m =
     h\<lparr>nxt := (nxt h)(Node n := Uninit), prv := (prv h)(Node n := Uninit),
       cell := (cell h)(Node n := Some m)\<rparr>"

definition empty_heap :: "'m heap" where
  "empty_heap = \<lparr>nxt = (\<lambda>_. Uninit), prv = (\<lambda>_. Uninit), cell = (\<lambda>_. None)\<rparr>"

subsection \<open>Rewriting\<close>

lemma live_links [simp]:
  "live (h\<lparr>nxt := f\<rparr>) p = live h p"
  "live (h\<lparr>prv := f\<rparr>) p = live h p"
  by (simp_all add: live_def)

lemma live_cell_upd [simp]:
  "live (h\<lparr>cell := (cell h)(p := None)\<rparr>) r \<longleftrightarrow> live h r \<and> r \<noteq> p"
  "live (h\<lparr>cell := (cell h)(p := Some m)\<rparr>) r \<longleftrightarrow> live h r \<or> (r = p \<and> is_object p)"
  by (auto simp: live_def)

lemma not_live_special [simp]:
  "\<not> live h Null" "\<not> live h Uninit" "\<not> live h (Empty_D q)" "\<not> live h (Blocked_D q)"
  by (simp_all add: live_def)

lemma live_new_node [simp]: "live (new_node h n m) p \<longleftrightarrow> live h p \<or> p = Node n"
  by (auto simp: new_node_def live_def)

lemma access_live [heap_simps]:
  "live h p \<Longrightarrow> get_next h p = ok (nxt h p)"
  "live h p \<Longrightarrow> get_prev h p = ok (prv h p)"
  "live h p \<Longrightarrow> get_value h p = ok (the (cell h p))"
  "live h p \<Longrightarrow> set_next h p v = ok (h\<lparr>nxt := (nxt h)(p := v)\<rparr>)"
  "live h p \<Longrightarrow> set_prev h p v = ok (h\<lparr>prv := (prv h)(p := v)\<rparr>)"
  "live h p \<Longrightarrow> delete_node h p = ok (h\<lparr>cell := (cell h)(p := None)\<rparr>)"
  by (auto simp: get_next_def get_prev_def get_value_def set_next_def set_prev_def delete_node_def)

lemma access_null [heap_simps]:
  "get_next h Null = fail Null_Deref"
  "get_prev h Null = fail Null_Deref"
  "get_value h Null = fail Null_Deref"
  "set_next h Null v = fail Null_Deref"
  "set_prev h Null v = fail Null_Deref"
  "delete_node h Null = ok h"
  by (auto simp: get_next_def get_prev_def get_value_def set_next_def set_prev_def
      delete_node_def deref_fault_def)

section \<open>Footprints\<close>

text \<open>
  \<open>agree_off A h h'\<close>: the two heaps differ on the objects of \<open>A\<close> only. An operation on one
  mailbox is local to that mailbox's objects, so what is represented elsewhere is unchanged.
\<close>

definition agree_off :: "ptr set \<Rightarrow> 'm heap \<Rightarrow> 'm heap \<Rightarrow> bool" where
  "agree_off A h h' \<longleftrightarrow>
     (\<forall>p. p \<notin> A \<longrightarrow> nxt h' p = nxt h p \<and> prv h' p = prv h p \<and> cell h' p = cell h p)"

lemma agree_off_refl [simp]: "agree_off A h h"
  by (simp add: agree_off_def)

lemma agree_off_trans: "agree_off A h h1 \<Longrightarrow> agree_off A h1 h2 \<Longrightarrow> agree_off A h h2"
  by (simp add: agree_off_def)

lemma agree_off_mono: "agree_off A h h' \<Longrightarrow> A \<subseteq> B \<Longrightarrow> agree_off B h h'"
  by (auto simp: agree_off_def)

lemma agree_off_live: "agree_off A h h' \<Longrightarrow> p \<notin> A \<Longrightarrow> live h' p = live h p"
  by (simp add: agree_off_def live_def)

text \<open>\<open>free_nodes h xs\<close>: the heap after the messages \<open>xs\<close> were deleted.\<close>

definition free_nodes :: "'m heap \<Rightarrow> nat list \<Rightarrow> 'm heap" where
  "free_nodes h xs = h\<lparr>cell := (\<lambda>p. if p \<in> Node ` set xs then None else cell h p)\<rparr>"

lemma free_nodes_Nil [simp]: "free_nodes h [] = h"
  by (simp add: free_nodes_def)

lemma free_nodes_Cons:
  "free_nodes h (x # xs) = free_nodes (h\<lparr>cell := (cell h)(Node x := None)\<rparr>) xs"
  by (auto simp: free_nodes_def intro!: arg_cong [where f = "\<lambda>c. h\<lparr>cell := c\<rparr>"])

lemma free_nodes_append: "free_nodes h (xs @ ys) = free_nodes (free_nodes h xs) ys"
  by (auto simp: free_nodes_def image_Un intro!: arg_cong [where f = "\<lambda>c. h\<lparr>cell := c\<rparr>"])

lemma cell_free_nodes: "cell (free_nodes h xs) (Node x) = (if x \<in> set xs then None else cell h (Node x))"
  by (auto simp: free_nodes_def)

lemma cell_free_cong: "cell h = cell h' \<Longrightarrow> cell (free_nodes h xs) = cell (free_nodes h' xs)"
  by (rule ext) (simp add: free_nodes_def fun_cong [of "cell h" "cell h'"])

lemma free_nodes_links [simp]:
  "nxt (free_nodes h xs) = nxt h" "prv (free_nodes h xs) = prv h"
  by (simp_all add: free_nodes_def)

lemma live_free_nodes [simp]: "live (free_nodes h xs) p \<longleftrightarrow> live h p \<and> p \<notin> Node ` set xs"
  by (auto simp: free_nodes_def live_def)

lemma agree_off_free_nodes: "agree_off (Node ` set xs) h (free_nodes h xs)"
  by (simp add: agree_off_def free_nodes_def)

section \<open>Singly linked chains\<close>

text \<open>
  \<open>chain h p xs\<close>: following \<open>next\<close> from \<open>p\<close> meets the live messages at \<open>xs\<close>, in this
  order, and ends at null. The mailbox stack and the reader's list are such chains.
\<close>

primrec chain :: "'m heap \<Rightarrow> ptr \<Rightarrow> nat list \<Rightarrow> bool" where
  "chain h p [] \<longleftrightarrow> p = Null"
| "chain h p (x # xs) \<longleftrightarrow> p = Node x \<and> live h (Node x) \<and> chain h (nxt h (Node x)) xs"

lemma chain_Null [simp]: "chain h Null xs \<longleftrightarrow> xs = []"
  by (cases xs) auto

lemma chain_special [simp]:
  "\<not> chain h Uninit xs" "\<not> chain h (Empty_D q) xs" "\<not> chain h (Blocked_D q) xs"
  "\<not> chain h (Head_S q) xs" "\<not> chain h (Sep_S q) xs" "\<not> chain h (Tail_S q) xs"
  by (cases xs; simp)+

lemma chain_Node: "chain h (Node x) xs \<longleftrightarrow>
    (\<exists>ys. xs = x # ys \<and> live h (Node x) \<and> chain h (nxt h (Node x)) ys)"
  by (cases xs) auto

lemma chain_nonempty_iff: "chain h p xs \<Longrightarrow> p = Null \<longleftrightarrow> xs = []"
  by (cases xs) auto

lemma chain_live: "chain h p xs \<Longrightarrow> x \<in> set xs \<Longrightarrow> live h (Node x)"
  by (induction xs arbitrary: p) auto

lemma chain_unique: "chain h p xs \<Longrightarrow> chain h p ys \<Longrightarrow> xs = ys"
  by (induction xs arbitrary: p ys) (auto simp: chain_Node)

lemma chain_cong:
  assumes "\<And>x. x \<in> set xs \<Longrightarrow> nxt h (Node x) = nxt h' (Node x)"
    and "\<And>x. x \<in> set xs \<Longrightarrow> live h (Node x) = live h' (Node x)"
  shows "chain h p xs = chain h' p xs"
  using assms by (induction xs arbitrary: p) auto

lemma chain_agree:
  assumes "agree_off A h h'" and "Node ` set xs \<inter> A = {}"
  shows "chain h' p xs = chain h p xs"
proof -
  have "Node x \<notin> A" if "x \<in> set xs" for x
    using assms(2) that by blast
  with assms(1) show ?thesis
    by (intro chain_cong) (simp_all add: agree_off_def live_def)
qed

lemma chain_nxt_upd [frame_rules]:
  "a \<notin> Node ` set xs \<Longrightarrow> chain (h\<lparr>nxt := (nxt h)(a := v)\<rparr>) p xs = chain h p xs"
  by (induction xs arbitrary: p) auto

lemma chain_prv_upd [frame_rules, simp]: "chain (h\<lparr>prv := f\<rparr>) p xs = chain h p xs"
  by (induction xs arbitrary: p) auto

lemma chain_cell_upd [frame_rules]:
  "a \<notin> Node ` set xs \<Longrightarrow> chain (h\<lparr>cell := (cell h)(a := v)\<rparr>) p xs = chain h p xs"
  by (induction xs arbitrary: p) (auto simp: live_def)

lemma chain_new_node [frame_rules]:
  "n \<notin> set xs \<Longrightarrow> chain (new_node h n m) p xs = chain h p xs"
  by (induction xs arbitrary: p) (auto simp: new_node_def live_def)

section \<open>Doubly linked segments\<close>

text \<open>
  \<open>dseg h p xs r\<close>: from the object \<open>p\<close>, \<open>next\<close> leads through the live messages \<open>xs\<close> to the
  object \<open>r\<close>, and \<open>prev\<close> leads back.
\<close>

primrec dseg :: "'m heap \<Rightarrow> ptr \<Rightarrow> nat list \<Rightarrow> ptr \<Rightarrow> bool" where
  "dseg h p [] r \<longleftrightarrow> nxt h p = r \<and> prv h r = p"
| "dseg h p (x # xs) r \<longleftrightarrow>
     nxt h p = Node x \<and> prv h (Node x) = p \<and> live h (Node x) \<and> dseg h (Node x) xs r"

lemma dseg_append: "dseg h p (xs @ y # ys) r \<longleftrightarrow>
    dseg h p xs (Node y) \<and> live h (Node y) \<and> dseg h (Node y) ys r"
  by (induction xs arbitrary: p) auto

lemma dseg_live: "dseg h p xs r \<Longrightarrow> x \<in> set xs \<Longrightarrow> live h (Node x)"
  by (induction xs arbitrary: p) auto

lemma dseg_live_last: "dseg h p xs r \<Longrightarrow> xs \<noteq> [] \<Longrightarrow> live h (Node (last xs))"
  by (rule dseg_live) auto

lemma dseg_first: "dseg h p xs r \<Longrightarrow> nxt h p = (case xs of [] \<Rightarrow> r | x # _ \<Rightarrow> Node x)"
  by (cases xs) auto

lemma dseg_last: "dseg h p xs r \<Longrightarrow> prv h r = (if xs = [] then p else Node (last xs))"
  by (induction xs arbitrary: p) auto

lemma dseg_cong:
  assumes "nxt h p = nxt h' p" and "prv h r = prv h' r"
    and "\<And>x. x \<in> set xs \<Longrightarrow> nxt h (Node x) = nxt h' (Node x)"
    and "\<And>x. x \<in> set xs \<Longrightarrow> prv h (Node x) = prv h' (Node x)"
    and "\<And>x. x \<in> set xs \<Longrightarrow> live h (Node x) = live h' (Node x)"
  shows "dseg h p xs r = dseg h' p xs r"
  using assms by (induction xs arbitrary: p) auto

lemma dseg_agree:
  assumes "agree_off A h h'" and "Node ` set xs \<inter> A = {}" and "p \<notin> A" and "r \<notin> A"
  shows "dseg h' p xs r = dseg h p xs r"
proof -
  have "Node x \<notin> A" if "x \<in> set xs" for x
    using assms(2) that by blast
  with assms(1,3,4) show ?thesis
    by (intro dseg_cong) (simp_all add: agree_off_def live_def)
qed

lemma dseg_nxt_upd [frame_rules]:
  "a \<noteq> p \<Longrightarrow> a \<notin> Node ` set xs \<Longrightarrow>
     dseg (h\<lparr>nxt := (nxt h)(a := v)\<rparr>) p xs r = dseg h p xs r"
  by (induction xs arbitrary: p) auto

lemma dseg_prv_upd [frame_rules]:
  "a \<noteq> r \<Longrightarrow> a \<notin> Node ` set xs \<Longrightarrow>
     dseg (h\<lparr>prv := (prv h)(a := v)\<rparr>) p xs r = dseg h p xs r"
  by (induction xs arbitrary: p) auto

lemma dseg_cell_upd [frame_rules]:
  "a \<notin> Node ` set xs \<Longrightarrow>
     dseg (h\<lparr>cell := (cell h)(a := v)\<rparr>) p xs r = dseg h p xs r"
  by (induction xs arbitrary: p) (auto simp: live_def)

lemma dseg_new_node [frame_rules]:
  "n \<notin> set xs \<Longrightarrow> p \<noteq> Node n \<Longrightarrow> r \<noteq> Node n \<Longrightarrow>
     dseg (new_node h n m) p xs r = dseg h p xs r"
  by (induction xs arbitrary: p) (auto simp: new_node_def live_def)

end
