(* ===== verification/Partitioned_List.thy ===== *)
theory Partitioned_List
  imports Msg_Heap
begin

text \<open>
  The intrusive doubly linked list of \<open>detail/intrusive_partitioned_list.hpp\<close>, which the
  mailbox uses as its cache: two partitions \<open>[begin, separator)\<close> and \<open>[continuation, end)\<close>
  between three sentinel messages that are members of the list. An iterator is a pointer.
  \<open>plist_rel h q c1 c2\<close> says that list \<open>q\<close> holds the messages \<open>c1\<close> in the first partition
  and \<open>c2\<close> in the second; every operation is related to its meaning on the two lists.
\<close>

section \<open>The code\<close>

text \<open>
  The constructor: the sentinels are default constructed (\<open>message()\<close> sets both links to
  null; \<open>d\<close> is such a message) and then linked.
\<close>

definition pl_ctor :: "nat \<Rightarrow> 'm \<Rightarrow> 'm heap \<Rightarrow> 'm heap" where
  "pl_ctor q d h =
     h\<lparr>cell := (cell h)(Head_S q := Some d, Sep_S q := Some d, Tail_S q := Some d),
       nxt := (nxt h)(Head_S q := Sep_S q, Sep_S q := Tail_S q, Tail_S q := Null),
       prv := (prv h)(Head_S q := Null, Sep_S q := Head_S q, Tail_S q := Sep_S q)\<rparr>"

definition pl_begin :: "nat \<Rightarrow> 'm heap \<Rightarrow> ptr" where
  "pl_begin q h = nxt h (Head_S q)"

definition pl_separator :: "nat \<Rightarrow> ptr" where
  "pl_separator q = Sep_S q"

definition pl_continuation :: "nat \<Rightarrow> 'm heap \<Rightarrow> ptr" where
  "pl_continuation q h = nxt h (Sep_S q)"

definition pl_end :: "nat \<Rightarrow> ptr" where
  "pl_end q = Tail_S q"

definition pl_ranges :: "nat \<Rightarrow> 'm heap \<Rightarrow> (ptr \<times> ptr) list" where
  "pl_ranges q h = [(pl_begin q h, pl_separator q), (pl_continuation q h, pl_end q)]"

text \<open>The iterator's \<open>++\<close> and \<open>--\<close>.\<close>

definition iter_inc :: "'m heap \<Rightarrow> ptr \<Rightarrow> ptr eff" where
  "iter_inc h i = get_next h i"

definition iter_dec :: "'m heap \<Rightarrow> ptr \<Rightarrow> ptr eff" where
  "iter_dec h i = get_prev h i"

text \<open>
  \<open>clear(f)\<close>: per range, step past the element, apply \<open>f\<close> to it, delete it; then relink the
  sentinels. The functor's effect is a state \<open>s\<close> it updates.
\<close>

partial_function (option) pl_clear_range ::
  "('m \<Rightarrow> 's \<Rightarrow> 's) \<Rightarrow> ptr \<Rightarrow> ptr \<Rightarrow> 'm heap \<Rightarrow> 's \<Rightarrow> ('m heap \<times> 's) eff" where
  "pl_clear_range f i e h s =
     (if i = e then ok (h, s)
      else and_then (iter_inc h i) (\<lambda>i'.
           and_then (get_value h i) (\<lambda>v.
           and_then (delete_node h i) (\<lambda>h'. pl_clear_range f i' e h' (f v s)))))"

declare pl_clear_range.simps [code]

definition pl_relink :: "nat \<Rightarrow> 'm heap \<Rightarrow> 'm heap" where
  "pl_relink q h =
     (let h1 = (if nxt h (Head_S q) \<noteq> Sep_S q
                then h\<lparr>nxt := (nxt h)(Head_S q := Sep_S q),
                       prv := (prv h)(Sep_S q := Head_S q)\<rparr> else h)
      in if nxt h1 (Sep_S q) \<noteq> Tail_S q
         then h1\<lparr>nxt := (nxt h1)(Sep_S q := Tail_S q),
                 prv := (prv h1)(Tail_S q := Sep_S q)\<rparr> else h1)"

definition pl_clear :: "('m \<Rightarrow> 's \<Rightarrow> 's) \<Rightarrow> nat \<Rightarrow> 'm heap \<Rightarrow> 's \<Rightarrow> ('m heap \<times> 's) eff" where
  "pl_clear f q h s =
     (let b = pl_begin q h; c = pl_continuation q h in
      and_then (pl_clear_range f b (pl_separator q) h s) (\<lambda>(h1, s1).
      and_then (pl_clear_range f c (pl_end q) h1 s1) (\<lambda>(h2, s2).
      ok (pl_relink q h2, s2))))"

definition pl_insert :: "'m heap \<Rightarrow> ptr \<Rightarrow> ptr \<Rightarrow> (ptr \<times> 'm heap) eff" where
  "pl_insert h it v =
     and_then (get_prev h it) (\<lambda>pr.
     and_then (set_prev h v pr) (\<lambda>h.
     and_then (set_next h v it) (\<lambda>h.
     and_then (set_next h pr v) (\<lambda>h.
     and_then (set_prev h it v) (\<lambda>h. ok (v, h))))))"

definition pl_empty :: "nat \<Rightarrow> 'm heap \<Rightarrow> bool" where
  "pl_empty q h \<longleftrightarrow> nxt h (Head_S q) = Sep_S q \<and> nxt h (Sep_S q) = Tail_S q"

definition pl_take :: "'m heap \<Rightarrow> ptr \<Rightarrow> (ptr \<times> 'm heap) eff" where
  "pl_take h pos =
     and_then (get_next h pos) (\<lambda>n.
     and_then (get_prev h pos) (\<lambda>p.
     and_then (set_next h p n) (\<lambda>h.
     and_then (set_prev h n p) (\<lambda>h. ok (pos, h)))))"

definition pl_erase :: "'m heap \<Rightarrow> ptr \<Rightarrow> (ptr \<times> 'm heap) eff" where
  "pl_erase h pos =
     and_then (get_next h pos) (\<lambda>n.
     and_then (pl_take h pos) (\<lambda>(r, h).
     and_then (delete_node h r) (\<lambda>h. ok (n, h))))"

text \<open>
  \<open>count(max_count)\<close>: the flag says that the loop returned from inside.
\<close>

partial_function (option) pl_count_range ::
  "nat \<Rightarrow> ptr \<Rightarrow> ptr \<Rightarrow> nat \<Rightarrow> 'm heap \<Rightarrow> (nat \<times> bool) eff" where
  "pl_count_range mx i e n h =
     (if i = e then ok (n, False)
      else if Suc n = mx then ok (mx, True)
      else and_then (iter_inc h i) (\<lambda>i'. pl_count_range mx i' e (Suc n) h))"

declare pl_count_range.simps [code]

definition pl_count :: "nat \<Rightarrow> nat \<Rightarrow> 'm heap \<Rightarrow> nat eff" where
  "pl_count mx q h =
     and_then (pl_count_range mx (pl_begin q h) (pl_separator q) 0 h) (\<lambda>(n, stop).
     if stop then ok n
     else and_then (pl_count_range mx (pl_continuation q h) (pl_end q) n h) (\<lambda>(n, _). ok n))"

section \<open>The two partitions\<close>

definition plist_rel :: "'m heap \<Rightarrow> nat \<Rightarrow> nat list \<Rightarrow> nat list \<Rightarrow> bool" where
  "plist_rel h q c1 c2 \<longleftrightarrow>
     live h (Head_S q) \<and> live h (Sep_S q) \<and> live h (Tail_S q) \<and>
     dseg h (Head_S q) c1 (Sep_S q) \<and> dseg h (Sep_S q) c2 (Tail_S q) \<and>
     distinct (c1 @ c2)"

text \<open>The element an iterator points to when the elements from it on are \<open>xs\<close>.\<close>

definition first_or :: "ptr \<Rightarrow> nat list \<Rightarrow> ptr" where
  "first_or r xs = (case xs of [] \<Rightarrow> r | x # _ \<Rightarrow> Node x)"

lemma first_or_simps [simp]:
  "first_or r [] = r"
  "first_or r (x # xs) = Node x"
  by (simp_all add: first_or_def)

lemma first_or_eq [simp]:
  "first_or (Sep_S q) xs = Sep_S q \<longleftrightarrow> xs = []"
  "first_or (Tail_S q) xs = Tail_S q \<longleftrightarrow> xs = []"
  by (cases xs; simp)+

lemma plist_relD:
  assumes "plist_rel h q c1 c2"
  shows "pl_begin q h = first_or (Sep_S q) c1"
    and "pl_continuation q h = first_or (Tail_S q) c2"
    and "pl_empty q h \<longleftrightarrow> c1 = [] \<and> c2 = []"
    and "x \<in> set c1 \<Longrightarrow> live h (Node x)"
    and "x \<in> set c2 \<Longrightarrow> live h (Node x)"
    and "distinct (c1 @ c2)"
proof -
  show b: "pl_begin q h = first_or (Sep_S q) c1"
    and c: "pl_continuation q h = first_or (Tail_S q) c2"
    using assms by (auto simp: plist_rel_def pl_begin_def pl_continuation_def first_or_def
        dest!: dseg_first)
  from b c show "pl_empty q h \<longleftrightarrow> c1 = [] \<and> c2 = []"
    by (simp add: pl_empty_def pl_begin_def pl_continuation_def)
qed (use assms in \<open>auto simp: plist_rel_def dest: dseg_live\<close>)

lemma plist_rel_ctor: "plist_rel (pl_ctor q d h) q [] []"
  by (simp add: plist_rel_def pl_ctor_def live_def)

subsection \<open>Insert\<close>

definition pl_inserted :: "'m heap \<Rightarrow> ptr \<Rightarrow> ptr \<Rightarrow> 'm heap" where
  "pl_inserted h it v =
     h\<lparr>nxt := (nxt h)(v := it, prv h it := v), prv := (prv h)(v := prv h it, it := v)\<rparr>"

lemma pl_insert_ok:
  "live h it \<Longrightarrow> live h (prv h it) \<Longrightarrow> live h v \<Longrightarrow>
     pl_insert h it v = ok (v, pl_inserted h it v)"
  by (simp add: pl_insert_def pl_inserted_def heap_simps)

lemma live_inserted [simp]: "live (pl_inserted h it v) p = live h p"
  by (simp add: pl_inserted_def live_def)

lemma cell_inserted [simp]: "cell (pl_inserted h it v) = cell h"
  by (simp add: pl_inserted_def)

lemma not_Node_image: "p \<notin> Node ` A \<Longrightarrow> x \<in> A \<Longrightarrow> Node x \<noteq> p"
  by blast

lemma not_Node_range: "p \<notin> range Node \<Longrightarrow> Node x \<noteq> p"
  by blast

lemma dseg_inserted_left:
  assumes "dseg h p a it" and "distinct a"
    and "p \<notin> Node ` set a" and "it \<notin> Node ` set a" and "v \<notin> set a"
    and "p \<noteq> Node v" and "it \<noteq> Node v" and "it \<noteq> p"
  shows "dseg (pl_inserted h it (Node v)) p a (Node v)"
proof (cases a rule: rev_cases)
  case Nil
  with assms show ?thesis by (auto simp: pl_inserted_def)
next
  case (snoc a' x)
  with assms have h: "dseg h p a' (Node x)" "live h (Node x)" "nxt h (Node x) = it" "prv h it = Node x"
    by (simp_all add: dseg_append)
  have "dseg (pl_inserted h it (Node v)) p a' (Node x) = dseg h p a' (Node x)"
    using assms snoc h by (intro dseg_cong) (auto simp: pl_inserted_def dest: not_Node_image)
  with h snoc assms show ?thesis by (auto simp: dseg_append pl_inserted_def)
qed

lemma dseg_inserted:
  assumes "dseg h p (a @ b) r" and it: "it = first_or r b"
    and "distinct (a @ b)" and "v \<notin> set (a @ b)" and "live h (Node v)"
    and "p \<notin> range Node" and "r \<notin> range Node" and "p \<noteq> r"
  shows "dseg (pl_inserted h it (Node v)) p (a @ v # b) r"
proof (cases b)
  case Nil
  with assms have "dseg (pl_inserted h it (Node v)) p a (Node v)"
    by (intro dseg_inserted_left) (auto dest: not_Node_range)
  moreover from Nil assms have "prv h r = (if a = [] then p else Node (last a))"
    by (auto dest: dseg_last)
  ultimately show ?thesis using Nil assms
    by (auto simp: dseg_append pl_inserted_def dest: not_Node_range split: if_splits)
next
  case (Cons y ys)
  with assms have h: "dseg h p a (Node y)" "live h (Node y)" "dseg h (Node y) ys r"
    by (simp_all add: dseg_append)
  from h assms Cons have pr: "prv h (Node y) = (if a = [] then p else Node (last a))"
    by (auto dest: dseg_last)
  have l: "dseg (pl_inserted h it (Node v)) p a (Node v)"
    using assms Cons h by (intro dseg_inserted_left) auto
  have "dseg (pl_inserted h it (Node v)) (Node y) ys r = dseg h (Node y) ys r"
    using assms Cons h pr by (intro dseg_cong) (auto simp: pl_inserted_def dest: last_disjoint)
  moreover have "prv h (Node y) \<noteq> Node v"
    using pr assms(4,6) last_in_set [of a] by (auto split: if_splits)
  ultimately show ?thesis using h l Cons assms
    by (auto simp: dseg_append pl_inserted_def)
qed

text \<open>The other partition does not see the insertion.\<close>

lemma dseg_inserted_other:
  assumes "dseg h p c r" and "v \<notin> set c" and "p \<noteq> Node v" and "r \<noteq> Node v"
    and "it \<notin> insert r (Node ` set c)" and "prv h it \<notin> insert p (Node ` set c)"
  shows "dseg (pl_inserted h it (Node v)) p c r"
proof -
  have "dseg (pl_inserted h it (Node v)) p c r = dseg h p c r"
    using assms(2-) by (intro dseg_cong) (auto simp: pl_inserted_def dest: not_Node_image)
  with assms(1) show ?thesis by simp
qed

lemma dseg_prv_first_or:
  assumes "dseg h p (a @ b) r"
  shows "prv h (first_or r b) = (if a = [] then p else Node (last a))"
    and "a \<noteq> [] \<Longrightarrow> live h (Node (last a))"
  using assms by (cases b; auto simp: dseg_append dest: dseg_last dseg_live_last)+

lemma plist_rel_inserted_1:
  assumes "plist_rel h q (a @ b) c" and "it = first_or (Sep_S q) b"
    and "v \<notin> set a" "v \<notin> set b" "v \<notin> set c" and "live h (Node v)"
  shows "plist_rel (pl_inserted h it (Node v)) q (a @ v # b) c"
proof -
  have pr: "prv h it = (if a = [] then Head_S q else Node (last a))"
    using assms(1,2) by (auto simp: plist_rel_def dest: dseg_prv_first_or(1))
  have "dseg (pl_inserted h it (Node v)) (Head_S q) (a @ v # b) (Sep_S q)"
    using assms by (intro dseg_inserted) (auto simp: plist_rel_def)
  moreover have "dseg (pl_inserted h it (Node v)) (Sep_S q) c (Tail_S q)"
    using assms pr by (intro dseg_inserted_other)
      (auto simp: plist_rel_def first_or_def split: list.splits dest: last_disjoint)
  ultimately show ?thesis using assms by (auto simp: plist_rel_def)
qed

lemma plist_rel_inserted_2:
  assumes "plist_rel h q c (a @ b)" and "it = first_or (Tail_S q) b"
    and "v \<notin> set a" "v \<notin> set b" "v \<notin> set c" and "live h (Node v)"
  shows "plist_rel (pl_inserted h it (Node v)) q c (a @ v # b)"
proof -
  have pr: "prv h it = (if a = [] then Sep_S q else Node (last a))"
    using assms(1,2) by (auto simp: plist_rel_def dest: dseg_prv_first_or(1))
  have "dseg (pl_inserted h it (Node v)) (Sep_S q) (a @ v # b) (Tail_S q)"
    using assms by (intro dseg_inserted) (auto simp: plist_rel_def)
  moreover have "dseg (pl_inserted h it (Node v)) (Head_S q) c (Sep_S q)"
    using assms pr by (intro dseg_inserted_other)
      (auto simp: plist_rel_def first_or_def split: list.splits dest: last_disjoint)
  ultimately show ?thesis using assms by (auto simp: plist_rel_def)
qed

text \<open>\<open>insert\<close> puts the message right before the iterator, in either partition.\<close>

lemma pl_insert_1:
  assumes "plist_rel h q (a @ b) c" and "it = first_or (Sep_S q) b"
    and "v \<notin> set a" "v \<notin> set b" "v \<notin> set c" and "live h (Node v)"
  shows "pl_insert h it (Node v) = ok (Node v, pl_inserted h it (Node v))"
    and "plist_rel (pl_inserted h it (Node v)) q (a @ v # b) c"
proof -
  have pr: "prv h it = (if a = [] then Head_S q else Node (last a))"
    using assms(1,2) by (auto simp: plist_rel_def dest: dseg_prv_first_or(1))
  have "live h it" "live h (prv h it)"
    using assms pr
    by (auto simp: plist_rel_def first_or_def dest: dseg_live dseg_live_last dseg_prv_first_or(2) split: list.splits)
  then show "pl_insert h it (Node v) = ok (Node v, pl_inserted h it (Node v))"
    using assms by (intro pl_insert_ok)
qed (use assms in \<open>rule plist_rel_inserted_1\<close>)

lemma pl_insert_2:
  assumes "plist_rel h q c (a @ b)" and "it = first_or (Tail_S q) b"
    and "v \<notin> set a" "v \<notin> set b" "v \<notin> set c" and "live h (Node v)"
  shows "pl_insert h it (Node v) = ok (Node v, pl_inserted h it (Node v))"
    and "plist_rel (pl_inserted h it (Node v)) q c (a @ v # b)"
proof -
  have pr: "prv h it = (if a = [] then Sep_S q else Node (last a))"
    using assms(1,2) by (auto simp: plist_rel_def dest: dseg_prv_first_or(1))
  have "live h it" "live h (prv h it)"
    using assms pr
    by (auto simp: plist_rel_def first_or_def dest: dseg_live dseg_live_last dseg_prv_first_or(2) split: list.splits)
  then show "pl_insert h it (Node v) = ok (Node v, pl_inserted h it (Node v))"
    using assms by (intro pl_insert_ok)
qed (use assms in \<open>rule plist_rel_inserted_2\<close>)

subsection \<open>Take and erase\<close>

definition pl_taken :: "'m heap \<Rightarrow> ptr \<Rightarrow> 'm heap" where
  "pl_taken h x =
     h\<lparr>nxt := (nxt h)(prv h x := nxt h x), prv := (prv h)(nxt h x := prv h x)\<rparr>"

lemma live_taken [simp]: "live (pl_taken h x) p = live h p"
  by (simp add: pl_taken_def live_def)

lemma cell_taken [simp]: "cell (pl_taken h x) = cell h"
  by (simp add: pl_taken_def)

lemma pl_take_ok:
  "live h x \<Longrightarrow> live h (prv h x) \<Longrightarrow> live h (nxt h x) \<Longrightarrow> pl_take h x = ok (x, pl_taken h x)"
  by (simp add: pl_take_def pl_taken_def heap_simps)

lemma dseg_around:
  assumes "dseg h p (a @ x # b) r"
  shows "prv h (Node x) = (if a = [] then p else Node (last a))"
    and "nxt h (Node x) = first_or r b"
  using assms by (auto simp: dseg_append first_or_def dest: dseg_last dseg_first)

lemma dseg_taken:
  assumes "dseg h p (a @ x # b) r" and "distinct (a @ x # b)"
    and "p \<notin> range Node" and "r \<notin> range Node" and "p \<noteq> r"
  shows "dseg (pl_taken h (Node x)) p (a @ b) r"
proof -
  note ar = dseg_around [OF assms(1)]
  have l: "dseg (pl_taken h (Node x)) p a (first_or r b)"
  proof (cases a rule: rev_cases)
    case Nil
    with assms ar show ?thesis by (cases b) (auto simp: pl_taken_def)
  next
    case (snoc a' z)
    with assms(1) have h: "dseg h p a' (Node z)" "live h (Node z)"
      by (simp_all add: dseg_append)
    have "dseg (pl_taken h (Node x)) p a' (Node z) = dseg h p a' (Node z)"
      using assms snoc ar
      by (intro dseg_cong) (auto simp: pl_taken_def first_or_def dest: not_Node_range split: list.splits)
    with h snoc ar show ?thesis
      by (auto simp: dseg_append pl_taken_def)
  qed
  show ?thesis
  proof (cases b)
    case Nil
    with l show ?thesis by simp
  next
    case (Cons y ys)
    with assms(1) have h: "live h (Node y)" "dseg h (Node y) ys r"
      by (simp_all add: dseg_append)
    have "dseg (pl_taken h (Node x)) (Node y) ys r = dseg h (Node y) ys r"
      using assms Cons ar last_disjoint [of a "set ys"] last_disjoint [of a "{y}"]
      by (intro dseg_cong) (auto simp: pl_taken_def dest: not_Node_range)
    with h l Cons show ?thesis by (simp add: dseg_append)
  qed
qed

lemma dseg_taken_other:
  assumes "dseg h p c r" and "nxt h x \<notin> insert r (Node ` set c)" and "prv h x \<notin> insert p (Node ` set c)"
  shows "dseg (pl_taken h x) p c r"
proof -
  have "dseg (pl_taken h x) p c r = dseg h p c r"
    using assms(2-) by (intro dseg_cong) (auto simp: pl_taken_def dest: not_Node_image)
  with assms(1) show ?thesis by simp
qed

lemma plist_rel_taken_1:
  assumes "plist_rel h q (a @ x # b) c"
  shows "pl_take h (Node x) = ok (Node x, pl_taken h (Node x))"
    and "plist_rel (pl_taken h (Node x)) q (a @ b) c"
proof -
  have d: "dseg h (Head_S q) (a @ x # b) (Sep_S q)"
    using assms by (simp add: plist_rel_def)
  note ar = dseg_around [OF d]
  have "dseg (pl_taken h (Node x)) (Head_S q) (a @ b) (Sep_S q)"
    using assms by (intro dseg_taken) (auto simp: plist_rel_def)
  moreover have "dseg (pl_taken h (Node x)) (Sep_S q) c (Tail_S q)"
    using assms ar last_disjoint [of a "set c"] by (intro dseg_taken_other)
      (auto simp: plist_rel_def first_or_def split: list.splits)
  ultimately show "plist_rel (pl_taken h (Node x)) q (a @ b) c"
    using assms by (auto simp: plist_rel_def)
  show "pl_take h (Node x) = ok (Node x, pl_taken h (Node x))"
    using assms d ar last_in_set [of a]
    by (intro pl_take_ok) (auto simp: plist_rel_def first_or_def intro: dseg_live [OF d] split: list.splits)
qed

lemma plist_rel_taken_2:
  assumes "plist_rel h q c (a @ x # b)"
  shows "pl_take h (Node x) = ok (Node x, pl_taken h (Node x))"
    and "plist_rel (pl_taken h (Node x)) q c (a @ b)"
proof -
  have d: "dseg h (Sep_S q) (a @ x # b) (Tail_S q)"
    using assms by (simp add: plist_rel_def)
  note ar = dseg_around [OF d]
  have "dseg (pl_taken h (Node x)) (Sep_S q) (a @ b) (Tail_S q)"
    using assms by (intro dseg_taken) (auto simp: plist_rel_def)
  moreover have "dseg (pl_taken h (Node x)) (Head_S q) c (Sep_S q)"
    using assms ar last_disjoint [of a "set c"] by (intro dseg_taken_other)
      (auto simp: plist_rel_def first_or_def split: list.splits)
  ultimately show "plist_rel (pl_taken h (Node x)) q c (a @ b)"
    using assms by (auto simp: plist_rel_def)
  show "pl_take h (Node x) = ok (Node x, pl_taken h (Node x))"
    using assms d ar last_in_set [of a]
    by (intro pl_take_ok) (auto simp: plist_rel_def first_or_def intro: dseg_live [OF d] split: list.splits)
qed

lemma plist_rel_free:
  assumes "plist_rel h q c1 c2" and "x \<notin> set c1" and "x \<notin> set c2"
  shows "plist_rel (h\<lparr>cell := (cell h)(Node x := None)\<rparr>) q c1 c2"
  using assms by (auto simp: plist_rel_def dseg_cell_upd image_iff)

lemma pl_erase_2:
  assumes "plist_rel h q c (a @ x # b)"
  defines "h' \<equiv> (pl_taken h (Node x))\<lparr>cell := (cell h)(Node x := None)\<rparr>"
  shows "pl_erase h (Node x) = ok (first_or (Tail_S q) b, h')"
    and "plist_rel h' q c (a @ b)"
proof -
  note t = plist_rel_taken_2 [OF assms(1)]
  have l: "live h (Node x)"
    using assms(1) by (auto dest: plist_relD(5))
  have "nxt h (Node x) = first_or (Tail_S q) b"
    using assms(1) by (intro dseg_around(2) [of h "Sep_S q" a]) (simp add: plist_rel_def)
  with t(1) l show "pl_erase h (Node x) = ok (first_or (Tail_S q) b, h')"
    by (simp add: pl_erase_def heap_simps h'_def)
  have "x \<notin> set c" "x \<notin> set (a @ b)"
    using assms(1) by (auto simp: plist_rel_def)
  then show "plist_rel h' q c (a @ b)"
    using plist_rel_free [OF t(2), of x] by (simp add: h'_def)
qed

subsection \<open>What the operations touch\<close>

definition plist_foot :: "nat \<Rightarrow> nat set \<Rightarrow> ptr set" where
  "plist_foot q C = {Head_S q, Sep_S q, Tail_S q} \<union> Node ` C"

lemma plist_foot_mono: "C \<subseteq> D \<Longrightarrow> plist_foot q C \<subseteq> plist_foot q D"
  by (auto simp: plist_foot_def)

lemma plist_agree:
  assumes "plist_rel h q c1 c2" and "agree_off A h h'"
    and "plist_foot q (set c1 \<union> set c2) \<inter> A = {}"
  shows "plist_rel h' q c1 c2"
  using assms agree_off_live [OF assms(2), of "Head_S q"] agree_off_live [OF assms(2), of "Sep_S q"]
    agree_off_live [OF assms(2), of "Tail_S q"]
    dseg_agree [OF assms(2), of c1 "Head_S q" "Sep_S q"]
    dseg_agree [OF assms(2), of c2 "Sep_S q" "Tail_S q"]
  by (auto simp: plist_rel_def plist_foot_def)

lemma agree_off_inserted:
  "v \<in> A \<Longrightarrow> it \<in> A \<Longrightarrow> prv h it \<in> A \<Longrightarrow> agree_off A h (pl_inserted h it v)"
  by (auto simp: agree_off_def pl_inserted_def)

lemma agree_off_taken:
  "nxt h x \<in> A \<Longrightarrow> prv h x \<in> A \<Longrightarrow> agree_off A h (pl_taken h x)"
  by (auto simp: agree_off_def pl_taken_def)

lemma plist_foot_insert_1:
  assumes "plist_rel h q (a @ b) c"
  shows "agree_off (plist_foot q (insert v (set (a @ b)))) h
           (pl_inserted h (first_or (Sep_S q) b) (Node v))"
proof -
  have "prv h (first_or (Sep_S q) b) = (if a = [] then Head_S q else Node (last a))"
    using assms by (intro dseg_prv_first_or(1)) (simp add: plist_rel_def)
  then show ?thesis
    by (intro agree_off_inserted) (auto simp: plist_foot_def first_or_def split: list.splits)
qed

lemma plist_foot_insert_2:
  assumes "plist_rel h q c (a @ b)"
  shows "agree_off (plist_foot q (insert v (set (a @ b)))) h
           (pl_inserted h (first_or (Tail_S q) b) (Node v))"
proof -
  have "prv h (first_or (Tail_S q) b) = (if a = [] then Sep_S q else Node (last a))"
    using assms by (intro dseg_prv_first_or(1)) (simp add: plist_rel_def)
  then show ?thesis
    by (intro agree_off_inserted) (auto simp: plist_foot_def first_or_def split: list.splits)
qed

lemma plist_foot_take_1:
  assumes "plist_rel h q (a @ x # b) c"
  shows "agree_off (plist_foot q (set (a @ x # b))) h (pl_taken h (Node x))"
proof -
  have d: "dseg h (Head_S q) (a @ x # b) (Sep_S q)"
    using assms by (simp add: plist_rel_def)
  show ?thesis
    using dseg_around [OF d]
    by (intro agree_off_taken) (auto simp: plist_foot_def first_or_def split: list.splits)
qed

lemma plist_foot_take_2:
  assumes "plist_rel h q c (a @ x # b)"
  shows "agree_off (plist_foot q (set (a @ x # b))) h (pl_taken h (Node x))"
proof -
  have d: "dseg h (Sep_S q) (a @ x # b) (Tail_S q)"
    using assms by (simp add: plist_rel_def)
  show ?thesis
    using dseg_around [OF d]
    by (intro agree_off_taken) (auto simp: plist_foot_def first_or_def split: list.splits)
qed

subsection \<open>Clear and count\<close>

lemma pl_clear_range_ok:
  assumes "dseg h p xs r" and "distinct xs" and "r \<notin> range Node"
  shows "pl_clear_range f (first_or r xs) r h s =
           ok (free_nodes h xs, fold (\<lambda>x. f (the (cell h (Node x)))) xs s)"
  using assms
proof (induction xs arbitrary: p h s)
  case Nil
  then show ?case by (simp add: pl_clear_range.simps)
next
  case (Cons x xs)
  let ?h = "h\<lparr>cell := (cell h)(Node x := None)\<rparr>"
  have ne: "Node x \<noteq> r"
    using Cons.prems(3) by blast
  have nx: "nxt h (Node x) = first_or r xs"
    using Cons.prems(1) by (auto simp: first_or_def dest: dseg_first)
  have "dseg ?h (Node x) xs r"
    using Cons.prems by (subst dseg_cell_upd) auto
  with Cons.prems have "pl_clear_range f (first_or r xs) r ?h s' =
      ok (free_nodes ?h xs, fold (\<lambda>x. f (the (cell ?h (Node x)))) xs s')" for s'
    by (intro Cons.IH) auto
  moreover have "fold (\<lambda>x. f (the (cell ?h (Node x)))) xs s' =
      fold (\<lambda>x. f (the (cell h (Node x)))) xs s'" for s'
    using Cons.prems(2) by (intro fold_cong) auto
  ultimately show ?case
    using Cons.prems(1) ne nx
    by (subst pl_clear_range.simps) (simp add: iter_inc_def heap_simps free_nodes_Cons)
qed

lemma plist_rel_relink:
  "live h (Head_S q) \<Longrightarrow> live h (Sep_S q) \<Longrightarrow> live h (Tail_S q) \<Longrightarrow>
   prv h (Sep_S q) = Head_S q \<or> nxt h (Head_S q) \<noteq> Sep_S q \<Longrightarrow>
   prv h (Tail_S q) = Sep_S q \<or> nxt h (Sep_S q) \<noteq> Tail_S q \<Longrightarrow>
   plist_rel (pl_relink q h) q [] []"
  by (auto simp: plist_rel_def pl_relink_def Let_def)

lemma agree_off_relink: "agree_off (plist_foot q {}) h (pl_relink q h)"
  by (auto simp: agree_off_def pl_relink_def plist_foot_def Let_def)

lemma cell_relink [simp]: "cell (pl_relink q h) = cell h"
  by (simp add: pl_relink_def Let_def)

lemma pl_clear_ok:
  assumes "plist_rel h q c1 c2"
  defines "h' \<equiv> pl_relink q (free_nodes (free_nodes h c1) c2)"
  shows "pl_clear f q h s = ok (h', fold (\<lambda>x. f (the (cell h (Node x)))) (c1 @ c2) s)"
    and "plist_rel h' q [] []"
proof -
  have d: "dseg h (Head_S q) c1 (Sep_S q)" "dseg h (Sep_S q) c2 (Tail_S q)"
    "distinct c1" "distinct c2" "set c1 \<inter> set c2 = {}"
    using assms(1) by (auto simp: plist_rel_def)
  let ?h = "free_nodes h c1"
  have c: "cell ?h (Node x) = cell h (Node x)" if "x \<in> set c2" for x
    using d(5) that by (auto simp: free_nodes_def)
  have "dseg ?h (Sep_S q) c2 (Tail_S q)"
    using d dseg_agree [OF agree_off_free_nodes, of c2 c1 "Sep_S q" "Tail_S q" h] by auto
  then have "pl_clear_range f (first_or (Tail_S q) c2) (Tail_S q) ?h s' =
      ok (free_nodes ?h c2, fold (\<lambda>x. f (the (cell ?h (Node x)))) c2 s')" for s'
    using d by (intro pl_clear_range_ok) auto
  moreover have "fold (\<lambda>x. f (the (cell ?h (Node x)))) c2 s' =
      fold (\<lambda>x. f (the (cell h (Node x)))) c2 s'" for s'
    using c by (intro fold_cong) auto
  moreover have "pl_clear_range f (first_or (Sep_S q) c1) (Sep_S q) h s =
      ok (?h, fold (\<lambda>x. f (the (cell h (Node x)))) c1 s)"
    using d by (intro pl_clear_range_ok) auto
  ultimately show "pl_clear f q h s = ok (h', fold (\<lambda>x. f (the (cell h (Node x)))) (c1 @ c2) s)"
    by (simp add: pl_clear_def plist_relD [OF assms(1)] pl_separator_def pl_end_def h'_def)
  show "plist_rel h' q [] []"
    unfolding h'_def using assms(1) d(1,2) dseg_first [OF d(1)] dseg_first [OF d(2)]
    by (intro plist_rel_relink) (cases c1; cases c2; auto simp: plist_rel_def)+
qed

lemma pl_count_range_ok:
  assumes "dseg h p xs r" and "r \<notin> range Node"
  shows "pl_count_range mx (first_or r xs) r n h =
           ok (if n < mx \<and> mx \<le> n + length xs then (mx, True) else (n + length xs, False))"
  using assms
proof (induction xs arbitrary: p n)
  case Nil
  then show ?case by (simp add: pl_count_range.simps)
next
  case (Cons x xs)
  have "Node x \<noteq> r"
    using Cons.prems(2) by blast
  moreover have "nxt h (Node x) = first_or r xs"
    using Cons.prems(1) by (auto simp: first_or_def dest: dseg_first)
  ultimately show ?case
    using Cons.prems Cons.IH [of "Node x" "Suc n"]
    by (subst pl_count_range.simps) (auto simp: iter_inc_def heap_simps)
qed

lemma pl_count_ok:
  assumes "plist_rel h q c1 c2"
  shows "pl_count mx q h =
           ok (if mx = 0 then length c1 + length c2 else min mx (length c1 + length c2))"
proof -
  have d: "dseg h (Head_S q) c1 (Sep_S q)" "dseg h (Sep_S q) c2 (Tail_S q)"
    using assms by (simp_all add: plist_rel_def)
  have "pl_count_range mx (first_or (Sep_S q) c1) (Sep_S q) n h =
          ok (if n < mx \<and> mx \<le> n + length c1 then (mx, True) else (n + length c1, False))" for n
    by (rule pl_count_range_ok [OF d(1)]) auto
  moreover have "pl_count_range mx (first_or (Tail_S q) c2) (Tail_S q) n h =
          ok (if n < mx \<and> mx \<le> n + length c2 then (mx, True) else (n + length c2, False))" for n
    by (rule pl_count_range_ok [OF d(2)]) auto
  ultimately show ?thesis
    by (auto simp: pl_count_def plist_relD [OF assms] pl_separator_def pl_end_def)
qed

end
