(* ===== verification/Fifo_Interface.thy ===== *)
theory Fifo_Interface
  imports AF_Prelude
begin

text \<open>
  The contract of a first in, first out queue, and what a client of it may conclude. Two parts of
  the program promise it: the mailbox (\<open>Reader_Queue\<close>) and the central job list of the
  work-sharing policy (\<open>Work_Sharing\<close>).
\<close>

section \<open>A client: fill the queue, then empty it\<close>

primrec put_all :: "('x \<Rightarrow> 's \<Rightarrow> ('r \<times> 's) eff) \<Rightarrow> 'x list \<Rightarrow> 's \<Rightarrow> 's eff" where
  "put_all put [] s = ok s"
| "put_all put (x # xs) s = and_then (put x s) (\<lambda>(_, s). put_all put xs s)"

partial_function (option) drain :: "('s \<Rightarrow> ('x option \<times> 's) eff) \<Rightarrow> 's \<Rightarrow> ('x list \<times> 's) eff" where
  "drain get s =
     and_then (get s) (\<lambda>(r, s).
     case r of None \<Rightarrow> ok ([], s)
     | Some x \<Rightarrow> and_then (drain get s) (\<lambda>(xs, s). ok (x # xs, s)))"

declare drain.simps [code]

section \<open>The contract\<close>

text \<open>
  \<open>rep s xs\<close>: the queue of state \<open>s\<close> holds \<open>xs\<close>, oldest first. \<open>usable s x\<close>: \<open>x\<close> may be put
  into the queue of state \<open>s\<close> unless the queue holds it already.
\<close>

locale fifo =
  fixes put :: "'x \<Rightarrow> 's \<Rightarrow> ('r \<times> 's) eff"
    and get :: "'s \<Rightarrow> ('x option \<times> 's) eff"
    and rep :: "'s \<Rightarrow> 'x list \<Rightarrow> bool"
    and usable :: "'s \<Rightarrow> 'x \<Rightarrow> bool"
  assumes put_law: "rep s xs \<Longrightarrow> usable s x \<Longrightarrow> x \<notin> set xs \<Longrightarrow>
      \<exists>r s'. put x s = ok (r, s') \<and> rep s' (xs @ [x]) \<and> (\<forall>y. usable s y \<longrightarrow> usable s' y)"
    and get_law: "rep s (x # xs) \<Longrightarrow> \<exists>s'. get s = ok (Some x, s') \<and> rep s' xs"
    and get_empty_law: "rep s [] \<Longrightarrow> get s = ok (None, s)"
begin

lemma put_all_ok:
  assumes "rep s xs" and "\<forall>y \<in> set ys. usable s y" and "distinct (xs @ ys)"
  shows "\<exists>s'. put_all put ys s = ok s' \<and> rep s' (xs @ ys)"
  using assms
proof (induction ys arbitrary: s xs)
  case (Cons y ys)
  then obtain r s1 where s1: "put y s = ok (r, s1)" "rep s1 (xs @ [y])" "\<forall>z. usable s z \<longrightarrow> usable s1 z"
    using put_law [of s xs y] by auto
  have "\<exists>s'. put_all put ys s1 = ok s' \<and> rep s' ((xs @ [y]) @ ys)"
    using Cons.prems s1 by (intro Cons.IH) auto
  with s1(1) show ?case by auto
qed simp

lemma drain_ok: "rep s xs \<Longrightarrow> \<exists>s'. drain get s = ok (xs, s') \<and> rep s' []"
proof (induction xs arbitrary: s)
  case Nil
  then show ?case by (subst drain.simps) (simp add: get_empty_law)
next
  case (Cons x xs)
  then obtain s1 where "get s = ok (Some x, s1)" "rep s1 xs"
    using get_law by blast
  with Cons.IH [of s1] show ?case by (subst drain.simps) auto
qed

text \<open>Everything put in comes out once, in order, after what the queue held before.\<close>

lemma drain_put_all:
  assumes "rep s xs" and "\<forall>y \<in> set ys. usable s y" and "distinct (xs @ ys)"
  shows "\<exists>s1 s2. put_all put ys s = ok s1 \<and> drain get s1 = ok (xs @ ys, s2) \<and> rep s2 []"
  using put_all_ok [OF assms] drain_ok by blast

end

end
