(* ===== verification/Reader_Queue.thy ===== *)
theory Reader_Queue
  imports Partitioned_List Fifo_Interface
begin

text \<open>
  The mailbox of \<open>detail/single_reader_queue.hpp\<close>, used by one thread at a time (the
  interleavings of several producers with the reader are in \<open>Reader_Queue_Conc\<close>). Producers
  push onto \<open>stack_\<close>, a chain in reverse order of arrival; the reader takes the whole chain
  at once, reverses it in place onto \<open>head_\<close> and pops from there. \<open>stack_\<close> also encodes the
  mode of the queue: null when closed, one of the two dummies when it holds nothing.
\<close>

section \<open>The code\<close>

datatype enqueue_result = Success | Unblocked_Reader | Queue_Closed

record srq =
  q_this :: nat
  q_stack :: ptr
  q_head :: ptr

definition stack_empty_dummy :: "srq \<Rightarrow> ptr" where
  "stack_empty_dummy s = Empty_D (q_this s)"

definition reader_blocked_dummy :: "srq \<Rightarrow> ptr" where
  "reader_blocked_dummy s = Blocked_D (q_this s)"

definition is_dummy :: "srq \<Rightarrow> ptr \<Rightarrow> bool" where
  "is_dummy s p \<longleftrightarrow> p = stack_empty_dummy s \<or> p = reader_blocked_dummy s"

definition srq_ctor :: "nat \<Rightarrow> srq" where
  "srq_ctor q = \<lparr>q_this = q, q_stack = Empty_D q, q_head = Null\<rparr>"

definition closed :: "srq \<Rightarrow> bool" where
  "closed s \<longleftrightarrow> q_stack s = Null"

definition blocked :: "srq \<Rightarrow> bool" where
  "blocked s \<longleftrightarrow> q_stack s = reader_blocked_dummy s"

text \<open>
  \<open>enqueue\<close>: without another thread the compare-and-exchange succeeds the first time.
\<close>

definition enqueue :: "'m heap \<Rightarrow> srq \<Rightarrow> ptr \<Rightarrow> (enqueue_result \<times> 'm heap \<times> srq) eff" where
  "enqueue h s new =
     and_then (assert_that (new \<noteq> Null)) (\<lambda>_.
     let e = q_stack s in
     if e = Null then and_then (delete_node h new) (\<lambda>h. ok (Queue_Closed, h, s))
     else and_then (set_next h new (if is_dummy s e then Null else e)) (\<lambda>h.
          ok (if e = reader_blocked_dummy s then Unblocked_Reader else Success,
              h, s\<lparr>q_stack := new\<rparr>)))"

definition can_fetch_more :: "srq \<Rightarrow> bool eff" where
  "can_fetch_more s =
     (if q_head s \<noteq> Null then ok True
      else and_then (assert_that (q_stack s \<noteq> Null)) (\<lambda>_. ok (\<not> is_dummy s (q_stack s))))"

definition queue_empty :: "'m heap \<Rightarrow> srq \<Rightarrow> bool eff" where
  "queue_empty h s =
     and_then (assert_that (\<not> closed s)) (\<lambda>_.
     ok (pl_empty (q_this s) h \<and> q_head s = Null \<and> is_dummy s (q_stack s)))"

definition try_block :: "srq \<Rightarrow> bool \<times> srq" where
  "try_block s =
     (if q_stack s = stack_empty_dummy s
      then (True, s\<lparr>q_stack := reader_blocked_dummy s\<rparr>) else (False, s))"

definition try_unblock :: "srq \<Rightarrow> bool \<times> srq" where
  "try_unblock s =
     (if q_stack s = reader_blocked_dummy s
      then (True, s\<lparr>q_stack := stack_empty_dummy s\<rparr>) else (False, s))"

text \<open>
  The inner loop of \<open>fetch_new_data\<close>: each element of the taken chain is pushed onto \<open>head_\<close>.
\<close>

partial_function (option) fetch_loop ::
  "srq \<Rightarrow> ptr \<Rightarrow> ptr \<Rightarrow> 'm heap \<Rightarrow> (ptr \<times> 'm heap) eff" where
  "fetch_loop s e hp h =
     (if e = Null then ok (hp, h)
      else and_then (assert_that (\<not> is_dummy s e)) (\<lambda>_.
           and_then (get_next h e) (\<lambda>n.
           and_then (set_next h e hp) (\<lambda>h. fetch_loop s n e h))))"

declare fetch_loop.simps [code]

definition fetch_new_data :: "'m heap \<Rightarrow> srq \<Rightarrow> ptr \<Rightarrow> (bool \<times> 'm heap \<times> srq) eff" where
  "fetch_new_data h s end_ptr =
     and_then (assert_that (end_ptr = Null \<or> end_ptr = stack_empty_dummy s)) (\<lambda>_.
     let e = q_stack s in
     and_then (assert_that (e \<noteq> Null)) (\<lambda>_.
     and_then (assert_that (e \<noteq> reader_blocked_dummy s)) (\<lambda>_.
     if e = end_ptr then ok (False, h, s)
     else let s = s\<lparr>q_stack := end_ptr\<rparr> in
          if is_dummy s e then and_then (assert_that (end_ptr = Null)) (\<lambda>_. ok (False, h, s))
          else and_then (fetch_loop s e (q_head s) h) (\<lambda>(hp, h).
               ok (True, h, s\<lparr>q_head := hp\<rparr>)))))"

definition take_head :: "'m heap \<Rightarrow> srq \<Rightarrow> (ptr \<times> 'm heap \<times> srq) eff" where
  "take_head h s =
     and_then (if q_head s \<noteq> Null then ok (True, h, s)
               else fetch_new_data h s (stack_empty_dummy s)) (\<lambda>(b, h, s).
     if b then and_then (get_next h (q_head s)) (\<lambda>n. ok (q_head s, h, s\<lparr>q_head := n\<rparr>))
     else ok (Null, h, s))"

definition try_pop :: "'m heap \<Rightarrow> srq \<Rightarrow> (ptr \<times> 'm heap \<times> srq) eff" where
  "try_pop h s = take_head h s"

definition peek :: "'m heap \<Rightarrow> srq \<Rightarrow> (ptr \<times> 'm heap \<times> srq) eff" where
  "peek h s =
     and_then (if q_head s \<noteq> Null then ok (True, h, s)
               else fetch_new_data h s (stack_empty_dummy s)) (\<lambda>(b, h, s).
     ok (if b then q_head s else Null, h, s))"

text \<open>\<open>close\<close> and the loop that deletes the fetched elements.\<close>

partial_function (option) clear_cached_elements ::
  "('m \<Rightarrow> 's \<Rightarrow> 's) \<Rightarrow> ptr \<Rightarrow> 'm heap \<Rightarrow> 's \<Rightarrow> ('m heap \<times> 's) eff" where
  "clear_cached_elements f hp h st =
     (if hp = Null then ok (h, st)
      else and_then (get_next h hp) (\<lambda>n.
           and_then (get_value h hp) (\<lambda>v.
           and_then (delete_node h hp) (\<lambda>h. clear_cached_elements f n h (f v st)))))"

declare clear_cached_elements.simps [code]

definition close :: "('m \<Rightarrow> 's \<Rightarrow> 's) \<Rightarrow> 'm heap \<Rightarrow> srq \<Rightarrow> 's \<Rightarrow> ('m heap \<times> srq \<times> 's) eff" where
  "close f h s st =
     and_then (clear_cached_elements f (q_head s) h st) (\<lambda>(h, st).
     let s = s\<lparr>q_head := Null\<rparr> in
     and_then (if blocked s then ok (False, h, s) else fetch_new_data h s Null) (\<lambda>(b, h, s).
     and_then (if b then clear_cached_elements f (q_head s) h st else ok (h, st)) (\<lambda>(h, st).
     let s = (if b then s\<lparr>q_head := Null\<rparr> else s) in
     and_then (pl_clear f (q_this s) h st) (\<lambda>(h, st). ok (h, s, st)))))"

text \<open>\<open>count\<close>: the cache first, then the chain at \<open>head_\<close> after a fetch.\<close>

partial_function (option) count_loop :: "nat \<Rightarrow> ptr \<Rightarrow> nat \<Rightarrow> 'm heap \<Rightarrow> nat eff" where
  "count_loop mx p n h =
     (if p = Null \<or> mx \<le> n then ok n
      else and_then (get_next h p) (\<lambda>p. count_loop mx p (Suc n) h))"

declare count_loop.simps [code]

definition queue_count :: "nat \<Rightarrow> 'm heap \<Rightarrow> srq \<Rightarrow> (nat \<times> 'm heap \<times> srq) eff" where
  "queue_count mx h s =
     and_then (pl_count mx (q_this s) h) (\<lambda>res.
     if mx \<le> res then ok (res, h, s)
     else and_then (fetch_new_data h s (stack_empty_dummy s)) (\<lambda>(_, h, s).
          and_then (count_loop mx (q_head s) res h) (\<lambda>n. ok (n, h, s))))"

text \<open>
  \<open>peek_all\<close>: the functor visits the cache, then the chain; new data is fetched behind the
  old chain, whose last element is found by walking it.
\<close>

partial_function (option) visit_range ::
  "('m \<Rightarrow> 's \<Rightarrow> 's) \<Rightarrow> ptr \<Rightarrow> ptr \<Rightarrow> 'm heap \<Rightarrow> 's \<Rightarrow> 's eff" where
  "visit_range f i e h st =
     (if i = e then ok st
      else and_then (get_value h i) (\<lambda>v.
           and_then (iter_inc h i) (\<lambda>i. visit_range f i e h (f v st))))"

declare visit_range.simps [code]

partial_function (option) last_node :: "ptr \<Rightarrow> 'm heap \<Rightarrow> ptr eff" where
  "last_node t h =
     and_then (get_next h t) (\<lambda>n. if n = Null then ok t else last_node n h)"

declare last_node.simps [code]

definition peek_all :: "('m \<Rightarrow> 's \<Rightarrow> 's) \<Rightarrow> 'm heap \<Rightarrow> srq \<Rightarrow> 's \<Rightarrow> ('s \<times> 'm heap \<times> srq) eff" where
  "peek_all f h s st =
     (let q = q_this s in
      and_then (visit_range f (pl_begin q h) (pl_separator q) h st) (\<lambda>st.
      and_then (visit_range f (pl_continuation q h) (pl_end q) h st) (\<lambda>st.
      and_then
        (if q_head s = Null
         then and_then (fetch_new_data h s (stack_empty_dummy s)) (\<lambda>(_, h, s). ok (h, s))
         else if \<not> is_dummy s (q_stack s)
         then let old_head = q_head s; s = s\<lparr>q_head := Null\<rparr> in
              and_then (last_node old_head h) (\<lambda>tail.
              and_then (fetch_new_data h s (stack_empty_dummy s)) (\<lambda>(_, h, s).
              and_then (set_next h tail (q_head s)) (\<lambda>h. ok (h, s\<lparr>q_head := old_head\<rparr>))))
         else ok (h, s)) (\<lambda>(h, s).
      and_then (visit_range f (q_head s) Null h st) (\<lambda>st. ok (st, h, s))))))"

section \<open>What a mailbox holds\<close>

datatype qmode = Closed | Ready | Blocked

definition stack_rel :: "'m heap \<Rightarrow> srq \<Rightarrow> qmode \<Rightarrow> nat list \<Rightarrow> bool" where
  "stack_rel h s m ss \<longleftrightarrow>
     (case m of
        Closed \<Rightarrow> q_stack s = Null \<and> ss = []
      | Blocked \<Rightarrow> q_stack s = Blocked_D (q_this s) \<and> ss = []
      | Ready \<Rightarrow> (if ss = [] then q_stack s = Empty_D (q_this s) else chain h (q_stack s) ss))"

text \<open>
  \<open>mbox_rel h s m hs ss c1 c2\<close>: the queue is in mode \<open>m\<close>, \<open>head_\<close> holds the messages \<open>hs\<close>
  (oldest first), \<open>stack_\<close> the messages \<open>ss\<close> (newest first), the cache \<open>c1\<close> and \<open>c2\<close>.
  \<open>mailbox h s m p c1 c2\<close> forgets where the boundary between fetched and unfetched messages
  is: \<open>p\<close> are the pending messages in order of arrival.
\<close>

definition mbox_rel ::
  "'m heap \<Rightarrow> srq \<Rightarrow> qmode \<Rightarrow> nat list \<Rightarrow> nat list \<Rightarrow> nat list \<Rightarrow> nat list \<Rightarrow> bool" where
  "mbox_rel h s m hs ss c1 c2 \<longleftrightarrow>
     chain h (q_head s) hs \<and> stack_rel h s m ss \<and> plist_rel h (q_this s) c1 c2 \<and>
     distinct (hs @ ss @ c1 @ c2)"

definition mailbox ::
  "'m heap \<Rightarrow> srq \<Rightarrow> qmode \<Rightarrow> nat list \<Rightarrow> nat list \<Rightarrow> nat list \<Rightarrow> bool" where
  "mailbox h s m p c1 c2 \<longleftrightarrow> (\<exists>hs ss. mbox_rel h s m hs ss c1 c2 \<and> p = hs @ rev ss)"

lemmas queue_pointers = stack_empty_dummy_def reader_blocked_dummy_def is_dummy_def closed_def blocked_def

lemma mbox_relD:
  assumes "mbox_rel h s m hs ss c1 c2"
  shows "chain h (q_head s) hs" and "stack_rel h s m ss" and "plist_rel h (q_this s) c1 c2"
    and "distinct (hs @ ss @ c1 @ c2)" and "q_head s = Null \<longleftrightarrow> hs = []"
  using assms by (auto simp: mbox_rel_def chain_nonempty_iff)

lemma stack_rel_mode:
  assumes "stack_rel h s m ss"
  shows "q_stack s = Null \<longleftrightarrow> m = Closed"
    and "q_stack s = Blocked_D (q_this s) \<longleftrightarrow> m = Blocked"
    and "q_stack s = Empty_D (q_this s) \<longleftrightarrow> m = Ready \<and> ss = []"
    and "ss \<noteq> [] \<Longrightarrow> m = Ready \<and> chain h (q_stack s) ss"
  using assms by (cases ss; auto simp: stack_rel_def split: qmode.splits)+

lemma mbox_mode:
  assumes "mbox_rel h s m hs ss c1 c2"
  shows "closed s \<longleftrightarrow> m = Closed" and "blocked s \<longleftrightarrow> m = Blocked"
  using stack_rel_mode [OF mbox_relD(2) [OF assms]] by (simp_all add: queue_pointers)

lemma mbox_rel_init: "mbox_rel (pl_ctor q d h) (srq_ctor q) Ready [] [] [] []"
  by (simp add: mbox_rel_def srq_ctor_def stack_rel_def plist_rel_ctor)

lemma stack_rel_cong:
  assumes "stack_rel h s m ss" and "q_stack s' = q_stack s" and "q_this s' = q_this s"
    and "\<And>p. chain h p ss \<Longrightarrow> chain h' p ss"
  shows "stack_rel h' s' m ss"
  using assms by (auto simp: stack_rel_def split: qmode.splits if_splits)

text \<open>Everything the mailbox holds survives a change elsewhere.\<close>

definition mbox_foot :: "srq \<Rightarrow> nat set \<Rightarrow> ptr set" where
  "mbox_foot s X = plist_foot (q_this s) X"

lemma mbox_agree:
  assumes "mbox_rel h s m hs ss c1 c2" and a: "agree_off A h h'"
    and d: "mbox_foot s (set hs \<union> set ss \<union> set c1 \<union> set c2) \<inter> A = {}"
  shows "mbox_rel h' s m hs ss c1 c2"
proof -
  have "chain h' (q_head s) hs"
    using assms chain_agree [OF a, of hs] by (auto simp: mbox_rel_def mbox_foot_def plist_foot_def)
  moreover have "chain h' p ss" if "chain h p ss" for p
    using d that chain_agree [OF a, of ss] by (auto simp: mbox_foot_def plist_foot_def)
  then have "stack_rel h' s m ss"
    using assms(1) stack_rel_cong [of h s m ss s h'] by (auto simp: mbox_rel_def)
  moreover have "plist_rel h' (q_this s) c1 c2"
    using assms by (intro plist_agree [OF _ a]) (auto simp: mbox_rel_def mbox_foot_def plist_foot_def)
  ultimately show ?thesis
    using assms(1) by (simp add: mbox_rel_def)
qed

lemma mbox_delete:
  assumes "mbox_rel h s m hs ss c1 c2" and "x \<notin> set hs \<union> set ss \<union> set c1 \<union> set c2"
  shows "mbox_rel (h\<lparr>cell := (cell h)(Node x := None)\<rparr>) s m hs ss c1 c2"
  using assms(2)
  by (intro mbox_agree [OF assms(1), of "{Node x}"])
     (auto simp: agree_off_def mbox_foot_def plist_foot_def)

lemma mbox_live:
  assumes "mbox_rel h s m hs ss c1 c2" and "x \<in> set hs \<union> set ss \<union> set c1 \<union> set c2"
  shows "live h (Node x)"
proof -
  note m = mbox_relD [OF assms(1)]
  consider "x \<in> set hs" | "x \<in> set ss" | "x \<in> set c1" | "x \<in> set c2"
    using assms(2) by blast
  then show ?thesis
  proof cases
    case 2
    then have "chain h (q_stack s) ss"
      using stack_rel_mode(4) [OF m(2)] by force
    with 2 show ?thesis by (rule chain_live [rotated])
  qed (use m(1,3) chain_live plist_relD(4,5) in blast)+
qed

section \<open>The operations on the contents\<close>

subsection \<open>Enqueue\<close>

lemma enqueue_rel:
  assumes m: "mbox_rel h s m hs ss c1 c2" and op: "m \<noteq> Closed"
    and x: "live h (Node x)" "x \<notin> set hs \<union> set ss \<union> set c1 \<union> set c2"
  shows "\<exists>h' s'. enqueue h s (Node x) =
             ok (if m = Blocked then Unblocked_Reader else Success, h', s') \<and>
           mbox_rel h' s' Ready hs (x # ss) c1 c2 \<and> q_this s' = q_this s \<and>
           cell h' = cell h \<and> agree_off {Node x} h h'"
proof -
  let ?h = "h\<lparr>nxt := (nxt h)(Node x := (if is_dummy s (q_stack s) then Null else q_stack s))\<rparr>"
  let ?s = "s\<lparr>q_stack := Node x\<rparr>"
  note st = stack_rel_mode [OF mbox_relD(2) [OF m]]
  have a: "agree_off {Node x} h ?h"
    by (simp add: agree_off_def)
  have m': "mbox_rel ?h s m hs ss c1 c2"
    using m x by (intro mbox_agree [OF m a]) (auto simp: mbox_foot_def plist_foot_def)
  have "stack_rel ?h ?s Ready (x # ss)"
  proof (cases "ss = []")
    case True
    with m op x show ?thesis
      by (cases m) (auto simp: stack_rel_def queue_pointers mbox_rel_def)
  next
    case False
    with st have r: "m = Ready" "chain h (q_stack s) ss"
      by auto
    moreover have "\<not> is_dummy s (q_stack s)"
      using r st False by (auto simp: queue_pointers)
    moreover from m' False r have "chain ?h (q_stack s) ss"
      by (simp add: mbox_rel_def stack_rel_def)
    ultimately show ?thesis
      using x by (simp add: stack_rel_def)
  qed
  then have "mbox_rel ?h ?s Ready hs (x # ss) c1 c2"
    using m' x by (auto simp: mbox_rel_def)
  moreover have "enqueue h s (Node x) =
      ok (if m = Blocked then Unblocked_Reader else Success, ?h, ?s)"
    using op st x by (simp add: enqueue_def heap_simps reader_blocked_dummy_def)
  ultimately show ?thesis
    using a by (intro exI [of _ ?h] exI [of _ ?s]) simp
qed

lemma enqueue_closed:
  assumes "mbox_rel h s Closed hs ss c1 c2" and "live h (Node x)"
  shows "enqueue h s (Node x) = ok (Queue_Closed, h\<lparr>cell := (cell h)(Node x := None)\<rparr>, s)"
  using assms stack_rel_mode [OF mbox_relD(2) [OF assms(1)]]
  by (simp add: enqueue_def heap_simps)

subsection \<open>Fetch\<close>

lemma fetch_loop_rel:
  assumes "chain h e xs" and "chain h p ys" and "distinct (xs @ ys)"
  shows "\<exists>p' h'. fetch_loop s e p h = ok (p', h') \<and> chain h' p' (rev xs @ ys) \<and>
           prv h' = prv h \<and> cell h' = cell h \<and> agree_off (Node ` set xs) h h'"
  using assms
proof (induction xs arbitrary: e p h ys)
  case Nil
  then show ?case by (subst fetch_loop.simps) (simp add: agree_off_def)
next
  case (Cons x xs)
  let ?h = "h\<lparr>nxt := (nxt h)(Node x := p)\<rparr>"
  have e: "e = Node x" "live h (Node x)" "chain h (nxt h (Node x)) xs"
    using Cons.prems(1) by simp_all
  have "\<exists>p' h'. fetch_loop s (nxt h (Node x)) (Node x) ?h = ok (p', h') \<and>
      chain h' p' (rev xs @ x # ys) \<and> prv h' = prv ?h \<and> cell h' = cell ?h \<and>
      agree_off (Node ` set xs) ?h h'"
  proof (rule Cons.IH)
    show "chain ?h (nxt h (Node x)) xs"
      using Cons.prems e by (subst chain_nxt_upd) auto
    have "chain ?h p ys"
      using Cons.prems by (subst chain_nxt_upd) auto
    then show "chain ?h (Node x) (x # ys)"
      using e by simp
  qed (use Cons.prems in auto)
  then obtain p' h' where h': "fetch_loop s (nxt h (Node x)) (Node x) ?h = ok (p', h')"
      "chain h' p' (rev xs @ x # ys)" "prv h' = prv ?h" "cell h' = cell ?h"
      "agree_off (Node ` set xs) ?h h'"
    by blast
  have "fetch_loop s e p h = ok (p', h')"
    using e h'(1) by (subst fetch_loop.simps) (simp add: heap_simps queue_pointers)
  moreover have "agree_off (Node ` set (x # xs)) h h'"
    using h'(5) by (auto simp: agree_off_def)
  ultimately show ?case
    using h' by (intro exI [of _ p'] exI [of _ h']) simp
qed

text \<open>
  What a fetch does: it moves the whole stack, reversed, in front of the chain at \<open>head_\<close>.
\<close>

lemma fetch_rel:
  assumes m: "mbox_rel h s Ready hs ss c1 c2"
    and t: "t = stack_empty_dummy s \<and> m' = Ready \<or> t = Null \<and> m' = Closed"
  shows "\<exists>h' s'. fetch_new_data h s t = ok (ss \<noteq> [], h', s') \<and>
           mbox_rel h' s' m' (rev ss @ hs) [] c1 c2 \<and> q_this s' = q_this s \<and>
           prv h' = prv h \<and> cell h' = cell h \<and> agree_off (Node ` set ss) h h'"
proof (cases "ss = []")
  case True
  with stack_rel_mode [OF mbox_relD(2) [OF m]] have "q_stack s = Empty_D (q_this s)"
    by simp
  with m t True show ?thesis
    by (auto simp: fetch_new_data_def queue_pointers mbox_rel_def stack_rel_def Let_def agree_off_def)
next
  case False
  then have c: "chain h (q_stack s) ss" and s: "q_stack s \<noteq> Null" "q_stack s \<noteq> Empty_D (q_this s)"
      "q_stack s \<noteq> Blocked_D (q_this s)"
    using stack_rel_mode [OF mbox_relD(2) [OF m]] by auto
  have dj: "distinct (ss @ hs)"
    using mbox_relD(4) [OF m] by auto
  obtain p' h' where h': "fetch_loop (s\<lparr>q_stack := t\<rparr>) (q_stack s) (q_head s) h = ok (p', h')"
      "chain h' p' (rev ss @ hs)" "prv h' = prv h" "cell h' = cell h" "agree_off (Node ` set ss) h h'"
    using fetch_loop_rel [OF c mbox_relD(1) [OF m] dj, of "s\<lparr>q_stack := t\<rparr>"] by blast
  have "plist_rel h' (q_this s) c1 c2"
    using m by (intro plist_agree [OF _ h'(5)]) (auto simp: mbox_rel_def plist_foot_def)
  then have "mbox_rel h' (s\<lparr>q_stack := t, q_head := p'\<rparr>) m' (rev ss @ hs) [] c1 c2"
    using m t h'(2) by (auto simp: mbox_rel_def stack_rel_def queue_pointers)
  moreover have "fetch_new_data h s t = ok (True, h', s\<lparr>q_stack := t, q_head := p'\<rparr>)"
    using t s h'(1) by (auto simp: fetch_new_data_def queue_pointers Let_def)
  ultimately show ?thesis
    using False h'(3-5) by (intro exI [of _ h'] exI [of _ "s\<lparr>q_stack := t, q_head := p'\<rparr>"]) simp
qed

lemma fetch_fault:
  assumes "mbox_rel h s m hs ss c1 c2" and "m \<noteq> Ready" and "t = Null \<or> t = stack_empty_dummy s"
  shows "fetch_new_data h s t = fail Assert_Failed"
  using assms stack_rel_mode [OF mbox_relD(2) [OF assms(1)]]
  by (cases m) (auto simp: fetch_new_data_def queue_pointers Let_def)

subsection \<open>Pop and peek\<close>

lemma pop_head:
  assumes "mbox_rel h s m (x # hs) ss c1 c2"
  shows "q_head s = Node x" and "live h (Node x)"
    and "mbox_rel h (s\<lparr>q_head := nxt h (Node x)\<rparr>) m hs ss c1 c2"
  using assms by (auto simp: mbox_rel_def stack_rel_def split: qmode.splits)

lemma try_pop_rel:
  assumes m: "mbox_rel h s m hs ss c1 c2" and ne: "hs @ rev ss = x # p"
  shows "\<exists>h' s' hs' ss'. try_pop h s = ok (Node x, h', s') \<and>
           mbox_rel h' s' m hs' ss' c1 c2 \<and> hs' @ rev ss' = p \<and> q_this s' = q_this s \<and>
           prv h' = prv h \<and> cell h' = cell h \<and> agree_off (Node ` set ss) h h' \<and> live h' (Node x)"
proof (cases hs)
  case (Cons y ys)
  with ne have "y = x" "p = ys @ rev ss"
    by simp_all
  with pop_head [of h s m x ys ss c1 c2] m Cons show ?thesis
    by (intro exI [of _ h] exI [of _ "s\<lparr>q_head := nxt h (Node x)\<rparr>"] exI [of _ ys] exI [of _ ss])
       (simp add: try_pop_def take_head_def heap_simps)
next
  case Nil
  with ne have ss: "rev ss = x # p" "ss \<noteq> []"
    by auto
  with m have r: "m = Ready"
    using stack_rel_mode(4) [OF mbox_relD(2) [OF m]] by simp
  obtain h' s' where f: "fetch_new_data h s (stack_empty_dummy s) = ok (True, h', s')"
      "mbox_rel h' s' Ready (x # p) [] c1 c2" "q_this s' = q_this s" "prv h' = prv h"
      "cell h' = cell h" "agree_off (Node ` set ss) h h'"
    using fetch_rel [of h s hs ss c1 c2 "stack_empty_dummy s" Ready] m r Nil ss by auto
  note ph = pop_head [OF f(2)]
  have "q_head s = Null"
    using m Nil by (simp add: mbox_relD)
  with f ph r show ?thesis
    by (intro exI [of _ h'] exI [of _ "s'\<lparr>q_head := nxt h' (Node x)\<rparr>"] exI [of _ p] exI [of _ "[]"])
       (simp add: try_pop_def take_head_def heap_simps)
qed

lemma try_pop_empty:
  assumes m: "mbox_rel h s m [] [] c1 c2"
  shows "try_pop h s = (if m = Ready then ok (Null, h, s) else fail Assert_Failed)"
proof -
  have "q_head s = Null"
    using m by (simp add: mbox_relD)
  moreover have "m \<noteq> Ready \<Longrightarrow> fetch_new_data h s (stack_empty_dummy s) = fail Assert_Failed"
    using fetch_fault [OF m] by simp
  moreover have "m = Ready \<Longrightarrow> fetch_new_data h s (stack_empty_dummy s) = ok (False, h, s)"
    using stack_rel_mode [OF mbox_relD(2) [OF m]]
    by (simp add: fetch_new_data_def queue_pointers)
  ultimately show ?thesis
    by (auto simp: try_pop_def take_head_def)
qed

lemma peek_rel:
  assumes m: "mbox_rel h s m hs ss c1 c2" and ne: "hs @ rev ss = x # p"
  shows "\<exists>h' s' hs' ss'. peek h s = ok (Node x, h', s') \<and>
           mbox_rel h' s' m hs' ss' c1 c2 \<and> hs' @ rev ss' = x # p \<and> q_this s' = q_this s \<and>
           cell h' = cell h"
proof (cases hs)
  case (Cons y ys)
  with ne m pop_head [of h s m y ys ss c1 c2] show ?thesis
    by (intro exI [of _ h] exI [of _ s] exI [of _ hs] exI [of _ ss]) (simp add: peek_def)
next
  case Nil
  with ne have ss: "rev ss = x # p" "ss \<noteq> []"
    by auto
  with m have r: "m = Ready"
    using stack_rel_mode(4) [OF mbox_relD(2) [OF m]] by simp
  obtain h' s' where f: "fetch_new_data h s (stack_empty_dummy s) = ok (True, h', s')"
      "mbox_rel h' s' Ready (x # p) [] c1 c2" "q_this s' = q_this s" "cell h' = cell h"
    using fetch_rel [of h s hs ss c1 c2 "stack_empty_dummy s" Ready] m r Nil ss by auto
  have "q_head s = Null"
    using m Nil by (simp add: mbox_relD)
  with f pop_head [OF f(2)] r show ?thesis
    by (intro exI [of _ h'] exI [of _ s'] exI [of _ "x # p"] exI [of _ "[]"]) (simp add: peek_def)
qed

subsection \<open>Block and unblock\<close>

lemma try_block_rel:
  assumes m: "mbox_rel h s m hs ss c1 c2"
  shows "fst (try_block s) \<longleftrightarrow> m = Ready \<and> ss = []"
    and "mbox_rel h (snd (try_block s)) (if m = Ready \<and> ss = [] then Blocked else m) hs ss c1 c2"
    and "q_this (snd (try_block s)) = q_this s"
  using m stack_rel_mode [OF mbox_relD(2) [OF m]]
  by (auto simp: try_block_def queue_pointers mbox_rel_def stack_rel_def split: qmode.splits)

lemma try_unblock_rel:
  assumes m: "mbox_rel h s m hs ss c1 c2"
  shows "fst (try_unblock s) \<longleftrightarrow> m = Blocked"
    and "mbox_rel h (snd (try_unblock s)) (if m = Blocked then Ready else m) hs ss c1 c2"
    and "q_this (snd (try_unblock s)) = q_this s"
  using m stack_rel_mode [OF mbox_relD(2) [OF m]]
  by (auto simp: try_unblock_def queue_pointers mbox_rel_def stack_rel_def split: qmode.splits)

lemma can_fetch_more_rel:
  assumes m: "mbox_rel h s m hs ss c1 c2" and "m \<noteq> Closed"
  shows "can_fetch_more s = ok (hs @ rev ss \<noteq> [])"
proof (cases "hs = []")
  case True
  have "is_dummy s (q_stack s) \<longleftrightarrow> ss = []"
    using assms stack_rel_mode [OF mbox_relD(2) [OF m]]
    by (cases m; cases ss) (auto simp: queue_pointers stack_rel_def mbox_rel_def)
  with True assms mbox_mode(1) [OF m] show ?thesis
    by (simp add: can_fetch_more_def mbox_relD(5) [OF m] closed_def)
qed (use assms in \<open>simp add: can_fetch_more_def mbox_relD(5) [OF m]\<close>)

subsection \<open>Close\<close>

lemma clear_cached_elements_ok:
  assumes "chain h p xs" and "distinct xs"
  shows "clear_cached_elements f p h st =
           ok (free_nodes h xs, fold (\<lambda>x. f (the (cell h (Node x)))) xs st)"
  using assms
proof (induction xs arbitrary: p h st)
  case Nil
  then show ?case by (simp add: clear_cached_elements.simps)
next
  case (Cons x xs)
  let ?h = "h\<lparr>cell := (cell h)(Node x := None)\<rparr>"
  have "chain ?h (nxt h (Node x)) xs"
    using Cons.prems by (subst chain_cell_upd) auto
  then have "clear_cached_elements f (nxt h (Node x)) ?h st' =
      ok (free_nodes ?h xs, fold (\<lambda>x. f (the (cell ?h (Node x)))) xs st')" for st'
    using Cons.prems by (intro Cons.IH) auto
  moreover have "fold (\<lambda>x. f (the (cell ?h (Node x)))) xs st' =
      fold (\<lambda>x. f (the (cell h (Node x)))) xs st'" for st'
    using Cons.prems(2) by (intro fold_cong) auto
  ultimately show ?case
    using Cons.prems by (subst clear_cached_elements.simps) (simp add: heap_simps free_nodes_Cons)
qed

lemma mbox_free_head:
  assumes "mbox_rel h s m hs ss c1 c2"
  shows "mbox_rel (free_nodes h hs) (s\<lparr>q_head := Null\<rparr>) m [] ss c1 c2"
proof -
  have a: "mbox_rel h (s\<lparr>q_head := Null\<rparr>) m [] ss c1 c2"
    using assms stack_rel_cong [of h s m ss "s\<lparr>q_head := Null\<rparr>" h] by (auto simp: mbox_rel_def)
  show ?thesis
    using mbox_relD(4) [OF assms]
    by (intro mbox_agree [OF a agree_off_free_nodes]) (auto simp: mbox_foot_def plist_foot_def)
qed

lemma mbox_clear_cache:
  assumes m: "mbox_rel h s m hs ss c1 c2"
  defines "h' \<equiv> pl_relink (q_this s) (free_nodes (free_nodes h c1) c2)"
  shows "pl_clear f (q_this s) h st = ok (h', fold (\<lambda>x. f (the (cell h (Node x)))) (c1 @ c2) st)"
    and "mbox_rel h' s m hs ss [] []"
proof -
  note c = pl_clear_ok [OF mbox_relD(3) [OF m]]
  show "pl_clear f (q_this s) h st = ok (h', fold (\<lambda>x. f (the (cell h (Node x)))) (c1 @ c2) st)"
    unfolding h'_def by (rule c)
  let ?A = "plist_foot (q_this s) (set c1 \<union> set c2)"
  have "agree_off ?A h (free_nodes h c1)" "agree_off ?A (free_nodes h c1) (free_nodes (free_nodes h c1) c2)"
    by (auto intro!: agree_off_mono [OF agree_off_free_nodes] simp: plist_foot_def)
  moreover have "agree_off ?A (free_nodes (free_nodes h c1) c2) h'"
    unfolding h'_def by (rule agree_off_mono [OF agree_off_relink]) (auto simp: plist_foot_def)
  ultimately have a: "agree_off ?A h h'"
    by (blast intro: agree_off_trans)
  have "Node ` set hs \<inter> ?A = {}" "Node ` set ss \<inter> ?A = {}"
    using mbox_relD(4) [OF m] by (auto simp: plist_foot_def)
  with chain_agree [OF a] have "chain h' (q_head s) hs" and "\<And>p. chain h p ss \<Longrightarrow> chain h' p ss"
    using mbox_relD(1) [OF m] by auto
  then show "mbox_rel h' s m hs ss [] []"
    using mbox_relD(2,4) [OF m] c(2) stack_rel_cong [of h s m ss s h'] by (auto simp: mbox_rel_def h'_def)
qed

lemma live_relink [simp]: "live (pl_relink q h) p = live h p"
  by (simp add: live_def)

lemma close_blocked:
  assumes m: "mbox_rel h s Blocked hs [] c1 c2"
  shows "\<exists>h' s'. close f h s st =
             ok (h', s', fold (\<lambda>x. f (the (cell h (Node x)))) (hs @ c1 @ c2) st) \<and>
           mbox_rel h' s' Blocked [] [] [] [] \<and> cell h' = cell (free_nodes h (hs @ c1 @ c2))"
proof -
  let ?s = "s\<lparr>q_head := Null\<rparr>" and ?h = "free_nodes h hs"
  have m1: "mbox_rel ?h ?s Blocked [] [] c1 c2"
    by (rule mbox_free_head [OF m])
  note c = mbox_clear_cache(1) [OF m1, where f = f] mbox_clear_cache(2) [OF m1]
  have "distinct hs"
    using mbox_relD(4) [OF m] by simp
  with m have "clear_cached_elements f (q_head s) h st =
      ok (?h, fold (\<lambda>x. f (the (cell h (Node x)))) hs st)"
    by (intro clear_cached_elements_ok) (simp_all add: mbox_relD)
  moreover have "fold (\<lambda>x. f (the (cell ?h (Node x)))) (c1 @ c2) st' =
      fold (\<lambda>x. f (the (cell h (Node x)))) (c1 @ c2) st'" for st'
    using mbox_relD(4) [OF m] by (intro fold_cong) (auto simp: free_nodes_def)
  moreover have "blocked ?s"
    using mbox_mode(2) [OF m1] by simp
  ultimately show ?thesis
    using c by (auto simp: close_def free_nodes_append intro!: exI)
qed

lemma close_ready:
  assumes m: "mbox_rel h s Ready hs ss c1 c2"
  shows "\<exists>h' s'. close f h s st =
             ok (h', s', fold (\<lambda>x. f (the (cell h (Node x)))) (hs @ rev ss @ c1 @ c2) st) \<and>
           mbox_rel h' s' Closed [] [] [] [] \<and> cell h' = cell (free_nodes h (hs @ rev ss @ c1 @ c2))"
proof -
  let ?s = "s\<lparr>q_head := Null\<rparr>" and ?h = "free_nodes h hs"
  have d: "distinct (hs @ ss @ c1 @ c2)"
    using m by (rule mbox_relD)
  have m1: "mbox_rel ?h ?s Ready [] ss c1 c2"
    by (rule mbox_free_head [OF m])
  obtain h2 s2 where f: "fetch_new_data ?h ?s Null = ok (ss \<noteq> [], h2, s2)"
      "mbox_rel h2 s2 Closed (rev ss) [] c1 c2" "cell h2 = cell ?h"
    using fetch_rel [OF m1, of Null Closed] by auto
  let ?h3 = "free_nodes h2 (rev ss)" and ?s3 = "s2\<lparr>q_head := Null\<rparr>"
  have m3: "mbox_rel ?h3 ?s3 Closed [] [] c1 c2"
    by (rule mbox_free_head [OF f(2)])
  note c = mbox_clear_cache(1) [OF m3, where f = f] mbox_clear_cache(2) [OF m3]
  have e1: "clear_cached_elements f (q_head s) h st' =
      ok (?h, fold (\<lambda>x. f (the (cell h (Node x)))) hs st')" for st'
    using d m by (intro clear_cached_elements_ok) (simp_all add: mbox_relD)
  have e2: "clear_cached_elements f (q_head s2) h2 st' =
      ok (?h3, fold (\<lambda>x. f (the (cell h2 (Node x)))) (rev ss) st')" for st'
    using d f(2) by (intro clear_cached_elements_ok) (simp_all add: mbox_relD)
  have c2: "fold (\<lambda>x. f (the (cell h2 (Node x)))) (rev ss) st' =
      fold (\<lambda>x. f (the (cell h (Node x)))) (rev ss) st'" for st'
    using d f(3) by (intro fold_cong) (auto simp: free_nodes_def)
  have c3: "fold (\<lambda>x. f (the (cell ?h3 (Node x)))) (c1 @ c2) st' =
      fold (\<lambda>x. f (the (cell h (Node x)))) (c1 @ c2) st'" for st'
    using d f(3) by (intro fold_cong) (auto simp: free_nodes_def)
  have nb: "\<not> blocked ?s"
    using mbox_mode(2) [OF m1] by simp
  have lv2: "cell (free_nodes (free_nodes (free_nodes h2 xs) ys) zs) =
      cell (free_nodes (free_nodes (free_nodes ?h xs) ys) zs)" for xs ys zs
    by (intro cell_free_cong f(3))
  show ?thesis
  proof (cases "ss = []")
    case True
    have "q_head s2 = Null"
      using f(2) True by (simp add: mbox_relD)
    then have s: "?s3 = s2"
      by simp
    show ?thesis
      using c e1 c3 nb f(1) True s unfolding close_def
      using lv2 [of "[]"] by (auto simp: Let_def free_nodes_append)
  next
    case False
    then show ?thesis
      using c e1 e2 c2 c3 nb f(1) unfolding close_def
      by (auto simp: Let_def lv2 free_nodes_append)
  qed
qed

lemma close_closed:
  assumes "mbox_rel h s Closed [] [] c1 c2"
  shows "close f h s st = fail Assert_Failed"
proof -
  have "q_head s = Null" and nb: "\<not> blocked s"
    using assms mbox_mode(2) [OF assms] by (simp_all add: mbox_relD)
  then have s: "s\<lparr>q_head := Null\<rparr> = s"
    by simp
  have "clear_cached_elements f (q_head s) h st = ok (h, st)"
    using \<open>q_head s = Null\<close> by (simp add: clear_cached_elements.simps)
  moreover have "fetch_new_data h s Null = fail Assert_Failed"
    by (rule fetch_fault [OF assms]) simp_all
  ultimately show ?thesis
    using nb s by (simp add: close_def)
qed

subsection \<open>Count\<close>

lemma count_loop_ok:
  assumes "chain h p xs" and "n \<le> mx"
  shows "count_loop mx p n h = ok (min mx (n + length xs))"
  using assms
proof (induction xs arbitrary: p n)
  case Nil
  then show ?case by (subst count_loop.simps) simp
next
  case (Cons x xs)
  show ?case
  proof (cases "mx \<le> n")
    case True
    with Cons.prems show ?thesis by (subst count_loop.simps) auto
  next
    case False
    with Cons.prems Cons.IH [of "nxt h (Node x)" "Suc n"] show ?thesis
      by (subst count_loop.simps) (auto simp: heap_simps)
  qed
qed

text \<open>
  When the cache alone does not reach the limit, \<open>count\<close> fetches, even with messages left at
  \<open>head_\<close>: the newer messages then come before the older ones.
\<close>

lemma queue_count_rel:
  assumes m: "mbox_rel h s Ready hs ss c1 c2" and mx: "length c1 + length c2 < mx"
  shows "\<exists>h' s'. queue_count mx h s =
             ok (min mx (length c1 + length c2 + length hs + length ss), h', s') \<and>
           mbox_rel h' s' Ready (rev ss @ hs) [] c1 c2 \<and> cell h' = cell h"
proof -
  obtain h' s' where f: "fetch_new_data h s (stack_empty_dummy s) = ok (ss \<noteq> [], h', s')"
      "mbox_rel h' s' Ready (rev ss @ hs) [] c1 c2" "cell h' = cell h"
    using fetch_rel [OF m, of "stack_empty_dummy s" Ready] by auto
  have "pl_count mx (q_this s) h = ok (length c1 + length c2)"
    using pl_count_ok [OF mbox_relD(3) [OF m], of mx] mx by simp
  moreover have "count_loop mx (q_head s') (length c1 + length c2) h' =
      ok (min mx (length c1 + length c2 + length (rev ss @ hs)))"
    using f(2) mx by (intro count_loop_ok) (simp_all add: mbox_relD)
  ultimately show ?thesis
    using f mx by (auto simp: queue_count_def add.commute add.left_commute)
qed

lemma queue_count_cache:
  assumes m: "mbox_rel h s m hs ss c1 c2" and mx: "mx \<le> length c1 + length c2"
  shows "queue_count mx h s = ok (if mx = 0 then length c1 + length c2 else mx, h, s)"
  using pl_count_ok [OF mbox_relD(3) [OF m], of mx] mx by (simp add: queue_count_def)

lemma queue_count_fault:
  assumes m: "mbox_rel h s m hs ss c1 c2" and "m \<noteq> Ready" and mx: "length c1 + length c2 < mx"
  shows "queue_count mx h s = fail Assert_Failed"
  using pl_count_ok [OF mbox_relD(3) [OF m], of mx] mx fetch_fault [OF m assms(2)] by (simp add: queue_count_def)

subsection \<open>Peek at everything\<close>

lemma visit_range_dseg:
  assumes "dseg h p xs r" and "r \<notin> range Node"
  shows "visit_range f (first_or r xs) r h st = ok (fold (\<lambda>x. f (the (cell h (Node x)))) xs st)"
  using assms
proof (induction xs arbitrary: p st)
  case Nil
  then show ?case by (simp add: visit_range.simps)
next
  case (Cons x xs)
  have "Node x \<noteq> r"
    using Cons.prems(2) by blast
  moreover have "nxt h (Node x) = first_or r xs"
    using Cons.prems(1) by (auto simp: first_or_def dest: dseg_first)
  ultimately show ?case
    using Cons.prems Cons.IH [of "Node x"]
    by (subst visit_range.simps) (auto simp: iter_inc_def heap_simps)
qed

lemma visit_range_chain:
  "chain h p xs \<Longrightarrow>
     visit_range f p Null h st = ok (fold (\<lambda>x. f (the (cell h (Node x)))) xs st)"
proof (induction xs arbitrary: p st)
  case Nil
  then show ?case by (simp add: visit_range.simps)
next
  case (Cons x xs)
  then show ?case
    by (subst visit_range.simps) (auto simp: iter_inc_def heap_simps)
qed

lemma last_node_ok:
  "chain h p xs \<Longrightarrow> xs \<noteq> [] \<Longrightarrow> last_node p h = ok (Node (last xs))"
proof (induction xs arbitrary: p)
  case (Cons x xs)
  then show ?case
    by (subst last_node.simps) (auto simp: heap_simps chain_nonempty_iff)
qed simp

lemma chain_link:
  assumes "chain h p xs" and "xs \<noteq> []" and "chain h r ys" and "distinct (xs @ ys)"
  shows "chain (h\<lparr>nxt := (nxt h)(Node (last xs) := r)\<rparr>) p (xs @ ys)"
  using assms
proof (induction xs arbitrary: p)
  case (Cons x xs)
  show ?case
  proof (cases "xs = []")
    case True
    with Cons.prems have "chain (h\<lparr>nxt := (nxt h)(Node x := r)\<rparr>) r ys"
      by (subst chain_nxt_upd) auto
    with True Cons.prems show ?thesis by (simp add: fun_upd_def)
  next
    case False
    with Cons.prems last_in_set [OF False] have "last xs \<noteq> x"
      by auto
    with Cons False show ?thesis by auto
  qed
qed simp

lemma peek_all_rel:
  assumes m: "mbox_rel h s Ready hs ss c1 c2"
  shows "\<exists>h' s'. peek_all f h s st =
             ok (fold (\<lambda>x. f (the (cell h (Node x)))) (c1 @ c2 @ hs @ rev ss) st, h', s') \<and>
           mbox_rel h' s' Ready (hs @ rev ss) [] c1 c2 \<and> cell h' = cell h"
proof -
  let ?g = "\<lambda>x. f (the (cell h (Node x)))"
  have v1: "visit_range f (pl_begin (q_this s) h) (pl_separator (q_this s)) h st' = ok (fold ?g c1 st')"
    and v2: "visit_range f (pl_continuation (q_this s) h) (pl_end (q_this s)) h st' = ok (fold ?g c2 st')"
    for st'
  proof -
    have d: "dseg h (Head_S (q_this s)) c1 (Sep_S (q_this s))"
      "dseg h (Sep_S (q_this s)) c2 (Tail_S (q_this s))"
      using mbox_relD(3) [OF m] by (simp_all add: plist_rel_def)
    from visit_range_dseg [OF d(1), where f = f] visit_range_dseg [OF d(2), where f = f]
    show "visit_range f (pl_begin (q_this s) h) (pl_separator (q_this s)) h st' = ok (fold ?g c1 st')"
      and "visit_range f (pl_continuation (q_this s) h) (pl_end (q_this s)) h st' = ok (fold ?g c2 st')"
      by (auto simp: plist_relD [OF mbox_relD(3) [OF m]] pl_separator_def pl_end_def)
  qed
  have v3: "visit_range f (q_head s') Null h' st' = ok (fold ?g (hs @ rev ss) st')"
    if "mbox_rel h' s' Ready (hs @ rev ss) [] c1 c2" "cell h' = cell h" for h' s' st'
    using visit_range_chain [OF mbox_relD(1) [OF that(1)], where f = f] that(2) by simp
  show ?thesis
  proof (cases "hs = []")
    case True
    obtain h' s' where f: "fetch_new_data h s (stack_empty_dummy s) = ok (ss \<noteq> [], h', s')"
        "mbox_rel h' s' Ready (rev ss @ hs) [] c1 c2" "cell h' = cell h"
      using fetch_rel [OF m, of "stack_empty_dummy s" Ready] by auto
    then show ?thesis
      using True v3 [of h' s'] by (auto simp: peek_all_def v1 v2 mbox_relD(5) [OF m])
  next
    case nn: False
    show ?thesis
    proof (cases "ss = []")
      case True
      then have "is_dummy s (q_stack s)"
        using stack_rel_mode(3) [OF mbox_relD(2) [OF m]] by (simp add: queue_pointers)
      with m nn True v3 [of h s] show ?thesis
        by (auto simp: peek_all_def v1 v2 mbox_relD(5) [OF m])
    next
      case False
      then have nd: "\<not> is_dummy s (q_stack s)"
        using stack_rel_mode [OF mbox_relD(2) [OF m]] by (auto simp: queue_pointers)
      let ?s = "s\<lparr>q_head := Null\<rparr>"
      have m0: "mbox_rel h ?s Ready [] ss c1 c2"
        using m stack_rel_cong [of h s Ready ss ?s h] by (auto simp: mbox_rel_def)
      obtain h1 s1 where f: "fetch_new_data h ?s (stack_empty_dummy ?s) = ok (True, h1, s1)"
          "mbox_rel h1 s1 Ready (rev ss) [] c1 c2" "cell h1 = cell h" "q_this s1 = q_this s"
          "agree_off (Node ` set ss) h h1"
        using fetch_rel [OF m0, of "stack_empty_dummy ?s" Ready] False by auto
      have d: "distinct (hs @ ss @ c1 @ c2)"
        using m by (rule mbox_relD)
      have c1: "chain h1 (q_head s) hs"
        using chain_agree [OF f(5), of hs "q_head s"] mbox_relD(1) [OF m] d by auto
      let ?h2 = "h1\<lparr>nxt := (nxt h1)(Node (last hs) := q_head s1)\<rparr>"
      let ?s2 = "s1\<lparr>q_head := q_head s\<rparr>"
      have a: "agree_off {Node (last hs)} h1 ?h2"
        by (simp add: agree_off_def)
      have ch: "chain ?h2 (q_head s) (hs @ rev ss)"
        using d by (intro chain_link [OF c1 nn mbox_relD(1) [OF f(2)]]) auto
      have pl: "plist_rel ?h2 (q_this s) c1 c2"
        using d nn last_disjoint [of hs "set ss \<union> (set c1 \<union> set c2)"] f(4) mbox_relD(3) [OF f(2)]
        by (intro plist_agree [OF _ a]) (auto simp: plist_foot_def)
      have m2: "mbox_rel ?h2 ?s2 Ready (hs @ rev ss) [] c1 c2"
        using ch pl f(2,4) d by (auto simp: mbox_rel_def stack_rel_def)
      have lv: "live h1 (Node (last hs))"
        using chain_live [OF c1] nn by simp
      have "last_node (q_head s) h = ok (Node (last hs))"
        by (rule last_node_ok [OF mbox_relD(1) [OF m] nn])
      with f(1) lv nd nn m2 f(3) v3 [OF m2] show ?thesis
        by (auto simp: peek_all_def v1 v2 mbox_relD(5) [OF m] queue_pointers heap_simps)
    qed
  qed
qed

section \<open>The mailbox as a FIFO queue\<close>

text \<open>
  The same facts without the boundary between the two chains, together with the cache
  operations on the whole mailbox.
\<close>

lemma mailboxI: "mbox_rel h s m hs ss c1 c2 \<Longrightarrow> p = hs @ rev ss \<Longrightarrow> mailbox h s m p c1 c2"
  by (auto simp: mailbox_def)

lemma mailbox_distinct: "mailbox h s m p c1 c2 \<Longrightarrow> distinct (p @ c1 @ c2)"
  by (auto simp: mailbox_def mbox_rel_def)

lemma mailbox_live:
  "mailbox h s m p c1 c2 \<Longrightarrow> x \<in> set p \<union> set c1 \<union> set c2 \<Longrightarrow> live h (Node x)"
  by (auto simp: mailbox_def intro: mbox_live)

lemma mailbox_plist: "mailbox h s m p c1 c2 \<Longrightarrow> plist_rel h (q_this s) c1 c2"
  by (auto simp: mailbox_def dest: mbox_relD(3))

lemma mailbox_init: "mailbox (pl_ctor q d h) (srq_ctor q) Ready [] [] []"
  using mbox_rel_init by (rule mailboxI) simp

lemma mailbox_agree:
  assumes "mailbox h s m p c1 c2" and "agree_off A h h'"
    and "mbox_foot s (set p \<union> set c1 \<union> set c2) \<inter> A = {}"
  shows "mailbox h' s m p c1 c2"
proof -
  from assms(1) obtain hs ss where r: "mbox_rel h s m hs ss c1 c2" "p = hs @ rev ss"
    by (auto simp: mailbox_def)
  have "mbox_rel h' s m hs ss c1 c2"
    using assms(3) r(2) by (intro mbox_agree [OF r(1) assms(2)]) simp
  then show ?thesis
    using r(2) by (rule mailboxI)
qed

lemma mailbox_enqueue:
  assumes "mailbox h s m p c1 c2" and "m \<noteq> Closed"
    and "live h (Node x)" "x \<notin> set p \<union> set c1 \<union> set c2"
  shows "\<exists>h' s'. enqueue h s (Node x) =
             ok (if m = Blocked then Unblocked_Reader else Success, h', s') \<and>
           mailbox h' s' Ready (p @ [x]) c1 c2 \<and> q_this s' = q_this s \<and>
           cell h' = cell h \<and> agree_off {Node x} h h' \<and> q_stack s' = Node x"
proof -
  from assms(1) obtain hs ss where r: "mbox_rel h s m hs ss c1 c2" "p = hs @ rev ss"
    by (auto simp: mailbox_def)
  then obtain h' s' where "enqueue h s (Node x) =
        ok (if m = Blocked then Unblocked_Reader else Success, h', s')"
      "mbox_rel h' s' Ready hs (x # ss) c1 c2" "q_this s' = q_this s"
      "cell h' = cell h" "agree_off {Node x} h h'"
    using enqueue_rel [OF r(1) assms(2,3)] assms(4) by auto
  moreover from this have "q_stack s' = Node x"
    by (simp add: mbox_rel_def stack_rel_def)
  ultimately show ?thesis
    using r(2) by (auto intro!: exI mailboxI)
qed

lemma mailbox_pop:
  assumes "mailbox h s m (x # p) c1 c2"
  shows "\<exists>h' s'. try_pop h s = ok (Node x, h', s') \<and> mailbox h' s' m p c1 c2 \<and>
           q_this s' = q_this s \<and> cell h' = cell h \<and> agree_off (Node ` set (x # p)) h h'"
proof -
  from assms obtain hs ss where r: "mbox_rel h s m hs ss c1 c2" "hs @ rev ss = x # p"
    by (auto simp: mailbox_def)
  obtain h' s' hs' ss' where t: "try_pop h s = ok (Node x, h', s')"
      "mbox_rel h' s' m hs' ss' c1 c2" "hs' @ rev ss' = p" "q_this s' = q_this s"
      "cell h' = cell h" "agree_off (Node ` set ss) h h'"
    using try_pop_rel [OF r] by blast
  have "set ss \<subseteq> set (x # p)"
    using arg_cong [OF r(2), of set] by auto
  then have "agree_off (Node ` set (x # p)) h h'"
    by (intro agree_off_mono [OF t(6)]) auto
  moreover have "mailbox h' s' m p c1 c2"
    using t(2) t(3) [symmetric] by (rule mailboxI)
  ultimately show ?thesis
    using t by blast
qed

lemma mailbox_pop_empty:
  assumes "mailbox h s m [] c1 c2"
  shows "try_pop h s = (if m = Ready then ok (Null, h, s) else fail Assert_Failed)"
proof -
  from assms have "mbox_rel h s m [] [] c1 c2"
    by (auto simp: mailbox_def)
  then show ?thesis by (rule try_pop_empty)
qed

lemma mailbox_try_block:
  assumes "mailbox h s m p c1 c2" and "p = [] \<or> q_stack s = Blocked_D (q_this s) \<or> (\<exists>x. q_stack s = Node x)"
  shows "fst (try_block s) \<longleftrightarrow> m = Ready \<and> p = []"
    and "mailbox h (snd (try_block s)) (if m = Ready \<and> p = [] then Blocked else m) p c1 c2"
    and "q_this (snd (try_block s)) = q_this s"
proof -
  from assms(1) obtain hs ss where r: "mbox_rel h s m hs ss c1 c2" "p = hs @ rev ss"
    by (auto simp: mailbox_def)
  have e: "m = Ready \<and> ss = [] \<longleftrightarrow> m = Ready \<and> p = []"
    using assms(2) r(2) stack_rel_mode [OF mbox_relD(2) [OF r(1)]] by auto
  note b = try_block_rel [OF r(1)]
  show "fst (try_block s) \<longleftrightarrow> m = Ready \<and> p = []"
    using b(1) e by simp
  show "mailbox h (snd (try_block s)) (if m = Ready \<and> p = [] then Blocked else m) p c1 c2"
    using b(2) e r(2) by (auto intro: mailboxI split: if_splits)
  show "q_this (snd (try_block s)) = q_this s"
    by (rule b)
qed

lemma mailbox_try_unblock:
  assumes "mailbox h s m p c1 c2"
  shows "mailbox h (snd (try_unblock s)) (if m = Blocked then Ready else m) p c1 c2"
    and "q_this (snd (try_unblock s)) = q_this s"
  using assms try_unblock_rel(2,3) by (fastforce simp: mailbox_def)+

lemma mailbox_can_fetch_more:
  assumes "mailbox h s m p c1 c2" and "m \<noteq> Closed"
  shows "can_fetch_more s = ok (p \<noteq> [])"
  using assms can_fetch_more_rel by (fastforce simp: mailbox_def)

subsection \<open>The cache of a mailbox\<close>

lemma mailbox_cache:
  assumes "mailbox h s m p c1 c2" and "agree_off A h h'" and "Node ` set p \<inter> A = {}"
    and "plist_rel h' (q_this s) d1 d2" and "distinct (p @ d1 @ d2)"
  shows "mailbox h' s m p d1 d2"
proof -
  from assms(1) obtain hs ss where r: "mbox_rel h s m hs ss c1 c2" "p = hs @ rev ss"
    by (auto simp: mailbox_def)
  have "chain h' (q_head s) hs = chain h (q_head s) hs" "\<And>p. chain h' p ss = chain h p ss"
    using assms(3) r(2) by (auto intro!: chain_agree [OF assms(2)])
  with r assms(4,5) stack_rel_cong [of h s m ss s h'] have "mbox_rel h' s m hs ss d1 d2"
    by (auto simp: mbox_rel_def)
  then show ?thesis
    using r(2) by (rule mailboxI)
qed

lemma mailbox_insert_1:
  assumes "mailbox h s m p (a @ b) c2" and "it = first_or (Sep_S (q_this s)) b"
    and "live h (Node v)" "v \<notin> set p \<union> set a \<union> set b \<union> set c2"
  shows "\<exists>h'. pl_insert h it (Node v) = ok (Node v, h') \<and> mailbox h' s m p (a @ v # b) c2 \<and>
           cell h' = cell h \<and> prv h' it = Node v \<and> agree_off (plist_foot (q_this s) (insert v (set (a @ b)))) h h'"
proof -
  let ?h = "pl_inserted h it (Node v)" and ?q = "q_this s"
  have pl: "plist_rel h ?q (a @ b) c2"
    using assms(1) by (rule mailbox_plist)
  have ag: "agree_off (plist_foot ?q (insert v (set (a @ b)))) h ?h"
    using plist_foot_insert_1 [OF pl, of v] assms(2) by simp
  moreover have "plist_rel ?h ?q (a @ v # b) c2"
    using assms by (intro pl_insert_1(2) [OF pl]) auto
  ultimately have "mailbox ?h s m p (a @ v # b) c2"
    using assms mailbox_distinct [OF assms(1)]
    by (intro mailbox_cache [OF assms(1)]) (auto simp: plist_foot_def)
  then show ?thesis
    using assms pl_insert_1(1) [OF pl assms(2)] ag by (auto simp: pl_inserted_def)
qed

lemma mailbox_insert_2:
  assumes "mailbox h s m p c1 (a @ b)" and "it = first_or (Tail_S (q_this s)) b"
    and "live h (Node v)" "v \<notin> set p \<union> set c1 \<union> set a \<union> set b"
  shows "\<exists>h'. pl_insert h it (Node v) = ok (Node v, h') \<and> mailbox h' s m p c1 (a @ v # b) \<and>
           cell h' = cell h \<and> agree_off (plist_foot (q_this s) (insert v (set (a @ b)))) h h'"
proof -
  let ?h = "pl_inserted h it (Node v)" and ?q = "q_this s"
  have pl: "plist_rel h ?q c1 (a @ b)"
    using assms(1) by (rule mailbox_plist)
  have ag: "agree_off (plist_foot ?q (insert v (set (a @ b)))) h ?h"
    using plist_foot_insert_2 [OF pl, of v] assms(2) by simp
  moreover have "plist_rel ?h ?q c1 (a @ v # b)"
    using assms by (intro pl_insert_2(2) [OF pl]) auto
  ultimately have "mailbox ?h s m p c1 (a @ v # b)"
    using assms mailbox_distinct [OF assms(1)]
    by (intro mailbox_cache [OF assms(1)]) (auto simp: plist_foot_def)
  then show ?thesis
    using assms pl_insert_2(1) [OF pl assms(2)] ag by (auto simp: pl_inserted_def)
qed

lemma mailbox_take_first:
  assumes "mailbox h s m p (x # c1) c2"
  shows "\<exists>h'. pl_take h (Node x) = ok (Node x, h') \<and> mailbox h' s m p c1 c2 \<and> cell h' = cell h \<and>
           agree_off (plist_foot (q_this s) (set (x # c1))) h h'"
proof -
  let ?h = "pl_taken h (Node x)" and ?q = "q_this s"
  have pl: "plist_rel h ?q ([] @ x # c1) c2"
    using mailbox_plist [OF assms] by simp
  note t = plist_rel_taken_1 [OF pl]
  have ag: "agree_off (plist_foot ?q (set ([] @ x # c1))) h ?h"
    by (rule plist_foot_take_1 [OF pl])
  then have "mailbox ?h s m p c1 c2"
    using t(2) mailbox_distinct [OF assms]
    by (intro mailbox_cache [OF assms]) (auto simp: plist_foot_def)
  with t(1) ag show ?thesis by auto
qed

lemma mailbox_delete:
  assumes "mailbox h s m p c1 c2" and "x \<notin> set p \<union> set c1 \<union> set c2"
  shows "mailbox (h\<lparr>cell := (cell h)(Node x := None)\<rparr>) s m p c1 c2"
  using assms(2)
  by (intro mailbox_agree [OF assms(1), of "{Node x}"])
     (auto simp: agree_off_def mbox_foot_def plist_foot_def)

lemma mailbox_erase_2:
  assumes "mailbox h s m p c1 (x # c2)"
  shows "\<exists>h'. pl_erase h (Node x) = ok (first_or (Tail_S (q_this s)) c2, h') \<and>
           mailbox h' s m p c1 c2 \<and> cell h' = (cell h)(Node x := None)"
proof -
  let ?h = "(pl_taken h (Node x))\<lparr>cell := (cell h)(Node x := None)\<rparr>" and ?q = "q_this s"
  have pl: "plist_rel h ?q c1 ([] @ x # c2)"
    using mailbox_plist [OF assms] by simp
  note t = pl_erase_2 [OF pl]
  have a: "agree_off (plist_foot ?q (set ([] @ x # c2))) h (pl_taken h (Node x))"
    by (rule plist_foot_take_2 [OF pl])
  then have "agree_off (plist_foot ?q (set ([] @ x # c2))) h ?h"
    by (auto simp: agree_off_def plist_foot_def)
  then have "mailbox ?h s m p c1 c2"
    using t(2) mailbox_distinct [OF assms]
    by (intro mailbox_cache [OF assms]) (auto simp: plist_foot_def)
  with t(1) show ?thesis by auto
qed

lemma mailbox_modes:
  assumes "mailbox h s m p c1 c2"
  shows "closed s \<longleftrightarrow> m = Closed" and "blocked s \<longleftrightarrow> m = Blocked"
  using assms by (auto simp: mailbox_def mbox_mode)

section \<open>The mailbox keeps the queue contract\<close>

definition mailbox_put :: "nat \<Rightarrow> 'm heap \<times> srq \<Rightarrow> (enqueue_result \<times> 'm heap \<times> srq) eff" where
  "mailbox_put x st = enqueue (fst st) (snd st) (Node x)"

definition mailbox_get :: "'m heap \<times> srq \<Rightarrow> (nat option \<times> 'm heap \<times> srq) eff" where
  "mailbox_get st =
     and_then (try_pop (fst st) (snd st)) (\<lambda>(p, st). ok (case p of Node x \<Rightarrow> Some x | _ \<Rightarrow> None, st))"

interpretation mbox: fifo mailbox_put mailbox_get
  "\<lambda>st xs. mailbox (fst st) (snd st) Ready xs c1 c2"
  "\<lambda>st x. live (fst st) (Node x) \<and> x \<notin> set c1 \<union> set c2" for c1 c2
proof
  fix st :: "'m heap \<times> srq" and xs x
  assume "mailbox (fst st) (snd st) Ready xs c1 c2"
    and "live (fst st) (Node x) \<and> x \<notin> set c1 \<union> set c2" and "x \<notin> set xs"
  then show "\<exists>r st'. mailbox_put x st = ok (r, st') \<and>
      mailbox (fst st') (snd st') Ready (xs @ [x]) c1 c2 \<and>
      (\<forall>y. live (fst st) (Node y) \<and> y \<notin> set c1 \<union> set c2 \<longrightarrow>
           live (fst st') (Node y) \<and> y \<notin> set c1 \<union> set c2)"
    using mailbox_enqueue [of "fst st" "snd st" Ready xs c1 c2 x]
    by (fastforce simp: mailbox_put_def live_def)
next
  fix st :: "'m heap \<times> srq" and xs x
  assume "mailbox (fst st) (snd st) Ready (x # xs) c1 c2"
  then show "\<exists>st'. mailbox_get st = ok (Some x, st') \<and> mailbox (fst st') (snd st') Ready xs c1 c2"
    using mailbox_pop by (fastforce simp: mailbox_get_def)
next
  fix st :: "'m heap \<times> srq"
  assume "mailbox (fst st) (snd st) Ready [] c1 c2"
  then show "mailbox_get st = ok (None, st)"
    using mailbox_pop_empty by (fastforce simp: mailbox_get_def)
qed

end
