(* ===== verification/Mailbox_Spec.thy ===== *)
theory Mailbox_Spec
  imports Reader_Queue
begin

text \<open>
  What the mailbox promises, as an abstract machine on lists, and the refinement: on every
  sequence of operations the pointer code of \<open>Reader_Queue\<close> and \<open>Partitioned_List\<close> gives the
  results of the abstract machine, or stops with the same fault. Then the properties of the
  mailbox and its cache.
\<close>

section \<open>The abstract machine\<close>

datatype mb_op = Enqueue nat | Pop | Peek | Fetchable | Block | Unblock | Count nat | Close

datatype mb_out =
    R_Enqueue enqueue_result
  | R_Ptr "nat option"
  | R_Bool bool
  | R_Nat nat
  | R_Closed "nat list"

text \<open>
  The state: the mode, the messages already fetched, the messages that arrived since the last
  fetch, and the cache; all oldest first.
\<close>

type_synonym mb_state = "qmode \<times> nat list \<times> nat list \<times> nat list"

fun mb_spec :: "mb_op \<Rightarrow> mb_state \<Rightarrow> (mb_out \<times> mb_state) eff" where
  "mb_spec (Enqueue x) (m, fs, as, cs) =
     (if m = Closed then ok (R_Enqueue Queue_Closed, m, fs, as, cs)
      else ok (R_Enqueue (if m = Blocked then Unblocked_Reader else Success), Ready, fs, as @ [x], cs))"
| "mb_spec Pop (m, fs, as, cs) =
     (case fs of x # fs \<Rightarrow> ok (R_Ptr (Some x), m, fs, as, cs)
      | [] \<Rightarrow> if m \<noteq> Ready then fail Assert_Failed
              else case as of [] \<Rightarrow> ok (R_Ptr None, m, [], [], cs)
                   | x # as \<Rightarrow> ok (R_Ptr (Some x), m, as, [], cs))"
| "mb_spec Peek (m, fs, as, cs) =
     (case fs of x # _ \<Rightarrow> ok (R_Ptr (Some x), m, fs, as, cs)
      | [] \<Rightarrow> if m \<noteq> Ready then fail Assert_Failed
              else ok (R_Ptr (if as = [] then None else Some (hd as)), m, as, [], cs))"
| "mb_spec Fetchable (m, fs, as, cs) =
     (if fs = [] \<and> m = Closed then fail Assert_Failed else ok (R_Bool (fs @ as \<noteq> []), m, fs, as, cs))"
| "mb_spec Block (m, fs, as, cs) =
     (if m = Ready \<and> as = [] then ok (R_Bool True, Blocked, fs, as, cs)
      else ok (R_Bool False, m, fs, as, cs))"
| "mb_spec Unblock (m, fs, as, cs) =
     (if m = Blocked then ok (R_Bool True, Ready, fs, as, cs) else ok (R_Bool False, m, fs, as, cs))"
| "mb_spec (Count mx) (m, fs, as, cs) =
     (if mx = 0 then ok (R_Nat (length cs), m, fs, as, cs)
      else if mx \<le> length cs then ok (R_Nat mx, m, fs, as, cs)
      else if m \<noteq> Ready then fail Assert_Failed
      else ok (R_Nat (min mx (length cs + length fs + length as)), m, as @ fs, [], cs))"
| "mb_spec Close (m, fs, as, cs) =
     (if m = Closed then fail Assert_Failed
      else ok (R_Closed (fs @ as @ cs), if m = Ready then Closed else m, [], [], []))"

section \<open>The code, operation by operation\<close>

definition ptr_id :: "ptr \<Rightarrow> nat option" where
  "ptr_id p = (case p of Node x \<Rightarrow> Some x | _ \<Rightarrow> None)"

lemma ptr_id_simps [simp]: "ptr_id (Node x) = Some x" "ptr_id Null = None"
  by (simp_all add: ptr_id_def)

text \<open>
  \<open>Close\<close> is called with a functor that records the messages it sees: the heap's cells hold the
  message's own number for this machine.
\<close>

fun mb_code :: "mb_op \<Rightarrow> nat heap \<times> srq \<Rightarrow> (mb_out \<times> nat heap \<times> srq) eff" where
  "mb_code (Enqueue x) (h, s) = and_then (enqueue h s (Node x)) (\<lambda>(r, st). ok (R_Enqueue r, st))"
| "mb_code Pop (h, s) = and_then (try_pop h s) (\<lambda>(p, st). ok (R_Ptr (ptr_id p), st))"
| "mb_code Peek (h, s) = and_then (peek h s) (\<lambda>(p, st). ok (R_Ptr (ptr_id p), st))"
| "mb_code Fetchable (h, s) = and_then (can_fetch_more s) (\<lambda>b. ok (R_Bool b, h, s))"
| "mb_code Block (h, s) = (case try_block s of (b, s) \<Rightarrow> ok (R_Bool b, h, s))"
| "mb_code Unblock (h, s) = (case try_unblock s of (b, s) \<Rightarrow> ok (R_Bool b, h, s))"
| "mb_code (Count mx) (h, s) = and_then (queue_count mx h s) (\<lambda>(n, st). ok (R_Nat n, st))"
| "mb_code Close (h, s) =
     and_then (close (\<lambda>v seen. seen @ [v]) h s []) (\<lambda>(h, s, seen). ok (R_Closed seen, h, s))"

primrec run_ops :: "('o \<Rightarrow> 's \<Rightarrow> ('r \<times> 's) eff) \<Rightarrow> 'o list \<Rightarrow> 's \<Rightarrow> ('r list \<times> 's) eff" where
  "run_ops f [] s = ok ([], s)"
| "run_ops f (x # xs) s =
     and_then (f x s) (\<lambda>(r, s). and_then (run_ops f xs s) (\<lambda>(rs, s). ok (r # rs, s)))"

section \<open>Simulation\<close>

definition mb_sim :: "nat heap \<times> srq \<Rightarrow> mb_state \<Rightarrow> bool" where
  "mb_sim st a \<longleftrightarrow> (case st of (h, s) \<Rightarrow> case a of (m, fs, as, cs) \<Rightarrow>
     (\<exists>c1 c2. mbox_rel h s m fs (rev as) c1 c2 \<and> cs = c1 @ c2) \<and> (m = Closed \<longrightarrow> fs = []) \<and>
     (\<forall>x \<in> set (fs @ as @ cs). cell h (Node x) = Some x))"

text \<open>The messages an operation sequence enqueues, and what they must satisfy.\<close>

fun enq_ids :: "mb_op list \<Rightarrow> nat list" where
  "enq_ids [] = []"
| "enq_ids (Enqueue x # ops) = x # enq_ids ops"
| "enq_ids (_ # ops) = enq_ids ops"

definition enq_ok :: "mb_op list \<Rightarrow> nat heap \<times> srq \<Rightarrow> mb_state \<Rightarrow> bool" where
  "enq_ok ops st a \<longleftrightarrow> (case a of (m, fs, as, cs) \<Rightarrow>
     distinct (enq_ids ops) \<and> set (enq_ids ops) \<inter> set (fs @ as @ cs) = {} \<and>
     (\<forall>x \<in> set (enq_ids ops). cell (fst st) (Node x) = Some x))"

text \<open>Two results agree: neither returns, or the same fault, or related values.\<close>

definition agree_res :: "('s \<Rightarrow> 't \<Rightarrow> bool) \<Rightarrow> ('r \<times> 's) eff \<Rightarrow> ('r \<times> 't) eff \<Rightarrow> bool" where
  "agree_res R c a \<longleftrightarrow> (case a of
     Some (Inr (r, t)) \<Rightarrow> (\<exists>s. c = ok (r, s) \<and> R s t)
   | Some (Inl e) \<Rightarrow> c = fail e
   | None \<Rightarrow> c = None)"

lemma agree_res_simps [simp]:
  "agree_res R c (ok (r, t)) \<longleftrightarrow> (\<exists>s. c = ok (r, s) \<and> R s t)"
  "agree_res R c (fail e) \<longleftrightarrow> c = fail e"
  by (simp_all add: agree_res_def)

lemma fold_record:
  assumes "\<forall>x \<in> set xs. cell h (Node x) = Some x"
  shows "fold (\<lambda>x seen. seen @ [the (cell h (Node x))]) xs ys = ys @ xs"
  using assms by (induction xs arbitrary: ys) auto

text \<open>What one operation may change: it frees messages of the mailbox or the one it was given.\<close>

definition mb_step :: "mb_op \<Rightarrow> nat heap \<times> srq \<Rightarrow> mb_state \<Rightarrow> nat heap \<times> srq \<Rightarrow> mb_state \<Rightarrow> bool" where
  "mb_step op st a st' a' \<longleftrightarrow> mb_sim st' a' \<and>
     (case a of (m, fs, as, cs) \<Rightarrow> case a' of (m', fs', as', cs') \<Rightarrow>
        set (fs' @ as' @ cs') \<subseteq> set (fs @ as @ cs) \<union> set (enq_ids [op]) \<and>
        (\<forall>y. y \<notin> set (fs @ as @ cs) \<union> set (enq_ids [op]) \<longrightarrow>
             cell (fst st') (Node y) = cell (fst st) (Node y)))"

lemma mb_simE:
  assumes "mb_sim st a"
  obtains m fs as cs h s c1 c2 where "a = (m, fs, as, cs)" "st = (h, s)" "mbox_rel h s m fs (rev as) c1 c2" "cs = c1 @ c2"
    "m = Closed \<longrightarrow> fs = []" "\<forall>x \<in> set (fs @ as @ cs). cell h (Node x) = Some x"
    "m \<noteq> Ready \<longrightarrow> as = []"
proof -
  obtain h s m fs as cs where st: "st = (h, s)" "a = (m, fs, as, cs)"
    by (cases st; cases a)
  with assms obtain c1 c2 where r: "mbox_rel h s m fs (rev as) c1 c2" "cs = c1 @ c2"
      "m = Closed \<longrightarrow> fs = []" "\<forall>x \<in> set (fs @ as @ cs). cell h (Node x) = Some x"
    unfolding mb_sim_def by auto
  moreover have "m \<noteq> Ready \<longrightarrow> as = []"
    using stack_rel_mode(4) [OF mbox_relD(2) [OF r(1)]] by auto
  ultimately show thesis
    using that st by blast
qed

lemma mb_stepI:
  assumes "mbox_rel h' s' m' fs' (rev as') c1 c2" and "m' = Closed \<Longrightarrow> fs' = []"
    and "\<And>x. x \<in> set (fs' @ as' @ c1 @ c2) \<Longrightarrow> cell h' (Node x) = Some x"
    and "set (fs' @ as' @ c1 @ c2) \<subseteq> set (fs @ as @ cs) \<union> set (enq_ids [op])"
    and "\<And>y. y \<notin> set (fs @ as @ cs) \<union> set (enq_ids [op]) \<Longrightarrow> cell h' (Node y) = cell h (Node y)"
  shows "mb_step op (h, s) (m, fs, as, cs) (h', s') (m', fs', as', c1 @ c2)"
  unfolding mb_step_def mb_sim_def using assms by auto

lemma step_enqueue:
  assumes "mb_sim st a" and "enq_ok [Enqueue x] st a"
  shows "agree_res (mb_step (Enqueue x) st a) (mb_code (Enqueue x) st) (mb_spec (Enqueue x) a)"
proof -
  obtain m fs as cs h s c1 c2 where a: "a = (m, fs, as, cs)" and st: "st = (h, s)" "mbox_rel h s m fs (rev as) c1 c2" "cs = c1 @ c2"
      "m = Closed \<longrightarrow> fs = []" "\<forall>x \<in> set (fs @ as @ cs). cell h (Node x) = Some x"
      "m \<noteq> Ready \<longrightarrow> as = []"
    using assms(1) by (rule mb_simE)
  have x: "live h (Node x)" "x \<notin> set (fs @ as @ cs)" "cell h (Node x) = Some x"
    using assms(2) a st(1) by (auto simp: enq_ok_def live_def)
  show ?thesis
  proof (cases "m = Closed")
    case True
    then have m: "mbox_rel h s Closed [] (rev []) c1 c2"
      using st(2,4,6) by simp
    then have e: "enqueue h s (Node x) = ok (Queue_Closed, h\<lparr>cell := (cell h)(Node x := None)\<rparr>, s)"
      using x(1) by (intro enqueue_closed) simp_all
    have "mbox_rel (h\<lparr>cell := (cell h)(Node x := None)\<rparr>) s Closed [] (rev []) c1 c2"
      using x(2) st(3) by (intro mbox_delete [OF m]) simp
    then have "mb_step (Enqueue x) st a (h\<lparr>cell := (cell h)(Node x := None)\<rparr>, s) (Closed, [], [], c1 @ c2)"
      unfolding a st(1) using st(3,5) x(2) by (intro mb_stepI) auto
    with e True st a show ?thesis by simp
  next
    case False
    obtain h' s' where e: "enqueue h s (Node x) = ok (if m = Blocked then Unblocked_Reader else Success, h', s')"
        "mbox_rel h' s' Ready fs (x # rev as) c1 c2" "cell h' = cell h"
      using enqueue_rel [OF st(2) False x(1)] x(2) st(3) by auto
    have "mb_step (Enqueue x) st a (h', s') (Ready, fs, as @ [x], c1 @ c2)"
      unfolding a st(1) using e st(3,5) x(3) by (intro mb_stepI) auto
    with e False st a show ?thesis by simp
  qed
qed

lemma step_pop:
  assumes "mb_sim st a"
  shows "agree_res (mb_step Pop st a) (mb_code Pop st) (mb_spec Pop a)"
proof -
  obtain m fs as cs h s c1 c2 where a: "a = (m, fs, as, cs)" and st: "st = (h, s)" "mbox_rel h s m fs (rev as) c1 c2" "cs = c1 @ c2"
      "m = Closed \<longrightarrow> fs = []" "\<forall>x \<in> set (fs @ as @ cs). cell h (Node x) = Some x"
      "m \<noteq> Ready \<longrightarrow> as = []"
    using assms(1) by (rule mb_simE)
  have keep: "mb_step Pop st a (h', s') (m, fs', as', c1 @ c2)"
    if "mbox_rel h' s' m fs' (rev as') c1 c2" "cell h' = cell h" "set fs' \<union> set as' \<subseteq> set fs \<union> set as"
      "m = Closed \<Longrightarrow> fs' = []" for h' s' fs' as'
    unfolding a st(1) using that st(3-5) by (intro mb_stepI) auto
  have e: "try_pop h s = (if m = Ready then ok (Null, h, s) else fail Assert_Failed)"
    if "fs = []" "as = []"
    using st(2) that by (intro try_pop_empty) simp
  show ?thesis
  proof (cases fs)
    case (Cons x fs')
    note ph = pop_head [OF st(2) [unfolded Cons]]
    have "try_pop h s = ok (Node x, h, s\<lparr>q_head := nxt h (Node x)\<rparr>)"
      using ph by (simp add: try_pop_def take_head_def heap_simps)
    with keep [OF ph(3)] st a Cons show ?thesis by auto
  next
    case Nil
    show ?thesis
    proof (cases as)
      case Nil': Nil
      with e Nil keep [OF st(2)] st a show ?thesis
        by (cases "m = Ready") (auto simp del: rev.simps)
    next
      case (Cons x as')
      with st(6) have r: "m = Ready" by auto
      obtain h' s' where f: "fetch_new_data h s (stack_empty_dummy s) = ok (True, h', s')"
          "mbox_rel h' s' Ready (x # as') [] c1 c2" "cell h' = cell h"
        using fetch_rel [of h s fs "rev as" c1 c2 "stack_empty_dummy s" Ready] st(2) r Nil Cons by auto
      note ph = pop_head [OF f(2)]
      have "q_head s = Null"
        using st(2) Nil by (simp add: mbox_relD)
      then have "try_pop h s = ok (Node x, h', s'\<lparr>q_head := nxt h' (Node x)\<rparr>)"
        using f ph by (simp add: try_pop_def take_head_def heap_simps)
      with keep [of h' _ as' "[]"] ph(3) f(3) r st a Nil Cons show ?thesis by auto
    qed
  qed
qed

lemma step_peek:
  assumes "mb_sim st a"
  shows "agree_res (mb_step Peek st a) (mb_code Peek st) (mb_spec Peek a)"
proof -
  obtain m fs as cs h s c1 c2 where a: "a = (m, fs, as, cs)" and st: "st = (h, s)"
      "mbox_rel h s m fs (rev as) c1 c2" "cs = c1 @ c2"
      "m = Closed \<longrightarrow> fs = []" "\<forall>x \<in> set (fs @ as @ cs). cell h (Node x) = Some x"
      "m \<noteq> Ready \<longrightarrow> as = []"
    using assms by (rule mb_simE)
  have keep: "mb_step Peek st a (h', s') (m', fs', as', cs)"
    if "mbox_rel h' s' m' fs' (rev as') c1 c2" "cell h' = cell h" "set fs' \<union> set as' \<subseteq> set fs \<union> set as"
      "m' = Closed \<longrightarrow> fs' = []" for h' s' m' fs' as'
    unfolding a st(1,3) using that st(3-5) by (intro mb_stepI) auto
  show ?thesis
  proof (cases fs)
    case (Cons x fs')
    have "peek h s = ok (Node x, h, s)"
      using pop_head(1) [OF st(2) [unfolded Cons]] by (simp add: peek_def)
    with keep [OF st(2)] st(1,4) a Cons show ?thesis by simp
  next
    case Nil
    have n: "q_head s = Null"
      using st(2) Nil by (simp add: mbox_relD)
    show ?thesis
    proof (cases "m = Ready")
      case False
      then have "fetch_new_data h s (stack_empty_dummy s) = fail Assert_Failed"
        by (intro fetch_fault [OF st(2)]) simp_all
      with n False Nil st(1) a show ?thesis by (simp add: peek_def)
    next
      case True
      obtain h' s' where f: "fetch_new_data h s (stack_empty_dummy s) = ok (as \<noteq> [], h', s')"
          "mbox_rel h' s' Ready as [] c1 c2" "cell h' = cell h"
        using fetch_rel [of h s fs "rev as" c1 c2 "stack_empty_dummy s" Ready] st(2) True Nil by auto
      have "mb_step Peek st a (h', s') (Ready, as, [], cs)"
        using f Nil by (intro keep) simp_all
      moreover have "peek h s = ok (if as = [] then Null else Node (hd as), h', s')"
        using f(1) n pop_head(1) [of h' s' Ready "hd as" "tl as"] f(2)
        by (cases as) (simp_all add: peek_def)
      ultimately show ?thesis
        using True Nil st(1) a by simp
    qed
  qed
qed

lemma step_flags:
  assumes "mb_sim st a" and "op \<in> {Fetchable, Block, Unblock}"
  shows "agree_res (mb_step op st a) (mb_code op st) (mb_spec op a)"
proof -
  obtain m fs as cs h s c1 c2 where a: "a = (m, fs, as, cs)" and st: "st = (h, s)"
      "mbox_rel h s m fs (rev as) c1 c2" "cs = c1 @ c2"
      "m = Closed \<longrightarrow> fs = []" "\<forall>x \<in> set (fs @ as @ cs). cell h (Node x) = Some x"
      "m \<noteq> Ready \<longrightarrow> as = []"
    using assms(1) by (rule mb_simE)
  have keep: "mb_step op st a (h', s') (m', fs', as', cs)"
    if "mbox_rel h' s' m' fs' (rev as') c1 c2" "cell h' = cell h" "set fs' \<union> set as' \<subseteq> set fs \<union> set as"
      "m' = Closed \<longrightarrow> fs' = []" for h' s' m' fs' as'
    unfolding a st(1,3) using that st(3-5) by (intro mb_stepI) auto
  note tb = try_block_rel [OF st(2)] and tu = try_unblock_rel [OF st(2)]
  have f: "can_fetch_more s = (if fs = [] \<and> m = Closed then fail Assert_Failed else ok (fs @ as \<noteq> []))"
  proof (cases "m = Closed")
    case True
    with st(4,6) mbox_relD(5) [OF st(2)] stack_rel_mode(1) [OF mbox_relD(2) [OF st(2)]]
    show ?thesis by (simp add: can_fetch_more_def)
  qed (use can_fetch_more_rel [OF st(2)] in simp)
  have "agree_res (mb_step Fetchable st a) (mb_code Fetchable st) (mb_spec Fetchable a)"
    if "op = Fetchable"
    using f keep [OF st(2)] st(1,4) a that by simp
  moreover have "agree_res (mb_step Block st a) (mb_code Block st) (mb_spec Block a)" if "op = Block"
    using tb keep [of h "snd (try_block s)" _ fs as] st(1,4) a that by (cases "try_block s") (auto split: if_splits)
  moreover have "agree_res (mb_step Unblock st a) (mb_code Unblock st) (mb_spec Unblock a)" if "op = Unblock"
    using tu keep [of h "snd (try_unblock s)" _ fs as] st(1,4) a that by (cases "try_unblock s") (auto split: if_splits)
  ultimately show ?thesis
    using assms(2) by blast
qed

lemma step_count:
  assumes "mb_sim st a"
  shows "agree_res (mb_step (Count mx) st a) (mb_code (Count mx) st) (mb_spec (Count mx) a)"
proof -
  obtain m fs as cs h s c1 c2 where a: "a = (m, fs, as, cs)" and st: "st = (h, s)"
      "mbox_rel h s m fs (rev as) c1 c2" "cs = c1 @ c2"
      "m = Closed \<longrightarrow> fs = []" "\<forall>x \<in> set (fs @ as @ cs). cell h (Node x) = Some x"
      "m \<noteq> Ready \<longrightarrow> as = []"
    using assms by (rule mb_simE)
  have keep: "mb_step (Count mx) st a (h', s') (m', fs', as', cs)"
    if "mbox_rel h' s' m' fs' (rev as') c1 c2" "cell h' = cell h" "set fs' \<union> set as' \<subseteq> set fs \<union> set as"
      "m' = Closed \<longrightarrow> fs' = []" for h' s' m' fs' as'
    unfolding a st(1,3) using that st(3-5) by (intro mb_stepI) auto
  consider "mx \<le> length cs" | "length cs < mx" "m = Ready" | "length cs < mx" "m \<noteq> Ready"
    by linarith
  then show ?thesis
  proof cases
    case 1
    then have "queue_count mx h s = ok (if mx = 0 then length cs else mx, h, s)"
      using queue_count_cache [OF st(2)] st(3) by simp
    with 1 keep [OF st(2)] st(1,4) a show ?thesis by (cases "mx = 0") simp_all
  next
    case 2
    have r: "mbox_rel h s Ready fs (rev as) c1 c2" and l: "length c1 + length c2 < mx"
      using st(2,3) 2 by simp_all
    obtain h' s' where q: "queue_count mx h s = ok (min mx (length cs + length fs + length as), h', s')"
        "mbox_rel h' s' Ready (as @ fs) (rev []) c1 c2" "cell h' = cell h"
      using queue_count_rel [OF r l] st(3) by auto
    have "mb_step (Count mx) st a (h', s') (Ready, as @ fs, [], cs)"
      by (rule keep [OF q(2,3)]) auto
    with q(1) 2 st(1) a show ?thesis by auto
  next
    case 3
    have "pl_count mx (q_this s) h = ok (length cs)"
      using pl_count_ok [OF mbox_relD(3) [OF st(2)], of mx] 3 st(3) by simp
    moreover have "fetch_new_data h s (stack_empty_dummy s) = fail Assert_Failed"
      using 3 by (intro fetch_fault [OF st(2)]) simp_all
    ultimately show ?thesis
      using 3 st(1) a by (simp add: queue_count_def)
  qed
qed

lemma step_close:
  assumes "mb_sim st a"
  shows "agree_res (mb_step Close st a) (mb_code Close st) (mb_spec Close a)"
proof -
  obtain m fs as cs h s c1 c2 where a: "a = (m, fs, as, cs)" and st: "st = (h, s)"
      "mbox_rel h s m fs (rev as) c1 c2" "cs = c1 @ c2"
      "m = Closed \<longrightarrow> fs = []" "\<forall>x \<in> set (fs @ as @ cs). cell h (Node x) = Some x"
      "m \<noteq> Ready \<longrightarrow> as = []"
    using assms by (rule mb_simE)
  have rec: "fold (\<lambda>x seen. seen @ [the (cell h (Node x))]) xs ys = ys @ xs" if "set xs \<subseteq> set (fs @ as @ cs)" for xs ys
    using st(5) that by (intro fold_record) blast
  have fin: "mb_step Close st a (h', s') (m', [], [], [])"
    if "mbox_rel h' s' m' [] [] [] []" "cell h' = cell (free_nodes h (fs @ as @ cs))" for h' s' m'
    using mb_stepI [of h' s' m' "[]" "[]" "[]" "[]"] that cell_free_nodes [of h "fs @ as @ cs"]
    unfolding a st(1) by auto
  consider "m = Closed" | "m = Blocked" | "m = Ready"
    by (cases m)
  then show ?thesis
  proof cases
    case 1
    then have "mbox_rel h s Closed [] [] c1 c2"
      using st(2,4,6) by simp
    then show ?thesis
      using 1 st(1) a close_closed [of h s c1 c2 "\<lambda>v seen. seen @ [v]" "[]"] by simp
  next
    case 2
    then have b: "mbox_rel h s Blocked fs [] c1 c2"
      using st(2,6) by simp
    obtain h' s' where "close (\<lambda>v seen. seen @ [v]) h s [] = ok (h', s', fs @ c1 @ c2)"
        "mbox_rel h' s' Blocked [] [] [] []" "cell h' = cell (free_nodes h (fs @ c1 @ c2))"
      using close_blocked [OF b, of "\<lambda>v seen. seen @ [v]" "[]"] rec [of "fs @ c1 @ c2" "[]"] st(3)
      by (auto simp: subset_iff)
    then show ?thesis
      using 2 st(1,3,6) a fin by auto
  next
    case 3
    then have r: "mbox_rel h s Ready fs (rev as) c1 c2"
      using st(2) by simp
    obtain h' s' where "close (\<lambda>v seen. seen @ [v]) h s [] = ok (h', s', fs @ as @ c1 @ c2)"
        "mbox_rel h' s' Closed [] [] [] []" "cell h' = cell (free_nodes h (fs @ as @ c1 @ c2))"
      using close_ready [OF r, of "\<lambda>v seen. seen @ [v]" "[]"] rec [of "fs @ as @ c1 @ c2" "[]"] st(3)
      by (auto simp: subset_iff)
    then show ?thesis
      using 3 st(1,3) a fin by auto
  qed
qed

lemma mb_code_step:
  assumes "mb_sim st a" and "enq_ok [op] st a"
  shows "agree_res (mb_step op st a) (mb_code op st) (mb_spec op a)"
proof (cases op)
  case (Enqueue x)
  with assms step_enqueue show ?thesis by blast
qed (use assms(1) step_pop step_peek step_flags step_count step_close in simp_all)

lemma enq_ids_Cons: "enq_ids (op # ops) = enq_ids [op] @ enq_ids ops"
  by (cases op) simp_all

lemma enq_ok_step:
  assumes "enq_ok (op # ops) st a" and "mb_step op st a st' a'"
  shows "enq_ok ops st' a'"
proof -
  obtain m fs as cs m' fs' as' cs' where a: "a = (m, fs, as, cs)" "a' = (m', fs', as', cs')"
    by (cases a; cases a')
  have e: "distinct (enq_ids [op] @ enq_ids ops)" "set (enq_ids [op] @ enq_ids ops) \<inter> set (fs @ as @ cs) = {}"
    "\<forall>x \<in> set (enq_ids [op] @ enq_ids ops). cell (fst st) (Node x) = Some x"
    using assms(1) a(1) unfolding enq_ok_def enq_ids_Cons [of op ops] by simp_all
  have d: "set (fs' @ as' @ cs') \<subseteq> set (fs @ as @ cs) \<union> set (enq_ids [op])"
    "\<forall>y. y \<notin> set (fs @ as @ cs) \<union> set (enq_ids [op]) \<longrightarrow> cell (fst st') (Node y) = cell (fst st) (Node y)"
    using assms(2) a unfolding mb_step_def by simp_all
  have n: "y \<notin> set (fs @ as @ cs) \<union> set (enq_ids [op])" if "y \<in> set (enq_ids ops)" for y
    using e(1,2) that by auto
  have "distinct (enq_ids ops)" "set (enq_ids ops) \<inter> set (fs' @ as' @ cs') = {}"
    using e(1) d(1) n by auto
  moreover have "\<forall>x \<in> set (enq_ids ops). cell (fst st') (Node x) = Some x"
    using e(3) d(2) n by auto
  ultimately show ?thesis
    by (simp add: enq_ok_def a(2))
qed

lemma enq_ok_head: "enq_ok (op # ops) st a \<Longrightarrow> enq_ok [op] st a"
  by (cases a; cases op) (auto simp: enq_ok_def)

text \<open>The initial mailbox of the concrete instances below, with messages 5, 6 and 7 allocated.\<close>

definition demo_heap :: "nat heap" where
  "demo_heap = new_node (new_node (new_node (pl_ctor 0 0 empty_heap) 5 5) 6 6) 7 7"

lemma demo_mbox_rel: "mbox_rel demo_heap (srq_ctor 0) Ready [] [] [] []"
  by (simp add: demo_heap_def mbox_rel_def srq_ctor_def stack_rel_def plist_rel_def pl_ctor_def
      new_node_def live_def)

lemma demo_mailbox: "mailbox demo_heap (srq_ctor 0) Ready [] [] []"
  using demo_mbox_rel by (rule mailboxI) simp

lemma demo_heap_cells:
  "cell demo_heap (Node 5) = Some 5" "cell demo_heap (Node 6) = Some 6" "cell demo_heap (Node 7) = Some 7"
  "live demo_heap (Node 5)" "live demo_heap (Node 6)" "live demo_heap (Node 7)"
  by (simp_all add: demo_heap_def new_node_def live_def)

lemma demo_sim: "mb_sim (demo_heap, srq_ctor 0) (Ready, [], [], [])"
  using demo_mbox_rel by (auto simp: mb_sim_def)

section \<open>Properties\<close>

text \<open>
  C2. The mailbox refines the abstract machine: on every sequence of operations (enqueue of
  distinct new messages, pop, peek, can_fetch_more, try_block, try_unblock, count, close) the
  pointer code returns exactly the results of the list machine, or stops with the same
  assertion failure at the same operation.
\<close>

theorem mailbox_refines_spec:
  assumes "mb_sim st a" and "enq_ok ops st a"
  shows "agree_res mb_sim (run_ops mb_code ops st) (run_ops mb_spec ops a)"
  using assms
proof (induction ops arbitrary: st a)
  case (Cons op ops)
  have step: "agree_res (mb_step op st a) (mb_code op st) (mb_spec op a)"
    using Cons.prems by (intro mb_code_step enq_ok_head)
  consider "mb_spec op a = None" | e where "mb_spec op a = fail e"
    | r a1 where "mb_spec op a = ok (r, a1)"
    by (metis not_None_eq old.sum.exhaust surj_pair)
  then show ?case
  proof cases
    case 3
    with step obtain st1 where st1: "mb_code op st = ok (r, st1)" "mb_step op st a st1 a1"
      by auto
    have "agree_res mb_sim (run_ops mb_code ops st1) (run_ops mb_spec ops a1)"
      using st1(2) by (intro Cons.IH enq_ok_step [OF Cons.prems(2)]) (auto simp: mb_step_def)
    with 3 st1(1) show ?thesis
      by (auto simp: agree_res_def split: option.splits sum.splits)
  qed (use step in \<open>simp_all add: agree_res_def\<close>)
qed simp

lemma mailbox_refines_spec_witness:
  "agree_res mb_sim
     (run_ops mb_code [Enqueue 5, Enqueue 6, Pop, Enqueue 7, Count 9, Pop, Close] (demo_heap, srq_ctor 0))
     (ok ([R_Enqueue Success, R_Enqueue Success, R_Ptr (Some 5), R_Enqueue Success, R_Nat 2,
           R_Ptr (Some 7), R_Closed [6]], Closed, [], [], []))"
  using mailbox_refines_spec [OF demo_sim, of "[Enqueue 5, Enqueue 6, Pop, Enqueue 7, Count 9, Pop, Close]"]
  by (simp add: enq_ok_def demo_heap_cells numeral_2_eq_2)

text \<open>
  C9. First in, first out: distinct new messages enqueued into an open mailbox come out of
  \<open>try_pop\<close> exactly once and in the order of their enqueue, after the messages that were already
  pending, and then \<open>try_pop\<close> returns null.
\<close>

theorem mailbox_fifo:
  assumes "mailbox h s Ready xs c1 c2" and "\<forall>y \<in> set ys. live h (Node y) \<and> y \<notin> set c1 \<union> set c2"
    and "distinct (xs @ ys)"
  shows "\<exists>st1 st2. put_all mailbox_put ys (h, s) = ok st1 \<and> drain mailbox_get st1 = ok (xs @ ys, st2) \<and>
           mailbox (fst st2) (snd st2) Ready [] c1 c2"
  using mbox.drain_put_all [of "(h, s)"] assms by simp

lemma mailbox_fifo_witness:
  "\<exists>st1 st2. put_all mailbox_put [6, 5, 7] (demo_heap, srq_ctor 0) = ok st1 \<and>
     drain mailbox_get st1 = ok ([6, 5, 7], st2) \<and> mailbox (fst st2) (snd st2) Ready [] [] []"
  using mailbox_fifo [OF demo_mailbox, of "[6, 5, 7]"] by (simp add: demo_heap_cells)

text \<open>
  C15. \<open>close(f)\<close>: of a mailbox in use it hands every message it holds to the functor, pending
  messages first and in order of arrival, then both partitions of the cache; it frees exactly
  those messages. Afterwards the mailbox is empty, and closed unless the reader was blocked: then
  it stays blocked and open. On a closed mailbox an assertion fails.
\<close>

theorem mailbox_close:
  assumes "mailbox h s m p c1 c2" and "m = Closed \<longrightarrow> p = []"
  shows "if m = Closed then close f h s st = fail Assert_Failed
         else \<exists>h' s'. close f h s st = ok (h', s', fold (\<lambda>x. f (the (cell h (Node x)))) (p @ c1 @ c2) st) \<and>
           mailbox h' s' (if m = Ready then Closed else Blocked) [] [] [] \<and>
           (\<forall>x. cell h' (Node x) = (if x \<in> set (p @ c1 @ c2) then None else cell h (Node x)))"
proof -
  obtain hs ss where r: "mbox_rel h s m hs ss c1 c2" "p = hs @ rev ss"
    using assms(1) by (auto simp: mailbox_def)
  have e: "m \<noteq> Ready \<Longrightarrow> ss = []"
    using stack_rel_mode(4) [OF mbox_relD(2) [OF r(1)]] by auto
  consider "m = Closed" | "m = Blocked" | "m = Ready"
    by (cases m)
  then show ?thesis
  proof cases
    case 1
    with assms(2) r close_closed [of h s c1 c2 f st] show ?thesis by simp
  next
    case 2
    with r e close_blocked [of h s hs c1 c2 f st] show ?thesis
      by (fastforce simp: cell_free_nodes intro: mailboxI)
  next
    case 3
    with r close_ready [of h s hs ss c1 c2 f st] show ?thesis
      by (fastforce simp: cell_free_nodes intro: mailboxI)
  qed
qed

lemma mailbox_close_witness:
  "\<exists>h' s'. close (\<lambda>v seen. seen @ [v]) demo_heap (srq_ctor 0) [] = ok (h', s', []) \<and>
     mailbox h' s' Closed [] [] []"
  using mailbox_close [OF demo_mailbox, of "\<lambda>v seen. seen @ [v]" "[]"] by auto

text \<open>
  C17. \<open>peek_all\<close> applies the functor to every message once: first partition, second partition,
  then the pending messages in order of arrival, also when some of them were fetched and others
  not; and it changes neither the order of the pending messages nor the cache.
\<close>

theorem mailbox_peek_all:
  assumes "mailbox h s Ready p c1 c2"
  shows "\<exists>h' s'. peek_all f h s st =
             ok (fold (\<lambda>x. f (the (cell h (Node x)))) (c1 @ c2 @ p) st, h', s') \<and>
           mailbox h' s' Ready p c1 c2 \<and> cell h' = cell h"
proof -
  obtain hs ss where r: "mbox_rel h s Ready hs ss c1 c2" "p = hs @ rev ss"
    using assms by (auto simp: mailbox_def)
  with peek_all_rel [OF r(1), where f = f and st = st] show ?thesis
    by (fastforce intro: mailboxI)
qed

lemma mailbox_peek_all_witness:
  "\<exists>h s h' s'. put_all mailbox_put [6, 5] (demo_heap, srq_ctor 0) = ok (h, s) \<and>
     peek_all (\<lambda>v seen. seen @ [v]) h s [] = ok ([6, 5], h', s') \<and> mailbox h' s' Ready [6, 5] [] []"
proof -
  obtain h1 s1 where 1: "enqueue demo_heap (srq_ctor 0) (Node 6) = ok (Success, h1, s1)"
      "mailbox h1 s1 Ready [6] [] []" "cell h1 = cell demo_heap"
    using mailbox_enqueue [OF demo_mailbox, of 6] by (auto simp: demo_heap_cells)
  moreover obtain h s where 2: "enqueue h1 s1 (Node 5) = ok (Success, h, s)"
      "mailbox h s Ready [6, 5] [] []" "cell h = cell demo_heap"
    using mailbox_enqueue [OF 1(2), of 5] 1(3) by (auto simp: demo_heap_cells live_def)
  ultimately show ?thesis
    using mailbox_peek_all [OF 2(2), of "\<lambda>v seen. seen @ [v]" "[]"]
    by (auto simp: mailbox_put_def demo_heap_cells)
qed

text \<open>
  C18. What \<open>count(max)\<close> returns, on any mailbox: the number of messages in it, at most the limit, but for
  the limit 0, with which it returns the number of cached messages, however many. It touches nothing when
  the cache alone reaches the limit. Otherwise it fetches, which is a failed assertion when the reader is
  blocked or the queue closed; and if there were both messages fetched earlier and newer ones it puts the newer
  ones in front: they are popped out of order afterwards.
\<close>

theorem mailbox_count_reorders:
  assumes "mbox_rel h s m hs ss c1 c2"
  defines "n \<equiv> length c1 + length c2"
  shows "if mx \<le> n then queue_count mx h s = ok (if mx = 0 then n else mx, h, s)
    else if m \<noteq> Ready then queue_count mx h s = fail Assert_Failed
    else \<exists>h' s'. queue_count mx h s = ok (min mx (n + length hs + length ss), h', s') \<and>
           mailbox h s Ready (hs @ rev ss) c1 c2 \<and> mailbox h' s' Ready (rev ss @ hs) c1 c2 \<and> cell h' = cell h \<and>
           (hs \<noteq> [] \<and> ss \<noteq> [] \<longrightarrow>
              (\<exists>h'' s''. try_pop h' s' = ok (Node (last ss), h'', s'')) \<and> last ss \<noteq> hd hs)"
proof -
  consider "mx \<le> n" | "n < mx" "m \<noteq> Ready" | "n < mx" "m = Ready"
    by linarith
  then show ?thesis
  proof cases
    case 1
    with queue_count_cache [OF assms(1), of mx] show ?thesis
      by (simp add: n_def)
  next
    case 2
    then have "queue_count mx h s = fail Assert_Failed"
      using queue_count_fault [OF assms(1)] by (simp add: n_def)
    with 2 show ?thesis by simp
  next
    case 3
    have r: "mbox_rel h s Ready hs ss c1 c2"
      using assms(1) 3(2) by simp
    obtain h' s' where q: "queue_count mx h s = ok (min mx (n + length hs + length ss), h', s')"
        "mbox_rel h' s' Ready (rev ss @ hs) [] c1 c2" "cell h' = cell h"
      using queue_count_rel [OF r] 3(1) unfolding n_def by blast
    have m: "mailbox h s Ready (hs @ rev ss) c1 c2" "mailbox h' s' Ready (rev ss @ hs) c1 c2"
      using r q(2) by (auto intro: mailboxI)
    have "\<exists>h'' s''. try_pop h' s' = ok (Node (last ss), h'', s'')" "last ss \<noteq> hd hs" if "hs \<noteq> []" "ss \<noteq> []"
    proof -
      have "rev ss @ hs = last ss # tl (rev ss @ hs)"
        using that(2) by (cases ss rule: rev_cases) auto
      with m(2) mailbox_pop [of h' s' Ready "last ss" "tl (rev ss @ hs)" c1 c2]
      show "\<exists>h'' s''. try_pop h' s' = ok (Node (last ss), h'', s'')"
        by metis
      show "last ss \<noteq> hd hs"
        using mbox_relD(4) [OF r] last_in_set [OF that(2)] hd_in_set [OF that(1)] by force
    qed
    with 3 q(1,3) m show ?thesis
      by auto
  qed
qed

lemma mailbox_count_reorders_witness:
  "\<exists>h :: nat heap. \<exists>s h' s' h'' s''. mbox_rel h s Ready [6] [7] [] [] \<and> queue_count 9 h s = ok (2, h', s') \<and>
     try_pop h' s' = ok (Node 7, h'', s'')"
proof -
  obtain h1 s1 where 1: "mbox_rel h1 s1 Ready [] [5] [] []" "cell h1 = cell demo_heap"
    using enqueue_rel [OF demo_mbox_rel, of 5] by (auto simp: demo_heap_cells)
  then obtain h2 s2 where 2: "mbox_rel h2 s2 Ready [] [6, 5] [] []" "cell h2 = cell demo_heap"
    using enqueue_rel [OF 1(1), of 6] by (auto simp: demo_heap_cells live_def)
  obtain h3 s3 hs ss where 3: "mbox_rel h3 s3 Ready [5, 6] [] [] []" "cell h3 = cell demo_heap"
    using fetch_rel [OF 2(1), of "stack_empty_dummy s2" Ready] 2(2) by auto
  note 4 = pop_head(3) [OF 3(1)]
  obtain h5 :: "nat heap" and s5 where 5: "mbox_rel h5 s5 Ready [6] [7] [] []"
    using enqueue_rel [OF 4, of 7] 3(2) by (auto simp: demo_heap_cells live_def)
  obtain h' s' h'' s'' where "queue_count 9 h5 s5 = ok (2, h', s')" "try_pop h' s' = ok (Node 7, h'', s'')"
    using mailbox_count_reorders [OF 5, of 9] by auto
  with 5 show ?thesis by blast
qed

text \<open>
  C20. The cache as two lists: \<open>insert\<close> puts a new message right before the iterator, in the
  partition the iterator belongs to, and leaves the other partition alone; \<open>erase\<close> of that message
  then frees it, returns the iterator it was inserted before, and restores the list.
\<close>

theorem cache_insert_erase:
  assumes "plist_rel h q (a @ b) (c @ d)" and "live h (Node v)" and "v \<notin> set (a @ b @ c @ d)"
  shows "\<exists>h1 h2. pl_insert h (first_or (Sep_S q) b) (Node v) = ok (Node v, h1) \<and>
             plist_rel h1 q (a @ v # b) (c @ d) \<and>
           pl_insert h (first_or (Tail_S q) d) (Node v) = ok (Node v, h2) \<and>
             plist_rel h2 q (a @ b) (c @ v # d) \<and>
           (\<exists>h3. pl_erase h2 (Node v) = ok (first_or (Tail_S q) d, h3) \<and>
                 plist_rel h3 q (a @ b) (c @ d) \<and> \<not> live h3 (Node v))"
proof -
  have v: "v \<notin> set a" "v \<notin> set b" "v \<notin> set c" "v \<notin> set d" "v \<notin> set (a @ b)" "v \<notin> set (c @ d)"
    using assms(3) by auto
  note i1 = pl_insert_1 [OF assms(1) refl v(1,2,6) assms(2)]
  note i2 = pl_insert_2 [OF assms(1) refl v(3,4,5) assms(2)]
  note e = pl_erase_2 [OF i2(2)]
  show ?thesis
    using i1 i2 e by (intro exI conjI) (assumption | simp add: live_def)+
qed

lemma cache_insert_erase_witness:
  "\<exists>h2 h3. pl_insert demo_heap (Tail_S 0) (Node 6) = ok (Node 6, h2) \<and> plist_rel h2 0 [] [6] \<and>
     pl_erase h2 (Node 6) = ok (Tail_S 0, h3) \<and> plist_rel h3 0 [] [] \<and> \<not> live h3 (Node 6)"
  using cache_insert_erase [of demo_heap 0 "[]" "[]" "[]" "[]" 6] mailbox_plist [OF demo_mailbox]
  by (auto simp: demo_heap_cells srq_ctor_def)

end
