(* ===== verification/Executable.thy ===== *)
theory Executable
  imports AF_Prelude
begin

text \<open>
  \<open>executor/executable.hpp\<close>: the result with which \<open>executable::run\<close> tells the worker that ran it
  what to do with the job.
\<close>

datatype executable_result = Resume | Awaiting | Done | Shutdown

end
