(* ===== verification/Coop_Actor.thy ===== *)
theory Coop_Actor
  imports Reader_Queue Executable "HOL-Library.Word"
begin

text \<open>
  The scheduling half of an actor: \<open>base/cooperative_actor.hpp\<close> and
  \<open>impl/actor/cooperative_actor.ipp\<close>. The state is the message heap, the actor's own members
  and the rest of the program, \<open>a_env\<close>; the virtual \<open>execute()\<close>, which runs the handler of the
  current message, is the argument \<open>exec\<close> and may change all of it. \<open>hp\<close> is
  \<open>message::is_high_priority\<close>.
\<close>

section \<open>State\<close>

text \<open>The enumeration \<open>cooperative_actor::state\<close>, the values of \<open>flags_\<close>.\<close>

datatype run_state = St_Empty | St_Busy

text \<open>
  \<open>a_executor\<close> is the device last passed in (\<open>None\<close> for the null pointer), \<open>a_rc\<close> the reference
  count of \<open>ref_counted\<close>, \<open>a_alive\<close> whether \<open>delete this\<close> has not run.
\<close>

record ('m, 'e) act =
  a_heap :: "'m heap"
  a_mbox :: srq
  a_flags :: run_state
  a_current :: ptr
  a_executor :: "nat option"
  a_rc :: "64 word"
  a_alive :: bool
  a_env :: 'e

section \<open>The code\<close>

text \<open>
  Mailbox operations on the actor's own mailbox, threading the heap.
\<close>

definition act_try_pop :: "('m, 'e) act \<Rightarrow> (ptr \<times> ('m, 'e) act) eff" where
  "act_try_pop s =
     and_then (try_pop (a_heap s) (a_mbox s)) (\<lambda>(p, h, q).
     ok (p, s\<lparr>a_heap := h, a_mbox := q\<rparr>))"

definition act_insert :: "ptr \<Rightarrow> ptr \<Rightarrow> ('m, 'e) act \<Rightarrow> ('m, 'e) act eff" where
  "act_insert it v s = and_then (pl_insert (a_heap s) it v) (\<lambda>(_, h). ok (s\<lparr>a_heap := h\<rparr>))"

definition act_take :: "ptr \<Rightarrow> ('m, 'e) act \<Rightarrow> (ptr \<times> ('m, 'e) act) eff" where
  "act_take it s = and_then (pl_take (a_heap s) it) (\<lambda>(p, h). ok (p, s\<lparr>a_heap := h\<rparr>))"

definition act_delete :: "ptr \<Rightarrow> ('m, 'e) act \<Rightarrow> ('m, 'e) act eff" where
  "act_delete p s = and_then (delete_node (a_heap s) p) (\<lambda>h. ok (s\<lparr>a_heap := h\<rparr>))"

definition act_try_block :: "('m, 'e) act \<Rightarrow> bool \<times> ('m, 'e) act" where
  "act_try_block s = (let (b, q) = try_block (a_mbox s) in (b, s\<lparr>a_mbox := q\<rparr>))"

definition act_try_unblock :: "('m, 'e) act \<Rightarrow> bool \<times> ('m, 'e) act" where
  "act_try_unblock s = (let (b, q) = try_unblock (a_mbox s) in (b, s\<lparr>a_mbox := q\<rparr>))"

abbreviation cache_begin :: "('m, 'e) act \<Rightarrow> ptr" where
  "cache_begin s \<equiv> pl_begin (q_this (a_mbox s)) (a_heap s)"

abbreviation cache_separator :: "('m, 'e) act \<Rightarrow> ptr" where
  "cache_separator s \<equiv> pl_separator (q_this (a_mbox s))"

abbreviation cache_continuation :: "('m, 'e) act \<Rightarrow> ptr" where
  "cache_continuation s \<equiv> pl_continuation (q_this (a_mbox s)) (a_heap s)"

abbreviation cache_end :: "('m, 'e) act \<Rightarrow> ptr" where
  "cache_end s \<equiv> pl_end (q_this (a_mbox s))"

abbreviation cache_empty :: "('m, 'e) act \<Rightarrow> bool" where
  "cache_empty s \<equiv> pl_empty (q_this (a_mbox s)) (a_heap s)"

text \<open>
  \<open>next_message\<close>: move everything the queue holds into the first partition of the cache, high
  priority before \<open>hp_pos\<close>, then take the first element.
\<close>

partial_function (option) next_message_loop ::
  "('m \<Rightarrow> bool) \<Rightarrow> ptr \<Rightarrow> ptr \<Rightarrow> ptr \<Rightarrow> ('m, 'e) act \<Rightarrow> ('m, 'e) act eff" where
  "next_message_loop hp e hp_pos tmp s =
     (if tmp = Null then ok s
      else and_then (get_value (a_heap s) tmp) (\<lambda>v.
           and_then (act_insert (if hp v then hp_pos else e) tmp s) (\<lambda>s.
           and_then (if hp_pos = e \<and> \<not> hp v then iter_dec (a_heap s) hp_pos else ok hp_pos) (\<lambda>hp_pos.
           and_then (act_try_pop s) (\<lambda>(tmp, s). next_message_loop hp e hp_pos tmp s)))))"

declare next_message_loop.simps [code]

definition next_message :: "('m \<Rightarrow> bool) \<Rightarrow> ('m, 'e) act \<Rightarrow> (ptr \<times> ('m, 'e) act) eff" where
  "next_message hp s =
     (let i = cache_begin s; e = cache_separator s in
      and_then (if i = e then ok True
                else and_then (get_value (a_heap s) i) (\<lambda>v. ok (\<not> hp v))) (\<lambda>fetch.
      and_then (if fetch
                then and_then (act_try_pop s) (\<lambda>(tmp, s). next_message_loop hp e i tmp s)
                else ok s) (\<lambda>s.
      let i = cache_begin s in
      if i \<noteq> e then act_take i s else ok (Null, s))))"

definition has_next_message :: "('m, 'e) act \<Rightarrow> bool eff" where
  "has_next_message s =
     (if cache_begin s \<noteq> cache_separator s then ok True else can_fetch_more (a_mbox s))"

text \<open>
  \<open>std::partition_point(i, e, high_priority)\<close> on a range partitioned by the predicate: the
  first element that is not high priority.
\<close>

partial_function (option) partition_point ::
  "('m \<Rightarrow> bool) \<Rightarrow> ptr \<Rightarrow> ptr \<Rightarrow> 'm heap \<Rightarrow> ptr eff" where
  "partition_point hp i e h =
     (if i = e then ok i
      else and_then (get_value h i) (\<lambda>v.
           if hp v then and_then (iter_inc h i) (\<lambda>i. partition_point hp i e h) else ok i))"

declare partition_point.simps [code]

definition push_to_cache :: "('m \<Rightarrow> bool) \<Rightarrow> ptr \<Rightarrow> ('m, 'e) act \<Rightarrow> ('m, 'e) act eff" where
  "push_to_cache hp p s =
     and_then (assert_that (p \<noteq> Null)) (\<lambda>_.
     and_then (get_value (a_heap s) p) (\<lambda>v.
     if \<not> hp v then act_insert (cache_end s) p s
     else and_then (partition_point hp (cache_continuation s) (cache_end s) (a_heap s)) (\<lambda>i.
          act_insert i p s)))"

definition consume ::
  "(('m, 'e) act \<Rightarrow> ('m, 'e) act eff) \<Rightarrow> ptr \<Rightarrow> ('m, 'e) act \<Rightarrow> ('m, 'e) act eff" where
  "consume exec p s = exec (s\<lparr>a_current := p\<rparr>)"

definition reactivate ::
  "(('m, 'e) act \<Rightarrow> ('m, 'e) act eff) \<Rightarrow> ptr \<Rightarrow> ('m, 'e) act \<Rightarrow> ('m, 'e) act eff" where
  "reactivate exec p s = consume exec p s"

text \<open>The body of \<open>consume_from_cache\<close>'s loop returns in its first iteration.\<close>

definition consume_from_cache ::
  "(('m, 'e) act \<Rightarrow> ('m, 'e) act eff) \<Rightarrow> ('m, 'e) act \<Rightarrow> (bool \<times> ('m, 'e) act) eff" where
  "consume_from_cache exec s =
     (let i = cache_continuation s; e = cache_end s in
      if i \<noteq> e
      then and_then (consume exec i s) (\<lambda>s.
           and_then (pl_erase (a_heap s) i) (\<lambda>(_, h). ok (True, s\<lparr>a_heap := h\<rparr>)))
      else ok (False, s))"

definition set_context :: "nat option \<Rightarrow> ('m, 'e) act \<Rightarrow> ('m, 'e) act" where
  "set_context e s = (if e \<noteq> None then s\<lparr>a_executor := e\<rparr> else s)"

definition activate :: "nat option \<Rightarrow> ('m, 'e) act \<Rightarrow> bool \<times> ('m, 'e) act" where
  "activate e s = (True, if e \<noteq> None then set_context e s else s)"

text \<open>
  The \<open>do \<dots> while (!ptr)\<close> loop of \<open>run\<close>. Assigning to the unique pointer \<open>ptr\<close> deletes what it
  held. The result is null when the function is to return \<open>awaiting\<close>, the mailbox being blocked.
\<close>

partial_function (option) acquire ::
  "('m \<Rightarrow> bool) \<Rightarrow> ptr \<Rightarrow> ('m, 'e) act \<Rightarrow> (ptr \<times> ('m, 'e) act) eff" where
  "acquire hp p s =
     and_then (next_message hp s) (\<lambda>(n, s).
     and_then (act_delete p s) (\<lambda>s.
     if n \<noteq> Null then ok (n, s)
     else case act_try_block s of (b, s) \<Rightarrow> if b then ok (Null, s) else acquire hp Null s))"

declare acquire.simps [code]

text \<open>
  The three loops of \<open>run\<close>. The flag \<open>ret\<close> says that the function returned from inside.
\<close>

partial_function (option) run_cache ::
  "('m \<Rightarrow> bool) \<Rightarrow> (('m, 'e) act \<Rightarrow> ('m, 'e) act eff) \<Rightarrow> nat \<Rightarrow> nat \<Rightarrow> ptr \<Rightarrow> ('m, 'e) act \<Rightarrow>
     (bool \<times> nat \<times> ptr \<times> ('m, 'e) act) eff" where
  "run_cache hp exec mx handled p s =
     (if handled < mx \<and> \<not> cache_empty s
      then and_then (acquire hp p s) (\<lambda>(p, s).
           if p = Null then ok (True, handled, p, s)
           else and_then (consume_from_cache exec s) (\<lambda>(_, s). run_cache hp exec mx (Suc handled) p s))
      else ok (False, handled, p, s))"

declare run_cache.simps [code]

partial_function (option) run_new ::
  "('m \<Rightarrow> bool) \<Rightarrow> (('m, 'e) act \<Rightarrow> ('m, 'e) act eff) \<Rightarrow> nat \<Rightarrow> nat \<Rightarrow> ptr \<Rightarrow> ('m, 'e) act \<Rightarrow>
     (bool \<times> ptr \<times> ('m, 'e) act) eff" where
  "run_new hp exec mx handled p s =
     (if handled < mx
      then and_then (acquire hp p s) (\<lambda>(p, s).
           if p = Null then ok (True, p, s)
           else and_then (reactivate exec p s) (\<lambda>s. run_new hp exec mx (Suc handled) p s))
      else ok (False, p, s))"

declare run_new.simps [code]

text \<open>\<open>push_to_cache(std::move(ptr))\<close> leaves \<open>ptr\<close> null, so this loop has no way out but a fault.\<close>

partial_function (option) run_push ::
  "('m \<Rightarrow> bool) \<Rightarrow> ptr \<Rightarrow> ('m, 'e) act \<Rightarrow> (ptr \<times> ('m, 'e) act) eff" where
  "run_push hp p s =
     (if p = Null
      then and_then (next_message hp s) (\<lambda>(n, s).
           and_then (push_to_cache hp n s) (\<lambda>s. run_push hp Null s))
      else ok (p, s))"

declare run_push.simps [code]

definition run ::
  "('m \<Rightarrow> bool) \<Rightarrow> (('m, 'e) act \<Rightarrow> ('m, 'e) act eff) \<Rightarrow> nat option \<Rightarrow> nat \<Rightarrow> ('m, 'e) act \<Rightarrow>
     (executable_result \<times> ('m, 'e) act) eff" where
  "run hp exec e mx s =
     (case activate e s of (active, s) \<Rightarrow>
      if \<not> active then ok (Done, s)
      else and_then (run_cache hp exec mx 0 Null s) (\<lambda>(ret, handled, p, s).
      if ret then and_then (act_delete p s) (\<lambda>s. ok (Awaiting, s))
      else and_then (run_new hp exec mx handled p s) (\<lambda>(ret, p, s).
      if ret then and_then (act_delete p s) (\<lambda>s. ok (Awaiting, s))
      else and_then (run_push hp p s) (\<lambda>(p, s).
      and_then (has_next_message s) (\<lambda>more.
      let s = (if more then s else snd (act_try_block s)) in
      and_then (act_delete p s) (\<lambda>s. ok (Awaiting, s)))))))"

text \<open>
  Reference counting and the life cycle hooks. \<open>deref\<close> deletes the object when the caller holds
  the last reference.
\<close>

definition deref :: "('m, 'e) act \<Rightarrow> ('m, 'e) act" where
  "deref s =
     (if a_rc s = 1 then s\<lparr>a_alive := False\<rparr> else s\<lparr>a_rc := a_rc s - 1\<rparr>)"

definition add_ref_impl :: "('m, 'e) act \<Rightarrow> ('m, 'e) act" where
  "add_ref_impl s =
     (let s = s\<lparr>a_flags := St_Busy\<rparr>; (_, s) = act_try_block s in s\<lparr>a_rc := a_rc s + 1\<rparr>)"

definition release_impl :: "('m, 'e) act \<Rightarrow> ('m, 'e) act" where
  "release_impl s =
     (let s = s\<lparr>a_flags := St_Empty\<rparr>; (_, s) = act_try_unblock s in deref s)"

text \<open>
  \<open>enqueue_base\<close>. \<open>sched d\<close> is \<open>execute(this)\<close> on the device \<open>d\<close> or, for no device, on the
  supervisor's executor. The result of \<open>enqueue\<close> is ignored.
\<close>

definition enqueue_base ::
  "(nat option \<Rightarrow> ('m, 'e) act \<Rightarrow> ('m, 'e) act eff) \<Rightarrow> ptr \<Rightarrow> nat option \<Rightarrow> ('m, 'e) act \<Rightarrow>
     ('m, 'e) act eff" where
  "enqueue_base sched msg e s =
     and_then (assert_that (msg \<noteq> Null)) (\<lambda>_.
     and_then (enqueue (a_heap s) (a_mbox s) msg) (\<lambda>(_, h, q).
     let s = s\<lparr>a_heap := h, a_mbox := q\<rparr> in
     if a_flags s = St_Empty
     then let s = add_ref_impl s in
          if e \<noteq> None then let s = set_context e s in sched (a_executor s) s
          else sched None s
     else ok s))"

text \<open>The constructor; the mailbox object is number \<open>q\<close>, \<open>d\<close> a default constructed message.\<close>

definition coop_ctor :: "nat \<Rightarrow> 'm \<Rightarrow> 'm heap \<Rightarrow> 'e \<Rightarrow> ('m, 'e) act" where
  "coop_ctor q d h env =
     snd (act_try_unblock
       \<lparr>a_heap = pl_ctor q d h, a_mbox = srq_ctor q, a_flags = St_Empty, a_current = Uninit,
        a_executor = None, a_rc = 1, a_alive = True, a_env = env\<rparr>)"

section \<open>What the actor's mailbox holds\<close>

text \<open>
  A frame: objects that are not the mailbox's and that still are as they were in some heap; and, if that
  matters, which mailbox it is. Every lemma below is about a mailbox in a frame, so that it also says that the
  operation leaves alone what belongs to others.
\<close>

record 'm frame =
  fr_box :: "nat option"
  fr_others :: "ptr set"
  fr_heap :: "'m heap"

definition framed :: "'m frame \<Rightarrow> nat \<Rightarrow> nat set \<Rightarrow> 'm heap \<Rightarrow> bool" where
  "framed G q X h \<longleftrightarrow>
     fr_box G \<in> {None, Some q} \<and> plist_foot q X \<inter> fr_others G = {} \<and> agree_off (- fr_others G) (fr_heap G) h"

definition no_frame :: "'m frame" where
  "no_frame = \<lparr>fr_box = None, fr_others = {}, fr_heap = empty_heap\<rparr>"

definition holds_in :: "'m frame \<Rightarrow> ('m, 'e) act \<Rightarrow> qmode \<Rightarrow> nat list \<Rightarrow> nat list \<Rightarrow> nat list \<Rightarrow> bool" where
  "holds_in G s m p c1 c2 \<longleftrightarrow>
     mailbox (a_heap s) (a_mbox s) m p c1 c2 \<and>
     framed G (q_this (a_mbox s)) (set p \<union> set c1 \<union> set c2) (a_heap s)"

abbreviation holds :: "('m, 'e) act \<Rightarrow> qmode \<Rightarrow> nat list \<Rightarrow> nat list \<Rightarrow> nat list \<Rightarrow> bool" where
  "holds \<equiv> holds_in no_frame"

lemma others_no_frame [simp]: "fr_others no_frame = {}"
  by (simp add: no_frame_def)

lemma framed_no_frame [simp]: "framed no_frame q X h"
  by (simp add: framed_def no_frame_def agree_off_def)

lemma holds_def: "holds s m p c1 c2 \<longleftrightarrow> mailbox (a_heap s) (a_mbox s) m p c1 c2"
  by (simp add: holds_in_def)

lemma holds_mailbox: "holds_in G s m p c1 c2 \<Longrightarrow> mailbox (a_heap s) (a_mbox s) m p c1 c2"
  by (simp add: holds_in_def)

text \<open>The largest frame for a mailbox, apart from some further messages \<open>Y\<close>.\<close>

definition frame_of :: "('m, 'e) act \<Rightarrow> nat set \<Rightarrow> 'm frame" where
  "frame_of s Y = \<lparr>fr_box = Some (q_this (a_mbox s)), fr_others = - plist_foot (q_this (a_mbox s)) Y, fr_heap = a_heap s\<rparr>"

lemma holds_frame_of:
  "holds s m p c1 c2 \<Longrightarrow> set p \<union> set c1 \<union> set c2 \<subseteq> Y \<Longrightarrow> holds_in (frame_of s Y) s m p c1 c2"
  unfolding holds_def by (auto simp: holds_in_def framed_def frame_of_def agree_off_def plist_foot_def)

lemma holds_in_frame_of:
  assumes "holds_in (frame_of s Y) s' m p c1 c2"
  shows "holds s' m p c1 c2" and "q_this (a_mbox s') = q_this (a_mbox s)"
    and "agree_off (plist_foot (q_this (a_mbox s)) Y) (a_heap s) (a_heap s')"
  using assms unfolding holds_def by (auto simp: holds_in_def framed_def frame_of_def)

lemma holds_apart: "holds_in G s m p c1 c2 \<Longrightarrow> x \<in> set p \<union> set c1 \<union> set c2 \<Longrightarrow> Node x \<notin> fr_others G"
  by (auto simp: holds_in_def framed_def plist_foot_def)

text \<open>An operation that changes own objects only stays in the frame.\<close>

lemma framed_step:
  assumes "framed G q X h" and "agree_off A h h'" and "A \<subseteq> plist_foot q Y" and "X' \<subseteq> Y" and "\<forall>y \<in> Y - X. Node y \<notin> fr_others G"
  shows "framed G q X' h'"
proof -
  have Y: "plist_foot q Y \<inter> fr_others G = {}"
    using assms(1,5) by (auto simp: framed_def plist_foot_def)
  then have "plist_foot q X' \<inter> fr_others G = {}"
    using plist_foot_mono [OF assms(4), of q] by blast
  moreover have "agree_off (- fr_others G) h h'"
    using Y assms(3) by (intro agree_off_mono [OF assms(2)]) auto
  ultimately show ?thesis
    using assms(1) agree_off_trans by (auto simp: framed_def)
qed

text \<open>\<open>same_rest s s'\<close>: only the heap and the mailbox changed.\<close>

definition same_rest :: "('m, 'e) act \<Rightarrow> ('m, 'e) act \<Rightarrow> bool" where
  "same_rest s s' \<longleftrightarrow>
     q_this (a_mbox s') = q_this (a_mbox s) \<and> a_flags s' = a_flags s \<and> a_current s' = a_current s \<and>
     a_executor s' = a_executor s \<and> a_rc s' = a_rc s \<and> a_alive s' = a_alive s \<and> a_env s' = a_env s"

lemma same_rest_refl [simp]: "same_rest s s"
  by (simp add: same_rest_def)

lemma same_rest_trans: "same_rest s s1 \<Longrightarrow> same_rest s1 s2 \<Longrightarrow> same_rest s s2"
  by (simp add: same_rest_def)

lemma same_rest_upd [simp]:
  "same_rest s (s'\<lparr>a_heap := h\<rparr>) = same_rest s s'"
  "same_rest s (s'\<lparr>a_heap := h, a_mbox := q\<rparr>) \<longleftrightarrow>
     q_this q = q_this (a_mbox s) \<and> same_rest s (s'\<lparr>a_mbox := a_mbox s\<rparr>)"
  "same_rest s (s'\<lparr>a_mbox := q\<rparr>) \<longleftrightarrow>
     q_this q = q_this (a_mbox s) \<and> same_rest s (s'\<lparr>a_mbox := a_mbox s\<rparr>)"
  by (auto simp: same_rest_def)

lemma same_rest_fields:
  assumes "same_rest s s'"
  shows "a_flags s' = a_flags s" and "a_current s' = a_current s" and "a_executor s' = a_executor s"
    and "a_rc s' = a_rc s" and "a_alive s' = a_alive s" and "a_env s' = a_env s"
    and "q_this (a_mbox s') = q_this (a_mbox s)"
  using assms by (simp_all add: same_rest_def)

abbreviation content :: "('m, 'e) act \<Rightarrow> nat \<Rightarrow> 'm" where
  "content s x \<equiv> the (cell (a_heap s) (Node x))"

lemma holds_cache:
  assumes "holds_in G s m p c1 c2"
  shows "cache_begin s = first_or (Sep_S (q_this (a_mbox s))) c1"
    and "cache_continuation s = first_or (Tail_S (q_this (a_mbox s))) c2"
    and "cache_empty s \<longleftrightarrow> c1 = [] \<and> c2 = []"
    and "cache_separator s = Sep_S (q_this (a_mbox s))"
    and "cache_end s = Tail_S (q_this (a_mbox s))"
  using plist_relD(1-3) [OF mailbox_plist [OF assms [THEN holds_mailbox]]]
  by (simp_all add: pl_separator_def pl_end_def)

lemma holds_distinct: "holds_in G s m p c1 c2 \<Longrightarrow> distinct (p @ c1 @ c2)"
  by (rule mailbox_distinct [OF holds_mailbox])

lemma holds_live: "holds_in G s m p c1 c2 \<Longrightarrow> x \<in> set p \<union> set c1 \<union> set c2 \<Longrightarrow> live (a_heap s) (Node x)"
  by (rule mailbox_live [OF holds_mailbox])

lemma act_pop:
  assumes "holds_in G s m (x # p) c1 c2"
  shows "\<exists>s'. act_try_pop s = ok (Node x, s') \<and> holds_in G s' m p c1 c2 \<and> same_rest s s' \<and>
           cell (a_heap s') = cell (a_heap s)"
proof -
  obtain h q where hq: "try_pop (a_heap s) (a_mbox s) = ok (Node x, h, q)" "mailbox h q m p c1 c2"
      "q_this q = q_this (a_mbox s)" "cell h = cell (a_heap s)" "agree_off (Node ` set (x # p)) (a_heap s) h"
    using mailbox_pop [OF assms [THEN holds_mailbox]] by blast
  have "framed G (q_this q) (set p \<union> set c1 \<union> set c2) h"
    using assms unfolding hq(3) holds_in_def
    by (intro framed_step [OF _ hq(5), of _ _ _ "set (x # p) \<union> set c1 \<union> set c2"]) (auto simp: plist_foot_def)
  with hq show ?thesis
    by (intro exI [of _ "s\<lparr>a_heap := h, a_mbox := q\<rparr>"]) (simp add: act_try_pop_def holds_in_def)
qed

lemma act_pop_empty:
  assumes "holds_in G s m [] c1 c2"
  shows "act_try_pop s = (if m = Ready then ok (Null, s) else fail Assert_Failed)"
  using mailbox_pop_empty [OF assms [THEN holds_mailbox]] by (simp add: act_try_pop_def)

lemma act_insert_1:
  assumes "holds_in G s m p (a @ b) c2" and "it = first_or (Sep_S (q_this (a_mbox s))) b"
    and "live (a_heap s) (Node v)" "v \<notin> set p \<union> set a \<union> set b \<union> set c2" and v: "Node v \<notin> fr_others G"
  shows "\<exists>s'. act_insert it (Node v) s = ok s' \<and> holds_in G s' m p (a @ v # b) c2 \<and> same_rest s s' \<and>
           cell (a_heap s') = cell (a_heap s) \<and> prv (a_heap s') it = Node v"
proof -
  obtain h where h: "pl_insert (a_heap s) it (Node v) = ok (Node v, h)" "mailbox h (a_mbox s) m p (a @ v # b) c2"
      "cell h = cell (a_heap s)" "prv h it = Node v" "agree_off (plist_foot (q_this (a_mbox s)) (insert v (set (a @ b)))) (a_heap s) h"
    using mailbox_insert_1 [OF assms(1) [THEN holds_mailbox] assms(2-4)] by blast
  have "framed G (q_this (a_mbox s)) (set p \<union> set (a @ v # b) \<union> set c2) h"
    using assms(1) v unfolding holds_in_def
    by (intro framed_step [OF _ h(5), of _ _ _ "set p \<union> set (a @ v # b) \<union> set c2"]) (auto simp: plist_foot_def)
  with h show ?thesis
    by (intro exI [of _ "s\<lparr>a_heap := h\<rparr>"]) (simp add: act_insert_def holds_in_def)
qed

lemma act_insert_2:
  assumes "holds_in G s m p c1 (a @ b)" and "it = first_or (Tail_S (q_this (a_mbox s))) b"
    and "live (a_heap s) (Node v)" "v \<notin> set p \<union> set c1 \<union> set a \<union> set b" and v: "Node v \<notin> fr_others G"
  shows "\<exists>s'. act_insert it (Node v) s = ok s' \<and> holds_in G s' m p c1 (a @ v # b) \<and> same_rest s s' \<and>
           cell (a_heap s') = cell (a_heap s)"
proof -
  obtain h where h: "pl_insert (a_heap s) it (Node v) = ok (Node v, h)" "mailbox h (a_mbox s) m p c1 (a @ v # b)"
      "cell h = cell (a_heap s)" "agree_off (plist_foot (q_this (a_mbox s)) (insert v (set (a @ b)))) (a_heap s) h"
    using mailbox_insert_2 [OF assms(1) [THEN holds_mailbox] assms(2-4)] by blast
  have "framed G (q_this (a_mbox s)) (set p \<union> set c1 \<union> set (a @ v # b)) h"
    using assms(1) v unfolding holds_in_def
    by (intro framed_step [OF _ h(4), of _ _ _ "set p \<union> set c1 \<union> set (a @ v # b)"]) (auto simp: plist_foot_def)
  with h show ?thesis
    by (intro exI [of _ "s\<lparr>a_heap := h\<rparr>"]) (simp add: act_insert_def holds_in_def)
qed

lemma act_take_first:
  assumes "holds_in G s m p (x # c1) c2"
  shows "\<exists>s'. act_take (Node x) s = ok (Node x, s') \<and> holds_in G s' m p c1 c2 \<and> same_rest s s' \<and>
           cell (a_heap s') = cell (a_heap s)"
proof -
  obtain h where h: "pl_take (a_heap s) (Node x) = ok (Node x, h)" "mailbox h (a_mbox s) m p c1 c2"
      "cell h = cell (a_heap s)" "agree_off (plist_foot (q_this (a_mbox s)) (set (x # c1))) (a_heap s) h"
    using mailbox_take_first [OF assms [THEN holds_mailbox]] by blast
  have "framed G (q_this (a_mbox s)) (set p \<union> set c1 \<union> set c2) h"
    using assms unfolding holds_in_def
    by (intro framed_step [OF _ h(4), of _ _ _ "set p \<union> set (x # c1) \<union> set c2"]) (auto simp: plist_foot_def)
  with h show ?thesis
    by (intro exI [of _ "s\<lparr>a_heap := h\<rparr>"]) (simp add: act_take_def holds_in_def)
qed

lemma act_delete_free:
  assumes "holds_in G s m p c1 c2" and "live (a_heap s) (Node x)" and "x \<notin> set p \<union> set c1 \<union> set c2" and v: "Node x \<notin> fr_others G"
  shows "\<exists>s'. act_delete (Node x) s = ok s' \<and> holds_in G s' m p c1 c2 \<and> same_rest s s' \<and>
           cell (a_heap s') = (cell (a_heap s))(Node x := None)"
proof -
  let ?h = "(a_heap s)\<lparr>cell := (cell (a_heap s))(Node x := None)\<rparr>"
  have a: "agree_off {Node x} (a_heap s) ?h"
    by (simp add: agree_off_def)
  have "framed G (q_this (a_mbox s)) (set p \<union> set c1 \<union> set c2) ?h"
    using assms(1) v unfolding holds_in_def
    by (intro framed_step [OF _ a, of _ _ _ "insert x (set p \<union> set c1 \<union> set c2)"]) (auto simp: plist_foot_def)
  with mailbox_delete [OF assms(1) [THEN holds_mailbox] assms(3)] assms(2) show ?thesis
    by (simp add: act_delete_def holds_in_def heap_simps)
qed

lemma act_delete_Null [simp]: "act_delete Null s = ok s"
  by (simp add: act_delete_def heap_simps)

section \<open>Taking the next message\<close>

text \<open>
  One iteration: a high priority message goes to the end of the part before \<open>hp_pos\<close>, any other
  to the end of the partition; \<open>hp_pos\<close> stays the first message that is not high priority.
\<close>

lemma next_message_loop_step:
  fixes hp :: "'m \<Rightarrow> bool" and s :: "('m, 'e) act"
  assumes "holds_in G s m p (a @ b) c2" and "live (a_heap s) (Node x)"
    and "x \<notin> set p \<union> set a \<union> set b \<union> set c2" and f: "Node x \<notin> fr_others G"
    and e: "e = Sep_S (q_this (a_mbox s))" and pos: "hp_pos = first_or e b"
  defines "a' \<equiv> if hp (content s x) then a @ [x] else a"
    and "b' \<equiv> if hp (content s x) then b else b @ [x]"
  shows "\<exists>s' pos'. pos' = first_or e b' \<and> next_message_loop hp e hp_pos (Node x) s =
             and_then (act_try_pop s') (\<lambda>(tmp, s'). next_message_loop hp e pos' tmp s') \<and>
           holds_in G s' m p (a' @ b') c2 \<and> same_rest s s' \<and> cell (a_heap s') = cell (a_heap s)"
proof (cases "hp (content s x)")
  case True
  obtain s' where s': "act_insert hp_pos (Node x) s = ok s'" "holds_in G s' m p (a @ x # b) c2"
      "same_rest s s'" "cell (a_heap s') = cell (a_heap s)"
    using act_insert_1 [OF assms(1) pos [unfolded e] assms(2,3) f] by blast
  have "hp_pos = first_or e b'" "holds_in G s' m p (a' @ b') c2"
    using s'(2) True by (simp_all add: pos a'_def b'_def)
  moreover have "next_message_loop hp e hp_pos (Node x) s =
      and_then (act_try_pop s') (\<lambda>(tmp, s'). next_message_loop hp e hp_pos tmp s')"
    using s'(1) True assms(2) by (subst next_message_loop.simps) (simp add: heap_simps)
  ultimately show ?thesis
    using s'(3,4) by blast
next
  case False
  have h: "holds_in G s m p ((a @ b) @ []) c2"
    using assms(1) by simp
  obtain s' where s': "act_insert e (Node x) s = ok s'" "holds_in G s' m p ((a @ b) @ [x]) c2"
      "same_rest s s'" "cell (a_heap s') = cell (a_heap s)" "prv (a_heap s') e = Node x"
    using act_insert_1 [OF h, of e x] assms(2,3) f e by auto
  have "live (a_heap s') e"
    using mailbox_plist [OF s'(2) [THEN holds_mailbox]] same_rest_fields(7) [OF s'(3)] e
    by (simp add: plist_rel_def)
  moreover have "hp_pos = e \<longleftrightarrow> b = []"
    by (cases b) (simp_all add: pos e)
  moreover define pos' where "pos' = (if b = [] then Node x else hp_pos)"
  ultimately have "(if hp_pos = e then iter_dec (a_heap s') hp_pos else ok hp_pos) = ok pos'"
    using s'(5) by (auto simp: iter_dec_def heap_simps)
  then have "next_message_loop hp e hp_pos (Node x) s =
      and_then (act_try_pop s') (\<lambda>(tmp, s'). next_message_loop hp e pos' tmp s')"
    using s'(1) False assms(2) by (subst next_message_loop.simps) (simp add: heap_simps)
  moreover have "pos' = first_or e b'" "holds_in G s' m p (a' @ b') c2"
    using s'(2) False by (cases b; simp add: pos pos'_def a'_def b'_def)+
  ultimately show ?thesis
    using s'(3,4) by blast
qed

lemma next_message_loop_ok:
  assumes "holds_in G s Ready p (a @ b) c2" and "live (a_heap s) (Node x)"
    and "x \<notin> set p \<union> set a \<union> set b \<union> set c2" and "Node x \<notin> fr_others G"
    and "e = Sep_S (q_this (a_mbox s))" and "hp_pos = first_or e b"
  shows "\<exists>s'. next_message_loop hp e hp_pos (Node x) s = ok s' \<and>
           holds_in G s' Ready [] ((a @ filter (\<lambda>y. hp (content s y)) (x # p)) @
                             (b @ filter (\<lambda>y. \<not> hp (content s y)) (x # p))) c2 \<and>
           same_rest s s' \<and> cell (a_heap s') = cell (a_heap s)"
  using assms
proof (induction p arbitrary: a b x hp_pos s)
  case Nil
  let ?a = "if hp (content s x) then a @ [x] else a" and ?b = "if hp (content s x) then b else b @ [x]"
  obtain s' pos' where s': "next_message_loop hp e hp_pos (Node x) s =
        and_then (act_try_pop s') (\<lambda>(tmp, s'). next_message_loop hp e pos' tmp s')"
      "holds_in G s' Ready [] (?a @ ?b) c2" "same_rest s s'" "cell (a_heap s') = cell (a_heap s)"
    using next_message_loop_step [OF Nil] by blast
  with act_pop_empty [OF s'(2)] show ?case
    by (auto simp: next_message_loop.simps [of _ _ _ Null])
next
  case (Cons y p)
  let ?a = "if hp (content s x) then a @ [x] else a" and ?b = "if hp (content s x) then b else b @ [x]"
  obtain s1 pos' where s1: "next_message_loop hp e hp_pos (Node x) s =
        and_then (act_try_pop s1) (\<lambda>(tmp, s'). next_message_loop hp e pos' tmp s')"
      "holds_in G s1 Ready (y # p) (?a @ ?b) c2" "same_rest s s1" "cell (a_heap s1) = cell (a_heap s)"
      "pos' = first_or e ?b"
    using next_message_loop_step [OF Cons.prems] by blast
  obtain s2 where s2: "act_try_pop s1 = ok (Node y, s2)" "holds_in G s2 Ready p (?a @ ?b) c2"
      "same_rest s1 s2" "cell (a_heap s2) = cell (a_heap s1)"
    using act_pop [OF s1(2)] by blast
  have y: "live (a_heap s2) (Node y)" "y \<notin> set p \<union> set ?a \<union> set ?b \<union> set c2" "Node y \<notin> fr_others G"
    using holds_live [OF s1(2), of y] holds_distinct [OF s1(2)] holds_apart [OF s1(2), of y] s2(4) by (auto simp: live_def)
  have e: "e = Sep_S (q_this (a_mbox s2))"
    using Cons.prems(5) s1(3) s2(3) by (simp add: same_rest_fields)
  obtain s3 where s3: "next_message_loop hp e (first_or e ?b) (Node y) s2 = ok s3"
      "holds_in G s3 Ready [] ((?a @ filter (\<lambda>z. hp (content s2 z)) (y # p)) @
                         (?b @ filter (\<lambda>z. \<not> hp (content s2 z)) (y # p))) c2"
      "same_rest s2 s3" "cell (a_heap s3) = cell (a_heap s2)"
    using Cons.IH [OF s2(2) y e refl] by blast
  have "holds_in G s3 Ready [] ((a @ filter (\<lambda>z. hp (content s z)) (x # y # p)) @
                          (b @ filter (\<lambda>z. \<not> hp (content s z)) (x # y # p))) c2"
    using s3(2) s1(4) s2(4) by (simp split: if_splits)
  moreover have "next_message_loop hp e hp_pos (Node x) s = ok s3"
    using s1(1,5) s2(1) s3(1) by simp
  moreover have "same_rest s s3" "cell (a_heap s3) = cell (a_heap s)"
    using s1(3,4) s2(3,4) s3(3,4) by (auto intro: same_rest_trans)
  ultimately show ?case by blast
qed

text \<open>
  \<open>next_message\<close>: the pending messages are sorted into the first partition, the high priority
  ones first and each class in order of arrival, unless the next message is of high priority
  already; then the first message of the partition is taken.
\<close>

definition sorted_in :: "('m \<Rightarrow> bool) \<Rightarrow> ('m, 'e) act \<Rightarrow> nat list \<Rightarrow> nat list \<Rightarrow> nat list" where
  "sorted_in hp s p c1 =
     filter (\<lambda>y. hp (content s y)) p @ c1 @ filter (\<lambda>y. \<not> hp (content s y)) p"

lemma next_message_fetch:
  assumes h: "holds_in G s Ready p c1 c2" and n: "c1 = [] \<or> \<not> hp (content s (hd c1))"
  shows "\<exists>s'. and_then (act_try_pop s) (\<lambda>(tmp, t).
             next_message_loop hp (Sep_S (q_this (a_mbox s))) (first_or (Sep_S (q_this (a_mbox s))) c1) tmp t) = ok s' \<and>
           holds_in G s' Ready [] (sorted_in hp s p c1) c2 \<and> same_rest s s' \<and>
           cell (a_heap s') = cell (a_heap s)"
proof (cases p)
  case Nil
  with act_pop_empty [of G s Ready c1 c2] h show ?thesis
    by (simp add: next_message_loop.simps [of _ _ _ Null] sorted_in_def)
next
  case (Cons x p')
  obtain s1 where s1: "act_try_pop s = ok (Node x, s1)" "holds_in G s1 Ready p' c1 c2" "same_rest s s1"
      "cell (a_heap s1) = cell (a_heap s)"
    using act_pop h Cons by blast
  have x: "live (a_heap s1) (Node x)" "x \<notin> set p' \<union> set c1 \<union> set c2" "Node x \<notin> fr_others G"
    using holds_live [OF h, of x] holds_distinct [OF h] holds_apart [OF h, of x] s1(4) Cons by (auto simp: live_def)
  let ?e = "Sep_S (q_this (a_mbox s1))"
  obtain s2 where "next_message_loop hp ?e (first_or ?e c1) (Node x) s1 = ok s2"
      "holds_in G s2 Ready [] (([] @ filter (\<lambda>y. hp (content s1 y)) (x # p')) @
                         (c1 @ filter (\<lambda>y. \<not> hp (content s1 y)) (x # p'))) c2"
      "same_rest s1 s2" "cell (a_heap s2) = cell (a_heap s1)"
    using next_message_loop_ok [of G s1 p' "[]" c1 c2 x ?e "first_or ?e c1" hp] s1(2) x by auto
  moreover have "([] @ filter (\<lambda>y. hp (content s1 y)) (x # p')) @
      (c1 @ filter (\<lambda>y. \<not> hp (content s1 y)) (x # p')) = sorted_in hp s p c1"
    using s1(4) by (simp add: sorted_in_def Cons)
  ultimately show ?thesis
    using s1 same_rest_fields(7) [OF s1(3)] same_rest_trans
    by (auto simp: pl_separator_def)
qed

lemma next_message_ok:
  fixes hp :: "'m \<Rightarrow> bool" and s :: "('m, 'e) act"
  assumes h: "holds_in G s Ready p c1 c2"
  defines "keep \<equiv> c1 \<noteq> [] \<and> hp (content s (hd c1))"
  defines "q \<equiv> if keep then c1 else sorted_in hp s p c1"
  shows "\<exists>s'. next_message hp s = ok (if q = [] then Null else Node (hd q), s') \<and>
           holds_in G s' Ready (if keep then p else []) (tl q) c2 \<and> same_rest s s' \<and>
           cell (a_heap s') = cell (a_heap s)"
proof -
  let ?e = "Sep_S (q_this (a_mbox s))"
  have fetch: "and_then (if cache_begin s = cache_separator s then ok True
      else and_then (get_value (a_heap s) (cache_begin s)) (\<lambda>v. ok (\<not> hp v))) f = f (\<not> keep)" for f
  proof (cases c1)
    case Nil
    then show ?thesis by (simp add: holds_cache [OF h] keep_def)
  next
    case (Cons x xs)
    then show ?thesis
      using holds_live [OF h, of x] by (simp add: holds_cache [OF h] keep_def heap_simps)
  qed
  let ?fetch = "and_then (act_try_pop s) (\<lambda>(tmp, s). next_message_loop hp ?e (first_or ?e c1) tmp s)"
  have "\<exists>s1. (if \<not> keep then ?fetch else ok s) = ok s1 \<and>
      holds_in G s1 Ready (if keep then p else []) q c2 \<and> same_rest s s1 \<and>
      cell (a_heap s1) = cell (a_heap s)"
    using h next_message_fetch [OF h, of hp]
    by (cases keep) (auto simp: holds_cache [OF h] q_def keep_def)
  then obtain s1 where s1: "(if \<not> keep then ?fetch else ok s) = ok s1"
      "holds_in G s1 Ready (if keep then p else []) q c2" "same_rest s s1"
      "cell (a_heap s1) = cell (a_heap s)"
    by blast
  have n: "next_message hp s =
      (if cache_begin s1 \<noteq> ?e then act_take (cache_begin s1) s1 else ok (Null, s1))"
    unfolding next_message_def Let_def fetch unfolding holds_cache(1,4) [OF h]
    using s1(1) by simp
  have b: "cache_begin s1 = first_or ?e q"
    using holds_cache(1) [OF s1(2)] same_rest_fields(7) [OF s1(3)] by simp
  show ?thesis
  proof (cases q)
    case Nil
    with s1 n b show ?thesis by (intro exI [of _ s1]) simp
  next
    case (Cons x xs)
    then obtain s2 where "act_take (Node x) s1 = ok (Node x, s2)"
        "holds_in G s2 Ready (if keep then p else []) xs c2" "same_rest s1 s2"
        "cell (a_heap s2) = cell (a_heap s1)"
      using act_take_first [of G s1 Ready "if keep then p else []" x xs c2] s1(2) by auto
    with Cons s1(3,4) n b show ?thesis
      by (intro exI [of _ s2]) (auto intro: same_rest_trans)
  qed
qed

section \<open>One run of the actor\<close>

text \<open>
  From here on no message has high priority, as in the code, where
  \<open>message::is_high_priority\<close> returns false. \<open>owned\<close>: what the unique pointer \<open>ptr\<close> of \<open>run\<close> holds
  is a live message outside the mailbox.
\<close>

definition owned_in :: "'m frame \<Rightarrow> ('m, 'e) act \<Rightarrow> ptr \<Rightarrow> nat list \<Rightarrow> bool" where
  "owned_in G s p xs \<longleftrightarrow> p = Null \<or> (\<exists>y. p = Node y \<and> live (a_heap s) p \<and> y \<notin> set xs \<and> p \<notin> fr_others G)"

abbreviation owned :: "('m, 'e) act \<Rightarrow> ptr \<Rightarrow> nat list \<Rightarrow> bool" where
  "owned \<equiv> owned_in no_frame"

lemma owned_Null [simp]: "owned_in G s Null xs"
  by (simp add: owned_in_def)

text \<open>\<open>kept s s' xs\<close>: the messages \<open>xs\<close> have the same content in both states.\<close>

definition kept :: "('m, 'e) act \<Rightarrow> ('m, 'e) act \<Rightarrow> nat set \<Rightarrow> bool" where
  "kept s s' X \<longleftrightarrow> (\<forall>x \<in> X. cell (a_heap s') (Node x) = cell (a_heap s) (Node x))"

lemma kept_trans: "kept s s1 X \<Longrightarrow> kept s1 s2 Y \<Longrightarrow> Z \<subseteq> X \<Longrightarrow> Z \<subseteq> Y \<Longrightarrow> kept s s2 Z"
  by (fastforce simp: kept_def)

lemma kept_content: "kept s s' X \<Longrightarrow> set xs \<subseteq> X \<Longrightarrow> map (content s') xs = map (content s) xs"
  by (auto simp: kept_def)

lemma next_message_plain:
  fixes hp :: "'m \<Rightarrow> bool" and s :: "('m, 'e) act"
  assumes np: "\<forall>m. \<not> hp m" and h: "holds_in G s Ready p c1 c2"
  shows "\<exists>s'. next_message hp s = ok (case c1 @ p of [] \<Rightarrow> Null | x # _ \<Rightarrow> Node x, s') \<and>
           holds_in G s' Ready [] (tl (c1 @ p)) c2 \<and> same_rest s s' \<and> cell (a_heap s') = cell (a_heap s)"
  using next_message_ok [OF h, of hp] np by (cases "c1 @ p") (auto simp: sorted_in_def)

lemma owned_delete:
  assumes "holds_in G s m p c1 c2" and "owned_in G s pr (p @ c1 @ c2)"
  shows "\<exists>s'. act_delete pr s = ok s' \<and> holds_in G s' m p c1 c2 \<and> same_rest s s' \<and>
           cell (a_heap s') = (if pr = Null then cell (a_heap s) else (cell (a_heap s))(pr := None))"
proof (cases "pr = Null")
  case True
  with assms show ?thesis by simp
next
  case False
  with assms(2) obtain y where "pr = Node y" "live (a_heap s) (Node y)" "y \<notin> set p \<union> set c1 \<union> set c2" "Node y \<notin> fr_others G"
    by (auto simp: owned_in_def)
  with act_delete_free [OF assms(1), of y] show ?thesis by simp
qed

lemma acquire_some:
  assumes np: "\<forall>m. \<not> hp m" and h: "holds_in G s Ready p c1 c2" and q: "c1 @ p = x # r"
    and ow: "owned_in G s pr (p @ c1 @ c2)"
  shows "\<exists>s'. acquire hp pr s = ok (Node x, s') \<and> holds_in G s' Ready [] r c2 \<and> same_rest s s' \<and>
           owned_in G s' (Node x) (r @ c2) \<and> kept s s' (set (x # r)) \<and>
           (pr \<noteq> Null \<longrightarrow> \<not> live (a_heap s') pr) \<and>
           (\<forall>y. \<not> live (a_heap s) y \<longrightarrow> \<not> live (a_heap s') y)"
proof -
  obtain s1 where s1: "next_message hp s = ok (Node x, s1)" "holds_in G s1 Ready [] r c2" "same_rest s s1"
      "cell (a_heap s1) = cell (a_heap s)"
    using next_message_plain [OF np h] q by auto
  have set: "set c1 \<union> set p = insert x (set r)"
    using arg_cong [OF q, of set] by simp
  have "owned_in G s1 pr ([] @ r @ c2)"
    using ow s1(4) set by (auto simp: owned_in_def live_def)
  then obtain s2 where s2: "act_delete pr s1 = ok s2" "holds_in G s2 Ready [] r c2" "same_rest s1 s2"
      "cell (a_heap s2) = (if pr = Null then cell (a_heap s1) else (cell (a_heap s1))(pr := None))"
    using owned_delete [OF s1(2)] by blast
  have x: "x \<notin> set r" "x \<notin> set c2" "live (a_heap s) (Node x)" "Node x \<notin> fr_others G"
    using holds_distinct [OF h] set q holds_live [OF h, of x] holds_apart [OF h, of x]
    by (auto simp: append_eq_Cons_conv)
  have pr: "pr \<notin> Node ` set (x # r)"
    using ow set by (auto simp: owned_in_def)
  have "owned_in G s2 (Node x) (r @ c2)" "kept s s2 (set (x # r))"
    using x pr s1(4) s2(4) by (auto simp: owned_in_def kept_def live_def)
  moreover have "acquire hp pr s = ok (Node x, s2)"
    using s1(1) s2(1) by (subst acquire.simps) simp
  moreover have "pr \<noteq> Null \<Longrightarrow> \<not> live (a_heap s2) pr"
      "\<not> live (a_heap s) y \<Longrightarrow> \<not> live (a_heap s2) y" for y
    using s1(4) s2(4) by (auto simp: live_def split: if_splits)
  ultimately show ?thesis
    using s2(2) same_rest_trans [OF s1(3) s2(3)] by blast
qed

lemma act_try_block_ok:
  assumes "holds_in G s Ready [] c1 c2"
  shows "\<exists>s'. act_try_block s = (True, s') \<and> holds_in G s' Blocked [] c1 c2 \<and> same_rest s s' \<and>
           a_heap s' = a_heap s"
  using mailbox_try_block [OF assms [THEN holds_mailbox]] assms
  by (cases "try_block (a_mbox s)") (simp add: act_try_block_def holds_in_def)

lemma acquire_none:
  assumes np: "\<forall>m. \<not> hp m" and h: "holds_in G s Ready [] [] c2" and ow: "owned_in G s pr c2"
  shows "\<exists>s'. acquire hp pr s = ok (Null, s') \<and> holds_in G s' Blocked [] [] c2 \<and> same_rest s s' \<and>
           (pr \<noteq> Null \<longrightarrow> \<not> live (a_heap s') pr) \<and>
           (\<forall>y. \<not> live (a_heap s) y \<longrightarrow> \<not> live (a_heap s') y)"
proof -
  obtain s1 where s1: "next_message hp s = ok (Null, s1)" "holds_in G s1 Ready [] [] c2" "same_rest s s1"
      "cell (a_heap s1) = cell (a_heap s)"
    using next_message_plain [OF np h] by auto
  have "owned_in G s1 pr ([] @ [] @ c2)"
    using ow s1(4) by (auto simp: owned_in_def live_def)
  then obtain s2 where s2: "act_delete pr s1 = ok s2" "holds_in G s2 Ready [] [] c2" "same_rest s1 s2"
      "cell (a_heap s2) = (if pr = Null then cell (a_heap s1) else (cell (a_heap s1))(pr := None))"
    using owned_delete [OF s1(2)] by blast
  obtain s3 where s3: "act_try_block s2 = (True, s3)" "holds_in G s3 Blocked [] [] c2" "same_rest s2 s3"
      "a_heap s3 = a_heap s2"
    using act_try_block_ok [OF s2(2)] by blast
  have "acquire hp pr s = ok (Null, s3)"
    using s1(1) s2(1) s3(1) by (subst acquire.simps) simp
  moreover have "pr \<noteq> Null \<Longrightarrow> \<not> live (a_heap s3) pr"
      "\<not> live (a_heap s) y \<Longrightarrow> \<not> live (a_heap s3) y" for y
    using s1(4) s2(4) s3(4) by (auto simp: live_def split: if_splits)
  ultimately show ?thesis
    using s3(2) same_rest_trans [OF same_rest_trans [OF s1(3) s2(3)] s3(3)] by blast
qed

lemma activate_ok:
  assumes "holds_in G s m p c1 c2"
  shows "\<exists>s1. activate d s = (True, s1) \<and> holds_in G s1 m p c1 c2 \<and> a_heap s1 = a_heap s \<and> a_env s1 = a_env s"
  using assms by (auto simp: activate_def set_context_def holds_in_def)

lemma has_next_message_ok:
  assumes "holds_in G s m p c1 c2" and "m \<noteq> Closed"
  shows "has_next_message s = ok (c1 @ p \<noteq> [])"
  using holds_cache [OF assms(1)] mailbox_can_fetch_more [OF assms(1) [THEN holds_mailbox] assms(2)]
  by (simp add: has_next_message_def)

text \<open>The tail of \<open>run\<close>: the last message is deleted, and the mailbox blocked if it is empty.\<close>

definition run_tail :: "ptr \<Rightarrow> ('m, 'e) act \<Rightarrow> (executable_result \<times> ('m, 'e) act) eff" where
  "run_tail p s =
     and_then (has_next_message s) (\<lambda>more.
     let s = (if more then s else snd (act_try_block s)) in
     and_then (act_delete p s) (\<lambda>s. ok (Awaiting, s)))"

lemma run_tail_ok:
  assumes h: "holds_in G s Ready p c1 []" and ow: "owned_in G s pr (p @ c1)"
  shows "\<exists>s'. run_tail pr s = ok (Awaiting, s') \<and>
           holds_in G s' (if c1 @ p = [] then Blocked else Ready) p c1 [] \<and>
           map (content s') (c1 @ p) = map (content s) (c1 @ p) \<and> a_env s' = a_env s \<and>
           (pr \<noteq> Null \<longrightarrow> \<not> live (a_heap s') pr) \<and> (\<forall>y. \<not> live (a_heap s) y \<longrightarrow> \<not> live (a_heap s') y)"
proof -
  define s1 where "s1 = (if c1 @ p \<noteq> [] then s else snd (act_try_block s))"
  have s1: "holds_in G s1 (if c1 @ p = [] then Blocked else Ready) p c1 []" "a_heap s1 = a_heap s" "a_env s1 = a_env s"
    using h act_try_block_ok [of G s c1 "[]"] by (auto simp: s1_def same_rest_fields)
  have "owned_in G s1 pr (p @ c1 @ [])"
    using ow s1(2) by (simp add: owned_in_def)
  then obtain s2 where s2: "act_delete pr s1 = ok s2" "holds_in G s2 (if c1 @ p = [] then Blocked else Ready) p c1 []"
      "same_rest s1 s2"
      "cell (a_heap s2) = (if pr = Null then cell (a_heap s1) else (cell (a_heap s1))(pr := None))"
    using owned_delete [OF s1(1)] by blast
  have "content s2 x = content s x" if "x \<in> set (c1 @ p)" for x
    using s2(4) s1(2) ow that by (auto simp: owned_in_def)
  then have "map (content s2) (c1 @ p) = map (content s) (c1 @ p)"
    by (intro map_cong) auto
  moreover have "run_tail pr s = ok (Awaiting, s2)"
    using has_next_message_ok [OF h] s2(1) by (simp add: run_tail_def s1_def)
  moreover have "pr \<noteq> Null \<Longrightarrow> \<not> live (a_heap s2) pr" "\<not> live (a_heap s) y \<Longrightarrow> \<not> live (a_heap s2) y" for y
    using s2(4) s1(2) by (auto simp: live_def split: if_splits)
  ultimately show ?thesis
    using s2(2,3) s1(3) by (auto simp: same_rest_fields)
qed

lemma run_unfold:
  assumes "activate d s = (True, s1)"
  shows "run hp exec d mx s =
     and_then (run_cache hp exec mx 0 Null s1) (\<lambda>(ret, handled, p, s).
     if ret then and_then (act_delete p s) (\<lambda>s. ok (Awaiting, s))
     else and_then (run_new hp exec mx handled p s) (\<lambda>(ret, p, s).
     if ret then and_then (act_delete p s) (\<lambda>s. ok (Awaiting, s))
     else and_then (run_push hp p s) (\<lambda>(p, s). run_tail p s)))"
  unfolding run_def run_tail_def using assms by simp

lemma run_push_done: "p \<noteq> Null \<Longrightarrow> run_push hp p s = ok (p, s)"
  by (simp add: run_push.simps)

subsection \<open>Messages left in the cache\<close>

text \<open>
  The first loop of \<open>run\<close> takes a message from the first partition into \<open>ptr\<close> and then asks
  \<open>consume_from_cache\<close>, which looks at the second partition. As the second partition is empty, the
  message is never handled: the next assignment to \<open>ptr\<close> deletes it.
\<close>

lemma consume_from_cache_none:
  "holds_in G s m p c1 [] \<Longrightarrow> consume_from_cache exec s = ok (False, s)"
  using holds_cache [of G s m p c1 "[]"] by (simp add: consume_from_cache_def)

lemma run_cache_drops:
  assumes np: "\<forall>m. \<not> hp m" and "holds_in G s Ready p c1 []" and "c1 \<noteq> [] \<or> p = []"
    and "owned_in G s pr (p @ c1)" and "handled + n = mx" and "k = min n (length (c1 @ p))"
  shows "\<exists>s' pr' p' d1. run_cache hp exec mx handled pr s = ok (False, handled + k, pr', s') \<and>
           holds_in G s' Ready p' d1 [] \<and> d1 @ p' = drop k (c1 @ p) \<and> owned_in G s' pr' (p' @ d1) \<and>
           (k = 0 \<longrightarrow> pr' = pr) \<and> (0 < k \<longrightarrow> pr' = Node ((c1 @ p) ! (k - 1))) \<and> a_env s' = a_env s \<and>
           kept s s' (set (drop k (c1 @ p))) \<and> (d1 = [] \<or> k = n) \<and> (d1 = [] \<longrightarrow> p' = []) \<and>
           (\<forall>x \<in> set (take (k - 1) (c1 @ p)). \<not> live (a_heap s') (Node x)) \<and>
           (\<forall>y. \<not> live (a_heap s) y \<longrightarrow> \<not> live (a_heap s') y) \<and>
           (0 < k \<longrightarrow> pr \<noteq> Null \<longrightarrow> \<not> live (a_heap s') pr)"
  using assms(2-)
proof (induction n arbitrary: s p c1 pr handled k)
  case 0
  then show ?case
    by (subst run_cache.simps, intro exI [of _ s] exI [of _ pr] exI [of _ p] exI [of _ c1])
       (auto simp: kept_def)
next
  case (Suc n)
  show ?case
  proof (cases "c1 = []")
    case True
    with Suc.prems have "cache_empty s" "p = []" "k = 0"
      using holds_cache(3) [OF Suc.prems(1)] by auto
    with Suc.prems True show ?thesis
      by (subst run_cache.simps, intro exI [of _ s] exI [of _ pr] exI [of _ "[]"] exI [of _ "[]"])
         (auto simp: kept_def)
  next
    case False
    then obtain x r where q: "c1 @ p = x # r"
      by (cases c1) auto
    have ce: "\<not> cache_empty s"
      using holds_cache(3) [OF Suc.prems(1)] False by simp
    obtain s1 where s1: "acquire hp pr s = ok (Node x, s1)" "holds_in G s1 Ready [] r []" "same_rest s s1"
        "owned_in G s1 (Node x) (r @ [])" "kept s s1 (set (x # r))" "pr \<noteq> Null \<longrightarrow> \<not> live (a_heap s1) pr"
        "\<forall>y. \<not> live (a_heap s) y \<longrightarrow> \<not> live (a_heap s1) y"
      using acquire_some [OF np Suc.prems(1) q, of pr] Suc.prems(3) by auto
    define k' where "k' = min n (length (r @ []))"
    have k: "k = Suc k'"
      using Suc.prems(5) arg_cong [OF q, of length] by (simp add: k'_def)
    have hn: "Suc handled + n = mx"
      using Suc.prems(4) by simp
    have o1: "owned_in G s1 (Node x) ([] @ r)"
      using s1(4) by simp
    obtain s2 pr' p' d1 where s2: "run_cache hp exec mx (Suc handled) (Node x) s1 = ok (False, Suc handled + k', pr', s2)"
        "holds_in G s2 Ready p' d1 []" "d1 @ p' = drop k' (r @ [])" "owned_in G s2 pr' (p' @ d1)"
        "k' = 0 \<longrightarrow> pr' = Node x" "0 < k' \<longrightarrow> pr' = Node ((r @ []) ! (k' - 1))" "a_env s2 = a_env s1"
        "kept s1 s2 (set (drop k' (r @ [])))" "d1 = [] \<or> k' = n" "d1 = [] \<longrightarrow> p' = []"
        "\<forall>x \<in> set (take (k' - 1) (r @ [])). \<not> live (a_heap s2) (Node x)"
        "\<forall>y. \<not> live (a_heap s1) y \<longrightarrow> \<not> live (a_heap s2) y" "0 < k' \<longrightarrow> Node x \<noteq> Null \<longrightarrow> \<not> live (a_heap s2) (Node x)"
      using Suc.IH [OF s1(2) _ o1 hn k'_def] by blast
    have "run_cache hp exec mx handled pr s = ok (False, handled + k, pr', s2)"
      using ce s1(1) s2(1) k hn consume_from_cache_none [OF s1(2), of exec]
      by (subst run_cache.simps) simp
    moreover have "pr' = Node ((c1 @ p) ! (k - 1))"
      using s2(5,6) k q by (cases k') auto
    moreover have "kept s s2 (set (drop k (c1 @ p)))"
      using s1(5) s2(8) k q by (auto simp: kept_def dest: in_set_dropD)
    moreover have "\<forall>y \<in> set (take (k - 1) (c1 @ p)). \<not> live (a_heap s2) (Node y)"
      using s2(11,13) k q by (cases k') auto
    moreover have "a_env s2 = a_env s"
      using s2(7) same_rest_fields(6) [OF s1(3)] by simp
    moreover have "d1 @ p' = drop k (c1 @ p)" "d1 = [] \<or> k = Suc n"
      using s2(3,9) k q by auto
    ultimately show ?thesis
      using s2(2,4,10,12) s1(6,7) k by (intro exI [of _ s2] exI [of _ pr'] exI [of _ p'] exI [of _ d1]) simp
  qed
qed

lemma run_drops_kept:
  assumes np: "\<forall>m. \<not> hp m" and h: "holds_in G s Ready p c1 []" and c1: "c1 \<noteq> []" and mx: "0 < mx"
  shows "\<exists>s' p' d1. run hp exec d mx s = ok (Awaiting, s') \<and> a_env s' = a_env s \<and>
           holds_in G s' (if length (c1 @ p) \<le> mx then Blocked else Ready) p' d1 [] \<and>
           d1 @ p' = drop mx (c1 @ p) \<and> (\<forall>x \<in> set (take mx (c1 @ p)). \<not> live (a_heap s') (Node x)) \<and>
           (d1 = [] \<longrightarrow> p' = []) \<and> map (content s') (d1 @ p') = map (content s) (d1 @ p')"
proof -
  define q where "q = c1 @ p"
  define k where "k = min mx (length q)"
  have k0: "0 < k"
    using c1 mx by (simp add: k_def q_def)
  obtain s1 where s1: "activate d s = (True, s1)" "holds_in G s1 Ready p c1 []" "a_heap s1 = a_heap s"
      "a_env s1 = a_env s"
    using activate_ok [OF h] by blast
  have n: "0 + mx = mx" "c1 \<noteq> [] \<or> p = []"
    using c1 by simp_all
  obtain s2 pr p' d1 where s2: "run_cache hp exec mx 0 Null s1 = ok (False, k, pr, s2)"
      "holds_in G s2 Ready p' d1 []" "d1 @ p' = drop k q" "owned_in G s2 pr (p' @ d1)" "pr = Node (q ! (k - 1))"
      "a_env s2 = a_env s1" "d1 = [] \<or> k = mx" "d1 = [] \<longrightarrow> p' = []"
      "\<forall>x \<in> set (take (k - 1) q). \<not> live (a_heap s2) (Node x)" "kept s1 s2 (set (drop k q))"
    using run_cache_drops [OF np s1(2) n(2) owned_Null n(1) refl, of exec] k0 unfolding k_def q_def by fastforce
  have dr: "drop k q = drop mx q" "take k q = take mx q"
    by (simp_all add: k_def drop_min_length take_min_length)
  have tk: "take k q = take (k - 1) q @ [q ! (k - 1)]"
  proof -
    have "k - 1 < length q" "Suc (k - 1) = k"
      using k0 unfolding k_def by linarith+
    then show ?thesis
      using take_Suc_conv_app_nth [of "k - 1" q] by simp
  qed
  have fin: "\<forall>x \<in> set (take mx q). \<not> live (a_heap s') (Node x)"
    if "\<forall>y. \<not> live (a_heap s2) y \<longrightarrow> \<not> live (a_heap s') y" "\<not> live (a_heap s') pr" for s' :: "('a, 'b) act"
    using that s2(5,9) unfolding dr(2) [symmetric] tk by auto
  show ?thesis
  proof (cases "k = mx")
    case True
    then have rn: "run_new hp exec mx k pr s2 = ok (False, pr, s2)"
      by (simp add: run_new.simps)
    obtain s3 where s3: "run_tail pr s2 = ok (Awaiting, s3)"
        "holds_in G s3 (if d1 @ p' = [] then Blocked else Ready) p' d1 []" "a_env s3 = a_env s2"
        "pr \<noteq> Null \<longrightarrow> \<not> live (a_heap s3) pr" "\<forall>y. \<not> live (a_heap s2) y \<longrightarrow> \<not> live (a_heap s3) y"
        "map (content s3) (d1 @ p') = map (content s2) (d1 @ p')"
      using run_tail_ok [OF s2(2,4)] by blast
    have k3: "map (content s3) (d1 @ p') = map (content s) (d1 @ p')"
      unfolding s3(6) using kept_content [OF s2(10), of "d1 @ p'"] s2(3) s1(3) by simp
    have "run hp exec d mx s = ok (Awaiting, s3)"
      using s2(1,5) s3(1) rn by (simp add: run_unfold [OF s1(1)] run_push_done)
    moreover have "(if d1 @ p' = [] then Blocked else Ready) = (if length q \<le> mx then Blocked else Ready)"
      unfolding s2(3) using True by simp
    then have "holds_in G s3 (if length q \<le> mx then Blocked else Ready) p' d1 []"
      using s3(2) by (simp only:)
    moreover have "a_env s3 = a_env s" "d1 @ p' = drop mx q" "\<not> live (a_heap s3) pr"
      using s3(3,4) s2(3,5,6) s1(4) dr(1) by simp_all
    ultimately show ?thesis
      unfolding q_def [symmetric] using fin [OF s3(5)] s2(8) k3 by blast
  next
    case False
    then have l: "length q < mx" "k = length q"
      by (auto simp: k_def)
    then have e: "d1 = []" "p' = []"
      using s2(7,8) False by auto
    obtain s3 where s3: "acquire hp pr s2 = ok (Null, s3)" "holds_in G s3 Blocked [] [] []" "same_rest s2 s3"
        "pr \<noteq> Null \<longrightarrow> \<not> live (a_heap s3) pr" "\<forall>y. \<not> live (a_heap s2) y \<longrightarrow> \<not> live (a_heap s3) y"
      using acquire_none [OF np, of G s2 "[]" pr] s2(2,4) e by auto
    have "run_new hp exec mx k pr s2 = ok (True, Null, s3)"
      using l s3(1) by (subst run_new.simps) simp
    then have "run hp exec d mx s = ok (Awaiting, s3)"
      using s2(1) by (simp add: run_unfold [OF s1(1)])
    moreover have "holds_in G s3 (if length q \<le> mx then Blocked else Ready) [] [] []" "[] @ [] = drop mx q"
      using s3(2) l by simp_all
    moreover have "a_env s3 = a_env s" "\<not> live (a_heap s3) pr"
      using s3(3,4) s2(5,6) s1(4) by (simp_all add: same_rest_fields)
    ultimately show ?thesis
      unfolding q_def [symmetric] using fin [OF s3(5)] by (intro exI [of _ s3] exI [of _ "[]"]) simp
  qed
qed

lemma run_drops:
  assumes "\<forall>m. \<not> hp m" and "holds_in G s Ready p c1 []" and "c1 \<noteq> []" and "0 < mx"
  shows "\<exists>s' p' d1. run hp exec d mx s = ok (Awaiting, s') \<and> a_env s' = a_env s \<and>
           holds_in G s' (if length (c1 @ p) \<le> mx then Blocked else Ready) p' d1 [] \<and>
           d1 @ p' = drop mx (c1 @ p) \<and> (\<forall>x \<in> set (take mx (c1 @ p)). \<not> live (a_heap s') (Node x))"
  using run_drops_kept [OF assms] by blast

subsection \<open>A run with throughput zero\<close>

lemma push_to_cache_ok:
  assumes np: "\<forall>m. \<not> hp m" and "holds_in G s m p c1 c2" and "live (a_heap s) (Node x)"
    and "x \<notin> set p \<union> set c1 \<union> set c2" and "Node x \<notin> fr_others G"
  shows "\<exists>s'. push_to_cache hp (Node x) s = ok s' \<and> holds_in G s' m p c1 (c2 @ [x]) \<and> same_rest s s' \<and>
           cell (a_heap s') = cell (a_heap s)"
proof -
  obtain s' where "act_insert (cache_end s) (Node x) s = ok s'" "holds_in G s' m p c1 (c2 @ [x])" "same_rest s s'"
      "cell (a_heap s') = cell (a_heap s)"
    using act_insert_2 [of G s m p c1 c2 "[]" "cache_end s" x] assms(2-5) holds_cache(5) [OF assms(2)] by auto
  then show ?thesis
    using np assms(3) by (simp add: push_to_cache_def heap_simps)
qed

lemma run_push_faults:
  assumes np: "\<forall>m. \<not> hp m" and "holds_in G s Ready p c1 c2"
  shows "run_push hp Null s = fail Assert_Failed"
  using assms(2)
proof (induction "c1 @ p" arbitrary: s p c1 c2)
  case Nil
  then obtain s1 where "next_message hp s = ok (Null, s1)"
    using next_message_plain [OF np Nil.prems] by auto
  then show ?case
    by (subst run_push.simps) (simp add: push_to_cache_def)
next
  case (Cons x r)
  obtain s1 where s1: "next_message hp s = ok (Node x, s1)" "holds_in G s1 Ready [] r c2"
      "cell (a_heap s1) = cell (a_heap s)"
    using next_message_plain [OF np Cons.prems] Cons.hyps(2) by (auto split: list.splits)
  have "set c1 \<union> set p = insert x (set r)"
    using arg_cong [OF Cons.hyps(2), of set] by auto
  moreover have "distinct (c1 @ p)" "set (c1 @ p) \<inter> set c2 = {}"
    using holds_distinct [OF Cons.prems] by auto
  ultimately have "live (a_heap s1) (Node x)" "x \<notin> set [] \<union> set r \<union> set c2" "Node x \<notin> fr_others G"
    using holds_live [OF Cons.prems, of x] holds_apart [OF Cons.prems, of x] s1(3) unfolding Cons.hyps(2) [symmetric] live_def
    by (auto simp flip: Cons.hyps(2))
  then obtain s2 where s2: "push_to_cache hp (Node x) s1 = ok s2" "holds_in G s2 Ready [] r (c2 @ [x])"
    using push_to_cache_ok [OF np s1(2)] by blast
  have "run_push hp Null s2 = fail Assert_Failed"
    by (rule Cons.hyps(1) [OF _ s2(2)]) simp
  then show ?case
    using s1(1) s2(1) by (subst run_push.simps) simp
qed

lemma run_zero:
  assumes np: "\<forall>m. \<not> hp m" and h: "holds_in G s Ready p c1 c2"
  shows "run hp exec d 0 s = fail Assert_Failed"
proof -
  obtain s1 where s1: "activate d s = (True, s1)" "holds_in G s1 Ready p c1 c2"
    using activate_ok [OF h] by blast
  show ?thesis
    using run_push_faults [OF np s1(2)]
    by (simp add: run_unfold [OF s1(1)] run_cache.simps run_new.simps)
qed

section \<open>Enqueuing and the life cycle\<close>

lemma act_try_block_node:
  assumes "holds_in G s m p c1 c2" and "q_stack (a_mbox s) = Node x"
  shows "act_try_block s = (False, s)"
  using assms(2) by (simp add: act_try_block_def try_block_def stack_empty_dummy_def)

text \<open>
  \<open>enqueue_base\<close> appends the message, and only if the actor was idle takes a reference, marks it
  busy and hands it to the device given, or to the supervisor's executor.
\<close>

lemma enqueue_base_ok:
  assumes h: "holds_in G s m p c1 c2" and op: "m \<noteq> Closed" and x: "live (a_heap s) (Node x)"
    "x \<notin> set p \<union> set c1 \<union> set c2" "Node x \<notin> fr_others G"
  shows "\<exists>s'. holds_in G s' Ready (p @ [x]) c1 c2 \<and> cell (a_heap s') = cell (a_heap s) \<and>
           a_env s' = a_env s \<and> a_current s' = a_current s \<and> a_alive s' = a_alive s \<and> a_flags s' = St_Busy \<and>
           (a_flags s = St_Empty \<longrightarrow> a_rc s' = a_rc s + 1 \<and>
              a_executor s' = (if d = None then a_executor s else d) \<and>
              enqueue_base sched (Node x) d s = sched d s') \<and>
           (a_flags s = St_Busy \<longrightarrow> a_rc s' = a_rc s \<and> a_executor s' = a_executor s \<and>
              enqueue_base sched (Node x) d s = ok s')"
proof -
  obtain h' q' where e: "enqueue (a_heap s) (a_mbox s) (Node x) =
        ok (if m = Blocked then Unblocked_Reader else Success, h', q')"
      "mailbox h' q' Ready (p @ [x]) c1 c2" "cell h' = cell (a_heap s)" "q_stack q' = Node x"
      "q_this q' = q_this (a_mbox s)" "agree_off {Node x} (a_heap s) h'"
    using mailbox_enqueue [OF h [THEN holds_mailbox] op x(1,2)] by blast
  have "framed G (q_this q') (insert x (set p \<union> set c1 \<union> set c2)) h'"
    using h x(3) unfolding e(5) holds_in_def
    by (intro framed_step [OF _ e(6), of _ _ _ "insert x (set p \<union> set c1 \<union> set c2)"]) (auto simp: plist_foot_def)
  note e = e(1-4) this
  let ?s1 = "s\<lparr>a_heap := h', a_mbox := q'\<rparr>"
  have h1: "holds_in G ?s1 Ready (p @ [x]) c1 c2"
    using e(2,5) by (simp add: holds_in_def)
  have u: "enqueue_base sched (Node x) d s =
      (if a_flags ?s1 = St_Empty
       then let s = add_ref_impl ?s1 in
            if d \<noteq> None then let s = set_context d s in sched (a_executor s) s else sched None s
       else ok ?s1)"
    using e(1) by (simp add: enqueue_base_def Let_def)
  show ?thesis
  proof (cases "a_flags s")
    case St_Busy
    with u h1 e(3) show ?thesis by (intro exI [of _ ?s1]) simp
  next
    case St_Empty
    let ?s2 = "add_ref_impl ?s1"
    have b: "act_try_block (?s1\<lparr>a_flags := St_Busy\<rparr>) = (False, ?s1\<lparr>a_flags := St_Busy\<rparr>)"
      using h1 e(4) by (intro act_try_block_node [of G _ Ready "p @ [x]" c1 c2 x]) (simp_all add: holds_in_def)
    then have s2: "?s2 = ?s1\<lparr>a_flags := St_Busy, a_rc := a_rc s + 1\<rparr>"
      by (simp add: add_ref_impl_def)
    with h1 have h2: "holds_in G (set_context d ?s2) Ready (p @ [x]) c1 c2"
      by (simp add: holds_in_def set_context_def)
    have "enqueue_base sched (Node x) d s = sched d (set_context d ?s2)"
      using u St_Empty by (auto simp: set_context_def Let_def)
    with h2 St_Empty s2 e(3) show ?thesis
      by (intro exI [of _ "set_context d ?s2"]) (simp add: set_context_def)
  qed
qed

lemma release_ok:
  assumes "holds_in G s m p c1 c2"
  shows "holds_in G (release_impl s) (if m = Blocked then Ready else m) p c1 c2"
    and "a_flags (release_impl s) = St_Empty" and "a_heap (release_impl s) = a_heap s"
    and "a_env (release_impl s) = a_env s"
    and "a_rc s \<noteq> 1 \<Longrightarrow> a_rc (release_impl s) = a_rc s - 1 \<and> a_alive (release_impl s) = a_alive s"
    and "a_rc s = 1 \<Longrightarrow> \<not> a_alive (release_impl s)"
  using mailbox_try_unblock [OF assms [THEN holds_mailbox]] assms
  by (auto simp: release_impl_def act_try_unblock_def holds_in_def deref_def Let_def split: prod.splits)

lemma coop_ctor_ok:
  shows "holds (coop_ctor q d h env) Ready [] [] []" and "a_flags (coop_ctor q d h env) = St_Empty"
    and "a_heap (coop_ctor q d h env) = pl_ctor q d h" and "a_rc (coop_ctor q d h env) = 1"
    and "a_env (coop_ctor q d h env) = env" and "a_alive (coop_ctor q d h env)"
  using mailbox_try_unblock(1) [OF mailbox_init [of q d h]]
  by (auto simp: coop_ctor_def act_try_unblock_def holds_def split: prod.splits)

subsection \<open>The contract of the handler call\<close>

text \<open>
  What a run amounts to: at most \<open>n\<close> messages are taken from the front of a queue; handling one
  changes the rest of the program by \<open>post\<close> and may send messages to the actor itself, which go
  to the back. The flag says that the queue ran empty before the limit.
\<close>

fun drive :: "('m \<Rightarrow> 'e \<Rightarrow> 'm list) \<Rightarrow> ('m \<Rightarrow> 'e \<Rightarrow> 'e) \<Rightarrow> nat \<Rightarrow> 'm list \<Rightarrow> 'e \<Rightarrow>
    'm list \<times> 'e \<times> bool" where
  "drive sends post 0 q e = (q, e, False)"
| "drive sends post (Suc n) [] e = ([], e, True)"
| "drive sends post (Suc n) (m # q) e = drive sends post n (q @ sends m e) (post m e)"

lemma drive_quiet:
  "drive (\<lambda>_ _. []) post n q e = (drop n q, fold post (take n q) e, length q < n)"
proof (induction n arbitrary: q e)
  case (Suc n)
  then show ?case by (cases q) simp_all
qed simp

lemma drive_done: "drive sends post n q e = (q', e', done) \<Longrightarrow> done \<Longrightarrow> q' = []"
  by (induction sends post n q e rule: drive.induct) auto

text \<open>
  What \<open>run\<close> relies on when it calls the virtual \<open>execute()\<close>, for messages and program states in
  relation \<open>pre\<close>: it returns; it leaves the current message alive; it touches the actor's mailbox
  only by enqueuing the new messages \<open>sends\<close>; what it does to the rest of the program is \<open>post\<close>.
\<close>

locale message_body =
  fixes exec :: "('m, 'e) act \<Rightarrow> ('m, 'e) act eff"
    and sends :: "'m \<Rightarrow> 'e \<Rightarrow> 'm list"
    and post :: "'m \<Rightarrow> 'e \<Rightarrow> 'e"
    and pre :: "'e \<Rightarrow> 'm \<Rightarrow> bool"
  assumes exec_ok:
    "holds_in G s Ready p c1 c2 \<Longrightarrow> a_current s = Node x \<Longrightarrow> owned_in G s (Node x) (p @ c1 @ c2) \<Longrightarrow>
     pre (a_env s) (content s x) \<Longrightarrow>
     \<exists>s' ys. exec s = ok s' \<and> holds_in G s' Ready (p @ ys) c1 c2 \<and> owned_in G s' (Node x) (p @ ys @ c1 @ c2) \<and>
       kept s s' (set p \<union> set c1 \<union> set c2) \<and> map (content s') ys = sends (content s x) (a_env s) \<and>
       a_env s' = post (content s x) (a_env s)"
    and pre_stable: "pre e m \<Longrightarrow> pre e m' \<Longrightarrow> pre (post m e) m'"
    and pre_sends: "pre e m \<Longrightarrow> m' \<in> set (sends m e) \<Longrightarrow> pre (post m e) m'"

context message_body
begin

lemma reactivate_ok:
  assumes "holds_in G s Ready p c1 c2" and "owned_in G s (Node x) (p @ c1 @ c2)" and "pre (a_env s) (content s x)"
  shows "\<exists>s' ys. reactivate exec (Node x) s = ok s' \<and> holds_in G s' Ready (p @ ys) c1 c2 \<and>
           owned_in G s' (Node x) (p @ ys @ c1 @ c2) \<and> kept s s' (set p \<union> set c1 \<union> set c2) \<and>
           map (content s') ys = sends (content s x) (a_env s) \<and> a_env s' = post (content s x) (a_env s)"
proof -
  have "holds_in G (s\<lparr>a_current := Node x\<rparr>) Ready p c1 c2"
    using assms(1) by (simp add: holds_in_def)
  moreover have "owned_in G (s\<lparr>a_current := Node x\<rparr>) (Node x) (p @ c1 @ c2)"
    using assms(2) by (simp add: owned_in_def)
  ultimately show ?thesis
    using exec_ok [of G "s\<lparr>a_current := Node x\<rparr>" p c1 c2 x] assms(3)
    by (simp add: reactivate_def consume_def kept_def)
qed

text \<open>The main loop follows the abstract queue.\<close>

lemma run_new_drive:
  assumes np: "\<forall>m. \<not> hp m" and "holds_in G s Ready p c1 c2" and "owned_in G s pr (p @ c1 @ c2)"
    and "\<forall>m \<in> set (map (content s) (c1 @ p)). pre (a_env s) m" and "n = 0 \<Longrightarrow> pr \<noteq> Null"
    and "drive sends post n (map (content s) (c1 @ p)) (a_env s) = (q, e, done)"
  shows "\<exists>s' pr' p' d1. run_new hp exec (handled + n) handled pr s = ok (done, pr', s') \<and>
           a_env s' = e \<and> holds_in G s' (if done then Blocked else Ready) p' d1 c2 \<and>
           map (content s') (d1 @ p') = q \<and> owned_in G s' pr' (p' @ d1 @ c2) \<and> (pr' = Null \<longleftrightarrow> done) \<and>
           ((\<forall>m e. sends m e = []) \<longrightarrow> d1 @ p' = drop n (c1 @ p) \<and> (0 < n \<or> p = [] \<longrightarrow> p' = []))"
  using assms(2-)
proof (induction n arbitrary: s p c1 pr handled)
  case 0
  then show ?case
    by (subst run_new.simps, intro exI [of _ s] exI [of _ pr] exI [of _ p] exI [of _ c1]) auto
next
  case (Suc n)
  show ?case
  proof (cases "c1 @ p")
    case Nil
    then obtain s1 where "acquire hp pr s = ok (Null, s1)" "holds_in G s1 Blocked [] [] c2" "same_rest s s1"
      using acquire_none [OF np, of G s c2 pr] Suc.prems(1,2) by auto
    moreover have "q = []" "e = a_env s" "done"
      using Suc.prems(5) Nil by simp_all
    ultimately show ?thesis
      using Nil
      by (subst run_new.simps, intro exI [of _ s1] exI [of _ Null] exI [of _ "[]"])
         (simp add: same_rest_fields)
  next
    case (Cons x r)
    obtain s1 where s1: "acquire hp pr s = ok (Node x, s1)" "holds_in G s1 Ready [] r c2" "same_rest s s1"
        "owned_in G s1 (Node x) (r @ c2)" "kept s s1 (set (x # r))"
      using acquire_some [OF np Suc.prems(1) Cons Suc.prems(2)] by blast
    have c: "content s1 x = content s x" "map (content s1) r = map (content s) r"
      using s1(5) kept_content [OF s1(5), of r] by (auto simp: kept_def)
    have env: "a_env s1 = a_env s"
      by (rule same_rest_fields(6) [OF s1(3)])
    have px: "pre (a_env s) (content s x)" and pr: "\<forall>m \<in> set (map (content s) r). pre (a_env s) m"
      using Suc.prems(3) Cons by simp_all
    have "owned_in G s1 (Node x) ([] @ r @ c2)" "pre (a_env s1) (content s1 x)"
      using s1(4) px c(1) env by simp_all
    from reactivate_ok [OF s1(2) this] obtain s2 ys where
        s2: "reactivate exec (Node x) s1 = ok s2" "holds_in G s2 Ready ys r c2"
        "owned_in G s2 (Node x) (ys @ r @ c2)" "kept s1 s2 (set r \<union> set c2)"
        "map (content s2) ys = sends (content s x) (a_env s)" "a_env s2 = post (content s x) (a_env s)"
      using c(1) env by auto
    have q2: "map (content s2) (r @ ys) = map (content s) r @ sends (content s x) (a_env s)"
      using kept_content [OF s2(4), of r] s2(5) c(2) by simp
    have "\<forall>m \<in> set (map (content s2) (r @ ys)). pre (a_env s2) m"
      unfolding q2 s2(6) using pr pre_stable [OF px] pre_sends [OF px] by auto
    moreover have "drive sends post n (map (content s2) (r @ ys)) (a_env s2) = (q, e, done)"
      unfolding q2 s2(6) using Suc.prems(5) Cons by simp
    ultimately obtain s3 pr' p' d1 where
        "run_new hp exec (Suc handled + n) (Suc handled) (Node x) s2 = ok (done, pr', s3)"
        "a_env s3 = e" "holds_in G s3 (if done then Blocked else Ready) p' d1 c2"
        "map (content s3) (d1 @ p') = q" "owned_in G s3 pr' (p' @ d1 @ c2)" "pr' = Null \<longleftrightarrow> done"
        "(\<forall>m e. sends m e = []) \<longrightarrow> d1 @ p' = drop n (r @ ys) \<and> (0 < n \<or> ys = [] \<longrightarrow> p' = [])"
      using Suc.IH [OF s2(2,3), of "Suc handled"] by blast
    moreover from this have "run_new hp exec (handled + Suc n) handled pr s = ok (done, pr', s3)"
      using s1(1) s2(1) by (subst run_new.simps) simp
    moreover have "(\<forall>m e. sends m e = []) \<Longrightarrow> ys = []"
      using s2(5) by simp
    ultimately have "run_new hp exec (handled + Suc n) handled pr s = ok (done, pr', s3) \<and>
        a_env s3 = e \<and> holds_in G s3 (if done then Blocked else Ready) p' d1 c2 \<and>
        map (content s3) (d1 @ p') = q \<and> owned_in G s3 pr' (p' @ d1 @ c2) \<and> (pr' = Null \<longleftrightarrow> done) \<and>
        ((\<forall>m e. sends m e = []) \<longrightarrow> d1 @ p' = drop (Suc n) (c1 @ p) \<and> p' = [])"
      unfolding Cons by auto
    then show ?thesis by blast
  qed
qed

text \<open>A run from an empty cache.\<close>

lemma run_drive:
  assumes np: "\<forall>m. \<not> hp m" and h: "holds_in G s Ready p [] []" and mx: "0 < mx"
    and pr: "\<forall>m \<in> set (map (content s) p). pre (a_env s) m"
    and dr: "drive sends post mx (map (content s) p) (a_env s) = (q, e, done)"
  shows "\<exists>s' p' d1. run hp exec d mx s = ok (Awaiting, s') \<and> a_env s' = e \<and>
           holds_in G s' (if q = [] then Blocked else Ready) p' d1 [] \<and> map (content s') (d1 @ p') = q \<and>
           ((\<forall>m e. sends m e = []) \<longrightarrow> p' = [] \<and> d1 = drop mx p)"
proof -
  obtain s1 where s1: "activate d s = (True, s1)" "holds_in G s1 Ready p [] []" "a_heap s1 = a_heap s"
      "a_env s1 = a_env s"
    using activate_ok [OF h] by blast
  have rc: "run_cache hp exec mx 0 Null s1 = ok (False, 0, Null, s1)"
    using holds_cache(3) [OF s1(2)] by (subst run_cache.simps) simp
  have q0: "done \<Longrightarrow> q = []"
    by (rule drive_done [OF dr])
  have pr1: "\<forall>m \<in> set (map (content s1) ([] @ p)). pre (a_env s1) m"
    using pr s1(3,4) by simp
  have dr1: "drive sends post mx (map (content s1) ([] @ p)) (a_env s1) = (q, e, done)"
    using dr s1(3,4) by simp
  have n0: "mx = 0 \<Longrightarrow> Null \<noteq> Null"
    using mx by simp
  obtain s2 pr' p' d1 where s2: "run_new hp exec mx 0 Null s1 = ok (done, pr', s2)" "a_env s2 = e"
      "holds_in G s2 (if done then Blocked else Ready) p' d1 []" "map (content s2) (d1 @ p') = q"
      "owned_in G s2 pr' (p' @ d1 @ [])" "pr' = Null \<longleftrightarrow> done"
      "(\<forall>m e. sends m e = []) \<longrightarrow> d1 @ p' = drop mx ([] @ p) \<and> (0 < mx \<or> p = [] \<longrightarrow> p' = [])"
    using run_new_drive [OF np s1(2) owned_Null pr1 n0 dr1, of 0] unfolding add_0 by blast
  then have quiet: "(\<forall>m e. sends m e = []) \<longrightarrow> p' = [] \<and> d1 = drop mx p"
    using mx by auto
  show ?thesis
  proof (cases "done")
    case True
    then have "run hp exec d mx s = ok (Awaiting, s2)"
      using s2(1,6) rc by (simp add: run_unfold [OF s1(1)])
    with True q0 s2 quiet show ?thesis by auto
  next
    case False
    have r: "holds_in G s2 Ready p' d1 []" "owned_in G s2 pr' (p' @ d1)"
      using s2(3,5) False by simp_all
    obtain s3 where s3: "run_tail pr' s2 = ok (Awaiting, s3)"
        "holds_in G s3 (if d1 @ p' = [] then Blocked else Ready) p' d1 []"
        "map (content s3) (d1 @ p') = map (content s2) (d1 @ p')" "a_env s3 = a_env s2"
      using run_tail_ok [OF r] by blast
    have "run hp exec d mx s = ok (Awaiting, s3)"
      using False s2(1,6) rc s3(1) by (simp add: run_unfold [OF s1(1)] run_push_done)
    moreover have "map (content s3) (d1 @ p') = q"
      using s3(3) s2(4) by (simp only:)
    moreover have "d1 @ p' = [] \<longleftrightarrow> q = []"
      using s2(4) by auto
    moreover have "a_env s3 = e"
      using s3(4) s2(2) by simp
    ultimately have "run hp exec d mx s = ok (Awaiting, s3) \<and> a_env s3 = e \<and>
        holds_in G s3 (if q = [] then Blocked else Ready) p' d1 [] \<and> map (content s3) (d1 @ p') = q"
      using s3(2) by simp
    with quiet show ?thesis by blast
  qed
qed

text \<open>A run that comes to a message whose handler fails fails with it, after the messages before it.\<close>

lemma run_new_fails:
  assumes np: "\<forall>m. \<not> hp m" and quiet: "\<forall>m e. sends m e = []"
    and bad: "\<And>s p c1 c2 x. holds_in G s Ready p c1 c2 \<Longrightarrow> a_current s = Node x \<Longrightarrow> owned_in G s (Node x) (p @ c1 @ c2) \<Longrightarrow>
      content s x = b \<Longrightarrow> a_env s = e \<Longrightarrow> exec s = fail ft"
    and "holds_in G s Ready p c1 c2" and "owned_in G s pr (p @ c1 @ c2)"
    and "map (content s) (c1 @ p) = q @ b # r" and "\<forall>m \<in> set q. pre (a_env s) m"
    and "length q < n" and "e = fold post q (a_env s)"
  shows "run_new hp exec (handled + n) handled pr s = fail ft"
  using assms(4-)
proof (induction q arbitrary: s p c1 pr handled n)
  case Nil
  then obtain x xs where x: "c1 @ p = x # xs" "content s x = b"
    by (cases "c1 @ p") auto
  obtain s1 where s1: "acquire hp pr s = ok (Node x, s1)" "holds_in G s1 Ready [] xs c2" "same_rest s s1"
      "owned_in G s1 (Node x) (xs @ c2)" "kept s s1 (set (x # xs))"
    using acquire_some [OF np Nil.prems(1) x(1) Nil.prems(2)] by blast
  have "reactivate exec (Node x) s1 = fail ft"
    unfolding reactivate_def consume_def
    by (rule bad [of _ "[]" xs c2 x])
      (use s1 x(2) Nil.prems(6) same_rest_fields(6) [OF s1(3)] in \<open>simp_all add: holds_in_def owned_in_def kept_def\<close>)
  with s1(1) Nil.prems(5) show ?case
    by (subst run_new.simps) simp
next
  case (Cons m q)
  then obtain x xs where x: "c1 @ p = x # xs" "content s x = m" "map (content s) xs = q @ b # r"
    by (cases "c1 @ p") auto
  obtain k where k: "n = Suc k" "length q < k"
    using Cons.prems(5) by (cases n) auto
  obtain s1 where s1: "acquire hp pr s = ok (Node x, s1)" "holds_in G s1 Ready [] xs c2" "same_rest s s1"
      "owned_in G s1 (Node x) (xs @ c2)" "kept s s1 (set (x # xs))"
    using acquire_some [OF np Cons.prems(1) x(1) Cons.prems(2)] by blast
  have env: "a_env s1 = a_env s"
    by (rule same_rest_fields(6) [OF s1(3)])
  have c: "content s1 x = m" "map (content s1) xs = q @ b # r"
    using x s1(5) kept_content [OF s1(5), of xs] by (auto simp: kept_def)
  have pm: "pre (a_env s) m" "\<forall>m' \<in> set q. pre (a_env s) m'"
    using Cons.prems(4) by simp_all
  have "owned_in G s1 (Node x) ([] @ xs @ c2)" "pre (a_env s1) (content s1 x)"
    using s1(4) pm(1) c(1) env by simp_all
  from reactivate_ok [OF s1(2) this] obtain s2 where
      s2: "reactivate exec (Node x) s1 = ok s2" "holds_in G s2 Ready [] xs c2" "owned_in G s2 (Node x) (xs @ c2)"
      "kept s1 s2 (set xs \<union> set c2)" "a_env s2 = post m (a_env s)"
    using quiet c(1) env by auto
  have "map (content s2) (xs @ []) = q @ b # r"
    using kept_content [OF s2(4), of xs] c(2) by simp
  moreover have "\<forall>m' \<in> set q. pre (a_env s2) m'"
    using pm pre_stable s2(5) by auto
  moreover have "e = fold post q (a_env s2)"
    using Cons.prems(6) s2(5) by simp
  ultimately have "run_new hp exec (Suc handled + k) (Suc handled) (Node x) s2 = fail ft"
    using Cons.IH [of s2 "[]" xs "Node x" k "Suc handled"] s2(2,3) k(2) by simp
  with s1(1) s2(1) k(1) show ?case
    by (subst run_new.simps) simp
qed

lemma run_fails:
  assumes np: "\<forall>m. \<not> hp m" and quiet: "\<forall>m e. sends m e = []"
    and bad: "\<And>s p c1 c2 x. holds_in G s Ready p c1 c2 \<Longrightarrow> a_current s = Node x \<Longrightarrow> owned_in G s (Node x) (p @ c1 @ c2) \<Longrightarrow>
      content s x = b \<Longrightarrow> a_env s = fold post q (a_env s0) \<Longrightarrow> exec s = fail ft"
    and h: "holds_in G s0 Ready p [] []" and q: "map (content s0) p = q @ b # r" "\<forall>m \<in> set q. pre (a_env s0) m"
    and mx: "length q < mx"
  shows "run hp exec d mx s0 = fail ft"
proof -
  obtain s1 where s1: "activate d s0 = (True, s1)" "holds_in G s1 Ready p [] []" "a_heap s1 = a_heap s0" "a_env s1 = a_env s0"
    using activate_ok [OF h] by blast
  have "run_cache hp exec mx 0 Null s1 = ok (False, 0, Null, s1)"
    using holds_cache(3) [OF s1(2)] by (subst run_cache.simps) simp
  moreover have "run_new hp exec (0 + mx) 0 Null s1 = fail ft"
    by (rule run_new_fails [OF np quiet bad s1(2)]) (use q mx s1(3,4) in simp_all)
  ultimately show ?thesis
    by (simp add: run_unfold [OF s1(1)])
qed

end

end
