(* ===== verification/Message.thy ===== *)
theory Message
  imports Msg_Heap "HOL-Library.Word"
begin

text \<open>
  Messages, their bodies and the addresses they carry: \<open>base/message.hpp\<close>,
  \<open>impl/messaging/message.ipp\<close>, \<open>base/address.hpp\<close>, \<open>impl/actor/address.ipp\<close>,
  \<open>detail/any.hpp\<close> and \<open>make_message.hpp\<close>.
\<close>

section \<open>Addresses\<close>

text \<open>
  An \<open>address_t\<close> is a pointer to a communication module: null, a module (they are numbered), or
  indeterminate, which is what the move constructor leaves behind: it swaps with a member that no
  initialiser has set.
\<close>

datatype addr = A_Null | A_Uninit | A_Mod nat

definition addr_empty :: addr where
  "addr_empty = A_Null"

definition addr_ctor :: "nat option \<Rightarrow> addr eff" where
  "addr_ctor p = and_then (assert_that (p \<noteq> None)) (\<lambda>_. ok (A_Mod (the p)))"

text \<open>Testing an indeterminate pointer, or calling through it, is undefined.\<close>

fun addr_bool :: "addr \<Rightarrow> bool eff" where
  "addr_bool A_Uninit = fail Wild_Deref"
| "addr_bool A_Null = ok False"
| "addr_bool (A_Mod _) = ok True"

fun addr_deref :: "addr \<Rightarrow> nat eff" where
  "addr_deref A_Null = fail Null_Deref"
| "addr_deref A_Uninit = fail Wild_Deref"
| "addr_deref (A_Mod n) = ok n"

text \<open>\<open>types n\<close> is the string \<open>type_\<close> of module \<open>n\<close>.\<close>

definition addr_type :: "(nat \<Rightarrow> string) \<Rightarrow> addr \<Rightarrow> string eff" where
  "addr_type types a = and_then (addr_deref a) (\<lambda>n. ok (types n))"

definition addr_get :: "addr \<Rightarrow> addr" where
  "addr_get a = a"

text \<open>
  The special members, as functions from the objects involved to their new values: \<open>(this, other)\<close>.
\<close>

definition addr_swap :: "addr \<times> addr \<Rightarrow> addr \<times> addr" where
  "addr_swap ab = (snd ab, fst ab)"

definition addr_move_ctor :: "addr \<Rightarrow> addr \<times> addr" where
  "addr_move_ctor other = addr_swap (A_Uninit, other)"

definition addr_copy_ctor :: "addr \<Rightarrow> addr" where
  "addr_copy_ctor other = other"

definition addr_move_assign :: "addr \<Rightarrow> addr \<Rightarrow> addr \<times> addr" where
  "addr_move_assign this other = addr_swap (this, other)"

definition addr_copy_assign :: "addr \<Rightarrow> addr \<Rightarrow> addr" where
  "addr_copy_assign this other = fst (addr_swap (this, addr_copy_ctor other))"

definition addr_dtor :: "addr \<Rightarrow> addr" where
  "addr_dtor this = A_Null"

section \<open>Values of type any\<close>

text \<open>
  The types a body may have and its values, with the type a value has. \<open>T_User n\<close> stands for a
  type of the user's program, whose values are given by their members; \<open>T_Chars\<close> is \<open>const char*\<close>, \<open>T_Msg\<close> is \<open>message*\<close>.
\<close>

datatype ty = T_Int | T_Bool | T_String | T_Chars | T_Addr | T_Msg | T_User nat | T_Tuple "ty list"

datatype val =
    V_Int "32 word"
  | V_Bool bool
  | V_String string
  | V_Chars string
  | V_Addr addr
  | V_Msg ptr
  | V_User nat "val list"
  | V_Tuple "val list"

fun ty_of :: "val \<Rightarrow> ty" where
  "ty_of (V_Int _) = T_Int"
| "ty_of (V_Bool _) = T_Bool"
| "ty_of (V_String _) = T_String"
| "ty_of (V_Chars _) = T_Chars"
| "ty_of (V_Addr _) = T_Addr"
| "ty_of (V_Msg _) = T_Msg"
| "ty_of (V_User n _) = T_User n"
| "ty_of (V_Tuple vs) = T_Tuple (map ty_of vs)"

definition any_cast :: "ty \<Rightarrow> val \<Rightarrow> val eff" where
  "any_cast t v = and_then (check (ty_of v = t) Bad_Any_Cast) (\<lambda>_. ok v)"

section \<open>Messages\<close>

datatype prio = Prio_Normal | Prio_High

record message =
  m_sender :: addr
  m_command :: string
  m_body :: "val option"
  m_priority :: prio

definition message_default :: message where
  "message_default = \<lparr>m_sender = addr_empty, m_command = [], m_body = None, m_priority = Prio_Normal\<rparr>"

definition message_ctor :: "addr \<Rightarrow> string \<Rightarrow> val option \<Rightarrow> message" where
  "message_ctor sender name body =
     \<lparr>m_sender = fst (addr_move_ctor sender), m_command = name, m_body = body, m_priority = Prio_Normal\<rparr>"

definition is_high_priority :: "message \<Rightarrow> bool" where
  "is_high_priority m = False"

definition msg_bool :: "message \<Rightarrow> bool eff" where
  "msg_bool m =
     (if m_command m \<noteq> [] then ok True
      else and_then (addr_bool (m_sender m)) (\<lambda>b. ok (b \<or> m_body m \<noteq> None)))"

definition msg_body :: "ty \<Rightarrow> message \<Rightarrow> val eff" where
  "msg_body t m = and_then (assert_that (m_body m \<noteq> None)) (\<lambda>_. any_cast t (the (m_body m)))"

definition msg_any_body :: "message \<Rightarrow> val eff" where
  "msg_any_body m = and_then (assert_that (m_body m \<noteq> None)) (\<lambda>_. ok (the (m_body m)))"

definition msg_clone :: "message \<Rightarrow> message" where
  "msg_clone m = message_ctor (addr_copy_ctor (m_sender m)) (m_command m) (m_body m)"

definition msg_swap :: "message \<times> message \<Rightarrow> message \<times> message" where
  "msg_swap ab = (case ab of (a, b) \<Rightarrow>
     (a\<lparr>m_sender := m_sender b, m_command := m_command b, m_body := m_body b\<rparr>,
      b\<lparr>m_sender := m_sender a, m_command := m_command a, m_body := m_body a\<rparr>))"

text \<open>
  \<open>make_message\<close> with a sender, a command and any number of further arguments (already decayed):
  none give no body, one is the body, more are a tuple.
\<close>

fun make_body :: "val list \<Rightarrow> val option" where
  "make_body [] = None"
| "make_body [v] = Some v"
| "make_body vs = Some (V_Tuple vs)"

definition make_message :: "addr \<Rightarrow> string \<Rightarrow> val list \<Rightarrow> message" where
  "make_message sender name args = message_ctor sender name (make_body args)"

text \<open>The message on the heap: \<open>new message(...)\<close> at a fresh place.\<close>

definition make_message_ptr :: "nat \<Rightarrow> addr \<Rightarrow> string \<Rightarrow> val list \<Rightarrow> message heap \<Rightarrow> ptr \<times> message heap" where
  "make_message_ptr n sender name args h = (Node n, new_node h n (make_message sender name args))"

section \<open>Facts\<close>

lemma message_ctor_fields [simp]:
  "m_sender (message_ctor a c b) = a" "m_command (message_ctor a c b) = c"
  "m_body (message_ctor a c b) = b" "m_priority (message_ctor a c b) = Prio_Normal"
  by (simp_all add: message_ctor_def addr_move_ctor_def addr_swap_def)

lemma make_message_fields [simp]:
  "m_sender (make_message a c vs) = a" "m_command (make_message a c vs) = c"
  "m_body (make_message a c vs) = make_body vs" "m_priority (make_message a c vs) = Prio_Normal"
  by (simp_all add: make_message_def)

lemma no_high_priority: "\<forall>m. \<not> is_high_priority m"
  by (simp add: is_high_priority_def)

lemma any_cast_simps [simp]:
  "ty_of v = t \<Longrightarrow> any_cast t v = ok v"
  "ty_of v \<noteq> t \<Longrightarrow> any_cast t v = fail Bad_Any_Cast"
  by (simp_all add: any_cast_def)

lemma make_body_eq_None [simp]: "make_body vs = None \<longleftrightarrow> vs = []"
  by (cases vs rule: make_body.cases) simp_all

end
