(* ===== verification/Comm_Module.thy ===== *)
theory Comm_Module
  imports Message
begin

text \<open>
  Handlers and the communication module: \<open>base/handler.hpp\<close>, \<open>impl/handler.ipp\<close>,
  \<open>base/communication_module.hpp\<close>, \<open>impl/actor/communication_module.ipp\<close>. A module is generic
  in the state \<open>'s\<close> its handlers work on; what it needs of that state, the virtual
  \<open>current_message\<close> and the message objects, is the record \<open>ctx\<close>.
\<close>

section \<open>The state a module works on\<close>

text \<open>What the module prints to the error stream.\<close>

datatype log =
    Log_Duplicate_Handler string
  | Log_Skip (log_sender: string) (log_receiver: string) (log_command: string)
  | Log_Sync_Contacts (log_name: string) (log_type: string)

record 's ctx =
  current_message :: "'s \<Rightarrow> ptr"
  read_message :: "ptr \<Rightarrow> 's \<Rightarrow> message eff"
  write_message :: "ptr \<Rightarrow> message \<Rightarrow> 's \<Rightarrow> 's eff"
  print :: "log \<Rightarrow> 's \<Rightarrow> 's"

text \<open>
  The contract of the accessors: a write to a message that can be read succeeds, what was written
  is read back, other messages keep their value, and printing touches no message.
\<close>

locale ctx_laws =
  fixes cx :: "'s ctx"
  assumes write_readable: "read_message cx p s = ok m \<Longrightarrow> \<exists>s'. write_message cx p m' s = ok s'"
    and read_write: "write_message cx p m s = ok s' \<Longrightarrow>
      read_message cx r s' = (if r = p then ok m else read_message cx r s)"
    and current_write: "write_message cx p m s = ok s' \<Longrightarrow> current_message cx s' = current_message cx s"
    and read_print: "read_message cx p (print cx l s) = read_message cx p s"
    and current_print: "current_message cx (print cx l s) = current_message cx s"

section \<open>The code\<close>

text \<open>
  A callable: the decayed types of its parameters, and what calling it does. The parameters are
  passed as references into the message body, so a call also returns their values after it.
\<close>

datatype 's callable =
  Callable (c_args: "ty list") (c_call: "val list \<Rightarrow> 's \<Rightarrow> (val list \<times> 's) eff")

text \<open>
  \<open>transformer\<close> and \<open>transformer_for_class\<close>: without parameters the body is not looked at; one
  parameter is the body itself; more are the elements of a tuple.
\<close>

definition write_body :: "'s ctx \<Rightarrow> ptr \<Rightarrow> val \<Rightarrow> 's \<Rightarrow> 's eff" where
  "write_body cx p v s =
     and_then (read_message cx p s) (\<lambda>m. write_message cx p (m\<lparr>m_body := Some v\<rparr>) s)"

definition transformer_0 :: "'s callable \<Rightarrow> 's ctx \<Rightarrow> 's \<Rightarrow> 's eff" where
  "transformer_0 f cx s = and_then (c_call f [] s) (\<lambda>(_, s). ok s)"

definition transformer_1 :: "'s callable \<Rightarrow> 's ctx \<Rightarrow> 's \<Rightarrow> 's eff" where
  "transformer_1 f cx s =
     (let p = current_message cx s in
      and_then (read_message cx p s) (\<lambda>m.
      and_then (msg_body (hd (c_args f)) m) (\<lambda>v.
      and_then (c_call f [v] s) (\<lambda>(vs, s). write_body cx p (hd vs) s))))"

definition transformer_n :: "'s callable \<Rightarrow> 's ctx \<Rightarrow> 's \<Rightarrow> 's eff" where
  "transformer_n f cx s =
     (let p = current_message cx s in
      and_then (read_message cx p s) (\<lambda>m.
      and_then (msg_body (T_Tuple (c_args f)) m) (\<lambda>v.
      and_then (c_call f (case v of V_Tuple vs \<Rightarrow> vs | _ \<Rightarrow> []) s) (\<lambda>(vs, s).
      write_body cx p (V_Tuple vs) s))))"

definition invoke :: "'s ctx \<Rightarrow> 's callable \<Rightarrow> 's \<Rightarrow> 's eff" where
  "invoke cx f =
     (if c_args f = [] then transformer_0 f cx
      else if length (c_args f) = 1 then transformer_1 f cx
      else transformer_n f cx)"

text \<open>
  The module: its type and its handlers. No entry of \<open>handlers_\<close> is ever removed or replaced.
\<close>

record 's comm_module =
  cm_type :: string
  cm_handlers :: "string \<rightharpoonup> 's callable"

definition comm_ctor :: "string \<Rightarrow> 's comm_module" where
  "comm_ctor t = \<lparr>cm_type = t, cm_handlers = (\<lambda>_. None)\<rparr>"

definition on :: "string \<Rightarrow> 's callable \<Rightarrow> 's comm_module \<Rightarrow> bool \<times> 's comm_module \<times> log list" where
  "on name h m =
     (case cm_handlers m name of
        None \<Rightarrow> (True, m\<lparr>cm_handlers := (cm_handlers m)(name \<mapsto> h)\<rparr>, [])
      | Some _ \<Rightarrow> (False, m, [Log_Duplicate_Handler name]))"

definition add_handler :: "string \<Rightarrow> 's callable \<Rightarrow> 's comm_module \<Rightarrow> 's comm_module" where
  "add_handler name h m = (case on name h m of (_, m, _) \<Rightarrow> m)"

definition message_types :: "'s comm_module \<Rightarrow> string set" where
  "message_types m = dom (cm_handlers m)"

text \<open>\<open>types\<close> gives the type of the other modules, for the message about a missing handler.\<close>

definition execute :: "'s ctx \<Rightarrow> (nat \<Rightarrow> string) \<Rightarrow> 's comm_module \<Rightarrow> 's \<Rightarrow> 's eff" where
  "execute cx types m s =
     and_then (read_message cx (current_message cx s) s) (\<lambda>msg.
     case cm_handlers m (m_command msg) of
       Some h \<Rightarrow> invoke cx h s
     | None \<Rightarrow> and_then (addr_type types (m_sender msg)) (\<lambda>sender.
               ok (print cx (Log_Skip sender (cm_type m) (m_command msg)) s)))"

section \<open>Calling a handler with a message made for it\<close>

text \<open>
  A well behaved callable returns as many parameters as it takes, with the same types.
\<close>

definition types_kept :: "'s callable \<Rightarrow> bool" where
  "types_kept f \<longleftrightarrow>
     (\<forall>vs s vs' s'. map ty_of vs = c_args f \<longrightarrow> c_call f vs s = ok (vs', s') \<longrightarrow> map ty_of vs' = c_args f)"

lemma add_handler_simps [simp]:
  "cm_type (add_handler n h m) = cm_type m"
  "cm_handlers (add_handler n h m) k =
     (if k = n \<and> cm_handlers m n = None then Some h else cm_handlers m k)"
  by (auto simp: add_handler_def on_def split: option.splits)

lemma comm_ctor_simps [simp]:
  "cm_type (comm_ctor t) = t" "cm_handlers (comm_ctor t) k = None"
  by (simp_all add: comm_ctor_def)

lemma execute_handler:
  assumes "read_message cx (current_message cx s) s = ok m" and "cm_handlers c (m_command m) = Some h"
  shows "execute cx types c s = invoke cx h s"
  using assms by (simp add: execute_def)

lemma execute_missing:
  assumes "read_message cx (current_message cx s) s = ok m" and "cm_handlers c (m_command m) = None"
  shows "execute cx types c s =
    (case m_sender m of A_Mod n \<Rightarrow> ok (print cx (Log_Skip (types n) (cm_type c) (m_command m)) s)
     | A_Null \<Rightarrow> fail Null_Deref | A_Uninit \<Rightarrow> fail Wild_Deref)"
  using assms by (auto simp: execute_def addr_type_def split: addr.splits)

text \<open>A message made from arguments \<open>vs\<close> fits a callable exactly when the types agree.\<close>

lemma make_body_ok:
  assumes "m_body m = make_body vs" and "map ty_of vs = ts" and "1 < length ts"
  shows "msg_body (T_Tuple ts) m = ok (V_Tuple vs)"
  using assms by (cases vs rule: make_body.cases) (auto simp: msg_body_def)

lemma invoke_made:
  assumes r: "read_message cx (current_message cx s) s = ok m" and b: "m_body m = make_body vs"
    and t: "map ty_of vs = c_args f"
  shows "invoke cx f s =
    and_then (c_call f vs s) (\<lambda>(vs', s').
      if vs = [] then ok s'
      else write_body cx (current_message cx s) (if length vs = 1 then hd vs' else V_Tuple vs') s')"
proof -
  have l: "length (c_args f) = length vs"
    using arg_cong [OF t, of length] by simp
  consider "vs = []" | v where "vs = [v]" | "1 < length vs"
    by (cases vs rule: make_body.cases) auto
  then show ?thesis
  proof cases
    case 1
    with l show ?thesis by (simp add: invoke_def transformer_0_def cong del: and_then_weak_cong)
  next
    case 2
    with t have a: "c_args f = [ty_of v]"
      by simp
    have "msg_body (ty_of v) m = ok v"
      using b 2 by (simp add: msg_body_def)
    with 2 a r show ?thesis
      by (simp add: invoke_def transformer_1_def Let_def cong del: and_then_weak_cong)
  next
    case 3
    have "msg_body (T_Tuple (c_args f)) m = ok (V_Tuple vs)"
      using l 3 by (intro make_body_ok [OF b t]) simp
    moreover have "c_args f \<noteq> []" "length (c_args f) \<noteq> 1" "vs \<noteq> []"
      using 3 l by auto
    ultimately show ?thesis
      using r 3 by (simp add: invoke_def transformer_n_def Let_def cong del: and_then_weak_cong)
  qed
qed

lemma invoke_no_parameters: "c_args f = [] \<Longrightarrow> invoke cx f s = and_then (c_call f [] s) (\<lambda>(_, s'). ok s')"
  by (simp add: invoke_def transformer_0_def)

text \<open>A body that is not made from arguments of the parameters' types.\<close>

lemma invoke_unfit:
  assumes r: "read_message cx (current_message cx s) s = ok m" and n: "c_args f \<noteq> []"
    and u: "\<nexists>vs. m_body m = make_body vs \<and> map ty_of vs = c_args f"
  shows "invoke cx f s = fail (if m_body m = None then Assert_Failed else Bad_Any_Cast)"
proof -
  define t where "t = (if length (c_args f) = 1 then hd (c_args f) else T_Tuple (c_args f))"
  have "msg_body t m = fail (if m_body m = None then Assert_Failed else Bad_Any_Cast)"
  proof (cases "m_body m")
    case (Some b)
    have "ty_of b \<noteq> t"
    proof
      assume b: "ty_of b = t"
      consider u where "c_args f = [u]" | v w us where "c_args f = v # w # us"
        using n by (cases "c_args f"; cases "tl (c_args f)") auto
      then show False
      proof cases
        case 1
        with b Some u show ?thesis
          by (auto simp: t_def dest: spec [of _ "[b]"])
      next
        case 2
        with b obtain vs where vs: "b = V_Tuple vs" "map ty_of vs = c_args f"
          by (cases b) (auto simp: t_def)
        with 2 Some have "m_body m = make_body vs"
          by (cases vs rule: make_body.cases) auto
        with u vs(2) show ?thesis by blast
      qed
    qed
    with Some show ?thesis
      by (simp add: msg_body_def)
  qed (simp add: msg_body_def)
  with r n show ?thesis
    by (simp add: invoke_def transformer_1_def transformer_n_def t_def Let_def split: if_splits)
qed

lemma invoke_mismatch:
  assumes r: "read_message cx (current_message cx s) s = ok m" and b: "m_body m = make_body vs"
    and n: "c_args f \<noteq> []" and t: "map ty_of vs \<noteq> c_args f"
    and nt: "\<And>v. vs = [v] \<Longrightarrow> ty_of v \<noteq> T_Tuple (c_args f)"
    and mt: "\<And>u. c_args f = [u] \<Longrightarrow> u \<noteq> T_Tuple (map ty_of vs)"
  shows "invoke cx f s = fail (if vs = [] then Assert_Failed else Bad_Any_Cast)"
proof -
  consider u where "c_args f = [u]" | "1 < length (c_args f)"
    using n by (cases "c_args f"; cases "tl (c_args f)") auto
  then show ?thesis
  proof cases
    case 1
    have "msg_body u m = fail (if vs = [] then Assert_Failed else Bad_Any_Cast)"
      using b t 1 mt [OF 1] by (cases vs rule: make_body.cases) (auto simp: msg_body_def)
    then show ?thesis
      using 1 r by (simp add: invoke_def transformer_1_def Let_def)
  next
    case 2
    have "msg_body (T_Tuple (c_args f)) m = fail (if vs = [] then Assert_Failed else Bad_Any_Cast)"
      using b t nt by (cases vs rule: make_body.cases) (auto simp: msg_body_def)
    moreover have "length (c_args f) \<noteq> 1"
      using 2 by simp
    ultimately show ?thesis
      using n r by (simp add: invoke_def transformer_n_def Let_def)
  qed
qed

end
