(* ===== verification/Actor.thy ===== *)
theory Actor
  imports Coop_Actor Comm_Module
begin

text \<open>
  The actor as a module: \<open>base/actor_abstract.hpp\<close> and \<open>impl/actor/actor_abstract.ipp\<close>, joined
  with the scheduling half of \<open>Coop_Actor\<close> through the virtual calls \<open>execute\<close> and
  \<open>current_message_impl\<close>.
\<close>

section \<open>State\<close>

text \<open>The rest of the program an actor works on: its contacts, the error stream, its own members.\<close>

record 'u actor_env =
  ae_contacts :: "string \<rightharpoonup> addr"
  ae_log :: "log list"
  ae_user :: 'u

type_synonym 'u actor = "(message, 'u actor_env) act"

definition set_value :: "'m heap \<Rightarrow> ptr \<Rightarrow> 'm \<Rightarrow> 'm heap eff" where
  "set_value h p m =
     (if live h p then ok (h\<lparr>cell := (cell h)(p := Some m)\<rparr>) else fail (deref_fault p))"

definition act_print :: "log \<Rightarrow> 'u actor \<Rightarrow> 'u actor" where
  "act_print l s = s\<lparr>a_env := (a_env s)\<lparr>ae_log := ae_log (a_env s) @ [l]\<rparr>\<rparr>"

definition act_ctx :: "'u actor ctx" where
  "act_ctx =
     \<lparr>current_message = a_current,
      read_message = (\<lambda>p s. get_value (a_heap s) p),
      write_message = (\<lambda>p m s. and_then (set_value (a_heap s) p m) (\<lambda>h. ok (s\<lparr>a_heap := h\<rparr>))),
      print = act_print\<rparr>"

lemma act_ctx_simps [simp]:
  "current_message act_ctx s = a_current s"
  "read_message act_ctx p s = get_value (a_heap s) p"
  "write_message act_ctx p m s = and_then (set_value (a_heap s) p m) (\<lambda>h. ok (s\<lparr>a_heap := h\<rparr>))"
  "print act_ctx = act_print"
  by (simp_all add: act_ctx_def)

interpretation act: ctx_laws act_ctx
proof
  fix p r :: ptr and m m' :: message and s s' :: "'u actor" and l :: log
  show "read_message act_ctx p s = ok m \<Longrightarrow> \<exists>s'. write_message act_ctx p m' s = ok s'"
    by (auto simp: get_value_def set_value_def split: if_splits)
  show "write_message act_ctx p m s = ok s' \<Longrightarrow>
      read_message act_ctx r s' = (if r = p then ok m else read_message act_ctx r s)"
    by (auto simp: get_value_def set_value_def live_def split: if_splits)
  show "write_message act_ctx p m s = ok s' \<Longrightarrow> current_message act_ctx s' = current_message act_ctx s"
    by (auto simp: set_value_def split: if_splits)
  show "read_message act_ctx p (print act_ctx l s) = read_message act_ctx p s"
    by (simp add: act_print_def)
  show "current_message act_ctx (print act_ctx l s) = current_message act_ctx s"
    by (simp add: act_print_def)
qed

section \<open>The code\<close>

definition set_contacts :: "(string \<rightharpoonup> addr) \<Rightarrow> 'u actor \<Rightarrow> 'u actor" where
  "set_contacts c s = s\<lparr>a_env := (a_env s)\<lparr>ae_contacts := c\<rparr>\<rparr>"

text \<open>\<open>emplace\<close> keeps the entry that is there; the address it was given is moved from either way.\<close>

definition emplace :: "'k \<Rightarrow> 'v \<Rightarrow> ('k \<rightharpoonup> 'v) \<Rightarrow> ('k \<rightharpoonup> 'v)" where
  "emplace k v m = (if m k = None then m(k \<mapsto> v) else m)"

definition add_link_impl :: "nat \<Rightarrow> (nat \<Rightarrow> string) \<Rightarrow> ptr \<Rightarrow> 'u actor \<Rightarrow> 'u actor eff" where
  "add_link_impl self types p s =
     and_then (get_value (a_heap s) p) (\<lambda>msg.
     let a = m_sender msg in
     and_then (addr_bool a) (\<lambda>b.
     if b \<and> addr_get a \<noteq> A_Mod self
     then and_then (addr_type types a) (\<lambda>name.
          case addr_move_ctor a of (moved, left) \<Rightarrow>
          and_then (set_value (a_heap s) p (msg\<lparr>m_sender := left\<rparr>)) (\<lambda>h.
          ok (set_contacts (emplace name moved (ae_contacts (a_env s))) (s\<lparr>a_heap := h\<rparr>))))
     else and_then (addr_type types a) (\<lambda>t. ok (act_print (Log_Sync_Contacts (types self) t) s))))"

definition remove_link_impl :: "(nat \<Rightarrow> string) \<Rightarrow> addr \<Rightarrow> 'u actor \<Rightarrow> 'u actor eff" where
  "remove_link_impl types a s =
     and_then (addr_type types a) (\<lambda>name.
     ok (set_contacts ((ae_contacts (a_env s))(name := None)) s))"

definition add_link :: "nat \<Rightarrow> (nat \<Rightarrow> string) \<Rightarrow> 'u actor callable" where
  "add_link self types =
     Callable [] (\<lambda>vs s. and_then (add_link_impl self types (a_current s) s) (\<lambda>s. ok (vs, s)))"

definition remove_link :: "(nat \<Rightarrow> string) \<Rightarrow> 'u actor callable" where
  "remove_link types =
     Callable [] (\<lambda>vs s.
       and_then (get_value (a_heap s) (a_current s)) (\<lambda>msg.
       and_then (remove_link_impl types (m_sender msg) s) (\<lambda>s. ok (vs, s))))"

definition actor_ctor :: "nat \<Rightarrow> (nat \<Rightarrow> string) \<Rightarrow> 'u actor comm_module" where
  "actor_ctor self types =
     add_handler ''remove_link'' (remove_link types)
       (add_handler ''add_link'' (add_link self types) (comm_ctor (types self)))"

text \<open>\<open>contacts_.at\<close> throws when the name is unknown.\<close>

definition address_book :: "string \<Rightarrow> 'u actor \<Rightarrow> addr eff" where
  "address_book name s =
     (case ae_contacts (a_env s) name of Some a \<Rightarrow> ok a | None \<Rightarrow> fail Out_Of_Range)"

definition all_view_address :: "'u actor \<Rightarrow> string set" where
  "all_view_address s = dom (ae_contacts (a_env s))"

definition actor_address :: "nat \<Rightarrow> addr eff" where
  "actor_address self = addr_ctor (Some self)"

text \<open>The virtual \<open>execute()\<close> of an actor.\<close>

definition actor_execute :: "(nat \<Rightarrow> string) \<Rightarrow> 'u actor comm_module \<Rightarrow> 'u actor \<Rightarrow> 'u actor eff" where
  "actor_execute types c s = execute act_ctx types c s"

lemma actor_ctor_handlers:
  "cm_handlers (actor_ctor self types) n =
     (if n = ''add_link'' then Some (add_link self types)
      else if n = ''remove_link'' then Some (remove_link types) else None)"
  by (simp add: actor_ctor_def)

section \<open>Actors whose handlers keep to their own members\<close>

text \<open>
  \<open>user n\<close> describes the user's handler for command \<open>n\<close>: the types of its parameters and its
  effect on the members. \<open>fits\<close>: a message is either for such a handler, with a body made of
  arguments of its types, or it names a sender.
\<close>

type_synonym 'u handler_spec = "string \<Rightarrow> (ty list \<times> (val list \<Rightarrow> 'u \<Rightarrow> 'u)) option"

definition builtin :: "string set" where
  "builtin = {''add_link'', ''remove_link''}"

definition fits :: "'u handler_spec \<Rightarrow> message \<Rightarrow> bool" where
  "fits user m \<longleftrightarrow>
     (case if m_command m \<in> builtin then None else user (m_command m) of
        Some (ts, _) \<Rightarrow> \<exists>vs. m_body m = make_body vs \<and> map ty_of vs = ts
      | None \<Rightarrow> \<exists>n. m_sender m = A_Mod n)"

fun body_args :: "ty list \<Rightarrow> val option \<Rightarrow> val list" where
  "body_args ts None = []"
| "body_args ts (Some v) = (if length ts = 1 then [v] else case v of V_Tuple vs \<Rightarrow> vs | _ \<Rightarrow> [])"

definition effect ::
  "nat \<Rightarrow> (nat \<Rightarrow> string) \<Rightarrow> 'u handler_spec \<Rightarrow> message \<Rightarrow> 'u actor_env \<Rightarrow> 'u actor_env" where
  "effect self types user m e =
     (let a = m_sender m; name = (case a of A_Mod n \<Rightarrow> types n | _ \<Rightarrow> []) in
      if m_command m = ''add_link''
      then if a \<noteq> A_Mod self then e\<lparr>ae_contacts := emplace name a (ae_contacts e)\<rparr>
           else e\<lparr>ae_log := ae_log e @ [Log_Sync_Contacts (types self) name]\<rparr>
      else if m_command m = ''remove_link'' then e\<lparr>ae_contacts := (ae_contacts e)(name := None)\<rparr>
      else case user (m_command m) of
        Some (ts, f) \<Rightarrow> e\<lparr>ae_user := f (body_args ts (m_body m)) (ae_user e)\<rparr>
      | None \<Rightarrow> e\<lparr>ae_log := ae_log e @ [Log_Skip name (types self) (m_command m)]\<rparr>)"

lemma body_args_made: "map ty_of vs = ts \<Longrightarrow> body_args ts (make_body vs) = vs"
  by (cases vs rule: make_body.cases) auto

text \<open>Writing the current message, which is outside the mailbox.\<close>

lemma set_value_current:
  assumes h: "holds_in G s m p c1 c2" and o: "owned_in G s (Node x) (p @ c1 @ c2)"
  shows "\<exists>h'. set_value (a_heap s) (Node x) v = ok h' \<and> holds_in G (s\<lparr>a_heap := h'\<rparr>) m p c1 c2 \<and>
           owned_in G (s\<lparr>a_heap := h'\<rparr>) (Node x) (p @ c1 @ c2) \<and>
           kept s (s\<lparr>a_heap := h'\<rparr>) (set p \<union> set c1 \<union> set c2) \<and>
           set_value h' (Node x) w = set_value (a_heap s) (Node x) w"
proof -
  let ?h = "(a_heap s)\<lparr>cell := (cell (a_heap s))(Node x := Some v)\<rparr>"
  have l: "live (a_heap s) (Node x)" "x \<notin> set p \<union> set c1 \<union> set c2" "Node x \<notin> fr_others G"
    using o by (auto simp: owned_in_def)
  have a: "agree_off {Node x} (a_heap s) ?h"
    by (simp add: agree_off_def)
  then have "mailbox ?h (a_mbox s) m p c1 c2"
    using l(2) by (intro mailbox_agree [OF holds_mailbox [OF h], of "{Node x}"]) (auto simp: mbox_foot_def plist_foot_def)
  moreover have "framed G (q_this (a_mbox s)) (set p \<union> set c1 \<union> set c2) ?h"
    using h l(3) unfolding holds_in_def
    by (intro framed_step [OF _ a, of _ _ _ "insert x (set p \<union> set c1 \<union> set c2)"]) (auto simp: plist_foot_def)
  ultimately show ?thesis
    using l by (auto simp: set_value_def holds_in_def owned_in_def kept_def)
qed

lemma env_upd_keeps:
  "holds_in G (s\<lparr>a_env := e\<rparr>) m p c1 c2 = holds_in G s m p c1 c2"
  "owned_in G (s\<lparr>a_env := e\<rparr>) q xs = owned_in G s q xs"
  "kept s (s'\<lparr>a_env := e\<rparr>) X = kept s s' X"
  "holds_in G (s\<lparr>a_env := e, a_heap := h\<rparr>) m p c1 c2 = holds_in G (s\<lparr>a_heap := h\<rparr>) m p c1 c2"
  "owned_in G (s\<lparr>a_env := e, a_heap := h\<rparr>) q xs = owned_in G (s\<lparr>a_heap := h\<rparr>) q xs"
  "kept s (s'\<lparr>a_env := e, a_heap := h\<rparr>) X = kept s (s'\<lparr>a_heap := h\<rparr>) X"
  by (simp_all add: holds_in_def owned_in_def kept_def)

lemma kept_refl [simp]: "kept s s X"
  by (simp add: kept_def)

text \<open>An introduction to another module, for any table that has the handler.\<close>

lemma execute_introduction:
  assumes lk: "cm_handlers c ''add_link'' = Some (add_link self types)"
    and h: "holds_in G s m p c1 c2" and cur: "a_current s = Node x" and o: "owned_in G s (Node x) (p @ c1 @ c2)"
    and cmd: "m_command (content s x) = ''add_link''" and sd: "m_sender (content s x) = A_Mod n" and n: "n \<noteq> self"
  shows "\<exists>s'. actor_execute types c s = ok s' \<and> holds_in G s' m p c1 c2 \<and> owned_in G s' (Node x) (p @ c1 @ c2) \<and>
           kept s s' (set p \<union> set c1 \<union> set c2) \<and>
           a_env s' = (a_env s)\<lparr>ae_contacts := emplace (types n) (A_Mod n) (ae_contacts (a_env s))\<rparr>"
proof -
  have l: "get_value (a_heap s) (Node x) = ok (content s x)"
    using o by (auto simp: owned_in_def heap_simps)
  then have e: "actor_execute types c s = and_then (add_link_impl self types (Node x) s) ok"
    using lk cmd cur
    by (simp add: actor_execute_def execute_def invoke_def transformer_0_def add_link_def and_then_assoc
        cong del: and_then_weak_cong)
  obtain h' where "set_value (a_heap s) (Node x) (content s x\<lparr>m_sender := A_Uninit\<rparr>) = ok h'"
      "holds_in G (s\<lparr>a_heap := h'\<rparr>) m p c1 c2" "owned_in G (s\<lparr>a_heap := h'\<rparr>) (Node x) (p @ c1 @ c2)"
      "kept s (s\<lparr>a_heap := h'\<rparr>) (set p \<union> set c1 \<union> set c2)"
    using set_value_current [OF h o] by blast
  with e l cmd sd n show ?thesis
    by (auto simp: add_link_impl_def addr_get_def addr_type_def addr_move_ctor_def addr_swap_def
        set_contacts_def env_upd_keeps)
qed

locale actor_module =
  fixes self :: nat and types :: "nat \<Rightarrow> string" and c :: "'u actor comm_module"
    and user :: "'u handler_spec"
  assumes type: "cm_type c = types self"
    and links: "cm_handlers c ''add_link'' = Some (add_link self types)"
      "cm_handlers c ''remove_link'' = Some (remove_link types)"
    and no_handler: "n \<notin> builtin \<Longrightarrow> user n = None \<Longrightarrow> cm_handlers c n = None"
    and handler: "n \<notin> builtin \<Longrightarrow> user n = Some (ts, f) \<Longrightarrow>
      \<exists>h. cm_handlers c n = Some h \<and> c_args h = ts \<and>
        (\<forall>vs s. map ty_of vs = ts \<longrightarrow>
          (\<exists>vs'. c_call h vs s = ok (vs', s\<lparr>a_env := (a_env s)\<lparr>ae_user := f vs (ae_user (a_env s))\<rparr>\<rparr>)))"

context actor_module
begin

text \<open>Executing a message that fits has the effect described, and leaves the mailbox alone.\<close>

lemma execute_add_link:
  assumes h: "holds_in G s m p c1 c2" and cur: "a_current s = Node x" and o: "owned_in G s (Node x) (p @ c1 @ c2)"
    and cmd: "m_command (content s x) = ''add_link''" and sd: "m_sender (content s x) = A_Mod n"
  shows "\<exists>s'. actor_execute types c s = ok s' \<and> holds_in G s' m p c1 c2 \<and> owned_in G s' (Node x) (p @ c1 @ c2) \<and>
           kept s s' (set p \<union> set c1 \<union> set c2) \<and> a_env s' = effect self types user (content s x) (a_env s)"
proof (cases "n = self")
  case True
  have l: "get_value (a_heap s) (Node x) = ok (content s x)"
    using o by (auto simp: owned_in_def heap_simps)
  then have "actor_execute types c s = and_then (add_link_impl self types (Node x) s) ok"
    using links(1) cmd cur
    by (simp add: actor_execute_def execute_def invoke_def transformer_0_def add_link_def and_then_assoc
        cong del: and_then_weak_cong)
  with True l h o cmd sd show ?thesis
    by (auto simp: add_link_impl_def addr_get_def addr_type_def act_print_def effect_def env_upd_keeps)
next
  case False
  with cmd sd have "effect self types user (content s x) (a_env s) =
      (a_env s)\<lparr>ae_contacts := emplace (types n) (A_Mod n) (ae_contacts (a_env s))\<rparr>"
    by (simp add: effect_def)
  with execute_introduction [OF links(1) h cur o cmd sd False] show ?thesis
    by simp
qed

lemma execute_remove_link:
  assumes h: "holds_in G s m p c1 c2" and cur: "a_current s = Node x" and o: "owned_in G s (Node x) (p @ c1 @ c2)"
    and cmd: "m_command (content s x) = ''remove_link''" and sd: "m_sender (content s x) = A_Mod n"
  shows "\<exists>s'. actor_execute types c s = ok s' \<and> holds_in G s' m p c1 c2 \<and> owned_in G s' (Node x) (p @ c1 @ c2) \<and>
           kept s s' (set p \<union> set c1 \<union> set c2) \<and> a_env s' = effect self types user (content s x) (a_env s)"
proof -
  have l: "get_value (a_heap s) (Node x) = ok (content s x)"
    using o by (auto simp: owned_in_def heap_simps)
  then show ?thesis
    using links(2) cmd cur h o sd
    by (simp add: actor_execute_def execute_def invoke_def transformer_0_def remove_link_def
        remove_link_impl_def addr_type_def set_contacts_def effect_def env_upd_keeps)
qed

lemma execute_unknown:
  assumes h: "holds_in G s m p c1 c2" and cur: "a_current s = Node x" and o: "owned_in G s (Node x) (p @ c1 @ c2)"
    and cmd: "m_command (content s x) \<notin> builtin" "user (m_command (content s x)) = None"
    and sd: "m_sender (content s x) = A_Mod n"
  shows "\<exists>s'. actor_execute types c s = ok s' \<and> holds_in G s' m p c1 c2 \<and> owned_in G s' (Node x) (p @ c1 @ c2) \<and>
           kept s s' (set p \<union> set c1 \<union> set c2) \<and> a_env s' = effect self types user (content s x) (a_env s)"
proof -
  have "get_value (a_heap s) (Node x) = ok (content s x)"
    using o by (auto simp: owned_in_def heap_simps)
  then show ?thesis
    using no_handler [OF cmd] cmd cur h o sd type
    by (simp add: actor_execute_def execute_def addr_type_def act_print_def effect_def env_upd_keeps builtin_def)
qed

lemma execute_user:
  assumes h: "holds_in G s m p c1 c2" and cur: "a_current s = Node x" and o: "owned_in G s (Node x) (p @ c1 @ c2)"
    and cmd: "m_command (content s x) \<notin> builtin" "user (m_command (content s x)) = Some (ts, f)"
    and b: "m_body (content s x) = make_body vs" "map ty_of vs = ts"
  shows "\<exists>s'. actor_execute types c s = ok s' \<and> holds_in G s' m p c1 c2 \<and> owned_in G s' (Node x) (p @ c1 @ c2) \<and>
           kept s s' (set p \<union> set c1 \<union> set c2) \<and> a_env s' = effect self types user (content s x) (a_env s)"
proof -
  obtain g where g: "cm_handlers c (m_command (content s x)) = Some g" "c_args g = ts"
      "\<exists>vs'. c_call g vs s = ok (vs', s\<lparr>a_env := (a_env s)\<lparr>ae_user := f vs (ae_user (a_env s))\<rparr>\<rparr>)"
    using handler [OF cmd] b(2) by blast
  have l: "get_value (a_heap s) (Node x) = ok (content s x)"
    using o by (auto simp: owned_in_def heap_simps)
  have rd: "read_message act_ctx (current_message act_ctx s) s = ok (content s x)"
    using l cur by simp
  let ?e = "(a_env s)\<lparr>ae_user := f vs (ae_user (a_env s))\<rparr>"
  have ef: "effect self types user (content s x) (a_env s) = ?e"
    using cmd b body_args_made [OF b(2)] by (simp add: effect_def builtin_def Let_def)
  from g(3) obtain vs' where call: "c_call g vs s = ok (vs', s\<lparr>a_env := ?e\<rparr>)"
    by blast
  have ex: "actor_execute types c s =
      (if vs = [] then ok (s\<lparr>a_env := ?e\<rparr>)
       else write_body act_ctx (Node x) (if length vs = 1 then hd vs' else V_Tuple vs') (s\<lparr>a_env := ?e\<rparr>))"
    using execute_handler [OF rd g(1)] invoke_made [OF rd b(1)] b(2) g(2) call cur
    by (simp add: actor_execute_def)
  show ?thesis
  proof (cases "vs = []")
    case True
    with ex h o ef show ?thesis by (simp add: env_upd_keeps)
  next
    case False
    let ?v = "content s x\<lparr>m_body := Some (if length vs = 1 then hd vs' else V_Tuple vs')\<rparr>"
    obtain h' where "set_value (a_heap s) (Node x) ?v = ok h'"
        "holds_in G (s\<lparr>a_heap := h'\<rparr>) m p c1 c2" "owned_in G (s\<lparr>a_heap := h'\<rparr>) (Node x) (p @ c1 @ c2)"
        "kept s (s\<lparr>a_heap := h'\<rparr>) (set p \<union> set c1 \<union> set c2)"
      using set_value_current [OF h o] by blast
    then show ?thesis
      using False ex l ef by (auto simp: write_body_def env_upd_keeps)
  qed
qed

lemma execute_fits:
  assumes "holds_in G s m p c1 c2" and "a_current s = Node x" and "owned_in G s (Node x) (p @ c1 @ c2)"
    and "fits user (content s x)"
  shows "\<exists>s'. actor_execute types c s = ok s' \<and> holds_in G s' m p c1 c2 \<and> owned_in G s' (Node x) (p @ c1 @ c2) \<and>
           kept s s' (set p \<union> set c1 \<union> set c2) \<and> a_env s' = effect self types user (content s x) (a_env s)"
proof (cases "m_command (content s x) \<in> builtin \<or> user (m_command (content s x)) = None")
  case True
  with assms(4) obtain n where "m_sender (content s x) = A_Mod n"
    by (auto simp: fits_def split: if_splits)
  note a = assms(1-3) and n = this
  consider "m_command (content s x) = ''add_link''" | "m_command (content s x) = ''remove_link''"
    | "m_command (content s x) \<notin> builtin" "user (m_command (content s x)) = None"
    using True by (auto simp: builtin_def)
  then show ?thesis
  proof cases
    case 1
    from execute_add_link [OF a 1 n] show ?thesis .
  next
    case 2
    from execute_remove_link [OF a 2 n] show ?thesis .
  next
    case 3
    from execute_unknown [OF a 3 n] show ?thesis .
  qed
next
  case False
  with assms(4) obtain ts f vs where "user (m_command (content s x)) = Some (ts, f)"
      "m_body (content s x) = make_body vs" "map ty_of vs = ts"
    by (auto simp: fits_def split: if_splits)
  with False assms(1-3) execute_user show ?thesis
    by blast
qed

end

text \<open>Such an actor keeps the contract of the handler call, so all of \<open>message_body\<close> holds for it.\<close>

sublocale actor_module \<subseteq> body: message_body "actor_execute types c" "\<lambda>_ _. []"
  "effect self types user" "\<lambda>_. fits user"
proof
  fix G and s :: "'u actor" and p c1 c2 x
  assume "holds_in G s Ready p c1 c2" and "a_current s = Node x" and "owned_in G s (Node x) (p @ c1 @ c2)"
    and "fits user (content s x)"
  then obtain s' where "actor_execute types c s = ok s'" "holds_in G s' Ready p c1 c2"
      "owned_in G s' (Node x) (p @ c1 @ c2)" "kept s s' (set p \<union> set c1 \<union> set c2)"
      "a_env s' = effect self types user (content s x) (a_env s)"
    using execute_fits by blast
  then show "\<exists>s' ys. actor_execute types c s = ok s' \<and> holds_in G s' Ready (p @ ys) c1 c2 \<and>
      owned_in G s' (Node x) (p @ ys @ c1 @ c2) \<and> kept s s' (set p \<union> set c1 \<union> set c2) \<and>
      map (content s') ys = [] \<and> a_env s' = effect self types user (content s x) (a_env s)"
    by (intro exI [of _ s'] exI [of _ "[]"]) simp
qed simp_all

section \<open>An actor of the repository\<close>

text \<open>
  \<open>storage_t\<close> of \<open>examples/delegate/main.cpp\<close>: four handlers that print. Its own members are
  what it has printed.
\<close>

definition say :: "string \<Rightarrow> string list actor \<Rightarrow> string list actor" where
  "say l s = s\<lparr>a_env := (a_env s)\<lparr>ae_user := ae_user (a_env s) @ [l]\<rparr>\<rparr>"

definition storage_update :: "string list actor callable" where
  "storage_update =
     Callable [T_String] (\<lambda>vs s. case vs of [V_String data] \<Rightarrow> ok (vs, say (''update:'' @ data) s) | _ \<Rightarrow> ok (vs, s))"

definition storage_find :: "string list actor callable" where
  "storage_find = Callable [] (\<lambda>vs s. ok (vs, say ''find'' s))"

definition storage_remove :: "string list actor callable" where
  "storage_remove = Callable [] (\<lambda>vs s. ok (vs, say ''remote'' s))"

definition storage_status :: "string list actor callable" where
  "storage_status = Callable [] (\<lambda>vs s. ok (vs, say ''status'' s))"

definition storage_ctor :: "nat \<Rightarrow> (nat \<Rightarrow> string) \<Rightarrow> string list actor comm_module" where
  "storage_ctor self types =
     add_handler ''status'' storage_status
       (add_handler ''remove'' storage_remove
         (add_handler ''find'' storage_find
           (add_handler ''update'' storage_update (actor_ctor self types))))"

definition storage_spec :: "string list handler_spec" where
  "storage_spec n =
     (if n = ''update'' then Some ([T_String], \<lambda>vs ls. case vs of [V_String data] \<Rightarrow> ls @ [''update:'' @ data] | _ \<Rightarrow> ls)
      else if n = ''find'' then Some ([], \<lambda>_ ls. ls @ [''find''])
      else if n = ''remove'' then Some ([], \<lambda>_ ls. ls @ [''remote''])
      else if n = ''status'' then Some ([], \<lambda>_ ls. ls @ [''status''])
      else None)"

lemma storage_handlers:
  "cm_handlers (storage_ctor self types) n =
     (if n = ''update'' then Some storage_update else if n = ''find'' then Some storage_find
      else if n = ''remove'' then Some storage_remove else if n = ''status'' then Some storage_status
      else cm_handlers (actor_ctor self types) n)"
  by (simp add: storage_ctor_def actor_ctor_handlers)

lemma storage_spec_other: "n \<notin> {''update'', ''find'', ''remove'', ''status''} \<Longrightarrow> storage_spec n = None"
  by (simp add: storage_spec_def)

lemma update_types: "map ty_of vs = [T_String] \<Longrightarrow> \<exists>d. vs = [V_String d]"
  by (cases vs; cases "hd vs") auto

interpretation storage: actor_module self types "storage_ctor self types" storage_spec
  for self :: nat and types
proof
  show "cm_type (storage_ctor self types) = types self"
    by (simp add: storage_ctor_def actor_ctor_def)
  show "cm_handlers (storage_ctor self types) ''add_link'' = Some (add_link self types)"
    and "cm_handlers (storage_ctor self types) ''remove_link'' = Some (remove_link types)"
    by (simp_all add: storage_handlers actor_ctor_handlers)
  show "cm_handlers (storage_ctor self types) n = None" if "n \<notin> builtin" "storage_spec n = None" for n
    using that by (auto simp: storage_handlers actor_ctor_handlers builtin_def storage_spec_def split: if_splits)
  show "\<exists>h. cm_handlers (storage_ctor self types) n = Some h \<and> c_args h = ts \<and>
      (\<forall>vs s. map ty_of vs = ts \<longrightarrow>
        (\<exists>vs'. c_call h vs s = ok (vs', s\<lparr>a_env := (a_env s)\<lparr>ae_user := f vs (ae_user (a_env s))\<rparr>\<rparr>)))"
    if "n \<notin> builtin" and sp: "storage_spec n = Some (ts, f)" for n ts f
  proof -
    consider "n = ''update''" | "n = ''find''" | "n = ''remove''" | "n = ''status''"
      using storage_spec_other [of n] sp by auto
    then show ?thesis
    proof cases
      case 1
      have "\<exists>vs'. c_call storage_update vs s =
          ok (vs', s\<lparr>a_env := (a_env s)\<lparr>ae_user := f vs (ae_user (a_env s))\<rparr>\<rparr>)"
        if "map ty_of vs = [T_String]" for vs s
        using update_types [OF that] sp 1
        by (auto simp: storage_update_def say_def storage_spec_def)
      with 1 sp show ?thesis
        by (auto simp: storage_handlers storage_spec_def storage_update_def)
    qed (use sp in \<open>auto simp: storage_handlers storage_spec_def storage_find_def storage_remove_def
        storage_status_def say_def\<close>)
  qed
qed

lemma storage_run:
  fixes s :: "string list actor"
  assumes "holds s Ready p [] []" and "0 < mx" and "\<forall>x \<in> set p. fits storage_spec (content s x)"
  shows "\<exists>s' c1. run is_high_priority (actor_execute types (storage_ctor self types)) d mx s = ok (Awaiting, s') \<and>
           a_env s' = fold (effect self types storage_spec) (map (content s) (take mx p)) (a_env s) \<and>
           holds s' (if length p \<le> mx then Blocked else Ready) [] c1 [] \<and>
           map (content s') c1 = map (content s) (drop mx p)"
proof -
  have f: "\<forall>m \<in> set (map (content s) p). fits storage_spec m"
    using assms(3) by simp
  obtain s' p' c1 where s': "run is_high_priority (actor_execute types (storage_ctor self types)) d mx s = ok (Awaiting, s')"
      "a_env s' = fold (effect self types storage_spec) (take mx (map (content s) p)) (a_env s)"
      "holds s' (if drop mx (map (content s) p) = [] then Blocked else Ready) p' c1 []"
      "map (content s') (c1 @ p') = drop mx (map (content s) p)" "p' = []"
    using storage.body.run_drive [OF no_high_priority assms(1,2) f drive_quiet,
        where self = self and types = types and d = d]
    by (elim exE conjE) simp
  moreover have "(drop mx (map (content s) p) = []) = (length p \<le> mx)"
    by simp
  ultimately show ?thesis
    unfolding take_map drop_map by auto
qed

text \<open>An actor as constructed, with messages enqueued: for the concrete instances below.\<close>

definition actor_demo_types :: "nat \<Rightarrow> string" where
  "actor_demo_types n = (if n = 2 then ''storage'' else ''network'')"

definition demo_msg :: "string \<Rightarrow> val list \<Rightarrow> message" where
  "demo_msg c vs = make_message (A_Mod 0) c vs"

definition demo_actor :: "string list actor" where
  "demo_actor =
     coop_ctor 2 message_default
       (new_node (new_node (new_node empty_heap 5 (demo_msg ''find'' []))
                           6 (demo_msg ''update'' [V_String ''payload'']))
                 7 (demo_msg ''add_link'' []))
       \<lparr>ae_contacts = (\<lambda>_. None), ae_log = [], ae_user = []\<rparr>"

lemma demo_holds: "holds demo_actor Ready [] [] []"
  by (simp add: demo_actor_def coop_ctor_ok)

lemma demo_actor_cells:
  "cell (a_heap demo_actor) (Node 5) = Some (demo_msg ''find'' [])"
  "cell (a_heap demo_actor) (Node 6) = Some (demo_msg ''update'' [V_String ''payload''])"
  "cell (a_heap demo_actor) (Node 7) = Some (demo_msg ''add_link'' [])"
  "a_env demo_actor = \<lparr>ae_contacts = (\<lambda>_. None), ae_log = [], ae_user = []\<rparr>"
  "a_flags demo_actor = St_Empty" "a_rc demo_actor = 1"
  by (simp_all add: demo_actor_def coop_ctor_ok pl_ctor_def new_node_def)

lemma demo_filled:
  "\<exists>s. holds s Ready [5, 6, 7] [] [] \<and> a_env s = a_env demo_actor \<and> a_rc s = 2 \<and> a_flags s = St_Busy \<and>
     cell (a_heap s) = cell (a_heap demo_actor)"
proof -
  obtain s1 where 1: "holds s1 Ready [5] [] []" "a_env s1 = a_env demo_actor" "a_rc s1 = 2" "a_flags s1 = St_Busy"
      "cell (a_heap s1) = cell (a_heap demo_actor)"
    using enqueue_base_ok [OF demo_holds, of 5] by (auto simp: live_def demo_actor_cells)
  obtain s2 where 2: "holds s2 Ready [5, 6] [] []" "a_env s2 = a_env demo_actor" "a_rc s2 = 2" "a_flags s2 = St_Busy"
      "cell (a_heap s2) = cell (a_heap demo_actor)"
    using enqueue_base_ok [OF 1(1), of 6] 1 by (auto simp: live_def demo_actor_cells)
  show ?thesis
    using enqueue_base_ok [OF 2(1), of 7] 2 by (auto simp: live_def demo_actor_cells)
qed

lemma demo_fits:
  assumes "cell (a_heap s) = cell (a_heap demo_actor)"
  shows "\<forall>x \<in> set [5, 6, 7]. fits storage_spec (content s x)"
  using assms
  by (auto simp: demo_actor_cells demo_msg_def fits_def storage_spec_def builtin_def intro: exI [of _ "[V_String ''payload'']"])

section \<open>Properties\<close>

text \<open>
  C3. A run of the actor with an empty cache handles the first \<open>max_throughput\<close> messages of the
  mailbox, in the order of their arrival and each exactly once, and no other; it returns
  \<open>awaiting\<close>. The others stay in the actor, in order. The mailbox is blocked exactly when
  none is left.
\<close>

theorem run_handles_in_order:
  fixes s :: "string list actor"
  assumes "holds s Ready p [] []" and "0 < mx" and "\<forall>x \<in> set p. fits storage_spec (content s x)"
  shows "\<exists>s' c1. run is_high_priority (actor_execute types (storage_ctor self types)) d mx s = ok (Awaiting, s') \<and>
           a_env s' = fold (effect self types storage_spec) (map (content s) (take mx p)) (a_env s) \<and>
           holds s' (if length p \<le> mx then Blocked else Ready) [] c1 [] \<and>
           map (content s') c1 = map (content s) (drop mx p)"
  by (rule storage_run [OF assms])

lemma run_handles_in_order_witness:
  "\<exists>s s'. holds s Ready [5, 6, 7] [] [] \<and>
     run is_high_priority (actor_execute actor_demo_types (storage_ctor 2 actor_demo_types)) None 100 s = ok (Awaiting, s') \<and>
     ae_user (a_env s') = [''find'', ''update:payload''] \<and>
     ae_contacts (a_env s') = [''network'' \<mapsto> A_Mod 0]"
proof -
  obtain s where s: "holds s Ready [5, 6, 7] [] []" "a_env s = a_env demo_actor"
      "cell (a_heap s) = cell (a_heap demo_actor)"
    using demo_filled by blast
  obtain s' where r: "run is_high_priority (actor_execute actor_demo_types (storage_ctor 2 actor_demo_types)) None 100 s = ok (Awaiting, s')"
      "a_env s' = fold (effect 2 actor_demo_types storage_spec) (map (content s) (take 100 [5, 6, 7])) (a_env s)"
    using run_handles_in_order [OF s(1) _ demo_fits [OF s(3)], of 100 actor_demo_types 2 None] by auto
  have "ae_user (a_env s') = [''find'', ''update:payload'']" "ae_contacts (a_env s') = [''network'' \<mapsto> A_Mod 0]"
    using r(2) s(2,3)
    by (simp_all add: demo_actor_cells demo_msg_def effect_def storage_spec_def actor_demo_types_def emplace_def Let_def)
  with s(1) r(1) show ?thesis by blast
qed

text \<open>
  C11. Messages left over by a run that reached its limit are lost: the next run, whatever its limit
  \<open>mx' > 0\<close>, deletes the first \<open>mx'\<close> of them without handling any; it calls no handler, so the
  rest of the program is as the first run left it.
\<close>

theorem limit_loses_messages:
  fixes s :: "string list actor"
  assumes "holds s Ready p [] []" and "0 < mx" and "mx < length p"
    and "\<forall>x \<in> set p. fits storage_spec (content s x)" and "0 < mx'"
  shows "\<exists>s1 c1 s2 p2 c2. let exec = actor_execute types (storage_ctor self types) in
           run is_high_priority exec d mx s = ok (Awaiting, s1) \<and>
           holds s1 Ready [] c1 [] \<and> map (content s1) c1 = map (content s) (drop mx p) \<and>
           run is_high_priority exec d mx' s1 = ok (Awaiting, s2) \<and> a_env s2 = a_env s1 \<and>
           (\<forall>x \<in> set (take mx' c1). \<not> live (a_heap s2) (Node x)) \<and>
           holds s2 (if length c1 \<le> mx' then Blocked else Ready) p2 c2 [] \<and> c2 @ p2 = drop mx' c1"
proof -
  obtain s1 c1 where s1: "run is_high_priority (actor_execute types (storage_ctor self types)) d mx s = ok (Awaiting, s1)"
      "holds s1 Ready [] c1 []" "map (content s1) c1 = map (content s) (drop mx p)"
    using storage_run [OF assms(1,2,4), of types self d] assms(3) by auto
  from arg_cong [OF s1(3), of length] assms(3) have "c1 \<noteq> []"
    by auto
  from run_drops [OF no_high_priority s1(2) this assms(5)] s1 show ?thesis
    unfolding Let_def by (metis append_Nil2)
qed

lemma limit_loses_messages_witness:
  "\<exists>s s1 s2. holds s Ready [5, 6, 7] [] [] \<and>
     run is_high_priority (actor_execute actor_demo_types (storage_ctor 2 actor_demo_types)) None 2 s = ok (Awaiting, s1) \<and>
     run is_high_priority (actor_execute actor_demo_types (storage_ctor 2 actor_demo_types)) None 2 s1 = ok (Awaiting, s2) \<and>
     a_env s2 = a_env s1"
proof -
  obtain s :: "string list actor" where s: "holds s Ready [5, 6, 7] [] []"
      "cell (a_heap s) = cell (a_heap demo_actor)"
    using demo_filled by blast
  from limit_loses_messages [OF s(1) _ _ demo_fits [OF s(2)], of 2 2 actor_demo_types 2 None] s(1)
  show ?thesis
    unfolding Let_def by auto
qed

text \<open>
  C14. What a handler is called with, for any number of parameters and any body. A handler without
  parameters is called whatever the body is. For all others the bodies that fit are those \<open>make_message\<close>
  builds from arguments of exactly the parameters' types; these arguments are handed over unchanged, and
  what the handler leaves in them is written back to the message. With any other body the handler is not
  called: without a body an assertion fails, with another one \<open>any_cast\<close> throws.
\<close>

theorem handler_gets_its_arguments:
  fixes s :: "'u actor"
  assumes "cm_handlers c (m_command msg) = Some f" and "get_value (a_heap s) (a_current s) = ok msg"
  shows "(c_args f = [] \<longrightarrow> actor_execute types c s = and_then (c_call f [] s) (\<lambda>(_, s'). ok s')) \<and>
    (\<forall>vs. m_body msg = make_body vs \<and> map ty_of vs = c_args f \<and> vs \<noteq> [] \<longrightarrow>
       actor_execute types c s =
         and_then (c_call f vs s) (\<lambda>(vs', s').
         write_body act_ctx (a_current s) (if length vs = 1 then hd vs' else V_Tuple vs') s')) \<and>
    (c_args f \<noteq> [] \<and> (\<nexists>vs. m_body msg = make_body vs \<and> map ty_of vs = c_args f) \<longrightarrow>
       actor_execute types c s = fail (if m_body msg = None then Assert_Failed else Bad_Any_Cast))"
proof -
  have r: "read_message act_ctx (current_message act_ctx s) s = ok msg"
    using assms(2) by simp
  have e: "actor_execute types c s = invoke act_ctx f s"
    unfolding actor_execute_def by (rule execute_handler [OF r assms(1)])
  show ?thesis
    unfolding e using invoke_made [OF r] invoke_no_parameters [of f act_ctx s] invoke_unfit [OF r]
    by (auto cong del: and_then_weak_cong)
qed

text \<open>A module with a handler of two parameters, as \<open>storage_t::add\<close> of \<open>test/handler\<close>.\<close>

definition demo_module :: "string list actor comm_module" where
  "demo_module =
     add_handler ''add'' (Callable [T_String, T_String] (\<lambda>vs s. ok (vs, say ''add'' s))) (actor_ctor 2 actor_demo_types)"

lemma handler_gets_its_arguments_witness:
  "\<exists>s. actor_execute actor_demo_types demo_module s = fail Bad_Any_Cast \<and>
     get_value (a_heap s) (a_current s) = ok (demo_msg ''add'' [V_Int 1, V_String ''x''])"
proof -
  let ?m = "demo_msg ''add'' [V_Int 1, V_String ''x'']"
  let ?s = "demo_actor\<lparr>a_heap := new_node empty_heap 5 ?m, a_current := Node 5\<rparr>"
  have g: "get_value (a_heap ?s) (a_current ?s) = ok ?m"
    by (simp add: heap_simps new_node_def live_def get_value_def)
  have h: "cm_handlers demo_module (m_command ?m) =
      Some (Callable [T_String, T_String] (\<lambda>vs s. ok (vs, say ''add'' s)))"
    by (simp add: demo_module_def demo_msg_def actor_ctor_handlers)
  have "actor_execute actor_demo_types demo_module ?s = fail Bad_Any_Cast"
    using handler_gets_its_arguments [OF h g, of actor_demo_types]
    by (auto simp: demo_msg_def map_eq_Cons_conv)
  with g show ?thesis by blast
qed

text \<open>
  C6. \<open>enqueue_base\<close> appends the message to the mailbox of an actor that is not closed; it schedules
  the actor exactly when it was idle, after taking a reference and marking it busy. Releasing an actor,
  right afterwards or when a run has blocked its mailbox, marks it idle and makes the mailbox ready, with
  what it holds; it gives one reference back and deletes the actor if that was the last.
\<close>

theorem enqueue_schedules_idle:
  fixes s :: "('m, 'e) act"
  assumes "holds s m p c1 c2" and "m \<noteq> Closed" and "live (a_heap s) (Node x)"
    and "x \<notin> set p \<union> set c1 \<union> set c2" and "a_rc s \<noteq> 0"
  shows "(\<exists>s'. holds s' Ready (p @ [x]) c1 c2 \<and> cell (a_heap s') = cell (a_heap s) \<and> a_env s' = a_env s \<and>
           a_flags s' = St_Busy \<and> enqueue_base sched (Node x) d s = (if a_flags s = St_Empty then sched d s' else ok s') \<and>
           (a_flags s = St_Empty \<longrightarrow> a_rc (release_impl s') = a_rc s \<and> a_alive (release_impl s') = a_alive s \<and>
              a_flags (release_impl s') = St_Empty \<and> holds (release_impl s') Ready (p @ [x]) c1 c2)) \<and>
         holds (release_impl s) Ready p c1 c2 \<and> a_flags (release_impl s) = St_Empty \<and>
         a_heap (release_impl s) = a_heap s \<and> a_env (release_impl s) = a_env s \<and>
         (if a_rc s = 1 then \<not> a_alive (release_impl s)
          else a_rc (release_impl s) = a_rc s - 1 \<and> a_alive (release_impl s) = a_alive s)"
proof -
  obtain s' where s': "holds s' Ready (p @ [x]) c1 c2" "cell (a_heap s') = cell (a_heap s)"
      "a_env s' = a_env s" "a_alive s' = a_alive s" "a_flags s' = St_Busy"
      "a_flags s = St_Empty \<longrightarrow> a_rc s' = a_rc s + 1 \<and> enqueue_base sched (Node x) d s = sched d s'"
      "a_flags s = St_Busy \<longrightarrow> enqueue_base sched (Node x) d s = ok s'"
    using enqueue_base_ok [OF assms(1-4), of d sched] by auto
  have "a_rc s + 1 \<noteq> 1"
    using assms(5) by simp
  with s' release_ok [OF s'(1)] have "\<exists>s'. holds s' Ready (p @ [x]) c1 c2 \<and> cell (a_heap s') = cell (a_heap s) \<and>
      a_env s' = a_env s \<and> a_flags s' = St_Busy \<and>
      enqueue_base sched (Node x) d s = (if a_flags s = St_Empty then sched d s' else ok s') \<and>
      (a_flags s = St_Empty \<longrightarrow> a_rc (release_impl s') = a_rc s \<and> a_alive (release_impl s') = a_alive s \<and>
         a_flags (release_impl s') = St_Empty \<and> holds (release_impl s') Ready (p @ [x]) c1 c2)"
    by (intro exI [of _ s']) (cases "a_flags s"; simp)
  moreover have "(if m = Blocked then Ready else m) = Ready"
    using assms(2) by (cases m) simp_all
  ultimately show ?thesis
    using release_ok [OF assms(1)] by simp
qed

text \<open>An actor whose mailbox its last run has blocked.\<close>

lemma enqueue_schedules_idle_witness:
  "\<exists>s s' :: string list actor. holds s Blocked [] [] [] \<and> holds s' Ready [6] [] [] \<and>
     enqueue_base (\<lambda>_ s. ok s) (Node 6) None s = ok s' \<and> a_flags s' = St_Busy \<and> a_rc (release_impl s') = 1 \<and>
     holds (release_impl s) Ready [] [] [] \<and> \<not> a_alive (release_impl s)"
proof -
  obtain s where s: "holds s Blocked [] [] []" "same_rest demo_actor s" "a_heap s = a_heap demo_actor"
    using act_try_block_ok [OF demo_holds] by blast
  then have "live (a_heap s) (Node 6)" "a_flags s = St_Empty" "a_rc s = 1"
    by (simp_all add: live_def demo_actor_cells same_rest_def)
  with enqueue_schedules_idle [OF s(1) _ this(1), of "\<lambda>_ s. ok s" None] s(1) show ?thesis
    by - (rule exI [of _ s], auto)
qed

end
