(* ===== verification/Supervisor.thy ===== *)
theory Supervisor
  imports Comm_Module "HOL-Library.AList" "HOL-Library.Multiset"
begin

text \<open>
  Supervisors and sending: \<open>base/supervisor_abstract.hpp\<close>, \<open>impl/actor/supervisor_abstract.ipp\<close>,
  \<open>send.hpp\<close>, \<open>impl/send.ipp\<close>, \<open>link.hpp\<close>, \<open>impl/link.ipp\<close>, \<open>broadcast.hpp\<close>.
  What a module does when it is handed a message, the virtual \<open>enqueue_base\<close>, is the argument
  \<open>dlv\<close>.
\<close>

section \<open>State\<close>

text \<open>
  \<open>v_contacts\<close> lists the entries of the hash map \<open>contacts_\<close> in the order it iterates over them;
  \<open>v_fresh\<close> is the next free place on the heap; \<open>v_env\<close> is the rest of the program.
\<close>

record 'e sup =
  v_heap :: "message heap"
  v_contacts :: "(string \<times> addr list) list"
  v_current :: ptr
  v_fresh :: nat
  v_log :: "log list"
  v_env :: 'e

type_synonym 'e delivery = "nat \<Rightarrow> ptr \<Rightarrow> 'e sup \<Rightarrow> 'e sup eff"

definition sup_print :: "log \<Rightarrow> 'e sup \<Rightarrow> 'e sup" where
  "sup_print l s = s\<lparr>v_log := v_log s @ [l]\<rparr>"

definition put_message :: "ptr \<Rightarrow> message \<Rightarrow> 'e sup \<Rightarrow> 'e sup eff" where
  "put_message p m s =
     (if live (v_heap s) p then ok (s\<lparr>v_heap := (v_heap s)\<lparr>cell := (cell (v_heap s))(p := Some m)\<rparr>\<rparr>)
      else fail (deref_fault p))"

definition sup_ctx :: "'e sup ctx" where
  "sup_ctx = \<lparr>current_message = v_current, read_message = (\<lambda>p s. get_value (v_heap s) p),
     write_message = put_message, print = sup_print\<rparr>"

lemma sup_ctx_simps [simp]:
  "current_message sup_ctx s = v_current s" "read_message sup_ctx p s = get_value (v_heap s) p"
  "write_message sup_ctx p m s = put_message p m s" "print sup_ctx = sup_print"
  by (simp_all add: sup_ctx_def)

interpretation sup: ctx_laws sup_ctx
proof
  fix p r :: ptr and m m' :: message and s s' :: "'e sup" and l :: log
  show "read_message sup_ctx p s = ok m \<Longrightarrow> \<exists>s'. write_message sup_ctx p m' s = ok s'"
    by (auto simp: get_value_def put_message_def split: if_splits)
  show "write_message sup_ctx p m s = ok s' \<Longrightarrow>
      read_message sup_ctx r s' = (if r = p then ok m else read_message sup_ctx r s)"
    by (auto simp: get_value_def put_message_def live_def split: if_splits)
  show "write_message sup_ctx p m s = ok s' \<Longrightarrow> current_message sup_ctx s' = current_message sup_ctx s"
    by (auto simp: put_message_def split: if_splits)
  show "read_message sup_ctx p (print sup_ctx l s) = read_message sup_ctx p s"
    by (simp add: sup_print_def)
  show "current_message sup_ctx (print sup_ctx l s) = current_message sup_ctx s"
    by (simp add: sup_print_def)
qed

section \<open>Sending\<close>

text \<open>\<open>address_t::enqueue\<close> calls through the pointer.\<close>

definition addr_enqueue :: "'e delivery \<Rightarrow> addr \<Rightarrow> ptr \<Rightarrow> 'e sup \<Rightarrow> 'e sup eff" where
  "addr_enqueue dlv a p s = and_then (addr_deref a) (\<lambda>n. dlv n p s)"

definition new_message :: "addr \<Rightarrow> string \<Rightarrow> val list \<Rightarrow> 'e sup \<Rightarrow> ptr \<times> 'e sup" where
  "new_message sender name args s =
     (case make_message_ptr (v_fresh s) sender name args (v_heap s) of (p, h) \<Rightarrow>
      (p, s\<lparr>v_heap := h, v_fresh := Suc (v_fresh s)\<rparr>))"

definition send_ptr :: "'e delivery \<Rightarrow> addr \<Rightarrow> ptr \<Rightarrow> 'e sup \<Rightarrow> 'e sup eff" where
  "send_ptr dlv a p s = addr_enqueue dlv (addr_copy_ctor a) p s"

definition send :: "'e delivery \<Rightarrow> addr \<Rightarrow> addr \<Rightarrow> string \<Rightarrow> val list \<Rightarrow> 'e sup \<Rightarrow> 'e sup eff" where
  "send dlv a sender name args s =
     (case new_message sender name args s of (p, s) \<Rightarrow> addr_enqueue dlv a p s)"

definition delegate_send :: "'e delivery \<Rightarrow> addr \<Rightarrow> string \<Rightarrow> string \<Rightarrow> val list \<Rightarrow> 'e sup \<Rightarrow> 'e sup eff" where
  "delegate_send dlv v type name args s =
     (case new_message addr_empty name args s of (p, s) \<Rightarrow>
      send dlv v v ''delegate'' [V_String type, V_Msg p] s)"

definition delegate_send_addr :: "'e delivery \<Rightarrow> addr \<Rightarrow> addr \<Rightarrow> string \<Rightarrow> val list \<Rightarrow> 'e sup \<Rightarrow> 'e sup eff" where
  "delegate_send_addr dlv v type name args s =
     (case new_message addr_empty name args s of (p, s) \<Rightarrow>
      send dlv v v ''delegate'' [V_Addr type, V_Msg p] s)"

definition link_imp :: "'e delivery \<Rightarrow> addr \<Rightarrow> addr \<Rightarrow> 'e sup \<Rightarrow> 'e sup eff" where
  "link_imp dlv a1 a2 s =
     and_then (send dlv a1 a2 ''add_link'' [] s) (\<lambda>s. send dlv a2 a1 ''add_link'' [] s)"

definition link :: "'e delivery \<Rightarrow> addr \<Rightarrow> addr \<Rightarrow> 'e sup \<Rightarrow> 'e sup eff" where
  "link dlv a1 a2 s = link_imp dlv a1 a2 s"

section \<open>The supervisor\<close>

definition set_current_message :: "ptr \<Rightarrow> 'e sup \<Rightarrow> 'e sup" where
  "set_current_message p s = s\<lparr>v_current := p\<rparr>"

definition sup_address :: "nat \<Rightarrow> addr eff" where
  "sup_address self = addr_ctor (Some self)"

text \<open>
  \<open>*(result->second.begin())\<close> of an empty list is undefined; a missing type gives the empty address.
\<close>

definition sup_address_book :: "string \<Rightarrow> 'e sup \<Rightarrow> addr eff" where
  "sup_address_book type s =
     (case map_of (v_contacts s) type of
        None \<Rightarrow> ok addr_empty
      | Some [] \<Rightarrow> fail Wild_Deref
      | Some (a # _) \<Rightarrow> ok a)"

definition sup_all_view_address :: "'e sup \<Rightarrow> string set" where
  "sup_all_view_address s = fst ` set (v_contacts s)"

definition sup_add_link_impl :: "nat \<Rightarrow> (nat \<Rightarrow> string) \<Rightarrow> addr \<Rightarrow> 'e sup \<Rightarrow> 'e sup eff" where
  "sup_add_link_impl self types a s =
     and_then (addr_bool a) (\<lambda>b.
     if b \<and> addr_get a \<noteq> A_Mod self
     then and_then (addr_type types a) (\<lambda>name.
          case map_of (v_contacts s) name of
            None \<Rightarrow> ok (s\<lparr>v_contacts := v_contacts s @ [(name, [fst (addr_move_ctor a)])]\<rparr>)
          | Some as \<Rightarrow> ok (s\<lparr>v_contacts := AList.update name (as @ [fst (addr_move_ctor a)]) (v_contacts s)\<rparr>))
     else and_then (addr_type types a) (\<lambda>t. ok (sup_print (Log_Sync_Contacts (types self) t) s)))"

text \<open>
  The loop of \<open>remove_link_impl\<close> erases the element its iterator points to and then increments
  that iterator.
\<close>

primrec erase_loop :: "addr \<Rightarrow> addr list \<Rightarrow> addr list eff" where
  "erase_loop a [] = ok []"
| "erase_loop a (x # xs) =
     (if addr_get a = addr_get x then fail Invalid_Iterator
      else and_then (erase_loop a xs) (\<lambda>xs. ok (x # xs)))"

definition sup_remove_link_impl :: "(nat \<Rightarrow> string) \<Rightarrow> addr \<Rightarrow> 'e sup \<Rightarrow> 'e sup eff" where
  "sup_remove_link_impl types a s =
     and_then (addr_type types a) (\<lambda>name.
     case map_of (v_contacts s) name of
       None \<Rightarrow> ok s
     | Some as \<Rightarrow> and_then (erase_loop a as) (\<lambda>as. ok (s\<lparr>v_contacts := AList.update name as (v_contacts s)\<rparr>)))"

definition sup_add_link :: "nat \<Rightarrow> (nat \<Rightarrow> string) \<Rightarrow> 'e sup callable" where
  "sup_add_link self types =
     Callable [] (\<lambda>vs s.
       and_then (get_value (v_heap s) (v_current s)) (\<lambda>msg.
       case addr_move_ctor (m_sender msg) of (a, left) \<Rightarrow>
       and_then (put_message (v_current s) (msg\<lparr>m_sender := left\<rparr>) s) (\<lambda>s.
       and_then (sup_add_link_impl self types a s) (\<lambda>s. ok (vs, s)))))"

definition sup_remove_link :: "(nat \<Rightarrow> string) \<Rightarrow> 'e sup callable" where
  "sup_remove_link types =
     Callable [] (\<lambda>vs s.
       and_then (get_value (v_heap s) (v_current s)) (\<lambda>msg.
       and_then (sup_remove_link_impl types (m_sender msg) s) (\<lambda>s. ok (vs, s))))"

text \<open>\<open>redirect(std::string& type, message* msg)\<close>: the string is moved out of the body.\<close>

definition redirect_impl :: "'e delivery \<Rightarrow> nat \<Rightarrow> string \<Rightarrow> ptr \<Rightarrow> 'e sup \<Rightarrow> 'e sup eff" where
  "redirect_impl dlv self type p s =
     and_then (get_value (v_heap s) p) (\<lambda>msg.
     and_then (sup_address self) (\<lambda>a.
     and_then (put_message p (msg\<lparr>m_sender := fst (addr_move_assign (m_sender msg) a)\<rparr>) s) (\<lambda>s.
     and_then (sup_address_book type s) (\<lambda>target. send_ptr dlv target p s))))"

definition redirect :: "'e delivery \<Rightarrow> nat \<Rightarrow> 'e sup callable" where
  "redirect dlv self =
     Callable [T_String, T_Msg] (\<lambda>vs s.
       case vs of [V_String type, V_Msg p] \<Rightarrow>
         and_then (redirect_impl dlv self type p s) (\<lambda>s. ok ([V_String [], V_Msg p], s))
       | _ \<Rightarrow> ok (vs, s))"

definition sup_ctor :: "'e delivery \<Rightarrow> nat \<Rightarrow> (nat \<Rightarrow> string) \<Rightarrow> 'e sup comm_module" where
  "sup_ctor dlv self types =
     add_handler ''remove_link'' (sup_remove_link types)
       (add_handler ''add_link'' (sup_add_link self types)
         (add_handler ''delegate'' (redirect dlv self) (comm_ctor (types self))))"

text \<open>The members of a supervisor just constructed: no constructor sets \<open>current_message_\<close>.\<close>

definition sup_init :: "message heap \<Rightarrow> nat \<Rightarrow> 'e \<Rightarrow> 'e sup" where
  "sup_init h n e =
     \<lparr>v_heap = h, v_contacts = [], v_current = Uninit, v_fresh = n, v_log = [], v_env = e\<rparr>"

definition sup_execute :: "(nat \<Rightarrow> string) \<Rightarrow> 'e sup comm_module \<Rightarrow> 'e sup \<Rightarrow> 'e sup eff" where
  "sup_execute types c s = execute sup_ctx types c s"

text \<open>\<open>broadcast\<close>: every contact gets a clone; the message itself is deleted at the end.\<close>

primrec broadcast_list :: "'e delivery \<Rightarrow> ptr \<Rightarrow> addr list \<Rightarrow> 'e sup \<Rightarrow> 'e sup eff" where
  "broadcast_list dlv p [] s = ok s"
| "broadcast_list dlv p (a # as) s =
     and_then (get_value (v_heap s) p) (\<lambda>msg.
     let n = v_fresh s; s = s\<lparr>v_heap := new_node (v_heap s) n (msg_clone msg), v_fresh := Suc n\<rparr> in
     and_then (addr_enqueue dlv a (Node n) s) (\<lambda>s. broadcast_list dlv p as s))"

definition delete_message :: "ptr \<Rightarrow> 'e sup \<Rightarrow> 'e sup eff" where
  "delete_message p s = and_then (delete_node (v_heap s) p) (\<lambda>h. ok (s\<lparr>v_heap := h\<rparr>))"

definition broadcast :: "'e delivery \<Rightarrow> ptr \<Rightarrow> 'e sup \<Rightarrow> 'e sup eff" where
  "broadcast dlv p s =
     and_then (broadcast_list dlv p (concat (map snd (v_contacts s))) s) (\<lambda>s. delete_message p s)"

definition broadcast_type :: "'e delivery \<Rightarrow> string \<Rightarrow> ptr \<Rightarrow> 'e sup \<Rightarrow> 'e sup eff" where
  "broadcast_type dlv type p s =
     (case map_of (v_contacts s) type of
        None \<Rightarrow> fail Wild_Deref
      | Some as \<Rightarrow> and_then (broadcast_list dlv p as s) (\<lambda>s. delete_message p s))"

text \<open>\<open>sync\<close> introduces a new child to the supervisor and to whoever asked for it.\<close>

definition sync :: "'e delivery \<Rightarrow> nat \<Rightarrow> (nat \<Rightarrow> string) \<Rightarrow> addr \<Rightarrow> 'e sup \<Rightarrow> 'e sup eff" where
  "sync dlv self types a s =
     and_then (sup_add_link_impl self types (addr_copy_ctor a) s) (\<lambda>s.
     and_then (sup_address self) (\<lambda>own.
     and_then (send dlv a own ''add_link'' [] s) (\<lambda>s.
     and_then (get_value (v_heap s) (v_current s)) (\<lambda>msg.
     let sender = m_sender msg in
     and_then (addr_bool sender) (\<lambda>b.
     if b \<and> addr_get sender \<noteq> A_Mod self then link dlv sender a s else ok s)))))"

text \<open>
  \<open>spawn_actor\<close> and \<open>spawn_supervisor\<close>: \<open>construct\<close> allocates from the resource and runs the
  child's constructor, \<open>keep\<close> is the virtual \<open>add_actor_impl\<close> or \<open>add_supervisor_impl\<close>.
\<close>

definition spawn ::
  "('e sup \<Rightarrow> (nat \<times> 'e sup) eff) \<Rightarrow> (nat \<Rightarrow> 'e sup \<Rightarrow> 'e sup eff) \<Rightarrow> 'e delivery \<Rightarrow> nat \<Rightarrow>
     (nat \<Rightarrow> string) \<Rightarrow> 'e sup \<Rightarrow> (addr \<times> 'e sup) eff" where
  "spawn construct keep dlv self types s =
     and_then (construct s) (\<lambda>(child, s).
     and_then (addr_ctor (Some child)) (\<lambda>a.
     and_then (keep child s) (\<lambda>s.
     and_then (sync dlv self types a s) (\<lambda>s. ok (a, s)))))"

section \<open>The contacts\<close>

text \<open>
  Every entry of the hash map is for the type of the modules in its list, which is not empty and
  holds modules other than the supervisor.
\<close>

definition contacts_ok :: "nat \<Rightarrow> (nat \<Rightarrow> string) \<Rightarrow> 'e sup \<Rightarrow> bool" where
  "contacts_ok self types s \<longleftrightarrow> distinct (map fst (v_contacts s)) \<and>
     (\<forall>(name, as) \<in> set (v_contacts s).
        as \<noteq> [] \<and> (\<forall>a \<in> set as. \<exists>n. a = A_Mod n \<and> n \<noteq> self \<and> types n = name))"

lemma contacts_okD:
  assumes "contacts_ok self types s" and "map_of (v_contacts s) name = Some as"
  shows "as \<noteq> []" and "a \<in> set as \<Longrightarrow> \<exists>n. a = A_Mod n \<and> n \<noteq> self \<and> types n = name"
  using assms by (auto simp: contacts_ok_def dest!: map_of_SomeD)

lemma contacts_ok_cong:
  "v_contacts s' = v_contacts s \<Longrightarrow> contacts_ok self types s' = contacts_ok self types s"
  by (simp add: contacts_ok_def)

lemma sup_address_book_ok:
  assumes "contacts_ok self types s"
  shows "sup_address_book name s =
    (case map_of (v_contacts s) name of None \<Rightarrow> ok A_Null | Some as \<Rightarrow> ok (hd as))"
  using contacts_okD(1) [OF assms]
  by (auto simp: sup_address_book_def addr_empty_def split: option.splits list.splits)

text \<open>A new address goes to the end of the list of its type.\<close>

lemma add_link_new:
  assumes ok: "contacts_ok self types s" and n: "n \<noteq> self"
  defines "old \<equiv> (case map_of (v_contacts s) (types n) of None \<Rightarrow> [] | Some as \<Rightarrow> as)"
  shows "\<exists>cs. sup_add_link_impl self types (A_Mod n) s = ok (s\<lparr>v_contacts := cs\<rparr>) \<and>
           map_of cs = (map_of (v_contacts s))(types n \<mapsto> old @ [A_Mod n]) \<and>
           contacts_ok self types (s\<lparr>v_contacts := cs\<rparr>)"
proof (cases "map_of (v_contacts s) (types n)")
  case None
  let ?cs = "v_contacts s @ [(types n, [A_Mod n])]"
  have "map_of ?cs = (map_of (v_contacts s))(types n \<mapsto> old @ [A_Mod n])"
    using None by (auto simp: old_def map_add_def fun_eq_iff split: option.splits)
  moreover have "contacts_ok self types (s\<lparr>v_contacts := ?cs\<rparr>)"
    using ok None n by (force simp: contacts_ok_def map_of_eq_None_iff)
  ultimately show ?thesis
    using None n by (auto simp: sup_add_link_impl_def addr_get_def addr_type_def addr_move_ctor_def addr_swap_def)
next
  case (Some as)
  let ?cs = "AList.update (types n) (as @ [A_Mod n]) (v_contacts s)"
  have m: "map_of ?cs = (map_of (v_contacts s))(types n \<mapsto> old @ [A_Mod n])"
    using Some by (simp add: old_def update_conv')
  have d: "distinct (map fst ?cs)"
    using ok by (simp add: contacts_ok_def distinct_update)
  have "xs \<noteq> [] \<and> (\<forall>a \<in> set xs. \<exists>k. a = A_Mod k \<and> k \<noteq> self \<and> types k = name)"
    if "(name, xs) \<in> set ?cs" for name xs
  proof -
    have "map_of ?cs name = Some xs"
      using d that by simp
    then show ?thesis
      using m Some contacts_okD [OF ok, of name xs] contacts_okD [OF ok Some] n
      by (auto simp: old_def split: if_splits)
  qed
  with d have "contacts_ok self types (s\<lparr>v_contacts := ?cs\<rparr>)"
    by (auto simp: contacts_ok_def)
  with m Some n show ?thesis
    by (auto simp: sup_add_link_impl_def addr_get_def addr_type_def addr_move_ctor_def addr_swap_def)
qed

lemma erase_loop_found: "a \<in> set as \<Longrightarrow> erase_loop a as = fail Invalid_Iterator"
  by (induction as) (auto simp: addr_get_def)

lemma erase_loop_missing: "a \<notin> set as \<Longrightarrow> erase_loop a as = ok as"
  by (induction as) (auto simp: addr_get_def)

section \<open>What is sent\<close>

text \<open>
  Delivery to asynchronous modules: handing over a message only appends it to the receiver's
  mailbox; \<open>p_out\<close> lists these calls in order, and \<open>p_user\<close> is whatever
  other members the program has.
\<close>

record 'u post =
  p_out :: "(nat \<times> ptr) list"
  p_user :: 'u

abbreviation out :: "'u post sup \<Rightarrow> (nat \<times> ptr) list" where
  "out s \<equiv> p_out (v_env s)"

abbreviation posted :: "'u post sup \<Rightarrow> (nat \<times> ptr) list \<Rightarrow> 'u post" where
  "posted s xs \<equiv> (v_env s)\<lparr>p_out := out s @ xs\<rparr>"

definition outbox :: "'u post delivery" where
  "outbox n p s = ok (s\<lparr>v_env := posted s [(n, p)]\<rparr>)"

definition sent :: "'u post sup \<Rightarrow> (nat \<times> message) list" where
  "sent s = map (\<lambda>(n, p). (n, the (cell (v_heap s) p))) (out s)"

text \<open>The heap beyond \<open>v_fresh\<close> is free, and what was sent is allocated.\<close>

definition heap_ok :: "'u post sup \<Rightarrow> bool" where
  "heap_ok s \<longleftrightarrow> (\<forall>(n, p) \<in> set (out s). \<exists>k < v_fresh s. p = Node k)"

lemma sent_new_node:
  assumes "heap_ok s"
  shows "sent (s\<lparr>v_heap := new_node (v_heap s) (v_fresh s) m, v_fresh := Suc (v_fresh s)\<rparr>) = sent s"
  using assms by (fastforce simp: sent_def heap_ok_def new_node_def)

text \<open>\<open>calm s s'\<close>: besides what was sent and the contacts nothing changed.\<close>

definition calm :: "'u post sup \<Rightarrow> 'u post sup \<Rightarrow> bool" where
  "calm s s' \<longleftrightarrow> v_current s' = v_current s \<and> v_log s' = v_log s \<and> p_user (v_env s') = p_user (v_env s) \<and>
     v_fresh s \<le> v_fresh s' \<and> (\<forall>k < v_fresh s. cell (v_heap s') (Node k) = cell (v_heap s) (Node k))"

lemma calm_refl [simp]: "calm s s"
  by (simp add: calm_def)

lemma calm_trans: "calm s s1 \<Longrightarrow> calm s1 s2 \<Longrightarrow> calm s s2"
  by (auto simp: calm_def)

lemma calm_contacts: "calm (s\<lparr>v_contacts := c\<rparr>) s' \<longleftrightarrow> calm s s'"
  by (simp add: calm_def)

lemma send_outbox:
  assumes "heap_ok s"
  shows "\<exists>s'. send outbox (A_Mod n) sender name args s = ok s' \<and>
           sent s' = sent s @ [(n, make_message sender name args)] \<and> heap_ok s' \<and>
           v_contacts s' = v_contacts s \<and> v_current s' = v_current s \<and> v_log s' = v_log s \<and>
           v_fresh s' = Suc (v_fresh s) \<and> v_env s' = posted s [(n, Node (v_fresh s))] \<and>
           v_heap s' = new_node (v_heap s) (v_fresh s) (make_message sender name args) \<and> calm s s'"
proof -
  let ?s = "s\<lparr>v_heap := new_node (v_heap s) (v_fresh s) (make_message sender name args),
      v_fresh := Suc (v_fresh s), v_env := posted s [(n, Node (v_fresh s))]\<rparr>"
  have "sent ?s = sent s @ [(n, make_message sender name args)]"
    using assms by (fastforce simp: sent_def heap_ok_def new_node_def)
  moreover have "heap_ok ?s"
    using assms by (fastforce simp: heap_ok_def)
  ultimately show ?thesis
    by (intro exI [of _ ?s])
       (simp add: send_def new_message_def make_message_ptr_def addr_enqueue_def outbox_def calm_def new_node_def)
qed

lemma heap_ok_cong:
  "v_env s' = v_env s \<Longrightarrow> v_fresh s' = v_fresh s \<Longrightarrow> heap_ok s' = heap_ok s"
  by (simp add: heap_ok_def)

lemma sent_cong: "v_env s' = v_env s \<Longrightarrow> v_heap s' = v_heap s \<Longrightarrow> sent s' = sent s"
  by (simp add: sent_def)

lemma get_value_new: "live h p \<Longrightarrow> p \<noteq> Node n \<Longrightarrow> get_value (new_node h n m) p = ok (the (cell h p))"
  by (simp add: get_value_def new_node_def live_def)

lemma link_outbox:
  assumes "heap_ok s"
  shows "\<exists>s'. link outbox (A_Mod m) (A_Mod n) s = ok s' \<and>
           sent s' = sent s @ [(m, make_message (A_Mod n) ''add_link'' []), (n, make_message (A_Mod m) ''add_link'' [])] \<and>
           heap_ok s' \<and> v_contacts s' = v_contacts s \<and> calm s s'"
proof -
  obtain s1 where s1: "send outbox (A_Mod m) (A_Mod n) ''add_link'' [] s = ok s1"
      "sent s1 = sent s @ [(m, make_message (A_Mod n) ''add_link'' [])]" "heap_ok s1" "v_contacts s1 = v_contacts s" "calm s s1"
    using send_outbox [OF assms] by blast
  obtain s2 where "send outbox (A_Mod n) (A_Mod m) ''add_link'' [] s1 = ok s2"
      "sent s2 = sent s1 @ [(n, make_message (A_Mod m) ''add_link'' [])]" "heap_ok s2" "v_contacts s2 = v_contacts s1"
      "calm s1 s2"
    using send_outbox [OF s1(3)] by blast
  with s1 show ?thesis
    using calm_trans by (auto simp: link_def link_imp_def)
qed

text \<open>What a new child is told, depending on who asked for it.\<close>

definition introductions :: "nat \<Rightarrow> nat \<Rightarrow> addr \<Rightarrow> (nat \<times> message) list" where
  "introductions self child sender =
     (child, make_message (A_Mod self) ''add_link'' []) #
     (case sender of
        A_Mod n \<Rightarrow> if n = self then []
          else [(n, make_message (A_Mod child) ''add_link'' []), (child, make_message (A_Mod n) ''add_link'' [])]
      | _ \<Rightarrow> [])"

lemma sync_outbox:
  assumes c: "contacts_ok self types s" and h: "heap_ok s" and n: "child \<noteq> self"
    and cur: "live (v_heap s) (v_current s)" "v_current s \<noteq> Node (v_fresh s)"
    and sd: "m_sender (the (cell (v_heap s) (v_current s))) \<noteq> A_Uninit"
  shows "\<exists>s'. sync outbox self types (A_Mod child) s = ok s' \<and>
           sent s' = sent s @ introductions self child (m_sender (the (cell (v_heap s) (v_current s)))) \<and>
           heap_ok s' \<and> contacts_ok self types s' \<and> calm s s' \<and>
           map_of (v_contacts s') = (map_of (v_contacts s))(types child \<mapsto>
             (case map_of (v_contacts s) (types child) of None \<Rightarrow> [] | Some as \<Rightarrow> as) @ [A_Mod child])"
proof -
  let ?old = "case map_of (v_contacts s) (types child) of None \<Rightarrow> [] | Some as \<Rightarrow> as"
  obtain cs where cs: "sup_add_link_impl self types (A_Mod child) s = ok (s\<lparr>v_contacts := cs\<rparr>)"
      "map_of cs = (map_of (v_contacts s))(types child \<mapsto> ?old @ [A_Mod child])"
      "contacts_ok self types (s\<lparr>v_contacts := cs\<rparr>)"
    using add_link_new [OF c n] by blast
  let ?s = "s\<lparr>v_contacts := cs\<rparr>"
  have h1: "heap_ok ?s"
    using h by (simp add: heap_ok_def)
  obtain s1 where s1: "send outbox (A_Mod child) (A_Mod self) ''add_link'' [] ?s = ok s1"
      "sent s1 = sent ?s @ [(child, make_message (A_Mod self) ''add_link'' [])]" "heap_ok s1"
      "v_contacts s1 = cs" "v_current s1 = v_current s"
      "v_heap s1 = new_node (v_heap s) (v_fresh s) (make_message (A_Mod self) ''add_link'' [])" "calm s s1"
    using send_outbox [OF h1, of child "A_Mod self" "''add_link''" "[]"] by (auto simp: calm_contacts)
  let ?m = "the (cell (v_heap s) (v_current s))"
  have g: "get_value (v_heap s1) (v_current s1) = ok ?m"
    using cur s1(5,6) by (simp add: get_value_new)
  have sent1: "sent ?s = sent s"
    by (simp add: sent_def)
  have sync: "sync outbox self types (A_Mod child) s =
      and_then (addr_bool (m_sender ?m)) (\<lambda>b.
      if b \<and> m_sender ?m \<noteq> A_Mod self then link outbox (m_sender ?m) (A_Mod child) s1 else ok s1)"
    using cs(1) s1(1) g
    by (simp add: sync_def sup_address_def addr_ctor_def addr_copy_ctor_def addr_get_def Let_def
        cong del: and_then_weak_cong)
  have ok1: "contacts_ok self types s1"
    using cs(3) s1(4) by (simp add: contacts_ok_def)
  show ?thesis
  proof (cases "\<exists>r. m_sender ?m = A_Mod r \<and> r \<noteq> self")
    case True
    then obtain r where r: "m_sender ?m = A_Mod r" "r \<noteq> self"
      by blast
    obtain s2 where s2: "link outbox (A_Mod r) (A_Mod child) s1 = ok s2"
        "sent s2 = sent s1 @ [(r, make_message (A_Mod child) ''add_link'' []), (child, make_message (A_Mod r) ''add_link'' [])]"
        "heap_ok s2" "v_contacts s2 = v_contacts s1" "calm s1 s2"
      using link_outbox [OF s1(3)] by blast
    have "contacts_ok self types s2"
      using ok1 s2(4) by (simp add: contacts_ok_def)
    with sync r s1 s2 cs(2) sent1 calm_trans [OF s1(7) s2(5)] show ?thesis
      by (simp add: introductions_def)
  next
    case False
    with sd have "sync outbox self types (A_Mod child) s = ok s1"
      using sync by (cases "m_sender ?m") auto
    moreover have "introductions self child (m_sender ?m) = [(child, make_message (A_Mod self) ''add_link'' [])]"
      using False by (auto simp: introductions_def split: addr.splits)
    ultimately show ?thesis
      using s1 cs(2) sent1 ok1 by simp
  qed
qed

lemma broadcast_list_outbox:
  assumes "heap_ok s" and "\<forall>a \<in> set as. \<exists>n. a = A_Mod n" and "live (v_heap s) (Node k)" and "k < v_fresh s"
  shows "\<exists>s'. broadcast_list outbox (Node k) as s = ok s' \<and>
           sent s' = sent s @ map (\<lambda>a. (the_inv A_Mod a, msg_clone (the (cell (v_heap s) (Node k))))) as \<and>
           heap_ok s' \<and> v_contacts s' = v_contacts s \<and> live (v_heap s') (Node k) \<and>
           map snd (out s') = map snd (out s) @ map (\<lambda>i. Node (v_fresh s + i)) [0..<length as] \<and> calm s s'"
  using assms
proof (induction as arbitrary: s)
  case (Cons a as)
  then obtain n where n: "a = A_Mod n"
    by auto
  let ?m = "the (cell (v_heap s) (Node k))"
  let ?s = "s\<lparr>v_heap := new_node (v_heap s) (v_fresh s) (msg_clone ?m), v_fresh := Suc (v_fresh s),
      v_env := posted s [(n, Node (v_fresh s))]\<rparr>"
  have step: "broadcast_list outbox (Node k) (a # as) s = broadcast_list outbox (Node k) as ?s"
    using Cons.prems(3) n by (simp add: heap_simps Let_def addr_enqueue_def outbox_def)
  have sent: "sent ?s = sent s @ [(n, msg_clone ?m)]"
    using Cons.prems(1) by (fastforce simp: sent_def heap_ok_def new_node_def)
  have c: "cell (v_heap ?s) (Node k) = cell (v_heap s) (Node k)"
    using Cons.prems(4) by (simp add: new_node_def)
  have ns: "map (\<lambda>i. Node (Suc (v_fresh s + i))) [0..<length as] = map (\<lambda>i. Node (v_fresh s + i)) [Suc 0..<Suc (length as)]"
    by (simp add: map_Suc_upt [symmetric] del: upt_Suc)
  have "heap_ok ?s" "\<forall>a \<in> set as. \<exists>n. a = A_Mod n" "live (v_heap ?s) (Node k)" "k < v_fresh ?s"
    using Cons.prems by (fastforce simp: heap_ok_def)+
  from Cons.IH [OF this] obtain s' where s': "broadcast_list outbox (Node k) as ?s = ok s'"
      "sent s' = sent ?s @ map (\<lambda>a. (the_inv A_Mod a, msg_clone ?m)) as" "heap_ok s'" "v_contacts s' = v_contacts s"
      "live (v_heap s') (Node k)"
      "map snd (out s') = map snd (out ?s) @ map (\<lambda>i. Node (v_fresh ?s + i)) [0..<length as]" "calm ?s s'"
    using c by auto
  have "calm s ?s"
    by (simp add: calm_def new_node_def)
  have "map snd (out s') = map snd (out s) @ map (\<lambda>i. Node (v_fresh s + i)) [0..<length (a # as)]"
    using s'(6) ns by (simp add: upt_conv_Cons del: upt_Suc)
  moreover have "the_inv A_Mod a = n"
    unfolding n by (rule the_inv_f_f) (auto simp: inj_def)
  ultimately show ?case
    using step s' sent calm_trans [OF \<open>calm s ?s\<close> s'(7)] by (intro exI [of _ s']) simp
qed simp

lemma broadcast_outbox:
  assumes "contacts_ok self types s" and "heap_ok s" and "live (v_heap s) (Node k)" and "k < v_fresh s"
    and "Node k \<notin> snd ` set (out s)"
  defines "targets \<equiv> concat (map snd (v_contacts s))"
  shows "\<exists>s'. broadcast outbox (Node k) s = ok s' \<and>
           sent s' = sent s @ map (\<lambda>a. (the_inv A_Mod a, msg_clone (the (cell (v_heap s) (Node k))))) targets \<and>
           map snd (out s') = map snd (out s) @ map (\<lambda>i. Node (v_fresh s + i)) [0..<length targets] \<and>
           \<not> live (v_heap s') (Node k) \<and> v_contacts s' = v_contacts s \<and> heap_ok s' \<and>
           p_user (v_env s') = p_user (v_env s) \<and> v_fresh s \<le> v_fresh s' \<and> v_current s' = v_current s"
proof -
  have "\<forall>a \<in> set targets. \<exists>n. a = A_Mod n"
    using assms(1) by (fastforce simp: targets_def contacts_ok_def)
  then obtain s1 where s1: "broadcast_list outbox (Node k) targets s = ok s1"
      "sent s1 = sent s @ map (\<lambda>a. (the_inv A_Mod a, msg_clone (the (cell (v_heap s) (Node k))))) targets"
      "v_contacts s1 = v_contacts s" "live (v_heap s1) (Node k)"
      "map snd (out s1) = map snd (out s) @ map (\<lambda>i. Node (v_fresh s + i)) [0..<length targets]" "heap_ok s1" "calm s s1"
    using broadcast_list_outbox [OF assms(2) _ assms(3,4)] by blast
  let ?s2 = "s1\<lparr>v_heap := (v_heap s1)\<lparr>cell := (cell (v_heap s1))(Node k := None)\<rparr>\<rparr>"
  have "broadcast outbox (Node k) s = ok ?s2"
    using s1(1,4) by (simp add: broadcast_def targets_def delete_message_def heap_simps)
  moreover have "p \<noteq> Node k" if "(n, p) \<in> set (out s1)" for n p
  proof -
    have "p \<in> set (map snd (out s1))"
      using that by force
    with s1(5) assms(4,5) show ?thesis
      by auto
  qed
  then have "sent ?s2 = sent s1"
    by (fastforce simp: sent_def)
  ultimately show ?thesis
    using s1(2,3,5,7) heap_ok_cong [of ?s2 s1] s1(6) by (intro exI [of _ ?s2]) (simp add: calm_def)
qed

section \<open>Executing the handlers\<close>

lemma sup_ctor_handlers:
  "cm_handlers (sup_ctor dlv self types) n =
     (if n = ''remove_link'' then Some (sup_remove_link types)
      else if n = ''add_link'' then Some (sup_add_link self types)
      else if n = ''delegate'' then Some (redirect dlv self) else None)"
  by (simp add: sup_ctor_def)

lemma redirect_impl_outbox:
  assumes c: "contacts_ok self types s" and h: "heap_ok s" and l: "live (v_heap s) (Node k)"
    and k: "Node k \<notin> snd ` set (out s)" "k < v_fresh s"
  shows "case map_of (v_contacts s) type of
      None \<Rightarrow> redirect_impl outbox self type (Node k) s = fail Null_Deref
    | Some as \<Rightarrow> \<exists>n s'. hd as = A_Mod n \<and> redirect_impl outbox self type (Node k) s = ok s' \<and>
        v_env s' = posted s [(n, Node k)] \<and>
        cell (v_heap s') (Node k) = Some ((the (cell (v_heap s) (Node k)))\<lparr>m_sender := A_Mod self\<rparr>) \<and>
        v_contacts s' = v_contacts s \<and> v_log s' = v_log s \<and> v_current s' = v_current s \<and>
        (\<forall>p. live (v_heap s') p = live (v_heap s) p) \<and> (\<forall>p. p \<noteq> Node k \<longrightarrow> cell (v_heap s') p = cell (v_heap s) p)"
proof -
  let ?m = "(the (cell (v_heap s) (Node k)))\<lparr>m_sender := A_Mod self\<rparr>"
  let ?s = "s\<lparr>v_heap := (v_heap s)\<lparr>cell := (cell (v_heap s))(Node k := Some ?m)\<rparr>\<rparr>"
  have u: "redirect_impl outbox self type (Node k) s =
      and_then (sup_address_book type ?s) (\<lambda>target. send_ptr outbox target (Node k) ?s)"
    using l by (simp add: redirect_impl_def heap_simps put_message_def sup_address_def addr_ctor_def
        addr_move_assign_def addr_swap_def)
  have b: "sup_address_book type ?s =
      (case map_of (v_contacts s) type of None \<Rightarrow> ok A_Null | Some as \<Rightarrow> ok (hd as))"
    using sup_address_book_ok [of self types ?s type] c by (simp add: contacts_ok_def)
  show ?thesis
  proof (cases "map_of (v_contacts s) type")
    case None
    with u b show ?thesis
      by (simp add: send_ptr_def addr_copy_ctor_def addr_enqueue_def)
  next
    case (Some as)
    then obtain n where n: "hd as = A_Mod n"
      using contacts_okD [OF c Some] hd_in_set [of as] by blast
    let ?t = "?s\<lparr>v_env := posted s [(n, Node k)]\<rparr>"
    have r: "redirect_impl outbox self type (Node k) s = ok ?t"
      using u b Some n by (simp add: send_ptr_def addr_copy_ctor_def addr_enqueue_def outbox_def)
    have "\<forall>p. live (v_heap ?t) p = live (v_heap s) p"
      using l by (auto simp: live_def)
    then show ?thesis
      using Some n r by (auto intro!: exI [of _ ?t])
  qed
qed

text \<open>The supervisor executes a delegate message.\<close>

lemma execute_delegate:
  assumes cur: "get_value (v_heap s) (v_current s) = ok msg" and cmd: "m_command msg = ''delegate''"
    and b: "m_body msg = Some (V_Tuple [V_String type, V_Msg p])"
  shows "sup_execute types (sup_ctor dlv self types) s =
    and_then (redirect_impl dlv self type p s) (\<lambda>s'.
      write_body sup_ctx (v_current s) (V_Tuple [V_String [], V_Msg p]) s')"
proof -
  have r: "read_message sup_ctx (current_message sup_ctx s) s = ok msg"
    using cur by simp
  have h: "cm_handlers (sup_ctor dlv self types) (m_command msg) = Some (redirect dlv self)"
    by (simp add: sup_ctor_handlers cmd)
  have b': "m_body msg = make_body [V_String type, V_Msg p]"
    using b by simp
  have t: "map ty_of [V_String type, V_Msg p] = c_args (redirect dlv self)"
    by (simp add: redirect_def)
  show ?thesis
    unfolding sup_execute_def execute_handler [OF r h] invoke_made [OF r b' t]
    by (simp add: redirect_def and_then_assoc cong del: and_then_weak_cong)
qed

text \<open>The state \<open>delegate_send\<close> leaves: the two new messages are on the heap.\<close>

definition delegated_state ::
  "nat \<Rightarrow> string \<Rightarrow> string \<Rightarrow> val list \<Rightarrow> 'u post sup \<Rightarrow> 'u post sup \<Rightarrow> bool" where
  "delegated_state self type name args s s1 \<longleftrightarrow>
     heap_ok s1 \<and> v_contacts s1 = v_contacts s \<and> v_log s1 = v_log s \<and> v_fresh s1 = Suc (Suc (v_fresh s)) \<and>
     cell (v_heap s1) (Node (v_fresh s)) = Some (make_message A_Null name args) \<and>
     cell (v_heap s1) (Node (Suc (v_fresh s))) =
       Some (make_message (A_Mod self) ''delegate'' [V_String type, V_Msg (Node (v_fresh s))]) \<and>
     (\<forall>k < v_fresh s. cell (v_heap s1) (Node k) = cell (v_heap s) (Node k))"

lemma delegate_send_outbox:
  assumes h: "heap_ok s"
  shows "\<exists>s1. delegate_send outbox (A_Mod self) type name args s = ok s1 \<and>
           v_env s1 = posted s [(self, Node (Suc (v_fresh s)))] \<and> delegated_state self type name args s s1"
proof -
  let ?k = "v_fresh s" and ?inner = "make_message A_Null name args"
  let ?s0 = "s\<lparr>v_heap := new_node (v_heap s) ?k ?inner, v_fresh := Suc ?k\<rparr>"
  have h0: "heap_ok ?s0"
    using h by (fastforce simp: heap_ok_def)
  obtain s1 where s1: "send outbox (A_Mod self) (A_Mod self) ''delegate'' [V_String type, V_Msg (Node ?k)] ?s0 = ok s1"
      "heap_ok s1" "v_contacts s1 = v_contacts s" "v_log s1 = v_log s"
      "v_fresh s1 = Suc (Suc ?k)" "v_env s1 = posted s [(self, Node (Suc ?k))]"
      "v_heap s1 = new_node (v_heap ?s0) (Suc ?k)
         (make_message (A_Mod self) ''delegate'' [V_String type, V_Msg (Node ?k)])"
    using send_outbox [OF h0, of self "A_Mod self" "''delegate''" "[V_String type, V_Msg (Node ?k)]"] by auto
  have "delegate_send outbox (A_Mod self) type name args s = ok s1"
    using s1(1) by (simp add: delegate_send_def new_message_def make_message_ptr_def addr_empty_def)
  moreover have "delegated_state self type name args s s1"
    using s1(2-5) by (simp add: delegated_state_def s1(7) new_node_def)
  ultimately show ?thesis
    using s1(6) by blast
qed

lemma write_body_sup:
  assumes "live (v_heap s) p"
  shows "write_body sup_ctx p v s =
    ok (s\<lparr>v_heap := (v_heap s)\<lparr>cell := (cell (v_heap s))(p := Some ((the (cell (v_heap s) p))\<lparr>m_body := Some v\<rparr>))\<rparr>\<rparr>)"
  using assms by (simp add: write_body_def heap_simps put_message_def)

lemma execute_delegated:
  assumes c: "contacts_ok self types s" and h: "heap_ok s" and d: "delegated_state self type name args s s1"
    and e: "v_env s1 = posted s [(self, Node (Suc (v_fresh s)))]"
  shows "case map_of (v_contacts s) type of
      None \<Rightarrow> sup_execute types (sup_ctor outbox self types) (set_current_message (Node (Suc (v_fresh s))) s1) = fail Null_Deref
    | Some as \<Rightarrow> \<exists>n s2. hd as = A_Mod n \<and>
        sup_execute types (sup_ctor outbox self types) (set_current_message (Node (Suc (v_fresh s))) s1) = ok s2 \<and>
        (\<exists>delegated. sent s2 = sent s @ [(self, delegated), (n, make_message (A_Mod self) name args)]) \<and>
        v_contacts s2 = v_contacts s \<and> v_log s2 = v_log s"
proof -
  let ?k = "v_fresh s"
  let ?t = "set_current_message (Node (Suc ?k)) s1"
  note d = d [unfolded delegated_state_def]
  have t: "v_heap ?t = v_heap s1" "v_env ?t = v_env s1" "v_contacts ?t = v_contacts s" "v_log ?t = v_log s"
      "v_fresh ?t = Suc (Suc ?k)" "v_current ?t = Node (Suc ?k)"
    using d by (simp_all add: set_current_message_def)
  have ct: "contacts_ok self types ?t" "heap_ok ?t"
    using c d heap_ok_cong [of ?t s1] by (simp_all add: contacts_ok_def set_current_message_def)
  have k: "Node ?k \<notin> snd ` set (out ?t)" "?k < v_fresh ?t" "live (v_heap ?t) (Node ?k)"
    using h d by (fastforce simp: heap_ok_def t e live_def)+
  have gv: "get_value (v_heap ?t) (v_current ?t) =
      ok (make_message (A_Mod self) ''delegate'' [V_String type, V_Msg (Node ?k)])"
    using d t by (simp add: get_value_def live_def)
  have ex: "sup_execute types (sup_ctor outbox self types) ?t =
      and_then (redirect_impl outbox self type (Node ?k) ?t) (\<lambda>s'.
        write_body sup_ctx (Node (Suc ?k)) (V_Tuple [V_String [], V_Msg (Node ?k)]) s')"
    using execute_delegate [OF gv, of type "Node ?k" types outbox self] unfolding t(6) by simp
  note ri = redirect_impl_outbox [OF ct k(3,1,2), of type, unfolded t(3)]
  show ?thesis
  proof (cases "map_of (v_contacts s) type")
    case None
    with ri ex show ?thesis by simp
  next
    case (Some as)
    with ri obtain n s2 where n: "hd as = A_Mod n" and s2: "redirect_impl outbox self type (Node ?k) ?t = ok s2"
        "v_env s2 = posted s [(self, Node (Suc ?k)), (n, Node ?k)]"
        "cell (v_heap s2) (Node ?k) = Some (make_message (A_Mod self) name args)"
        "v_contacts s2 = v_contacts s" "v_log s2 = v_log s" "\<forall>p. live (v_heap s2) p = live (v_heap s1) p"
        "\<forall>p. p \<noteq> Node ?k \<longrightarrow> cell (v_heap s2) p = cell (v_heap s1) p"
      using d by (auto simp: t e make_message_def message_ctor_def addr_move_ctor_def addr_swap_def)
    have l: "live (v_heap s2) (Node (Suc ?k))"
      using s2(7) d by (simp add: live_def)
    let ?s3 = "s2\<lparr>v_heap := (v_heap s2)\<lparr>cell := (cell (v_heap s2))(Node (Suc ?k) :=
        Some ((the (cell (v_heap s2) (Node (Suc ?k))))\<lparr>m_body := Some (V_Tuple [V_String [], V_Msg (Node ?k)])\<rparr>))\<rparr>\<rparr>"
    have "sup_execute types (sup_ctor outbox self types) ?t = ok ?s3"
      using ex s2(1) write_body_sup [OF l] by simp
    moreover have "\<forall>(n, p) \<in> set (out s). cell (v_heap ?s3) p = cell (v_heap s) p"
      using h d s2(7) by (fastforce simp: heap_ok_def)
    then have "map (\<lambda>(n, p). (n, the (cell (v_heap ?s3) p))) (out s) = sent s"
      by (auto simp: sent_def)
    then have "\<exists>delegated. sent ?s3 = sent s @ [(self, delegated), (n, make_message (A_Mod self) name args)]"
      using s2(2,3) by (simp add: sent_def)
    ultimately show ?thesis
      using Some n s2(4,5) by auto
  qed
qed

section \<open>Concrete instances\<close>

text \<open>Supervisor 0 with two contacts of type storage; message 5 from module 9 is being executed.\<close>

definition sup_demo_types :: "nat \<Rightarrow> string" where
  "sup_demo_types n = (if n \<in> {2, 3, 4} then ''storage'' else ''network'')"

definition demo_sup :: "unit post sup" where
  "demo_sup = (sup_init (new_node empty_heap 5 (make_message (A_Mod 9) ''create'' [])) 6 \<lparr>p_out = [], p_user = ()\<rparr>)
     \<lparr>v_contacts := [(''storage'', [A_Mod 2, A_Mod 3])], v_current := Node 5\<rparr>"

lemma demo_sup_ok:
  "contacts_ok 0 sup_demo_types demo_sup" "heap_ok demo_sup" "live (v_heap demo_sup) (Node 5)"
  "v_current demo_sup = Node 5" "v_fresh demo_sup = 6" "out demo_sup = []"
  "v_contacts demo_sup = [(''storage'', [A_Mod 2, A_Mod 3])]"
  "cell (v_heap demo_sup) (Node 5) = Some (make_message (A_Mod 9) ''create'' [])" "sent demo_sup = []"
  by (auto simp: sent_def demo_sup_def sup_init_def contacts_ok_def sup_demo_types_def heap_ok_def new_node_def live_def)

section \<open>Properties\<close>

text \<open>
  C8. Spawning a child: it becomes the last contact of its type, the other types keep theirs, and
  the contact table stays well formed; the child is told about the supervisor, and if another
  module had asked for the child, that module and the child are told about each other; nothing
  else is sent. The address of the child is returned.
\<close>

theorem spawn_introduces_child:
  assumes "construct s0 = ok (child, s1)" and "keep child s1 = ok s"
    and "contacts_ok self types s" and "heap_ok s" and "child \<noteq> self"
    and "live (v_heap s) (v_current s)" and "v_current s \<noteq> Node (v_fresh s)"
    and "m_sender (the (cell (v_heap s) (v_current s))) \<noteq> A_Uninit"
  shows "\<exists>s'. spawn construct keep outbox self types s0 = ok (A_Mod child, s') \<and>
           sent s' = sent s @ introductions self child (m_sender (the (cell (v_heap s) (v_current s)))) \<and>
           contacts_ok self types s' \<and>
           map_of (v_contacts s') = (map_of (v_contacts s))(types child \<mapsto>
             (case map_of (v_contacts s) (types child) of None \<Rightarrow> [] | Some as \<Rightarrow> as) @ [A_Mod child])"
  using assms(1,2) sync_outbox [OF assms(3-8)] by (auto simp: spawn_def addr_ctor_def)

lemma spawn_introduces_child_witness:
  "\<exists>s'. spawn (\<lambda>s. ok (4, s)) (\<lambda>_ s. ok s) outbox 0 sup_demo_types demo_sup = ok (A_Mod 4, s') \<and>
     sent s' = [(4, make_message (A_Mod 0) ''add_link'' []), (9, make_message (A_Mod 4) ''add_link'' []),
                (4, make_message (A_Mod 9) ''add_link'' [])] \<and>
     map_of (v_contacts s') ''storage'' = Some [A_Mod 2, A_Mod 3, A_Mod 4]"
  using spawn_introduces_child [of "\<lambda>s. ok (4, s)" demo_sup 4 demo_sup "\<lambda>_ s. ok s" demo_sup 0 sup_demo_types]
  by (auto simp: demo_sup_ok sent_def introductions_def sup_demo_types_def)

text \<open>
  C7. Delegation: \<open>delegate_send\<close> to a supervisor, executed by it, hands the inner message to the
  first contact of the type named, with command and arguments as given and the supervisor as its
  sender, and sends nothing else. When no module of that type is linked the supervisor
  dereferences a null pointer.
\<close>

theorem delegate_reaches_first_contact:
  assumes c: "contacts_ok self types s" and h: "heap_ok s"
  shows "\<exists>p s1. delegate_send outbox (A_Mod self) type name args s = ok s1 \<and> v_env s1 = posted s [(self, p)] \<and>
    (case map_of (v_contacts s) type of
      None \<Rightarrow> sup_execute types (sup_ctor outbox self types) (set_current_message p s1) = fail Null_Deref
    | Some as \<Rightarrow> \<exists>n s2. hd as = A_Mod n \<and>
        sup_execute types (sup_ctor outbox self types) (set_current_message p s1) = ok s2 \<and>
        (\<exists>delegated. sent s2 = sent s @ [(self, delegated), (n, make_message (A_Mod self) name args)]) \<and>
        v_contacts s2 = v_contacts s \<and> v_log s2 = v_log s)"
proof -
  obtain s1 where s1: "delegate_send outbox (A_Mod self) type name args s = ok s1"
      "v_env s1 = posted s [(self, Node (Suc (v_fresh s)))]" and d: "delegated_state self type name args s s1"
    using delegate_send_outbox [OF h] by blast
  from execute_delegated [OF c h d s1(2)] s1 show ?thesis
    by blast
qed

lemma delegate_reaches_first_contact_witness:
  "\<exists>p s1 s2 d. delegate_send outbox (A_Mod 0) ''storage'' ''update'' [V_String ''x''] demo_sup = ok s1 \<and>
     sup_execute sup_demo_types (sup_ctor outbox 0 sup_demo_types) (set_current_message p s1) = ok s2 \<and>
     sent s2 = [(0, d), (2, make_message (A_Mod 0) ''update'' [V_String ''x''])]"
  using delegate_reaches_first_contact [OF demo_sup_ok(1,2), of "''storage''" "''update''" "[V_String ''x'']"]
  by (simp add: demo_sup_ok) blast

text \<open>
  The overload of \<open>delegate_send\<close> that takes an \<open>address_t\<close> cannot work: its body is a pair of an
  address and a message, and the handler for \<open>delegate\<close> casts it to a pair of a string and a
  message, so executing the message throws, whatever the address.
\<close>

lemma delegate_by_address_throws:
  assumes "heap_ok s"
  shows "\<exists>p s1. delegate_send_addr outbox (A_Mod self) type name args s = ok s1 \<and> v_env s1 = posted s [(self, p)] \<and>
           sup_execute types (sup_ctor outbox self types) (set_current_message p s1) = fail Bad_Any_Cast"
proof -
  let ?k = "v_fresh s" and ?inner = "make_message A_Null name args"
  let ?s0 = "s\<lparr>v_heap := new_node (v_heap s) ?k ?inner, v_fresh := Suc ?k\<rparr>"
  let ?msg = "make_message (A_Mod self) ''delegate'' [V_Addr type, V_Msg (Node ?k)]"
  have "heap_ok ?s0"
    using assms by (fastforce simp: heap_ok_def)
  then obtain s1 where s1: "send outbox (A_Mod self) (A_Mod self) ''delegate'' [V_Addr type, V_Msg (Node ?k)] ?s0 = ok s1"
      "v_env s1 = posted s [(self, Node (Suc ?k))]" "v_heap s1 = new_node (v_heap ?s0) (Suc ?k) ?msg"
    using send_outbox [of ?s0 self "A_Mod self" "''delegate''" "[V_Addr type, V_Msg (Node ?k)]"] by auto
  let ?t = "set_current_message (Node (Suc ?k)) s1"
  have r: "read_message sup_ctx (current_message sup_ctx ?t) ?t = ok ?msg"
    by (simp add: set_current_message_def s1(3) get_value_def new_node_def live_def)
  have g: "cm_handlers (sup_ctor outbox self types) (m_command ?msg) = Some (redirect outbox self)"
    by (simp add: sup_ctor_handlers)
  have "invoke sup_ctx (redirect outbox self) ?t = fail Bad_Any_Cast"
    using invoke_mismatch [OF r, of "[V_Addr type, V_Msg (Node ?k)]" "redirect outbox self"]
    by (simp add: redirect_def)
  then have "sup_execute types (sup_ctor outbox self types) ?t = fail Bad_Any_Cast"
    unfolding sup_execute_def execute_handler [OF r g] .
  moreover have "delegate_send_addr outbox (A_Mod self) type name args s = ok s1"
    using s1(1) by (simp add: delegate_send_addr_def new_message_def make_message_ptr_def addr_empty_def)
  ultimately show ?thesis
    using s1(2) by blast
qed

text \<open>
  C10. Broadcast: every contact, once per time it was linked, gets its own new message equal to a clone of
  the one given, in the order of the contact table; then the message given is deleted. Nothing
  else is sent and the contacts stay as they are.
\<close>

theorem broadcast_reaches_every_contact:
  assumes "contacts_ok self types s" and "heap_ok s" and "live (v_heap s) (Node k)" and "k < v_fresh s"
    and "Node k \<notin> snd ` set (out s)"
  defines "targets \<equiv> concat (map snd (v_contacts s))"
  shows "\<exists>s'. broadcast outbox (Node k) s = ok s' \<and>
           sent s' = sent s @ map (\<lambda>a. (the_inv A_Mod a, msg_clone (the (cell (v_heap s) (Node k))))) targets \<and>
           map snd (out s') = map snd (out s) @ map (\<lambda>i. Node (v_fresh s + i)) [0..<length targets] \<and>
           \<not> live (v_heap s') (Node k) \<and> v_contacts s' = v_contacts s"
  using broadcast_outbox [OF assms(1-5)] by (auto simp: targets_def)

lemma broadcast_reaches_every_contact_witness:
  "\<exists>s'. broadcast outbox (Node 5) demo_sup = ok s' \<and>
     map fst (sent s') = map (the_inv A_Mod) [A_Mod 2, A_Mod 3] \<and> \<not> live (v_heap s') (Node 5)"
  using broadcast_reaches_every_contact [OF demo_sup_ok(1,2,3)] by (fastforce simp: demo_sup_ok)

text \<open>
  C21. Removing a link from a supervisor: as soon as the address is among the contacts the loop
  increments an iterator it has just invalidated; otherwise nothing changes.
\<close>

theorem supervisor_remove_link:
  assumes "contacts_ok self types s"
  shows "sup_remove_link_impl types (A_Mod n) s =
    (case map_of (v_contacts s) (types n) of
       Some as \<Rightarrow> if A_Mod n \<in> set as then fail Invalid_Iterator else ok s
     | None \<Rightarrow> ok s)"
proof (cases "map_of (v_contacts s) (types n)")
  case (Some as)
  have "AList.update (types n) as (v_contacts s) = v_contacts s"
    using assms Some by (intro update_triv) (simp_all add: contacts_ok_def)
  with Some show ?thesis
    by (simp add: sup_remove_link_impl_def addr_type_def erase_loop_found erase_loop_missing)
qed (simp add: sup_remove_link_impl_def addr_type_def)

lemma supervisor_remove_link_witness:
  "sup_remove_link_impl sup_demo_types (A_Mod 3) demo_sup = fail Invalid_Iterator \<and>
   sup_remove_link_impl sup_demo_types (A_Mod 4) demo_sup = ok demo_sup"
  using supervisor_remove_link [OF demo_sup_ok(1)] by (simp add: demo_sup_ok sup_demo_types_def)

text \<open>
  C22. The first module linked of a type is the one \<open>address_book\<close> returns: linking another module
  changes the answer only for a type that had no contact, and then to the new module.
\<close>

theorem first_link_wins:
  assumes "contacts_ok self types s" and "n \<noteq> self"
  shows "\<exists>s'. sup_add_link_impl self types (A_Mod n) s = ok s' \<and> contacts_ok self types s' \<and>
           (\<forall>name. sup_address_book name s' =
              (if name = types n \<and> sup_address_book name s = ok A_Null then ok (A_Mod n)
               else sup_address_book name s))"
proof -
  obtain cs where cs: "sup_add_link_impl self types (A_Mod n) s = ok (s\<lparr>v_contacts := cs\<rparr>)"
      "map_of cs = (map_of (v_contacts s))(types n \<mapsto>
         (case map_of (v_contacts s) (types n) of None \<Rightarrow> [] | Some as \<Rightarrow> as) @ [A_Mod n])"
      "contacts_ok self types (s\<lparr>v_contacts := cs\<rparr>)"
    using add_link_new [OF assms] by blast
  have nn: "hd as \<noteq> A_Null" "as \<noteq> []" if "map_of (v_contacts s) name = Some as" for name as
    using contacts_okD [OF assms(1) that] hd_in_set [of as] by fastforce+
  show ?thesis
    using cs nn
    by (auto simp: sup_address_book_ok [OF assms(1)] sup_address_book_ok [OF cs(3)] split: option.splits)
qed

lemma first_link_wins_witness:
  "\<exists>s1 s2. sup_add_link_impl 0 sup_demo_types (A_Mod 4) demo_sup = ok s1 \<and>
     sup_address_book ''storage'' s1 = ok (A_Mod 2) \<and>
     sup_add_link_impl 0 sup_demo_types (A_Mod 9) s1 = ok s2 \<and> sup_address_book ''network'' s2 = ok (A_Mod 9)"
proof -
  obtain s1 where s1: "sup_add_link_impl 0 sup_demo_types (A_Mod 4) demo_sup = ok s1" "contacts_ok 0 sup_demo_types s1"
      "\<forall>name. sup_address_book name s1 =
              (if name = sup_demo_types 4 \<and> sup_address_book name demo_sup = ok A_Null then ok (A_Mod 4)
               else sup_address_book name demo_sup)"
    using first_link_wins [OF demo_sup_ok(1), of 4] by auto
  then show ?thesis
    using first_link_wins [OF s1(2), of 9]
    by (auto simp: sup_demo_types_def sup_address_book_def demo_sup_ok addr_empty_def)
qed

end
