(* ===== verification/Work_Sharing.thy ===== *)
theory Work_Sharing
  imports Fifo_Interface
begin

text \<open>
  The work-sharing policy: \<open>executor/policy/work_sharing.hpp\<close> on top of
  \<open>executor/policy/unprofiled.hpp\<close>. All workers share one central list of jobs, guarded by a
  mutex; a worker that finds it empty sleeps on the condition variable. A critical section is one
  step of the model.
\<close>

section \<open>State\<close>

text \<open>
  A job is an \<open>executable*\<close>: null, one of the program's executables (they are numbered) or the
  helper that \<open>stop\<close> puts on its stack.
\<close>

datatype job = Job_Null | Job nat | Job_Shutdown

text \<open>
  \<open>coordinator_data\<close>: the central queue, front first, and the workers asleep on the condition
  variable. The mutex has no field, a critical section being atomic.
\<close>

record coordinator_data =
  cd_queue :: "job list"
  cd_asleep :: "nat set"

definition coordinator_init :: coordinator_data where
  "coordinator_init = \<lparr>cd_queue = [], cd_asleep = {}\<rparr>"

section \<open>The code\<close>

text \<open>
  \<open>notify_one\<close> wakes the sleeper \<open>w\<close>, which the caller of the model picks among the sleepers; when
  nobody sleeps it does nothing. The woken thread evaluates the predicate of its wait again.
\<close>

definition notify_one :: "nat \<Rightarrow> coordinator_data \<Rightarrow> coordinator_data" where
  "notify_one w d = d\<lparr>cd_asleep := cd_asleep d - {w}\<rparr>"

text \<open>\<open>enqueue\<close>: a one element list is built outside the lock and spliced to the end.\<close>

definition ws_enqueue :: "nat \<Rightarrow> job \<Rightarrow> coordinator_data \<Rightarrow> coordinator_data" where
  "ws_enqueue w j d =
     (let l = [] @ [j]; d = d\<lparr>cd_queue := cd_queue d @ l\<rparr> in notify_one w d)"

definition central_enqueue :: "nat \<Rightarrow> job \<Rightarrow> coordinator_data \<Rightarrow> coordinator_data" where
  "central_enqueue w j d = ws_enqueue w j d"

definition external_enqueue :: "nat \<Rightarrow> job \<Rightarrow> coordinator_data \<Rightarrow> coordinator_data" where
  "external_enqueue w j d = ws_enqueue w j d"

definition internal_enqueue :: "nat \<Rightarrow> job \<Rightarrow> coordinator_data \<Rightarrow> coordinator_data" where
  "internal_enqueue w j d = ws_enqueue w j d"

definition resume_job_later :: "nat \<Rightarrow> job \<Rightarrow> coordinator_data \<Rightarrow> coordinator_data" where
  "resume_job_later w j d = ws_enqueue w j d"

text \<open>
  \<open>dequeue\<close> by worker \<open>w\<close>: one evaluation of the predicate under the lock. An empty queue puts the
  worker to sleep (\<open>None\<close>); otherwise the front is taken.
\<close>

definition ws_dequeue :: "nat \<Rightarrow> coordinator_data \<Rightarrow> job option \<times> coordinator_data" where
  "ws_dequeue w d =
     (case cd_queue d of
        [] \<Rightarrow> (None, d\<lparr>cd_asleep := insert w (cd_asleep d)\<rparr>)
      | j # q \<Rightarrow> (Some j, d\<lparr>cd_queue := q\<rparr>))"

text \<open>
  \<open>foreach_central_resumable\<close>: the local function \<open>next\<close> pops the front, null when there is none,
  and the loop applies \<open>f\<close> until it sees null.
\<close>

definition next_job :: "job list \<Rightarrow> job \<times> job list" where
  "next_job q = (case q of [] \<Rightarrow> (Job_Null, []) | j # q \<Rightarrow> (j, q))"

function foreach_loop :: "(job \<Rightarrow> 'e \<Rightarrow> 'e) \<Rightarrow> job list \<Rightarrow> 'e \<Rightarrow> job list \<times> 'e" where
  "foreach_loop f q e =
     (case next_job q of (j, q') \<Rightarrow> if j \<noteq> Job_Null then foreach_loop f q' (f j e) else (q', e))"
  by auto
termination
  by (relation "measure (\<lambda>(_, q, _). length q)") (auto simp: next_job_def split: list.splits)

declare foreach_loop.simps [simp del]

definition foreach_central_resumable ::
  "(job \<Rightarrow> 'e \<Rightarrow> 'e) \<Rightarrow> coordinator_data \<Rightarrow> 'e \<Rightarrow> coordinator_data \<times> 'e" where
  "foreach_central_resumable f d e =
     (case foreach_loop f (cd_queue d) e of (q, e) \<Rightarrow> (d\<lparr>cd_queue := q\<rparr>, e))"

definition foreach_resumable :: "(job \<Rightarrow> 'e \<Rightarrow> 'e) \<Rightarrow> 'e \<Rightarrow> 'e" where
  "foreach_resumable f e = e"

section \<open>Facts\<close>

lemma notify_one_queue [simp]: "cd_queue (notify_one w d) = cd_queue d"
  by (simp add: notify_one_def)

lemma ws_enqueue_fields [simp]:
  "cd_queue (ws_enqueue w j d) = cd_queue d @ [j]"
  "cd_asleep (ws_enqueue w j d) = cd_asleep d - {w}"
  by (simp_all add: ws_enqueue_def notify_one_def)

lemma enqueue_variants [simp]:
  "central_enqueue = ws_enqueue" "external_enqueue = ws_enqueue"
  "internal_enqueue = ws_enqueue" "resume_job_later = ws_enqueue"
  by (simp_all add: fun_eq_iff central_enqueue_def external_enqueue_def internal_enqueue_def
      resume_job_later_def)

lemma foreach_loop_all:
  "Job_Null \<notin> set q \<Longrightarrow> foreach_loop f q e = ([], fold f q e)"
proof (induction q arbitrary: e)
  case Nil
  then show ?case by (subst foreach_loop.simps) (simp add: next_job_def)
next
  case (Cons j q)
  then have "j \<noteq> Job_Null" by auto
  with Cons show ?case by (subst foreach_loop.simps) (simp add: next_job_def)
qed

lemma foreach_loop_stops:
  "Job_Null \<notin> set q \<Longrightarrow> foreach_loop f (q @ Job_Null # q') e = (q', fold f q e)"
proof (induction q arbitrary: e)
  case Nil
  then show ?case by (subst foreach_loop.simps) (simp add: next_job_def)
next
  case (Cons j q)
  then have "j \<noteq> Job_Null" by auto
  with Cons show ?case by (subst foreach_loop.simps) (simp add: next_job_def)
qed

section \<open>The central list keeps the queue contract\<close>

text \<open>
  What a producer and the loop of a worker that stops at an empty queue see of it. Null is the
  sentinel of \<open>next\<close>, so it may not be put in.
\<close>

definition central_put :: "job \<Rightarrow> coordinator_data \<Rightarrow> (unit \<times> coordinator_data) eff" where
  "central_put j d = ok ((), central_enqueue 0 j d)"

definition central_get :: "coordinator_data \<Rightarrow> (job option \<times> coordinator_data) eff" where
  "central_get d =
     (case next_job (cd_queue d) of (j, q) \<Rightarrow>
      ok (if j = Job_Null then None else Some j, d\<lparr>cd_queue := q\<rparr>))"

interpretation central: fifo central_put central_get
  "\<lambda>d xs. cd_queue d = xs \<and> Job_Null \<notin> set xs" "\<lambda>d j. j \<noteq> Job_Null"
  by unfold_locales (auto simp: central_put_def central_get_def next_job_def)


section \<open>Property\<close>

text \<open>
  The central list is first in, first out: jobs put in are taken out once each, in the order they
  were put in, after those that were there; \<open>foreach_central_resumable\<close> visits them in the same order
  and leaves the list empty, but a null job in the list ends the visit and what is behind it stays.
\<close>

theorem central_list_fifo:
  assumes "Job_Null \<notin> set (cd_queue d)" and "Job_Null \<notin> set js" and "distinct (cd_queue d @ js)"
  shows "\<exists>d1 d2. put_all central_put js d = ok d1 \<and> drain central_get d1 = ok (cd_queue d @ js, d2) \<and> cd_queue d2 = [] \<and>
    foreach_central_resumable f d1 e = (d1\<lparr>cd_queue := []\<rparr>, fold f (cd_queue d @ js) e) \<and>
    (\<forall>q. foreach_central_resumable f (d1\<lparr>cd_queue := cd_queue d @ js @ Job_Null # q\<rparr>) e =
         (d1\<lparr>cd_queue := q\<rparr>, fold f (cd_queue d @ js) e))"
proof -
  have rep: "cd_queue d = cd_queue d \<and> Job_Null \<notin> set (cd_queue d)" and u: "\<forall>j \<in> set js. j \<noteq> Job_Null"
    using assms by auto
  obtain d1 where d1: "put_all central_put js d = ok d1" "cd_queue d1 = cd_queue d @ js"
    using central.put_all_ok [OF rep u assms(3)] by blast
  moreover obtain d2 where "drain central_get d1 = ok (cd_queue d @ js, d2)" "cd_queue d2 = []"
    using central.drain_ok [of d1 "cd_queue d @ js"] d1(2) assms by auto
  moreover have n: "Job_Null \<notin> set (cd_queue d @ js)"
    using assms by simp
  ultimately show ?thesis
    using foreach_loop_stops [OF n, of f _ e] by (simp add: foreach_central_resumable_def foreach_loop_all)
qed

end
