(* ===== verification/Executor.thy ===== *)
theory Executor
  imports Work_Sharing Executable "HOL-Library.Multiset"
begin

text \<open>
  The thread pool: \<open>executor/executor.hpp\<close>, \<open>executor/worker.hpp\<close>,
  \<open>impl/executor/abstract_executor.ipp\<close>, instantiated with the work-sharing policy. The worker
  threads, the thread that calls \<open>stop\<close> and any number of producers interleave; a step is one
  critical section or one call into a job. What running a job of the program does is left open: it
  may schedule other jobs and returns any result but \<open>shutdown\<close>, which only the helper of \<open>stop\<close>
  returns.
\<close>

section \<open>State\<close>

text \<open>
  Where the thread of a worker is: about to call \<open>dequeue\<close> or inside its wait, running a job, back
  from \<open>run\<close> with a result, or ended.
\<close>

datatype thread = W_Dequeue | W_Running job | W_Returned job executable_result | W_Ended

text \<open>
  Where the thread that stops the pool is: not started, at the head of the loop of \<open>stop\<close> with the
  set \<open>alive_workers\<close>, waiting for the helper to run, joining worker \<open>i\<close>, before the cleanup, done.
\<close>

datatype coordinator =
    C_Up
  | C_Loop "nat set"
  | C_Wait "nat set"
  | C_Join nat
  | C_Clean
  | C_Down

text \<open>
  \<open>x_last\<close> is \<open>last_worker\<close> of the helper. The last two fields do not exist in the code: every job
  handed to the pool and every \<open>intrusive_ptr_release\<close> of one is recorded, oldest first.
\<close>

record pool =
  x_data :: coordinator_data
  x_workers :: "thread list"
  x_num :: nat
  x_throughput :: nat
  x_coord :: coordinator
  x_last :: "nat option"
  x_given :: "nat list"
  x_released :: "nat list"

section \<open>The code\<close>

definition executor_ctor :: "nat \<Rightarrow> nat \<Rightarrow> pool" where
  "executor_ctor n mt =
     \<lparr>x_data = coordinator_init, x_workers = [], x_num = n, x_throughput = mt, x_coord = C_Up,
      x_last = None, x_given = [], x_released = []\<rparr>"

definition executor_start :: "pool \<Rightarrow> pool" where
  "executor_start x = x\<lparr>x_workers := map (\<lambda>i. W_Dequeue) [0..<x_num x]\<rparr>"

definition given :: "job \<Rightarrow> pool \<Rightarrow> pool" where
  "given j x = (case j of Job n \<Rightarrow> x\<lparr>x_given := x_given x @ [n]\<rparr> | _ \<Rightarrow> x)"

text \<open>\<open>executor_t::execute\<close>; \<open>v\<close> is the sleeper that the notification wakes.\<close>

definition executor_execute :: "nat \<Rightarrow> job \<Rightarrow> pool \<Rightarrow> pool" where
  "executor_execute v j x = given j (x\<lparr>x_data := central_enqueue v j (x_data x)\<rparr>)"

text \<open>\<open>worker::execute\<close> and \<open>worker::external_enqueue\<close>.\<close>

definition worker_execute :: "nat \<Rightarrow> job \<Rightarrow> pool \<Rightarrow> pool eff" where
  "worker_execute v j x =
     and_then (assert_that (j \<noteq> Job_Null)) (\<lambda>_.
     ok (given j (x\<lparr>x_data := internal_enqueue v j (x_data x)\<rparr>)))"

definition worker_external_enqueue :: "nat \<Rightarrow> job \<Rightarrow> pool \<Rightarrow> pool eff" where
  "worker_external_enqueue v j x =
     and_then (assert_that (j \<noteq> Job_Null)) (\<lambda>_.
     ok (x\<lparr>x_data := external_enqueue v j (x_data x)\<rparr>))"

definition release :: "job \<Rightarrow> nat list \<Rightarrow> nat list" where
  "release j r = (case j of Job n \<Rightarrow> r @ [n] | _ \<Rightarrow> r)"

text \<open>\<open>cleanup_and_release\<close>: the dummy device holds nothing, so its loop does not run.\<close>

definition cleanup_and_release :: "job \<Rightarrow> nat list \<Rightarrow> nat list" where
  "cleanup_and_release j r = release j r"

text \<open>
  \<open>worker::run\<close>, in three steps: take a job, run it (\<open>r\<close> is what a job of the program returns), and
  the switch over the result.
\<close>

definition worker_dequeue :: "nat \<Rightarrow> pool \<Rightarrow> pool eff" where
  "worker_dequeue w x =
     (case ws_dequeue w (x_data x) of
        (None, d) \<Rightarrow> ok (x\<lparr>x_data := d\<rparr>)
      | (Some j, d) \<Rightarrow>
          and_then (assert_that (j \<noteq> Job_Null)) (\<lambda>_.
          ok (x\<lparr>x_data := d, x_workers := (x_workers x)[w := W_Running j]\<rparr>)))"

definition shutdown_run :: "nat \<Rightarrow> pool \<Rightarrow> executable_result \<times> pool" where
  "shutdown_run w x = (Shutdown, x\<lparr>x_last := Some w\<rparr>)"

definition worker_run :: "nat \<Rightarrow> job \<Rightarrow> executable_result \<Rightarrow> pool \<Rightarrow> pool" where
  "worker_run w j r x =
     (case (if j = Job_Shutdown then shutdown_run w x else (r, x)) of
        (r, x) \<Rightarrow> x\<lparr>x_workers := (x_workers x)[w := W_Returned j r]\<rparr>)"

definition worker_finish :: "nat \<Rightarrow> nat \<Rightarrow> job \<Rightarrow> executable_result \<Rightarrow> pool \<Rightarrow> pool" where
  "worker_finish v w j r x =
     (case r of
        Resume \<Rightarrow> x\<lparr>x_data := resume_job_later v j (x_data x), x_workers := (x_workers x)[w := W_Dequeue]\<rparr>
      | Done \<Rightarrow> x\<lparr>x_released := release j (x_released x), x_workers := (x_workers x)[w := W_Dequeue]\<rparr>
      | Awaiting \<Rightarrow> x\<lparr>x_released := release j (x_released x), x_workers := (x_workers x)[w := W_Dequeue]\<rparr>
      | Shutdown \<Rightarrow> x\<lparr>x_workers := (x_workers x)[w := W_Ended]\<rparr>)"

text \<open>
  \<open>stop\<close>. The first step builds \<open>alive_workers\<close>; every other one is \<open>stop_step\<close>, \<open>None\<close> when the
  thread has to wait.
\<close>

definition stop_begin :: "pool \<Rightarrow> pool" where
  "stop_begin x = x\<lparr>x_coord := C_Loop (set [0..<x_num x])\<rparr>"

definition stop_step :: "nat \<Rightarrow> pool \<Rightarrow> pool eff" where
  "stop_step v x =
     (case x_coord x of
        C_Up \<Rightarrow> None
      | C_Loop A \<Rightarrow>
          if A \<noteq> {}
          then and_then (worker_external_enqueue v Job_Shutdown x) (\<lambda>x. ok (x\<lparr>x_coord := C_Wait A\<rparr>))
          else ok (x\<lparr>x_coord := C_Join 0\<rparr>)
      | C_Wait A \<Rightarrow>
          (case x_last x of
             None \<Rightarrow> None
           | Some w \<Rightarrow> ok (x\<lparr>x_coord := C_Loop (A - {w}), x_last := None\<rparr>))
      | C_Join i \<Rightarrow>
          if i < length (x_workers x)
          then if x_workers x ! i = W_Ended then ok (x\<lparr>x_coord := C_Join (Suc i)\<rparr>) else None
          else ok (x\<lparr>x_coord := C_Clean\<rparr>)
      | C_Clean \<Rightarrow>
          (let r = fold (\<lambda>_. foreach_resumable cleanup_and_release) (x_workers x) (x_released x) in
           case foreach_central_resumable cleanup_and_release (x_data x) r of
             (d, r) \<Rightarrow> ok (x\<lparr>x_coord := C_Down, x_data := d, x_released := r\<rparr>))
      | C_Down \<Rightarrow> None)"

section \<open>The steps of the pool\<close>

text \<open>\<open>picks x v\<close>: a notification in state \<open>x\<close> can choose \<open>v\<close>, a sleeper if there is one.\<close>

definition picks :: "pool \<Rightarrow> nat \<Rightarrow> bool" where
  "picks x v \<longleftrightarrow> cd_asleep (x_data x) = {} \<or> v \<in> cd_asleep (x_data x)"

abbreviation at :: "pool \<Rightarrow> nat \<Rightarrow> thread \<Rightarrow> bool" where
  "at x w t \<equiv> w < length (x_workers x) \<and> x_workers x ! w = t"

inductive step :: "pool \<Rightarrow> pool \<Rightarrow> bool" where
  produce: "picks x v \<Longrightarrow> step x (executor_execute v (Job n) x)"
| schedule: "at x w (W_Running (Job m)) \<Longrightarrow> picks x v \<Longrightarrow> worker_execute v (Job n) x = ok y \<Longrightarrow> step x y"
| dequeue: "at x w W_Dequeue \<Longrightarrow> w \<notin> cd_asleep (x_data x) \<Longrightarrow> worker_dequeue w x = ok y \<Longrightarrow> step x y"
| wake: "step x (x\<lparr>x_data := (x_data x)\<lparr>cd_asleep := cd_asleep (x_data x) - {w}\<rparr>\<rparr>)"
| runs: "at x w (W_Running j) \<Longrightarrow> r \<noteq> Shutdown \<Longrightarrow> step x (worker_run w j r x)"
| finish: "at x w (W_Returned j r) \<Longrightarrow> picks x v \<Longrightarrow> step x (worker_finish v w j r x)"
| begin_stop: "x_coord x = C_Up \<Longrightarrow> step x (stop_begin x)"
| stopping: "picks x v \<Longrightarrow> stop_step v x = ok y \<Longrightarrow> step x y"

inductive reachable :: "nat \<Rightarrow> nat \<Rightarrow> pool \<Rightarrow> bool" for n mt where
  started: "reachable n mt (executor_start (executor_ctor n mt))"
| stepped: "reachable n mt x \<Longrightarrow> step x y \<Longrightarrow> reachable n mt y"

section \<open>Invariants\<close>

text \<open>Shapes: what can be where.\<close>

fun thread_ok :: "thread \<Rightarrow> bool" where
  "thread_ok (W_Running j) \<longleftrightarrow> j \<noteq> Job_Null"
| "thread_ok (W_Returned j r) \<longleftrightarrow> j \<noteq> Job_Null \<and> (j = Job_Shutdown \<longleftrightarrow> r = Shutdown)"
| "thread_ok _ \<longleftrightarrow> True"

definition well_formed :: "nat \<Rightarrow> pool \<Rightarrow> bool" where
  "well_formed n x \<longleftrightarrow> length (x_workers x) = n \<and> x_num x = n \<and>
     Job_Null \<notin> set (cd_queue (x_data x)) \<and>
     (\<forall>w \<in> cd_asleep (x_data x). at x w W_Dequeue) \<and>
     (\<forall>t \<in> set (x_workers x). thread_ok t)"

lemma set_upd: "x \<in> set (xs[i := y]) \<Longrightarrow> x = y \<or> x \<in> set xs"
  using set_update_subset_insert by fastforce

lemma well_formed_step:
  assumes "step x y" and "well_formed n x"
  shows "well_formed n y"
  using assms
proof cases
  case (produce v m)
  with assms show ?thesis by (auto simp: well_formed_def executor_execute_def given_def)
next
  case (schedule w m v n)
  with assms show ?thesis by (auto simp: well_formed_def worker_execute_def given_def)
next
  case (dequeue w)
  with assms show ?thesis
    by (auto simp: well_formed_def worker_dequeue_def ws_dequeue_def nth_list_update dest!: set_upd
        split: list.splits)
next
  case (wake w)
  with assms show ?thesis by (auto simp: well_formed_def)
next
  case (runs w j r)
  then have "j \<noteq> Job_Null"
    using assms nth_mem by (fastforce simp: well_formed_def)
  with runs assms show ?thesis
    by (auto simp: well_formed_def worker_run_def shutdown_run_def nth_list_update dest!: set_upd)
next
  case (finish w j r v)
  then have "j \<noteq> Job_Null"
    using assms nth_mem by (fastforce simp: well_formed_def)
  with finish assms show ?thesis
    by (cases r) (auto simp: well_formed_def worker_finish_def nth_list_update dest!: set_upd)
next
  case begin_stop
  with assms show ?thesis by (auto simp: well_formed_def stop_begin_def)
next
  case (stopping v)
  with assms show ?thesis
    by (auto simp: well_formed_def stop_step_def worker_external_enqueue_def foreach_central_resumable_def
        foreach_loop_all split: coordinator.splits option.splits if_splits)
qed


subsection \<open>Every job is somewhere, once\<close>

fun job_id :: "job \<Rightarrow> nat multiset" where
  "job_id (Job n) = {#n#}"
| "job_id _ = {#}"

fun in_hand :: "thread \<Rightarrow> nat multiset" where
  "in_hand (W_Running j) = job_id j"
| "in_hand (W_Returned j r) = job_id j"
| "in_hand _ = {#}"

definition queued :: "pool \<Rightarrow> nat multiset" where
  "queued x = sum_list (map job_id (cd_queue (x_data x)))"

definition held :: "pool \<Rightarrow> nat multiset" where
  "held x = sum_list (map in_hand (x_workers x))"

definition conserved :: "pool \<Rightarrow> bool" where
  "conserved x \<longleftrightarrow> mset (x_given x) = queued x + held x + mset (x_released x)"

lemma held_upd:
  assumes "at x w t"
  shows "sum_list (map in_hand ((x_workers x)[w := u])) + in_hand t = held x + in_hand u"
  using sum_list_upd [of w "x_workers x" in_hand u] assms by (simp add: held_def)

lemma release_mset [simp]: "mset (release j r) = job_id j + mset r"
  by (cases j) (simp_all add: release_def)

lemma fold_release_mset: "mset (fold cleanup_and_release q r) = sum_list (map job_id q) + mset r"
  by (induction q arbitrary: r) (simp_all add: cleanup_and_release_def)

lemma fold_foreach_resumable: "fold (\<lambda>_. foreach_resumable f) ws e = e"
  by (induction ws) (simp_all add: foreach_resumable_def)

lemma conserved_step:
  assumes "step x y" and "well_formed n x" and "conserved x"
  shows "conserved y"
  using assms(1)
proof cases
  case (produce v m)
  with assms show ?thesis
    by (simp add: conserved_def executor_execute_def given_def queued_def held_def)
next
  case (schedule w m v n)
  with assms show ?thesis
    by (auto simp: conserved_def worker_execute_def given_def queued_def held_def)
next
  case (dequeue w)
  show ?thesis
  proof (cases "cd_queue (x_data x)")
    case Nil
    with dequeue assms show ?thesis
      by (auto simp: conserved_def worker_dequeue_def ws_dequeue_def queued_def held_def)
  next
    case (Cons j q)
    with dequeue assms(2) have y: "y = x\<lparr>x_data := (x_data x)\<lparr>cd_queue := q\<rparr>,
        x_workers := (x_workers x)[w := W_Running j]\<rparr>"
      by (auto simp: worker_dequeue_def ws_dequeue_def well_formed_def)
    show ?thesis
      using held_upd [OF dequeue(1), of "W_Running j"] assms(3) Cons
      by (simp add: y conserved_def queued_def held_def add_ac)
  qed
next
  case (wake w)
  with assms show ?thesis by (auto simp: conserved_def queued_def held_def)
next
  case (runs w j r)
  show ?thesis
    using held_upd [OF runs(2), of "W_Returned j (if j = Job_Shutdown then Shutdown else r)"] assms(3) runs(1)
    by (auto simp: conserved_def worker_run_def shutdown_run_def queued_def held_def)
next
  case (finish w j r v)
  have "thread_ok (W_Returned j r)"
    using finish assms(2) nth_mem by (fastforce simp: well_formed_def)
  then show ?thesis
    using held_upd [OF finish(2), of W_Dequeue] held_upd [OF finish(2), of W_Ended] assms(3) finish(1)
    by (cases r) (auto simp: conserved_def worker_finish_def queued_def held_def add_ac)
next
  case begin_stop
  with assms show ?thesis by (auto simp: conserved_def stop_begin_def queued_def held_def)
next
  case (stopping v)
  with assms show ?thesis
    by (auto simp: conserved_def stop_step_def worker_external_enqueue_def foreach_central_resumable_def
        queued_def held_def foreach_loop_all fold_release_mset fold_foreach_resumable well_formed_def
        split: coordinator.splits option.splits if_splits)
qed

subsection \<open>No worker sleeps over a job\<close>

definition awake :: "pool \<Rightarrow> nat set" where
  "awake x = {w. at x w W_Dequeue} - cd_asleep (x_data x)"

definition attended :: "pool \<Rightarrow> bool" where
  "attended x \<longleftrightarrow> cd_asleep (x_data x) = {} \<or> length (cd_queue (x_data x)) \<le> card (awake x)"

lemma finite_awake [simp]: "finite (awake x)"
  by (simp add: awake_def)

lemma attended_enqueue:
  assumes "well_formed n x" and "attended x" and "picks x v"
    and d: "x_data y = ws_enqueue v j (x_data x)" and w: "\<forall>w. at x w W_Dequeue \<longrightarrow> at y w W_Dequeue"
  shows "attended y"
proof (cases "cd_asleep (x_data x) = {}")
  case False
  with assms have v: "v \<in> cd_asleep (x_data x)" "at x v W_Dequeue"
      "length (cd_queue (x_data x)) \<le> card (awake x)"
    by (auto simp: picks_def well_formed_def attended_def)
  have "insert v (awake x) \<subseteq> awake y"
    using v w by (auto simp: awake_def d)
  then have "card (insert v (awake x)) \<le> card (awake y)"
    by (simp add: card_mono)
  moreover have "v \<notin> awake x"
    using v by (simp add: awake_def)
  ultimately show ?thesis
    using v by (simp add: attended_def d)
qed (simp add: attended_def d)

lemma attended_mono:
  assumes "attended x" and "length (cd_queue (x_data y)) \<le> length (cd_queue (x_data x))"
    and "cd_asleep (x_data y) \<subseteq> cd_asleep (x_data x)" and "\<forall>w. at x w W_Dequeue \<longrightarrow> at y w W_Dequeue"
  shows "attended y"
proof -
  have "card (awake x) \<le> card (awake y)"
    using assms(3,4) by (intro card_mono) (auto simp: awake_def)
  with assms(1,2,3) show ?thesis by (auto simp: attended_def)
qed

lemma attended_step:
  assumes "step x y" and "well_formed n x" and "attended x"
  shows "attended y"
  using assms(1)
proof cases
  case (dequeue w)
  show ?thesis
  proof (cases "cd_queue (x_data x)")
    case Nil
    with dequeue assms show ?thesis
      by (auto simp: attended_def worker_dequeue_def ws_dequeue_def)
  next
    case (Cons j q)
    with dequeue assms(2) have y: "y = x\<lparr>x_data := (x_data x)\<lparr>cd_queue := q\<rparr>,
        x_workers := (x_workers x)[w := W_Running j]\<rparr>"
      by (auto simp: worker_dequeue_def ws_dequeue_def well_formed_def)
    have w: "w \<in> awake x"
      using dequeue(1,2) by (simp add: awake_def)
    have "at y u W_Dequeue \<longleftrightarrow> at x u W_Dequeue \<and> u \<noteq> w" for u
      using dequeue(1) by (simp add: y nth_list_update)
    then have "awake y = awake x - {w}"
      by (auto simp: awake_def y)
    moreover have "cd_queue (x_data y) = q" "cd_asleep (x_data y) = cd_asleep (x_data x)"
      by (simp_all add: y)
    ultimately show ?thesis
      using assms(3) w Cons unfolding attended_def by (elim disjE) auto
  qed
next
  case (produce v m)
  then show ?thesis
    using attended_enqueue [OF assms(2,3), of v y] by (auto simp: executor_execute_def given_def)
next
  case (schedule w m v n)
  then show ?thesis
    using attended_enqueue [OF assms(2,3), of v y] by (auto simp: worker_execute_def given_def)
next
  case (wake w)
  then show ?thesis using attended_mono [OF assms(3), of y] by auto
next
  case (runs w j r)
  then show ?thesis
    using attended_mono [OF assms(3), of y]
    by (auto simp: worker_run_def shutdown_run_def nth_list_update)
next
  case (finish w j r v)
  show ?thesis
  proof (cases "r = Resume")
    case True
    with finish show ?thesis
      using attended_enqueue [OF assms(2,3), of v y j]
      by (auto simp: worker_finish_def nth_list_update)
  next
    case False
    with finish show ?thesis
      using attended_mono [OF assms(3), of y]
      by (cases r) (auto simp: worker_finish_def nth_list_update)
  qed
next
  case begin_stop
  then show ?thesis using assms(3) by (simp add: stop_begin_def attended_def awake_def)
next
  case (stopping v)
  show ?thesis
  proof (cases "\<exists>A. x_coord x = C_Loop A \<and> A \<noteq> {}")
    case True
    then obtain A where "x_coord x = C_Loop A" "A \<noteq> {}"
      by blast
    with stopping(2) have "x_data y = ws_enqueue v Job_Shutdown (x_data x)" "x_workers y = x_workers x"
      by (simp_all add: stop_step_def worker_external_enqueue_def, auto)
    with stopping(1) show ?thesis
      using attended_enqueue [OF assms(2,3), of v y Job_Shutdown] by simp
  next
    case False
    with stopping assms(2) show ?thesis
      using attended_mono [OF assms(3), of y]
      by (auto simp: stop_step_def foreach_central_resumable_def foreach_loop_all well_formed_def
          split: coordinator.splits option.splits if_splits)
  qed
qed


subsection \<open>The protocol of \<open>stop\<close>\<close>

definition leaving :: "thread \<Rightarrow> bool" where
  "leaving t \<longleftrightarrow> t = W_Ended \<or> t = W_Returned Job_Shutdown Shutdown"

definition alive :: "pool \<Rightarrow> nat set" where
  "alive x = {w. w < length (x_workers x) \<and> \<not> leaving (x_workers x ! w)}"

definition helpers_queued :: "pool \<Rightarrow> nat" where
  "helpers_queued x = count_list (cd_queue (x_data x)) Job_Shutdown"

definition runners :: "pool \<Rightarrow> nat set" where
  "runners x = {w. at x w (W_Running Job_Shutdown)}"

definition no_helper :: "pool \<Rightarrow> bool" where
  "no_helper x \<longleftrightarrow> helpers_queued x = 0 \<and> runners x = {}"

definition protocol :: "pool \<Rightarrow> bool" where
  "protocol x \<longleftrightarrow>
     (case x_coord x of
        C_Up \<Rightarrow> no_helper x \<and> x_last x = None \<and> alive x = {..<x_num x}
      | C_Loop A \<Rightarrow> no_helper x \<and> x_last x = None \<and> A = alive x
      | C_Wait A \<Rightarrow>
          (case x_last x of
             None \<Rightarrow> A \<noteq> {} \<and> A = alive x \<and> helpers_queued x + card (runners x) = 1
           | Some w \<Rightarrow> no_helper x \<and> w \<in> A \<and> w < length (x_workers x) \<and> A - {w} = alive x)
      | C_Join i \<Rightarrow> no_helper x \<and> x_last x = None \<and> alive x = {} \<and>
          (\<forall>w < i. w < length (x_workers x) \<longrightarrow> x_workers x ! w = W_Ended)
      | _ \<Rightarrow> no_helper x \<and> x_last x = None \<and> (\<forall>w < length (x_workers x). x_workers x ! w = W_Ended))"

lemma finite_runners [simp]: "finite (runners x)" and finite_alive [simp]: "finite (alive x)"
  by (simp_all add: runners_def alive_def)

text \<open>A step that has nothing to do with the helper.\<close>

lemma protocol_quiet:
  assumes "protocol x" and "x_coord y = x_coord x" and "x_last y = x_last x" and "x_num y = x_num x"
    and "helpers_queued y = helpers_queued x" and "length (x_workers y) = length (x_workers x)"
    and "\<And>w. w < length (x_workers x) \<Longrightarrow> at y w (W_Running Job_Shutdown) \<longleftrightarrow> at x w (W_Running Job_Shutdown)"
    and "\<And>w. w < length (x_workers x) \<Longrightarrow> leaving (x_workers y ! w) \<longleftrightarrow> leaving (x_workers x ! w)"
    and "\<And>w. at x w W_Ended \<Longrightarrow> at y w W_Ended"
  shows "protocol y"
proof -
  have r: "runners y = runners x"
    using assms(6,7) by (auto simp: runners_def)
  have a: "alive y = alive x"
    using assms(6,8) by (auto simp: alive_def)
  show ?thesis
    using assms(1,9) unfolding protocol_def assms(2,3,4,6) no_helper_def assms(5) r a
    by (auto split: coordinator.splits option.splits)
qed

lemma helpers_queued_upd [simp]:
  "helpers_queued (given j x) = helpers_queued x"
  by (auto simp: helpers_queued_def given_def split: job.splits)

lemma given_fields [simp]:
  "x_coord (given j x) = x_coord x" "x_last (given j x) = x_last x" "x_num (given j x) = x_num x"
  "x_workers (given j x) = x_workers x" "x_data (given j x) = x_data x" "x_released (given j x) = x_released x"
  by (auto simp: given_def split: job.splits)

lemma protocol_produce:
  assumes "protocol x"
  shows "protocol (executor_execute v (Job n) x)" "worker_execute v (Job n) x = ok y \<Longrightarrow> protocol y"
  by (rule protocol_quiet [OF assms]; auto simp: executor_execute_def worker_execute_def helpers_queued_def)+

lemma protocol_dequeue:
  assumes "protocol x" and "well_formed n x" and w: "at x w W_Dequeue" and "worker_dequeue w x = ok y"
  shows "protocol y"
proof (cases "cd_queue (x_data x)")
  case Nil
  with assms(4) have y: "y = x\<lparr>x_data := (x_data x)\<lparr>cd_asleep := insert w (cd_asleep (x_data x))\<rparr>\<rparr>"
    by (simp add: worker_dequeue_def ws_dequeue_def)
  show ?thesis
    by (rule protocol_quiet [OF assms(1)]) (auto simp: y helpers_queued_def Nil)
next
  case (Cons j q)
  with assms(2,4) have y: "y = x\<lparr>x_data := (x_data x)\<lparr>cd_queue := q\<rparr>, x_workers := (x_workers x)[w := W_Running j]\<rparr>"
    by (auto simp: worker_dequeue_def ws_dequeue_def well_formed_def)
  show ?thesis
  proof (cases "j = Job_Shutdown")
    case False
    show ?thesis
      using w False
      by (intro protocol_quiet [OF assms(1)]) (auto simp: y helpers_queued_def Cons nth_list_update leaving_def)
  next
    case True
    have h: "helpers_queued x = Suc (helpers_queued y)"
      by (simp add: helpers_queued_def y Cons True)
    have r: "runners y = insert w (runners x)" "w \<notin> runners x"
      using w by (auto simp: runners_def y True nth_list_update)
    have a: "alive y = alive x"
      using w by (auto simp: alive_def y nth_list_update leaving_def)
    have f: "x_coord y = x_coord x" "x_last y = x_last x"
      by (simp_all add: y)
    show ?thesis
      using assms(1) h r unfolding protocol_def f no_helper_def a
      by (auto split: coordinator.splits option.splits)
  qed
qed

lemma protocol_runs:
  assumes "protocol x" and w: "at x w (W_Running j)" and "r \<noteq> Shutdown"
  shows "protocol (worker_run w j r x)"
proof (cases "j = Job_Shutdown")
  case False
  with assms show ?thesis
    by (intro protocol_quiet [OF assms(1)]) (auto simp: worker_run_def helpers_queued_def nth_list_update leaving_def)
next
  case True
  let ?y = "worker_run w j r x"
  have y: "?y = x\<lparr>x_last := Some w, x_workers := (x_workers x)[w := W_Returned Job_Shutdown Shutdown]\<rparr>"
    by (simp add: worker_run_def shutdown_run_def True)
  have r: "runners ?y = runners x - {w}" "w \<in> runners x"
    using w True unfolding y by (auto simp: runners_def nth_list_update)
  have a: "alive ?y = alive x - {w}" "w \<in> alive x"
    using w True unfolding y by (auto simp: alive_def nth_list_update leaving_def)
  have nh: "\<not> no_helper x"
    using r(2) by (auto simp: no_helper_def)
  have "\<exists>A. x_coord x = C_Wait A \<and> x_last x = None \<and> A = alive x \<and> helpers_queued x + card (runners x) = 1"
    using assms(1) nh by (cases "x_coord x"; cases "x_last x") (simp_all add: protocol_def)
  then obtain A where "x_coord x = C_Wait A" "x_last x = None" "A = alive x"
      "helpers_queued x + card (runners x) = 1"
    by blast
  moreover have "0 < card (runners x)"
    using r(2) by (auto simp: card_gt_0_iff)
  ultimately have A: "x_coord x = C_Wait A" "x_last x = None" "A = alive x"
      "helpers_queued x = 0" "card (runners x) = 1"
    by simp_all
  then have "runners ?y = {}"
    using r by (auto simp: card_1_singleton_iff)
  moreover have "helpers_queued ?y = 0" "x_coord ?y = C_Wait A" "x_last ?y = Some w" "w < length (x_workers ?y)"
    using A w unfolding y by (simp_all add: helpers_queued_def)
  ultimately show ?thesis
    using A a by (simp add: protocol_def no_helper_def)
qed

lemma protocol_finish:
  assumes "protocol x" and w: "at x w (W_Returned j r)" and "thread_ok (W_Returned j r)"
  shows "protocol (worker_finish v w j r x)"
  using assms(2,3)
  by (intro protocol_quiet [OF assms(1)]; cases r)
    (auto simp: worker_finish_def helpers_queued_def nth_list_update leaving_def)

lemma protocol_stop:
  assumes p: "protocol x" and n: "well_formed n x" and s: "stop_step v x = ok y"
  shows "protocol y"
proof (cases "x_coord x")
  case (C_Loop A)
  show ?thesis
  proof (cases "A = {}")
    case True
    with p s C_Loop show ?thesis
      by (auto simp: stop_step_def protocol_def no_helper_def helpers_queued_def runners_def alive_def)
  next
    case False
    with p s C_Loop show ?thesis
      by (auto simp: stop_step_def protocol_def no_helper_def helpers_queued_def runners_def alive_def
          worker_external_enqueue_def)
  qed
next
  case (C_Wait A)
  with p s show ?thesis
    by (auto simp: stop_step_def protocol_def no_helper_def helpers_queued_def runners_def alive_def
        split: option.splits)
next
  case (C_Join i)
  with p s show ?thesis
    by (auto simp: stop_step_def protocol_def no_helper_def helpers_queued_def runners_def alive_def
        less_Suc_eq split: if_splits)
next
  case C_Clean
  with p s n show ?thesis
    by (auto simp: stop_step_def protocol_def no_helper_def helpers_queued_def runners_def
        foreach_central_resumable_def foreach_loop_all well_formed_def)
qed (use s in \<open>simp_all add: stop_step_def\<close>)

lemma protocol_step:
  assumes "step x y" and "well_formed n x" and "protocol x"
  shows "protocol y"
  using assms(1)
proof cases
  case (produce v m)
  then show ?thesis using protocol_produce(1) [OF assms(3)] by simp
next
  case (schedule w m v n)
  then show ?thesis using protocol_produce(2) [OF assms(3)] by simp
next
  case (dequeue w)
  then show ?thesis using protocol_dequeue [OF assms(3,2)] by simp
next
  case (wake w)
  show ?thesis
    by (rule protocol_quiet [OF assms(3)]) (auto simp: wake helpers_queued_def)
next
  case (runs w j r)
  then show ?thesis using protocol_runs [OF assms(3)] by simp
next
  case (finish w j r v)
  have "thread_ok (W_Returned j r)"
    using finish assms(2) nth_mem by (fastforce simp: well_formed_def)
  with finish protocol_finish [OF assms(3)] show ?thesis by simp
next
  case begin_stop
  then show ?thesis
    using assms(3)
    by (auto simp: stop_begin_def protocol_def no_helper_def helpers_queued_def runners_def alive_def)
next
  case (stopping v)
  then show ?thesis using protocol_stop [OF assms(3,2)] by simp
qed

end
