(* ===== verification/Executor_Stop.thy ===== *)
theory Executor_Stop
  imports Executor
begin

text \<open>
  Stopping the pool of \<open>Executor\<close>: a rank that says how far \<open>stop\<close> is from its end, the invariants
  of reachable pools, and the properties of the pool.
\<close>

section \<open>Stopping the pool\<close>

text \<open>
  A rank for a pool being stopped: the stage of the coordinator, how far the helper is from the
  front of the queue (or how many workers are left to join), what the busy workers have left to do.
\<close>

definition distance :: "pool \<Rightarrow> nat" where
  "distance x = length (takeWhile (\<lambda>j. j \<noteq> Job_Shutdown) (cd_queue (x_data x)))"

fun phase :: "thread \<Rightarrow> nat" where
  "phase (W_Running _) = 2"
| "phase (W_Returned _ _) = 1"
| "phase _ = 0"

definition busy :: "pool \<Rightarrow> nat" where
  "busy x = sum_list (map phase (x_workers x))"

definition rank :: "pool \<Rightarrow> nat \<times> nat \<times> nat" where
  "rank x =
     (case x_coord x of
        C_Up \<Rightarrow> (0, 0, 0)
      | C_Loop A \<Rightarrow> (3 * card A + 5, 0, 0)
      | C_Wait A \<Rightarrow>
          (case x_last x of
             None \<Rightarrow> if helpers_queued x = 0 then (3 * card A + 4, 0, 0)
                     else (3 * card A + 4, Suc (distance x), busy x)
           | Some _ \<Rightarrow> (3 * card A + 3, 0, 0))
      | C_Join i \<Rightarrow> (2, length (x_workers x) - i, busy x)
      | C_Clean \<Rightarrow> (1, 0, 0)
      | C_Down \<Rightarrow> (0, 0, 0))"

definition closer :: "((nat \<times> nat \<times> nat) \<times> (nat \<times> nat \<times> nat)) set" where
  "closer = less_than <*lex*> less_than <*lex*> less_than"

lemma closer_iff [simp]:
  "((a, b, c), (a', b', c')) \<in> closer \<longleftrightarrow> a < a' \<or> a = a' \<and> (b < b' \<or> b = b' \<and> c < c')"
  by (auto simp: closer_def)

lemma wf_closer: "wf closer"
  by (simp add: closer_def wf_lex_prod)

text \<open>Steps that the rank does not see, and steps it sees only while the helper is queued or joined.\<close>

lemma rank_quiet:
  assumes "x_coord y = x_coord x" and "x_last y = x_last x" and "helpers_queued y = helpers_queued x"
    and "helpers_queued x \<noteq> 0 \<Longrightarrow> distance y = distance x" and "length (x_workers y) = length (x_workers x)"
    and "busy y = busy x"
  shows "rank y = rank x"
  using assms by (auto simp: rank_def split: coordinator.splits option.splits)

lemma rank_less_busy:
  assumes "x_coord y = x_coord x" and "x_last y = x_last x" and "helpers_queued y = helpers_queued x"
    and "helpers_queued x \<noteq> 0 \<Longrightarrow> distance y = distance x" and "length (x_workers y) = length (x_workers x)"
    and "busy y < busy x"
  shows "(rank y, rank x) \<in> closer \<or> rank y = rank x"
    and "x_coord x = C_Wait A \<Longrightarrow> x_last x = None \<Longrightarrow> helpers_queued x \<noteq> 0 \<Longrightarrow> (rank y, rank x) \<in> closer"
    and "x_coord x = C_Join i \<Longrightarrow> (rank y, rank x) \<in> closer"
  using assms by (auto simp: rank_def split: coordinator.splits option.splits)

lemma busy_upd:
  assumes "at x w t" and "x_workers y = (x_workers x)[w := u]"
  shows "busy y + phase t = busy x + phase u"
  using sum_list_upd [of w "x_workers x" phase u] assms by (simp add: busy_def)

lemma helper_in: "helpers_queued x \<noteq> 0 \<longleftrightarrow> Job_Shutdown \<in> set (cd_queue (x_data x))"
  by (simp add: helpers_queued_def count_list_0_iff)

lemma distance_append:
  assumes "helpers_queued x \<noteq> 0" and "cd_queue (x_data y) = cd_queue (x_data x) @ js"
  shows "distance y = distance x"
  using assms unfolding helper_in by (simp add: distance_def takeWhile_append1)

lemma distance_pop:
  assumes "cd_queue (x_data x) = j # cd_queue (x_data y)" and "j \<noteq> Job_Shutdown"
  shows "distance x = Suc (distance y)"
  using assms by (simp add: distance_def)

text \<open>The steps of a worker.\<close>

lemma rank_dequeue:
  assumes p: "protocol x" and n: "well_formed n x" and w: "at x w W_Dequeue" and s: "worker_dequeue w x = ok y"
  shows "(rank y, rank x) \<in> closer \<or> rank y = rank x"
    and "x_coord x = C_Wait A \<Longrightarrow> x_last x = None \<Longrightarrow> helpers_queued x \<noteq> 0 \<Longrightarrow> (rank y, rank x) \<in> closer"
proof -
  have "((rank y, rank x) \<in> closer \<or> rank y = rank x) \<and>
    (x_coord x = C_Wait A \<longrightarrow> x_last x = None \<longrightarrow> helpers_queued x \<noteq> 0 \<longrightarrow> (rank y, rank x) \<in> closer)"
  proof (cases "cd_queue (x_data x)")
    case Nil
    with s have y: "y = x\<lparr>x_data := (x_data x)\<lparr>cd_asleep := insert w (cd_asleep (x_data x))\<rparr>\<rparr>"
      by (simp add: worker_dequeue_def ws_dequeue_def)
    have "rank y = rank x"
      by (rule rank_quiet) (auto simp: y helpers_queued_def distance_def busy_def)
    moreover have "helpers_queued x = 0"
      by (simp add: helpers_queued_def Nil)
    ultimately show ?thesis by simp
  next
    case (Cons j q)
    with s n have y: "y = x\<lparr>x_data := (x_data x)\<lparr>cd_queue := q\<rparr>, x_workers := (x_workers x)[w := W_Running j]\<rparr>"
      by (auto simp: worker_dequeue_def ws_dequeue_def well_formed_def)
    have f: "x_coord y = x_coord x" "x_last y = x_last x" "cd_queue (x_data y) = q"
        "length (x_workers y) = length (x_workers x)"
      by (simp_all add: y)
    have h: "helpers_queued x = (if j = Job_Shutdown then Suc (helpers_queued y) else helpers_queued y)"
      by (simp add: helpers_queued_def Cons f)
    have d: "j \<noteq> Job_Shutdown \<Longrightarrow> distance x = Suc (distance y)"
      by (rule distance_pop) (simp_all add: Cons f)
    have "w \<in> alive x"
      using w by (simp add: alive_def leaving_def)
    then have nj: "x_coord x \<noteq> C_Join i" for i
      using p by (auto simp: protocol_def)
    show ?thesis
    proof (cases "j = Job_Shutdown")
      case False
      with f h d nj show ?thesis
        by (cases "x_coord x"; cases "x_last x") (simp_all add: rank_def)
    next
      case True
      with h have "helpers_queued x \<noteq> 0" "\<not> no_helper x"
        by (simp_all add: no_helper_def)
      then obtain A' where "x_coord x = C_Wait A'" "x_last x = None" "helpers_queued x \<le> 1"
        using p by (cases "x_coord x"; cases "x_last x") (auto simp: protocol_def)
      with f h True show ?thesis
        by (simp add: rank_def)
    qed
  qed
  then show "(rank y, rank x) \<in> closer \<or> rank y = rank x"
    and "x_coord x = C_Wait A \<Longrightarrow> x_last x = None \<Longrightarrow> helpers_queued x \<noteq> 0 \<Longrightarrow> (rank y, rank x) \<in> closer"
    by blast+
qed

lemma worker_run_fields [simp]:
  "x_coord (worker_run w j r x) = x_coord x" "x_data (worker_run w j r x) = x_data x"
  "length (x_workers (worker_run w j r x)) = length (x_workers x)"
  "x_last (worker_run w j r x) = (if j = Job_Shutdown then Some w else x_last x)"
  "x_workers (worker_run w j r x) = (x_workers x)[w := W_Returned j (if j = Job_Shutdown then Shutdown else r)]"
  by (auto simp: worker_run_def shutdown_run_def)

lemma rank_runs:
  assumes p: "protocol x" and w: "at x w (W_Running j)"
  shows "(rank (worker_run w j r x), rank x) \<in> closer \<or> rank (worker_run w j r x) = rank x"
    and "x_coord x = C_Wait A \<Longrightarrow> x_last x = None \<Longrightarrow> (rank (worker_run w j r x), rank x) \<in> closer \<or>
      j \<noteq> Job_Shutdown \<and> helpers_queued x = 0"
proof -
  let ?y = "worker_run w j r x"
  have "busy ?y < busy x"
    using busy_upd [OF w, of ?y "W_Returned j (if j = Job_Shutdown then Shutdown else r)"] by simp
  moreover have hq: "helpers_queued ?y = helpers_queued x" and d: "distance ?y = distance x"
    by (simp_all add: helpers_queued_def distance_def)
  moreover have "x_last ?y = x_last x" if "j \<noteq> Job_Shutdown"
    using that by simp
  ultimately have o: "j \<noteq> Job_Shutdown \<Longrightarrow> (rank ?y, rank x) \<in> closer \<or> rank ?y = rank x"
      "j \<noteq> Job_Shutdown \<Longrightarrow> x_coord x = C_Wait A \<Longrightarrow> x_last x = None \<Longrightarrow> helpers_queued x \<noteq> 0 \<Longrightarrow> (rank ?y, rank x) \<in> closer"
    by (metis rank_less_busy(1) worker_run_fields(1,3), metis rank_less_busy(2) worker_run_fields(1,3))
  have h: "(rank ?y, rank x) \<in> closer" if "j = Job_Shutdown"
  proof -
    have "\<not> no_helper x"
      using w that by (auto simp: no_helper_def runners_def)
    then obtain A' where "x_coord x = C_Wait A'" "x_last x = None"
      using p by (cases "x_coord x"; cases "x_last x") (auto simp: protocol_def)
    then show ?thesis
      using that by (auto simp: rank_def)
  qed
  show "(rank ?y, rank x) \<in> closer \<or> rank ?y = rank x"
    using o h by blast
  show "x_coord x = C_Wait A \<Longrightarrow> x_last x = None \<Longrightarrow> (rank ?y, rank x) \<in> closer \<or>
      j \<noteq> Job_Shutdown \<and> helpers_queued x = 0"
    using o h by blast
qed

lemma worker_finish_fields [simp]:
  "x_coord (worker_finish v w j r x) = x_coord x" "x_last (worker_finish v w j r x) = x_last x"
  "length (x_workers (worker_finish v w j r x)) = length (x_workers x)"
  "x_workers (worker_finish v w j r x) = (x_workers x)[w := if r = Shutdown then W_Ended else W_Dequeue]"
  "cd_queue (x_data (worker_finish v w j r x)) = cd_queue (x_data x) @ (if r = Resume then [j] else [])"
  by (cases r; simp add: worker_finish_def)+

lemma rank_finish:
  assumes w: "at x w (W_Returned j r)" and "thread_ok (W_Returned j r)"
  shows "(rank (worker_finish v w j r x), rank x) \<in> closer \<or> rank (worker_finish v w j r x) = rank x"
    and "x_coord x = C_Wait A \<Longrightarrow> x_last x = None \<Longrightarrow> helpers_queued x \<noteq> 0 \<Longrightarrow> (rank (worker_finish v w j r x), rank x) \<in> closer"
    and "x_coord x = C_Join i \<Longrightarrow> (rank (worker_finish v w j r x), rank x) \<in> closer"
proof -
  let ?y = "worker_finish v w j r x"
  have b: "busy ?y < busy x"
    using busy_upd [OF w, of ?y "if r = Shutdown then W_Ended else W_Dequeue"] by (simp split: if_splits)
  have h: "helpers_queued ?y = helpers_queued x"
    using assms(2) by (auto simp: helpers_queued_def)
  have d: "helpers_queued x \<noteq> 0 \<Longrightarrow> distance ?y = distance x"
    by (rule distance_append) auto
  note l = rank_less_busy [OF _ _ h d _ b]
  show "(rank ?y, rank x) \<in> closer \<or> rank ?y = rank x"
    by (rule l(1)) simp_all
  show "x_coord x = C_Wait A \<Longrightarrow> x_last x = None \<Longrightarrow> helpers_queued x \<noteq> 0 \<Longrightarrow> (rank ?y, rank x) \<in> closer"
    by (rule l(2)) simp_all
  show "x_coord x = C_Join i \<Longrightarrow> (rank ?y, rank x) \<in> closer"
    by (rule l(3)) simp_all
qed

text \<open>The steps of the coordinator.\<close>

lemma rank_stop:
  assumes p: "protocol x" and s: "stop_step v x = ok y"
  shows "(rank y, rank x) \<in> closer"
proof (cases "x_coord x")
  case (C_Loop A)
  show ?thesis
  proof (cases "A = {}")
    case True
    with s C_Loop show ?thesis by (auto simp: stop_step_def rank_def)
  next
    case False
    with s C_Loop p have "x_coord y = C_Wait A" "x_last y = None"
      by (auto simp: stop_step_def worker_external_enqueue_def protocol_def)
    with C_Loop show ?thesis by (simp add: rank_def)
  qed
next
  case (C_Wait A)
  with s obtain w where w: "x_last x = Some w" and y: "x_coord y = C_Loop (A - {w})"
    by (auto simp: stop_step_def split: option.splits)
  with p C_Wait have "w \<in> A" "finite (A - {w})"
    by (simp_all add: protocol_def)
  then have "card A = Suc (card (A - {w}))"
    by (intro card.remove) simp_all
  then show ?thesis
    by (simp add: rank_def C_Wait w y)
qed (use s in \<open>auto simp: stop_step_def rank_def busy_def split: if_splits prod.splits\<close>)


lemma ws_enqueue_rank:
  assumes "x_coord y = x_coord x" and "x_last y = x_last x" and "x_workers y = x_workers x"
    and "x_data y = ws_enqueue v (Job n) (x_data x)"
  shows "rank y = rank x"
  using assms
  by (intro rank_quiet) (auto simp: helpers_queued_def busy_def intro: distance_append)

lemma rank_step:
  assumes "step x y" and "well_formed n x" and "protocol x" and "x_coord x \<noteq> C_Up"
  shows "(rank y, rank x) \<in> closer \<or> rank y = rank x"
  using assms(1)
proof cases
  case (produce v m)
  then show ?thesis by (intro disjI2 ws_enqueue_rank) (auto simp: executor_execute_def)
next
  case (schedule w m v n)
  then show ?thesis by (intro disjI2 ws_enqueue_rank) (auto simp: worker_execute_def)
next
  case (dequeue w)
  then show ?thesis using rank_dequeue(1) [OF assms(3,2)] by simp
next
  case (wake w)
  have "rank y = rank x"
    by (rule rank_quiet) (auto simp: wake helpers_queued_def distance_def busy_def)
  then show ?thesis ..
next
  case (runs w j r)
  then show ?thesis using rank_runs(1) [OF assms(3)] by simp
next
  case (finish w j r v)
  have "thread_ok (W_Returned j r)"
    using finish assms(2) nth_mem by (fastforce simp: well_formed_def)
  with finish rank_finish(1) show ?thesis by simp
next
  case begin_stop
  with assms(4) show ?thesis by simp
next
  case (stopping v)
  then show ?thesis using rank_stop [OF assms(3)] by simp
qed

text \<open>There is always a step that leads closer to the end.\<close>

lemma picks_some: "\<exists>v. picks x v"
  by (auto simp: picks_def)

lemma stop_step_ready:
  assumes "x_coord x \<noteq> C_Up" and "x_coord x \<noteq> C_Down" and "\<And>A. x_coord x = C_Wait A \<Longrightarrow> x_last x \<noteq> None"
    and "\<And>i. x_coord x = C_Join i \<Longrightarrow> i < length (x_workers x) \<Longrightarrow> x_workers x ! i = W_Ended"
  shows "\<exists>y. stop_step v x = ok y"
  using assms
  by (cases "x_coord x") (auto simp: stop_step_def worker_external_enqueue_def split: prod.splits option.splits)

lemma closer_coordinator:
  assumes "protocol x" and "x_coord x \<noteq> C_Up" and "x_coord x \<noteq> C_Down" and "\<And>A. x_coord x = C_Wait A \<Longrightarrow> x_last x \<noteq> None"
    and "\<And>i. x_coord x = C_Join i \<Longrightarrow> i < length (x_workers x) \<Longrightarrow> x_workers x ! i = W_Ended"
  shows "\<exists>y. step x y \<and> (rank y, rank x) \<in> closer"
proof -
  obtain v where v: "picks x v"
    using picks_some by blast
  have "\<exists>y. stop_step v x = ok y"
    by (rule stop_step_ready [OF assms(2,3)]) (use assms(4,5) in auto)
  with v rank_stop [OF assms(1)] step.stopping show ?thesis by blast
qed

lemma closer_run:
  assumes "protocol x" and "at x w (W_Running j)" and "x_coord x = C_Wait A" and "x_last x = None"
    and "j = Job_Shutdown \<or> helpers_queued x \<noteq> 0"
  shows "\<exists>y. step x y \<and> (rank y, rank x) \<in> closer"
  using step.runs [OF assms(2), of Awaiting] rank_runs(2) [OF assms(1-4), of Awaiting] assms(5) by blast

lemma closer_finish:
  assumes "well_formed n x" and "at x w (W_Returned j r)"
    and "x_coord x = C_Join i \<or> x_coord x = C_Wait A \<and> x_last x = None \<and> helpers_queued x \<noteq> 0"
  shows "\<exists>y. step x y \<and> (rank y, rank x) \<in> closer"
proof -
  obtain v where "picks x v"
    using picks_some by blast
  moreover have "thread_ok (W_Returned j r)"
    using assms(1,2) nth_mem by (fastforce simp: well_formed_def)
  ultimately show ?thesis
    using step.finish [OF assms(2)] rank_finish(2,3) [OF assms(2)] assms(3) by blast
qed

lemma closer_dequeue:
  assumes "well_formed n x" and "protocol x" and "x_coord x = C_Wait A" "x_last x = None" "helpers_queued x \<noteq> 0"
    and w: "at x w W_Dequeue" "w \<notin> cd_asleep (x_data x)"
  shows "\<exists>y. step x y \<and> (rank y, rank x) \<in> closer"
proof -
  obtain j q where "cd_queue (x_data x) = j # q"
    using assms(5) by (cases "cd_queue (x_data x)") (auto simp: helpers_queued_def)
  then have "\<exists>y. worker_dequeue w x = ok y"
    using assms(1) by (auto simp: worker_dequeue_def ws_dequeue_def well_formed_def)
  then show ?thesis
    using step.dequeue [OF w] rank_dequeue(2) [OF assms(2,1) w(1) _ assms(3,4,5)] by blast
qed

lemma closer_wait:
  assumes n: "well_formed n x" and p: "protocol x" and "attended x" and c: "x_coord x = C_Wait A" "x_last x = None"
  shows "\<exists>y. step x y \<and> (rank y, rank x) \<in> closer"
proof (cases "helpers_queued x = 0")
  case True
  with p c have "runners x \<noteq> {}"
    by (auto simp: protocol_def)
  then obtain w where "at x w (W_Running Job_Shutdown)"
    by (auto simp: runners_def)
  then show ?thesis
    by (intro closer_run [OF p _ c, of w Job_Shutdown]) simp_all
next
  case False
  have "A = alive x" "A \<noteq> {}"
    using p c by (auto simp: protocol_def)
  then obtain w where w: "w < length (x_workers x)" "\<not> leaving (x_workers x ! w)"
    by (auto simp: alive_def)
  show ?thesis
  proof (cases "awake x = {}")
    case ne: False
    then obtain u where "at x u W_Dequeue" "u \<notin> cd_asleep (x_data x)"
      by (auto simp: awake_def)
    then show ?thesis
      by (rule closer_dequeue [OF n p c False])
  next
    case True
    have "cd_queue (x_data x) \<noteq> []"
      using False by (auto simp: helpers_queued_def)
    with True assms(3) have "cd_asleep (x_data x) = {}"
      by (auto simp: attended_def)
    with True w(1) have nd: "x_workers x ! w \<noteq> W_Dequeue"
      by (auto simp: awake_def)
    show ?thesis
    proof (cases "x_workers x ! w")
      case (W_Running j)
      with w(1) False show ?thesis
        by (intro closer_run [OF p _ c, of w j]) simp_all
    next
      case (W_Returned j r)
      with w(1) False c show ?thesis
        by (intro closer_finish [OF n, of w j r _ A]) simp_all
    qed (use nd w(2) in \<open>simp_all add: leaving_def\<close>)
  qed
qed

lemma closer_exists:
  assumes "well_formed n x" and p: "protocol x" and "attended x" and "x_coord x \<noteq> C_Up" "x_coord x \<noteq> C_Down"
  shows "\<exists>y. step x y \<and> (rank y, rank x) \<in> closer"
proof (cases "x_coord x")
  case (C_Wait A)
  then show ?thesis
    using closer_wait [OF assms(1-3)] closer_coordinator [OF p assms(4,5)] by (cases "x_last x") auto
next
  case (C_Join i)
  show ?thesis
  proof (cases "i < length (x_workers x) \<and> x_workers x ! i \<noteq> W_Ended")
    case False
    with C_Join show ?thesis
      by (intro closer_coordinator [OF p]) auto
  next
    case True
    with p C_Join have "x_workers x ! i = W_Returned Job_Shutdown Shutdown"
      by (auto simp: protocol_def alive_def leaving_def)
    with True C_Join show ?thesis
      by (intro closer_finish [OF assms(1), of i Job_Shutdown Shutdown]) simp_all
  qed
qed (use assms(4,5) closer_coordinator [OF p] in auto)

section \<open>Reachable pools\<close>

lemma start_fields [simp]:
  "x_workers (executor_start (executor_ctor n mt)) = replicate n W_Dequeue"
  "x_num (executor_start (executor_ctor n mt)) = n" "x_coord (executor_start (executor_ctor n mt)) = C_Up"
  "x_last (executor_start (executor_ctor n mt)) = None" "x_given (executor_start (executor_ctor n mt)) = []"
  "x_released (executor_start (executor_ctor n mt)) = []"
  "x_data (executor_start (executor_ctor n mt)) = \<lparr>cd_queue = [], cd_asleep = {}\<rparr>"
  by (simp_all add: executor_start_def executor_ctor_def coordinator_init_def map_replicate_const)

lemma started_ok:
  fixes n mt :: nat
  defines "x \<equiv> executor_start (executor_ctor n mt)"
  shows "well_formed n x" "conserved x" "attended x" "protocol x"
proof -
  show "well_formed n x"
    by (auto simp: x_def well_formed_def)
  have "sum_list (map in_hand (replicate n W_Dequeue)) = {#}"
    by (induction n) simp_all
  then show "conserved x"
    by (simp add: x_def conserved_def queued_def held_def)
  show "attended x"
    by (simp add: x_def attended_def)
  show "protocol x"
    by (auto simp: x_def protocol_def no_helper_def helpers_queued_def runners_def alive_def leaving_def)
qed

lemma reachable_ok:
  assumes "reachable n mt x"
  shows "well_formed n x" "conserved x" "attended x" "protocol x"
proof -
  have "well_formed n x \<and> conserved x \<and> attended x \<and> protocol x"
    using assms
    by induction (use started_ok in \<open>blast\<close>, use well_formed_step conserved_step attended_step protocol_step in \<open>blast\<close>)
  then show "well_formed n x" "conserved x" "attended x" "protocol x"
    by simp_all
qed

lemma stays_stopping: "step x y \<Longrightarrow> x_coord x \<noteq> C_Up \<Longrightarrow> x_coord y \<noteq> C_Up"
  by (auto elim!: step.cases simp: executor_execute_def worker_execute_def worker_dequeue_def ws_dequeue_def
      stop_begin_def stop_step_def worker_external_enqueue_def and_then_ok_iff
      split: list.splits coordinator.splits option.splits if_splits prod.splits)

lemma path_down:
  assumes "reachable n mt x" and "x_coord x \<noteq> C_Up"
  shows "\<exists>y. step\<^sup>*\<^sup>* x y \<and> x_coord y = C_Down"
  using assms
proof (induction x rule: wf_induct_rule [OF wf_inv_image [OF wf_closer, of rank]])
  case (1 x)
  show ?case
  proof (cases "x_coord x = C_Down")
    case False
    then obtain y where y: "step x y" "(rank y, rank x) \<in> closer"
      using closer_exists reachable_ok [OF 1(2)] 1(3) by blast
    then obtain z where "step\<^sup>*\<^sup>* y z" "x_coord z = C_Down"
      using 1(1) [of y] reachable.stepped [OF 1(2) y(1)] stays_stopping [OF y(1) 1(3)] by (auto simp: inv_image_def)
    with y(1) show ?thesis
      by (meson converse_rtranclp_into_rtranclp)
  qed blast
qed


section \<open>Properties\<close>

text \<open>
  C23. No job is lost or duplicated: whatever the interleaving of producers, workers and the thread
  that stops the pool, every job handed to the pool is, as often as it was handed over, in the
  queue, in the hands of a worker or released, and in no two of these places.
\<close>

theorem pool_conserves_jobs:
  assumes "reachable n mt x"
  shows "mset (x_given x) = queued x + held x + mset (x_released x)"
  using reachable_ok(2) [OF assms] by (simp add: conserved_def)

text \<open>A pool with one worker that was handed job 7 and has taken it.\<close>

definition demo_pool :: pool where
  "demo_pool = (executor_execute 0 (Job 7) (executor_start (executor_ctor 1 100)))\<lparr>
     x_data := \<lparr>cd_queue = [], cd_asleep = {}\<rparr>, x_workers := [W_Running (Job 7)]\<rparr>"

lemma demo_pool_reachable: "reachable 1 100 demo_pool"
proof -
  let ?a = "executor_start (executor_ctor 1 100)" and ?b = "executor_execute 0 (Job 7) (executor_start (executor_ctor 1 100))"
  have d: "x_data ?b = \<lparr>cd_queue = [Job 7], cd_asleep = {}\<rparr>" "x_workers ?b = [W_Dequeue]"
    by (simp_all add: executor_execute_def given_def ws_enqueue_def notify_one_def)
  have "step ?a ?b"
    by (rule step.produce) (simp add: picks_def)
  moreover have "step ?b demo_pool"
    by (rule step.dequeue [of 0]) (use d in \<open>simp_all add: worker_dequeue_def ws_dequeue_def demo_pool_def\<close>)
  ultimately show ?thesis
    by (blast intro: reachable.intros)
qed

lemma demo_pool_fields:
  "x_given demo_pool = [7]" "x_workers demo_pool = [W_Running (Job 7)]" "x_coord demo_pool = C_Up"
  "x_data demo_pool = \<lparr>cd_queue = [], cd_asleep = {}\<rparr>" "x_released demo_pool = []" "x_num demo_pool = 1"
  "x_last demo_pool = None"
  by (simp_all add: demo_pool_def executor_execute_def given_def)

lemma pool_conserves_jobs_witness:
  "reachable 1 100 demo_pool \<and> mset (x_given demo_pool) = {#7#} \<and>
   queued demo_pool + held demo_pool + mset (x_released demo_pool) = {#7#}"
  using pool_conserves_jobs [OF demo_pool_reachable] demo_pool_reachable by (simp add: demo_pool_fields)

text \<open>
  C24. No wake-up is lost: while a worker sleeps on the condition variable there are at least as many
  workers about to take a job as there are jobs in the queue.
\<close>

theorem no_worker_sleeps_over_a_job:
  assumes "reachable n mt x" and "w \<in> cd_asleep (x_data x)"
  shows "length (cd_queue (x_data x)) \<le> card (awake x)"
  using reachable_ok(3) [OF assms(1)] assms(2) by (auto simp: attended_def)

text \<open>Two workers asleep and a job that arrives.\<close>

definition demo_asleep :: pool where
  "demo_asleep = (executor_start (executor_ctor 2 100))\<lparr>x_data := \<lparr>cd_queue = [], cd_asleep = {0, 1}\<rparr>\<rparr>"

lemma demo_asleep_reachable: "reachable 2 100 demo_asleep"
proof -
  let ?a = "executor_start (executor_ctor 2 100)"
  let ?b = "?a\<lparr>x_data := \<lparr>cd_queue = [], cd_asleep = {1}\<rparr>\<rparr>"
  have "step ?a ?b"
    by (rule step.dequeue [of 1]) (simp_all add: worker_dequeue_def ws_dequeue_def)
  moreover have "step ?b demo_asleep"
    by (rule step.dequeue [of 0]) (simp_all add: worker_dequeue_def ws_dequeue_def demo_asleep_def)
  ultimately show ?thesis
    by (blast intro: reachable.intros)
qed

lemma no_worker_sleeps_over_a_job_witness:
  "1 \<le> card (awake (executor_execute 0 (Job 7) demo_asleep)) \<and>
   1 \<in> cd_asleep (x_data (executor_execute 0 (Job 7) demo_asleep))"
proof -
  have "picks demo_asleep 0"
    by (simp add: picks_def demo_asleep_def)
  then have "reachable 2 100 (executor_execute 0 (Job 7) demo_asleep)"
    using demo_asleep_reachable by (blast intro: reachable.intros step.produce)
  from no_worker_sleeps_over_a_job [OF this, of 1] show ?thesis
    by (simp add: executor_execute_def demo_asleep_def)
qed

text \<open>
  C25. The protocol of \<open>stop\<close>. The workers that have left their loop or are about to, having run the
  shutdown helper, are exactly those no longer in \<open>alive_workers\<close>, but for one between its run of the
  helper and its removal; before \<open>stop\<close> there are none. So a worker is removed only when it is on its
  way out. While \<open>stop\<close> waits exactly one reference to the helper is in the queue or being run, at all
  other times none; \<open>join\<close> meets only such workers, and from the cleanup on every worker has ended. No
  assertion of a worker fails.
\<close>

theorem stop_protocol:
  assumes "reachable n mt x"
  shows "(case x_coord x of
       C_Up \<Rightarrow> helpers_queued x + card (runners x) = 0 \<and> (\<forall>w < n. \<not> leaving (x_workers x ! w))
     | C_Loop A \<Rightarrow> helpers_queued x + card (runners x) = 0 \<and> A = {w. w < n \<and> \<not> leaving (x_workers x ! w)}
     | C_Wait A \<Rightarrow>
         (case x_last x of
            None \<Rightarrow> helpers_queued x + card (runners x) = 1 \<and> A \<noteq> {} \<and>
              A = {w. w < n \<and> \<not> leaving (x_workers x ! w)}
          | Some w \<Rightarrow> helpers_queued x + card (runners x) = 0 \<and> w \<in> A \<and> w < n \<and> leaving (x_workers x ! w) \<and>
              A - {w} = {v. v < n \<and> \<not> leaving (x_workers x ! v)})
     | C_Join i \<Rightarrow> helpers_queued x + card (runners x) = 0 \<and> (\<forall>w < n. leaving (x_workers x ! w)) \<and>
         (\<forall>w < n. w < i \<longrightarrow> x_workers x ! w = W_Ended)
     | _ \<Rightarrow> helpers_queued x + card (runners x) = 0 \<and> x_workers x = replicate n W_Ended) \<and>
    length (x_workers x) = n \<and> (\<forall>w. \<exists>y. worker_dequeue w x = ok y)"
proof -
  note r = reachable_ok [OF assms]
  have l: "length (x_workers x) = n" "x_num x = n"
    using r(1) by (simp_all add: well_formed_def)
  have "\<exists>y. worker_dequeue w x = ok y" for w
    using r(1) by (cases "cd_queue (x_data x)") (auto simp: worker_dequeue_def ws_dequeue_def well_formed_def)
  moreover have "x_workers x = replicate n W_Ended" if "\<forall>w < n. x_workers x ! w = W_Ended"
    using that l by (auto intro: nth_equalityI)
  moreover have "leaving (x_workers x ! w)" if "A - {w} = alive x" "w < length (x_workers x)" for A w
    using that by (auto simp: alive_def)
  ultimately show ?thesis
    using r(4) l by (cases "x_coord x") (auto simp: protocol_def no_helper_def alive_def split: option.splits)
qed

lemma stop_protocol_witness: "\<exists>y. worker_dequeue 0 demo_asleep = ok y"
  using stop_protocol [OF demo_asleep_reachable] by blast

text \<open>
  C26. Stopping leaves nothing behind: when \<open>stop\<close> runs its cleanup, and after it, every worker has ended;
  the queue is emptied and every job ever handed to the pool has been released exactly as often as it
  was handed over.
\<close>

theorem stop_releases_everything:
  assumes "reachable n mt x" and "x_coord x = C_Clean"
  shows "\<exists>y. stop_step v x = ok y \<and> x_coord y = C_Down \<and> x_workers x = replicate n W_Ended \<and>
    x_workers y = replicate n W_Ended \<and> cd_queue (x_data y) = [] \<and>
    mset (x_released y) = mset (x_given y) \<and> x_released y = x_released x @ concat (map (\<lambda>j. case j of Job k \<Rightarrow> [k] | _ \<Rightarrow> []) (cd_queue (x_data x)))"
proof -
  note r = reachable_ok [OF assms(1)]
  have e: "x_workers x = replicate n W_Ended"
    using r(1,4) assms(2) by (auto simp: protocol_def well_formed_def intro: nth_equalityI)
  moreover have "sum_list (map in_hand (replicate n W_Ended)) = {#}"
    by (induction n) simp_all
  ultimately have "held x = {#}"
    by (simp add: held_def)
  then have m: "mset (x_given x) = queued x + mset (x_released x)"
    using r(2) by (simp add: conserved_def)
  have f: "fold cleanup_and_release q l = l @ concat (map (\<lambda>j. case j of Job k \<Rightarrow> [k] | _ \<Rightarrow> []) q)" for q l
    by (induction q arbitrary: l) (auto simp: cleanup_and_release_def release_def split: job.splits)
  have "stop_step v x = ok (x\<lparr>x_coord := C_Down, x_data := (x_data x)\<lparr>cd_queue := []\<rparr>,
      x_released := fold cleanup_and_release (cd_queue (x_data x)) (x_released x)\<rparr>)"
    using r(1) assms(2)
    by (simp add: stop_step_def foreach_central_resumable_def foreach_loop_all fold_foreach_resumable well_formed_def)
  then show ?thesis
    using m e fold_release_mset [of "cd_queue (x_data x)" "x_released x"] by (simp add: queued_def f)
qed

text \<open>A pool without workers that was handed a job and is being stopped.\<close>

definition demo_clean :: pool where
  "demo_clean = (executor_execute 0 (Job 7) (executor_start (executor_ctor 0 100)))\<lparr>x_coord := C_Clean\<rparr>"

lemma demo_clean_reachable: "reachable 0 100 demo_clean"
proof -
  let ?a = "executor_start (executor_ctor 0 100)"
  let ?b = "executor_execute 0 (Job 7) ?a"
  have b: "x_coord ?b = C_Up" "x_num ?b = 0" "x_workers ?b = []" "x_data ?b = \<lparr>cd_queue = [Job 7], cd_asleep = {}\<rparr>"
    by (simp_all add: executor_execute_def ws_enqueue_def notify_one_def)
  have 1: "step ?a ?b"
    by (rule step.produce) (simp add: picks_def)
  have 2: "step ?b (stop_begin ?b)"
    by (rule step.begin_stop) (simp add: b)
  have 3: "step (stop_begin ?b) (?b\<lparr>x_coord := C_Join 0\<rparr>)"
    by (rule step.stopping [of _ 0]) (simp_all add: picks_def stop_begin_def stop_step_def b)
  have 4: "step (?b\<lparr>x_coord := C_Join 0\<rparr>) demo_clean"
    by (rule step.stopping [of _ 0]) (simp_all add: picks_def stop_step_def b demo_clean_def)
  show ?thesis
    by (rule reachable.started [THEN reachable.stepped, OF 1, THEN reachable.stepped, OF 2,
          THEN reachable.stepped, OF 3, THEN reachable.stepped, OF 4])
qed

lemma stop_releases_everything_witness:
  "\<exists>y. stop_step 0 demo_clean = ok y \<and> x_released y = [7]"
  using stop_releases_everything [OF demo_clean_reachable, of 0]
  by (auto simp: demo_clean_def executor_execute_def given_def ws_enqueue_def notify_one_def)

text \<open>
  C27. \<open>stop\<close> returns: once the pool is being stopped no step of any thread, a producer included, leads
  away from the end in the rank above; unless it has returned some thread can take a step that leads
  closer; and from every such state there is a way to the end.
\<close>

theorem stop_returns:
  assumes "reachable n mt x" and "x_coord x \<noteq> C_Up"
  shows "(\<forall>y. step x y \<longrightarrow> x_coord y \<noteq> C_Up \<and> ((rank y, rank x) \<in> closer \<or> rank y = rank x)) \<and>
    (x_coord x \<noteq> C_Down \<longrightarrow> (\<exists>y. step x y \<and> (rank y, rank x) \<in> closer)) \<and> wf closer \<and>
    (\<exists>y. step\<^sup>*\<^sup>* x y \<and> x_coord y = C_Down)"
proof -
  note r = reachable_ok [OF assms(1)]
  have "x_coord y \<noteq> C_Up \<and> ((rank y, rank x) \<in> closer \<or> rank y = rank x)" if "step x y" for y
    using rank_step [OF that r(1,4) assms(2)] stays_stopping [OF that assms(2)] by simp
  moreover have "\<exists>y. step x y \<and> (rank y, rank x) \<in> closer" if "x_coord x \<noteq> C_Down"
    by (rule closer_exists [OF r(1,4,3) assms(2) that])
  ultimately show ?thesis
    using path_down [OF assms] wf_closer by simp
qed

lemma stop_returns_witness: "\<exists>y. step\<^sup>*\<^sup>* (stop_begin demo_pool) y \<and> x_coord y = C_Down"
proof -
  have "step demo_pool (stop_begin demo_pool)"
    by (rule step.begin_stop) (simp add: demo_pool_fields)
  then have "reachable 1 100 (stop_begin demo_pool)"
    using demo_pool_reachable by (blast intro: reachable.intros)
  moreover have "x_coord (stop_begin demo_pool) \<noteq> C_Up"
    by (simp add: stop_begin_def)
  ultimately show ?thesis
    using stop_returns by blast
qed

end
