(* ===== verification/Ref_Counted_Conc.thy ===== *)
theory Ref_Counted_Conc
  imports AF_Prelude "HOL-Library.Word"
begin

text \<open>
  The reference count of one object shared by several threads: \<open>ref\<close> and \<open>deref\<close> of
  \<open>detail/ref_counted.hpp\<close>, whose atomic operations are the steps. \<open>deref\<close> is two of them: it first
  loads the counter, and only when that is not one does it subtract.
\<close>

section \<open>State\<close>

text \<open>
  A thread holds no reference (yet), holds one, or is inside \<open>deref\<close>: before the load, before the
  subtraction, before \<open>delete this\<close>, or back from it.
\<close>

datatype holder = H_None | H_Owner | H_Load | H_Sub | H_Delete | H_Gone

record shared =
  sh_count :: "64 word"
  sh_alive :: bool
  sh_deleted :: nat
  sh_threads :: "holder list"

section \<open>The steps\<close>

abbreviation thread_at :: "shared \<Rightarrow> nat \<Rightarrow> holder \<Rightarrow> bool" where
  "thread_at s i t \<equiv> i < length (sh_threads s) \<and> sh_threads s ! i = t"

definition goes :: "nat \<Rightarrow> holder \<Rightarrow> shared \<Rightarrow> shared" where
  "goes i t s = s\<lparr>sh_threads := (sh_threads s)[i := t]\<rparr>"

text \<open>\<open>rc_.fetch_add(1)\<close> by an owner, for a thread \<open>j\<close> that becomes one.\<close>

definition conc_ref :: "nat \<Rightarrow> shared \<Rightarrow> shared" where
  "conc_ref j s = goes j H_Owner (s\<lparr>sh_count := sh_count s + 1\<rparr>)"

definition conc_unique :: "nat \<Rightarrow> shared \<Rightarrow> shared" where
  "conc_unique i s = (if sh_count s = 1 then goes i H_Delete s else goes i H_Sub s)"

definition conc_sub :: "nat \<Rightarrow> shared \<Rightarrow> shared" where
  "conc_sub i s =
     (let old = sh_count s; s = s\<lparr>sh_count := sh_count s - 1\<rparr> in
      if old = 1 then goes i H_Delete s else goes i H_Gone s)"

definition conc_delete :: "nat \<Rightarrow> shared \<Rightarrow> shared" where
  "conc_delete i s = goes i H_Gone (s\<lparr>sh_alive := False, sh_deleted := Suc (sh_deleted s)\<rparr>)"

inductive deref_step :: "shared \<Rightarrow> shared \<Rightarrow> bool" where
  ref: "thread_at s i H_Owner \<Longrightarrow> thread_at s j H_None \<Longrightarrow> deref_step s (conc_ref j s)"
| call: "thread_at s i H_Owner \<Longrightarrow> deref_step s (goes i H_Load s)"
| load: "thread_at s i H_Load \<Longrightarrow> deref_step s (conc_unique i s)"
| sub: "thread_at s i H_Sub \<Longrightarrow> deref_step s (conc_sub i s)"
| delete: "thread_at s i H_Delete \<Longrightarrow> deref_step s (conc_delete i s)"

text \<open>A new object: its counter is one and the first of \<open>n\<close> threads owns it.\<close>

definition new_object :: "nat \<Rightarrow> shared" where
  "new_object n =
     \<lparr>sh_count = 1, sh_alive = True, sh_deleted = 0, sh_threads = H_Owner # replicate (n - 1) H_None\<rparr>"

inductive rc_reachable :: "nat \<Rightarrow> shared \<Rightarrow> bool" for n where
  new: "rc_reachable n (new_object n)"
| next_step: "rc_reachable n s \<Longrightarrow> deref_step s s' \<Longrightarrow> rc_reachable n s'"

section \<open>The invariant\<close>

fun refs :: "holder \<Rightarrow> nat" where
  "refs H_Owner = 1"
| "refs H_Load = 1"
| "refs H_Sub = 1"
| "refs _ = 0"

fun deleting :: "holder \<Rightarrow> nat" where
  "deleting H_Delete = 1"
| "deleting _ = 0"

definition holders :: "shared \<Rightarrow> nat" where
  "holders s = sum_list (map refs (sh_threads s))"

definition deleters :: "shared \<Rightarrow> nat" where
  "deleters s = sum_list (map deleting (sh_threads s))"

definition rc_inv :: "shared \<Rightarrow> bool" where
  "rc_inv s \<longleftrightarrow> length (sh_threads s) < 2 ^ 64 \<and>
     (if sh_alive s
      then sh_deleted s = 0 \<and>
        (deleters s = 0 \<and> unat (sh_count s) = holders s \<and> 0 < holders s \<or> deleters s = 1 \<and> holders s = 0)
      else sh_deleted s = 1 \<and> holders s = 0 \<and> deleters s = 0)"

lemma goes_fields [simp]:
  "sh_count (goes i t s) = sh_count s" "sh_alive (goes i t s) = sh_alive s"
  "sh_deleted (goes i t s) = sh_deleted s" "sh_threads (goes i t s) = (sh_threads s)[i := t]"
  by (simp_all add: goes_def)

lemma moves:
  assumes "thread_at s i t" and "sh_threads s' = (sh_threads s)[i := u]"
  shows "holders s' + refs t = holders s + refs u" "deleters s' + deleting t = deleters s + deleting u"
  using assms sum_list_upd [of i "sh_threads s" refs u] sum_list_upd [of i "sh_threads s" deleting u]
  by (simp_all add: holders_def deleters_def)

lemma refs_le: "holders s \<le> length (sh_threads s)"
proof -
  have r: "refs t \<le> 1" for t
    by (cases t) simp_all
  have "sum_list (map refs ts) \<le> length ts" for ts
  proof (induction ts)
    case (Cons t ts)
    then show ?case using r [of t] by simp
  qed simp
  then show ?thesis
    by (simp add: holders_def)
qed

text \<open>Whoever is about to touch the object finds it alive.\<close>

lemma holder_counts:
  assumes "thread_at s i t"
  shows "refs t \<le> holders s" "deleting t \<le> deleters s"
  using assms member_le_sum_list [of "refs t" "map refs (sh_threads s)"]
    member_le_sum_list [of "deleting t" "map deleting (sh_threads s)"]
  by (auto simp: holders_def deleters_def)

lemma holder_alive:
  assumes "rc_inv s" and "thread_at s i t" and "t \<notin> {H_None, H_Gone}"
  shows "sh_alive s"
  using holder_counts [OF assms(2)] assms(1,3) by (cases t) (auto simp: rc_inv_def split: if_splits)

lemma rc_inv_step:
  assumes "deref_step s s'" and "rc_inv s"
  shows "rc_inv s'"
  using assms(1)
proof cases
  case (ref i j)
  have h: "0 < holders s" "sh_alive s"
    using holder_counts(1) [OF ref(2)] holder_alive [OF assms(2) ref(2)] by auto
  have n: "holders s' \<le> length (sh_threads s')"
    by (rule refs_le)
  have m: "holders s' = Suc (holders s)" "deleters s' = deleters s"
    using moves [OF ref(3), of s' H_Owner] by (simp_all add: ref(1) conc_ref_def)
  have "unat (sh_count s') = Suc (holders s)"
    using assms(2) h n m by (auto simp: rc_inv_def ref(1) conc_ref_def unat_word_ariths)
  with assms(2) h m show ?thesis
    by (auto simp: rc_inv_def ref(1) conc_ref_def)
next
  case (call i)
  show ?thesis
    using moves [OF call(2), of s' H_Load] assms(2) by (auto simp: call(1) rc_inv_def split: if_splits)
next
  case (load i)
  have h: "sh_alive s" "0 < holders s"
    using holder_alive [OF assms(2) load(2)] holder_counts(1) [OF load(2)] by auto
  show ?thesis
  proof (cases "sh_count s = 1")
    case True
    then show ?thesis
      using moves [OF load(2), of s' H_Delete] assms(2) h by (auto simp: load(1) conc_unique_def rc_inv_def)
  next
    case False
    then show ?thesis
      using moves [OF load(2), of s' H_Sub] assms(2) h by (auto simp: load(1) conc_unique_def rc_inv_def)
  qed
next
  case (sub i)
  have h: "sh_alive s" "0 < holders s"
    using holder_alive [OF assms(2) sub(2)] holder_counts(1) [OF sub(2)] by auto
  then have c: "unat (sh_count s) = holders s" "sh_count s \<noteq> 0"
    using assms(2) by (auto simp: rc_inv_def)
  show ?thesis
  proof (cases "sh_count s = 1")
    case True
    then show ?thesis
      using moves [OF sub(2), of s' H_Delete] assms(2) h c by (auto simp: sub(1) conc_sub_def Let_def rc_inv_def)
  next
    case False
    then have "unat (sh_count s) \<noteq> 1"
      by (metis unat_1 word_unat_eq_iff)
    with False show ?thesis
      using moves [OF sub(2), of s' H_Gone] assms(2) h c
      by (auto simp: sub(1) conc_sub_def Let_def rc_inv_def unat_minus_one)
  qed
next
  case (delete i)
  have h: "sh_alive s" "0 < deleters s"
    using holder_alive [OF assms(2) delete(2)] holder_counts(2) [OF delete(2)] by auto
  then show ?thesis
    using moves [OF delete(2), of s' H_Gone] assms(2) by (auto simp: delete(1) conc_delete_def rc_inv_def)
qed

lemma reachable_inv:
  assumes "rc_reachable n s" and "n < 2 ^ 64"
  shows "rc_inv s"
  using assms(1)
proof induction
  case new
  have "sum_list (map refs (replicate k H_None)) = 0" "sum_list (map deleting (replicate k H_None)) = 0" for k
    by (induction k) simp_all
  with assms(2) show ?case
    by (simp add: rc_inv_def new_object_def holders_def deleters_def)
qed (rule rc_inv_step)

section \<open>Property\<close>

text \<open>
  C29. One deletion and no use after it: with any number of threads (less than \<open>2^64\<close>) sharing an object
  and dropping it concurrently, in every interleaving a thread that is about to touch the object finds
  it alive, the object is deleted at most once, and once no thread has a reference or is still inside
  \<open>deref\<close> it has been deleted, exactly once. In particular testing the counter before subtracting does
  no harm.
\<close>

theorem deleted_exactly_once:
  assumes "rc_reachable n s" and "n < 2 ^ 64"
  shows "(\<forall>i t. thread_at s i t \<and> t \<notin> {H_None, H_Gone} \<longrightarrow> sh_alive s) \<and> sh_deleted s \<le> 1 \<and>
    ((\<forall>t \<in> set (sh_threads s). t \<in> {H_None, H_Gone}) \<longrightarrow> \<not> sh_alive s \<and> sh_deleted s = 1)"
proof -
  note inv = reachable_inv [OF assms]
  have "\<not> sh_alive s \<and> sh_deleted s = 1" if "\<forall>t \<in> set (sh_threads s). t \<in> {H_None, H_Gone}"
  proof -
    have "holders s = 0" "deleters s = 0"
      using that unfolding holders_def deleters_def by (auto simp: sum_list_eq_0_iff)
    with inv show ?thesis
      by (auto simp: rc_inv_def split: if_splits)
  qed
  moreover have "sh_deleted s \<le> 1"
    using inv by (simp add: rc_inv_def split: if_splits)
  ultimately show ?thesis
    using holder_alive [OF inv] by blast
qed

text \<open>Two threads: the second gets a reference, both load two, both subtract, the last deletes.\<close>

lemma deleted_exactly_once_witness:
  "\<exists>s. rc_reachable 2 s \<and> sh_threads s = [H_Gone, H_Gone] \<and> sh_deleted s = 1 \<and> \<not> sh_alive s"
proof -
  define st where "st c a d ts = \<lparr>sh_count = c, sh_alive = a, sh_deleted = d, sh_threads = ts\<rparr>" for c :: "64 word" and a d ts
  have "rc_reachable 2 (st 1 True 0 [H_Owner, H_None])"
    using rc_reachable.new [of 2] by (simp add: new_object_def st_def)
  then have "rc_reachable 2 (st 2 True 0 [H_Owner, H_Owner])"
    by (rule rc_reachable.next_step)
      (use deref_step.ref [of 0 "st 1 True 0 [H_Owner, H_None]" 1] in \<open>simp add: st_def conc_ref_def goes_def\<close>)
  then have "rc_reachable 2 (st 2 True 0 [H_Load, H_Owner])"
    by (rule rc_reachable.next_step)
      (use deref_step.call [of 0 "st 2 True 0 [H_Owner, H_Owner]"] in \<open>simp add: st_def goes_def\<close>)
  then have "rc_reachable 2 (st 2 True 0 [H_Load, H_Load])"
    by (rule rc_reachable.next_step)
      (use deref_step.call [of 1 "st 2 True 0 [H_Load, H_Owner]"] in \<open>simp add: st_def goes_def\<close>)
  then have "rc_reachable 2 (st 2 True 0 [H_Sub, H_Load])"
    by (rule rc_reachable.next_step)
      (use deref_step.load [of 0 "st 2 True 0 [H_Load, H_Load]"] in \<open>simp add: st_def conc_unique_def goes_def\<close>)
  then have "rc_reachable 2 (st 2 True 0 [H_Sub, H_Sub])"
    by (rule rc_reachable.next_step)
      (use deref_step.load [of 1 "st 2 True 0 [H_Sub, H_Load]"] in \<open>simp add: st_def conc_unique_def goes_def\<close>)
  then have "rc_reachable 2 (st 1 True 0 [H_Gone, H_Sub])"
    by (rule rc_reachable.next_step)
      (use deref_step.sub [of 0 "st 2 True 0 [H_Sub, H_Sub]"] in \<open>simp add: st_def conc_sub_def goes_def\<close>)
  then have "rc_reachable 2 (st 0 True 0 [H_Gone, H_Delete])"
    by (rule rc_reachable.next_step)
      (use deref_step.sub [of 1 "st 1 True 0 [H_Gone, H_Sub]"] in \<open>simp add: st_def conc_sub_def goes_def\<close>)
  then have r: "rc_reachable 2 (st 0 False 1 [H_Gone, H_Gone])"
    by (rule rc_reachable.next_step)
      (use deref_step.delete [of 1 "st 0 True 0 [H_Gone, H_Delete]"] in \<open>simp add: st_def conc_delete_def goes_def\<close>)
  have "\<not> sh_alive (st 0 False 1 [H_Gone, H_Gone]) \<and> sh_deleted (st 0 False 1 [H_Gone, H_Gone]) = 1"
    using deleted_exactly_once [OF r] by (simp add: st_def)
  with r show ?thesis
    by (intro exI [of _ "st 0 False 1 [H_Gone, H_Gone]"]) (simp add: st_def)
qed

end
