(* ===== verification/Alloc.thy ===== *)
theory Alloc
  imports AF_Prelude "HOL-Library.Word"
begin

unbundle bit_operations_syntax

text \<open>
  Aligned allocation: \<open>detail/aligned_allocate.hpp\<close>, \<open>impl/detail/aligned_allocate.ipp\<close> and the
  memory resource \<open>new_delete_resource\<close> of \<open>impl/actor/supervisor_abstract.ipp\<close>, from which a
  supervisor takes the memory of the actors it spawns. Addresses and sizes are 64 bits wide. Memory
  is what the eight byte cell at an address holds; \<open>alloc\<close> and \<open>dealloc\<close>, the global operators new
  and delete in the program, are arguments that work on a heap \<open>'h\<close> of their own.
\<close>

section \<open>The code\<close>

type_synonym memory = "64 word \<Rightarrow> 64 word"

text \<open>\<open>alignof(max_align_t)\<close> and \<open>sizeof(ptrdiff_t)\<close> of the 64-bit platforms.\<close>

definition default_alignment :: "64 word" where
  "default_alignment = 16"

definition ptrdiff_size :: "64 word" where
  "ptrdiff_size = 8"

definition is_pow2 :: "64 word \<Rightarrow> bool" where
  "is_pow2 n \<longleftrightarrow> 0 = n AND (n - 1)"

definition is_supported_alignment :: "64 word \<Rightarrow> bool" where
  "is_supported_alignment a \<longleftrightarrow> is_pow2 a"

text \<open>
  \<open>std::align\<close>: the first aligned address at or after \<open>ptr\<close>, if the block still fits; else the
  arguments stay as they are. The result, the new \<open>ptr\<close> and the new \<open>space\<close>.
\<close>

definition std_align :: "64 word \<Rightarrow> 64 word \<Rightarrow> 64 word \<Rightarrow> 64 word \<Rightarrow> 64 word option \<times> 64 word \<times> 64 word" where
  "std_align alignment sz ptr space =
     (let aligned = (ptr - 1 + alignment) AND - alignment; diff = aligned - ptr in
      if space < sz \<or> space - sz < diff then (None, ptr, space)
      else (Some aligned, aligned, space - diff))"

text \<open>\<open>align\<close> as written for compilers before version 5; the other branches call \<open>std::align\<close>.\<close>

definition align_gcc4 :: "64 word \<Rightarrow> 64 word \<Rightarrow> 64 word \<Rightarrow> 64 word \<Rightarrow> 64 word option \<times> 64 word \<times> 64 word" where
  "align_gcc4 alignment sz ptr space =
     (let pn = ptr; aligned = (pn + alignment - 1) AND - alignment; new_space = space - (aligned - pn) in
      if new_space < sz then (None, ptr, space)
      else (Some aligned, aligned, new_space))"

definition align :: "64 word \<Rightarrow> 64 word \<Rightarrow> 64 word \<Rightarrow> 64 word \<Rightarrow> 64 word option \<times> 64 word \<times> 64 word" where
  "align alignment sz ptr space = std_align alignment sz ptr space"

definition aligned_allocate ::
  "64 word \<Rightarrow> 64 word \<Rightarrow> (64 word \<Rightarrow> 'h \<Rightarrow> 64 word \<times> 'h) \<Rightarrow> memory \<times> 'h \<Rightarrow> (64 word \<times> memory \<times> 'h) eff" where
  "aligned_allocate bytes alignment alloc mh =
     (case mh of (m, h) \<Rightarrow>
      and_then (assert_that (is_pow2 alignment)) (\<lambda>_.
      let padded = bytes + alignment + ptrdiff_size in
      case alloc padded h of (original, h) \<Rightarrow>
      case align alignment bytes (original + ptrdiff_size) padded of (_, aligned, _) \<Rightarrow>
      let offset = aligned - original in
      ok (aligned, m(aligned - ptrdiff_size := offset), h)))"

definition aligned_deallocate ::
  "64 word \<Rightarrow> 64 word \<Rightarrow> 64 word \<Rightarrow> (64 word \<Rightarrow> 'h \<Rightarrow> 'h) \<Rightarrow> memory \<times> 'h \<Rightarrow> memory \<times> 'h" where
  "aligned_deallocate p bytes alignment dealloc mh =
     (case mh of (m, h) \<Rightarrow> let offset = m (p - ptrdiff_size); original = p - offset in (m, dealloc original h))"

text \<open>The members of \<open>new_delete_resource\<close>.\<close>

definition do_allocate ::
  "(64 word \<Rightarrow> 'h \<Rightarrow> 64 word \<times> 'h) \<Rightarrow> 64 word \<Rightarrow> 64 word \<Rightarrow> memory \<times> 'h \<Rightarrow> (64 word \<times> memory \<times> 'h) eff" where
  "do_allocate alloc bytes alignment mh =
     (let alignment = (if is_supported_alignment alignment then alignment else default_alignment) in
      aligned_allocate bytes alignment alloc mh)"

definition do_deallocate ::
  "(64 word \<Rightarrow> 'h \<Rightarrow> 'h) \<Rightarrow> 64 word \<Rightarrow> 64 word \<Rightarrow> 64 word \<Rightarrow> memory \<times> 'h \<Rightarrow> memory \<times> 'h" where
  "do_deallocate dealloc p bytes alignment mh = aligned_deallocate p bytes alignment dealloc mh"

definition do_is_equal :: "nat \<Rightarrow> nat \<Rightarrow> bool" where
  "do_is_equal other this \<longleftrightarrow> other = this"

section \<open>Powers of two\<close>

lemma unat_p2: "k < 64 \<Longrightarrow> unat ((2::64 word) ^ k) = 2 ^ k"
proof -
  assume k: "k < 64"
  then have "(2::nat) ^ k < 2 ^ 64"
    by (simp only: power_strict_increasing_iff)
  moreover have "unat ((2::64 word) ^ k) = take_bit 64 (push_bit k (1::nat))"
    using unsigned_push_bit_eq [of k "1::64 word", where 'a = nat] by (simp add: push_bit_of_1)
  ultimately show ?thesis
    by (simp only: take_bit_eq_mod push_bit_of_1 mod_less)
qed

lemma and_pred_zero:
  fixes n :: nat
  assumes "0 < n"
  shows "n AND (n - 1) = 0 \<longleftrightarrow> (\<exists>k. n = 2 ^ k)"
  using assms
proof (induction n rule: less_induct)
  case (less n)
  show ?case
  proof (cases "even n")
    case True
    then obtain m where m: "n = 2 * m"
      by (elim evenE)
    with less.prems have m0: "0 < m" "m < n"
      by simp_all
    have "(n - 1) div 2 = m - 1" "odd (n - 1)" "n div 2 = m"
      using m m0 by presburger+
    then have "n AND (n - 1) = 2 * (m AND (m - 1))"
      using True and_rec [of n "n - 1"] by simp
    moreover have "(\<exists>k. n = 2 ^ k) \<longleftrightarrow> (\<exists>k. m = 2 ^ k)"
    proof
      assume "\<exists>k. n = 2 ^ k"
      then obtain k where "2 * m = 2 ^ k" using m by auto
      with True m have "k \<noteq> 0" by (cases k) auto
      then obtain j where "k = Suc j" by (cases k) auto
      with \<open>2 * m = 2 ^ k\<close> show "\<exists>k. m = 2 ^ k" by auto
    next
      assume "\<exists>k. m = 2 ^ k"
      then obtain k where "m = 2 ^ k" by blast
      then have "n = 2 ^ Suc k" using m by simp
      then show "\<exists>k. n = 2 ^ k" by blast
    qed
    ultimately show ?thesis
      using less.IH [OF m0(2) m0(1)] by simp
  next
    case False
    then have "(n - 1) div 2 = n div 2" "even (n - 1)"
      by presburger+
    then have "n AND (n - 1) = 2 * (n div 2)"
      using and_rec [of n "n - 1"] by simp
    moreover have "(\<exists>k. n = 2 ^ k) \<longleftrightarrow> n = 1"
      using False by (metis even_power even_numeral neq0_conv power_0)
    ultimately show ?thesis
      using False less.prems by presburger
  qed
qed

lemma unat_and: "unat (a AND b) = unat a AND unat b" for a b :: "'a::len word"
  by (rule bit_eqI) (simp add: bit_simps)

lemma is_pow2_iff: "is_pow2 n \<longleftrightarrow> n = 0 \<or> (\<exists>k < 64. n = 2 ^ k)"
proof (cases "n = 0")
  case False
  then have p: "0 < unat n" "unat (n - 1) = unat n - 1"
    by (simp_all add: unat_gt_0 unat_minus_one)
  have "is_pow2 n \<longleftrightarrow> unat (n AND (n - 1)) = 0"
    by (auto simp: is_pow2_def unat_eq_0)
  also have "\<dots> \<longleftrightarrow> (\<exists>k. unat n = 2 ^ k)"
    using and_pred_zero [OF p(1)] by (simp add: unat_and p(2))
  also have "\<dots> \<longleftrightarrow> (\<exists>k < 64. n = 2 ^ k)"
  proof
    assume "\<exists>k. unat n = 2 ^ k"
    then obtain k where k: "unat n = 2 ^ k" by blast
    have "unat n < 2 ^ 64"
      using unsigned_less [of n] by simp
    with k have "k < 64"
      by (metis one_less_numeral_iff power_less_imp_less_exp semiring_norm(76))
    moreover have "n = 2 ^ k"
      using k \<open>k < 64\<close> by (simp add: word_unat_eq_iff unat_p2)
    ultimately show "\<exists>k < 64. n = 2 ^ k" by blast
  next
    assume "\<exists>k < 64. n = 2 ^ k"
    then show "\<exists>k. unat n = 2 ^ k"
      by (auto simp: unat_p2)
  qed
  finally show ?thesis
    using False by simp
qed (simp add: is_pow2_def)

section \<open>Rounding up\<close>

lemma and_not_mask: "x AND NOT (mask k) = push_bit k (drop_bit k x)" for x :: "'a::len word"
  by (rule bit_word_eqI) (auto simp: bit_simps)

lemma unat_round_down:
  fixes x :: "64 word"
  assumes "k < 64"
  shows "unat (x AND - (2 ^ k)) = unat x div 2 ^ k * 2 ^ k"
proof -
  have "unat x div 2 ^ k * 2 ^ k \<le> unat x"
    by simp
  also have "\<dots> < 2 ^ 64"
    using unsigned_less [of x] by simp
  finally have b: "unat x div 2 ^ k * 2 ^ k < 2 ^ 64" .
  have "unat (x AND - (2 ^ k)) = take_bit 64 (push_bit k (unat (drop_bit k x)))"
    using unsigned_push_bit_eq [of k "drop_bit k x", where 'a = nat]
    by (simp add: minus_exp_eq_not_mask and_not_mask)
  also have "\<dots> = (2 ^ k * (unat x div 2 ^ k)) mod 2 ^ 64"
    unfolding unat_drop_bit_eq take_bit_eq_mod push_bit_eq_mult
    by (simp only: drop_bit_eq_div mult.commute)
  also have "\<dots> = unat x div 2 ^ k * 2 ^ k"
    using b by (simp add: mult.commute)
  finally show ?thesis .
qed

lemma round_up_bounds:
  fixes n :: nat
  assumes "0 < d"
  shows "n \<le> (n + (d - 1)) div d * d" "(n + (d - 1)) div d * d < n + d" "d dvd (n + (d - 1)) div d * d"
proof -
  have "(n + (d - 1)) div d * d = n + (d - 1) - (n + (d - 1)) mod d"
    by (simp add: minus_mod_eq_div_mult)
  moreover have "(n + (d - 1)) mod d < d"
    using assms by simp
  moreover have "(n + (d - 1)) mod d \<le> n + (d - 1)"
    by simp
  ultimately show "n \<le> (n + (d - 1)) div d * d" "(n + (d - 1)) div d * d < n + d"
    using assms by linarith+
qed simp

text \<open>What \<open>std::align\<close> does for a power of two, in natural numbers.\<close>

lemma round_up:
  fixes ptr :: "64 word"
  assumes "k < 64" and "unat ptr + 2 ^ k \<le> 2 ^ 64"
  shows "unat ((ptr - 1 + 2 ^ k) AND - (2 ^ k)) = (unat ptr + (2 ^ k - 1)) div 2 ^ k * 2 ^ k"
proof -
  have "unat (ptr - 1 + 2 ^ k) = unat ptr + (2 ^ k - 1)"
  proof -
    have e: "ptr - 1 + 2 ^ k = ptr + (2 ^ k - 1)"
      by simp
    have u: "unat ((2::64 word) ^ k - 1) = 2 ^ k - 1"
      using assms(1) by (simp add: unat_minus_one unat_p2)
    have "unat ptr + (2 ^ k - 1) < 2 ^ 64"
      using assms(2) one_le_power [of "2::nat" k] by linarith
    then show ?thesis
      unfolding e unat_word_ariths u by simp
  qed
  then show ?thesis
    using unat_round_down [OF assms(1), of "ptr - 1 + 2 ^ k"] by simp
qed


lemma std_align_ok:
  fixes ptr sz space :: "64 word"
  assumes "k < 64" and "unat ptr + 2 ^ k \<le> 2 ^ 64" and "unat sz + 2 ^ k \<le> unat space"
  shows "\<exists>p sp. std_align (2 ^ k) sz ptr space = (Some p, p, sp) \<and> 2 ^ k dvd unat p \<and>
    unat ptr \<le> unat p \<and> unat p < unat ptr + 2 ^ k"
proof -
  define p where "p = (ptr - 1 + 2 ^ k) AND - (2 ^ k)"
  note u = round_up [OF assms(1,2), folded p_def] and b = round_up_bounds [of "2 ^ k" "unat ptr"]
  have p: "unat ptr \<le> unat p" "unat p < unat ptr + 2 ^ k" "2 ^ k dvd unat p"
    using b unfolding u by simp_all
  have "unat (p - ptr) = unat p - unat ptr"
    using p(1) by (simp add: unat_sub word_le_nat_alt)
  moreover have "unat (space - sz) = unat space - unat sz"
    using assms(3) by (simp add: unat_sub word_le_nat_alt)
  ultimately have "\<not> space < sz" "\<not> space - sz < p - ptr"
    using p assms(3) by (simp_all add: word_less_nat_alt)
  then show ?thesis
    using p by (simp add: std_align_def p_def [symmetric] Let_def)
qed

section \<open>Properties\<close>

text \<open>
  C30. Allocation round trip: for an alignment that is a power of two and a block that the underlying
  allocator placed without wrapping around, \<open>aligned_allocate\<close> returns an aligned address whose
  \<open>bytes\<close> bytes lie inside the block, behind the eight bytes of the header, which is the only memory
  written and lies inside the block too; as long as the header is left alone, \<open>aligned_deallocate\<close>
  hands exactly the original block back.
\<close>

theorem aligned_allocate_round_trip:
  fixes alloc :: "64 word \<Rightarrow> 'h \<Rightarrow> 64 word \<times> 'h"
  assumes "alloc (bytes + 2 ^ k + 8) h = (original, h')" and "k < 64"
    and "unat original + unat bytes + 2 ^ k + 8 < 2 ^ 64"
  shows "\<exists>p m'. aligned_allocate bytes (2 ^ k) alloc (m, h) = ok (p, m', h') \<and> 2 ^ k dvd unat p \<and>
    unat original + 8 \<le> unat p \<and> unat p + unat bytes \<le> unat original + unat bytes + 2 ^ k + 8 \<and>
    unat original \<le> unat (p - 8) \<and> unat (p - 8) + 8 = unat p \<and> (\<forall>a. a \<noteq> p - 8 \<longrightarrow> m' a = m a) \<and>
    (\<forall>m2 (h2 :: 'g) al dealloc. m2 (p - 8) = m' (p - 8) \<longrightarrow>
       aligned_deallocate p bytes al dealloc (m2, h2) = (m2, dealloc original h2))"
proof -
  let ?q = "original + 8" and ?space = "bytes + 2 ^ k + 8"
  have w: "unat ((2::64 word) ^ k) = 2 ^ k"
    by (rule unat_p2 [OF assms(2)])
  have q: "unat ?q = unat original + 8"
    using assms(3) by (simp add: unat_word_ariths)
  have "unat ?space = unat bytes + 2 ^ k + 8"
    using assms(3) by (simp add: unat_word_ariths w mod_simps)
  with q assms(3) obtain p sp where p: "std_align (2 ^ k) bytes ?q ?space = (Some p, p, sp)" "2 ^ k dvd unat p"
      "unat ?q \<le> unat p" "unat p < unat ?q + 2 ^ k"
    using std_align_ok [OF assms(2), of ?q bytes ?space] by auto
  have "unat (p - 8) = unat p - 8"
    using p(3) q by (simp add: unat_sub word_le_nat_alt)
  moreover have "aligned_allocate bytes (2 ^ k) alloc (m, h) = ok (p, m(p - 8 := p - original), h')"
  proof -
    have "is_pow2 (2 ^ k)"
      using assms(2) by (auto simp: is_pow2_iff)
    with assms(1) p(1) show ?thesis
      by (simp add: aligned_allocate_def align_def ptrdiff_size_def Let_def)
  qed
  ultimately show ?thesis
    using p q by (intro exI [of _ p] exI [of _ "m(p - 8 := p - original)"])
      (auto simp: aligned_deallocate_def ptrdiff_size_def)
qed

lemma aligned_allocate_round_trip_witness:
  "\<exists>p m'. aligned_allocate 100 64 (\<lambda>n h. (4096, n # h)) ((\<lambda>_. 0), []) = ok (p, m', [172]) \<and> 64 dvd unat p \<and>
    aligned_deallocate p 100 64 (\<lambda>a h. a # h) (m', []) = (m', [4096])"
  using aligned_allocate_round_trip [of "\<lambda>n h. (4096, n # h)" 100 6 "[]" 4096 "[172]" "\<lambda>_. 0", where 'g = "64 word list"]
  by fastforce

text \<open>
  C31. The fallback of \<open>align\<close> for old compilers computes the same as \<open>std::align\<close> as long as the space
  reaches to the aligned address; when it does not, the subtraction wraps around and the fallback
  succeeds with an address outside of the space, where \<open>std::align\<close> refuses.
\<close>

theorem align_fallback:
  fixes ptr alignment sz space :: "64 word"
  defines "p \<equiv> (ptr - 1 + alignment) AND - alignment"
  shows "align_gcc4 alignment sz ptr space =
    (if p - ptr \<le> space \<or> 2 ^ 64 + unat space - unat (p - ptr) < unat sz then std_align alignment sz ptr space
     else (Some p, p, space - (p - ptr)))"
proof -
  let ?d = "p - ptr"
  have p: "(ptr + alignment - 1) AND - alignment = p"
    by (simp add: p_def algebra_simps)
  have s: "std_align alignment sz ptr space =
      (if unat space < unat sz + unat ?d then (None, ptr, space) else (Some p, p, space - ?d))"
    by (auto simp: std_align_def Let_def p_def [symmetric] word_less_nat_alt unat_sub_if_size word_size)
  have g: "align_gcc4 alignment sz ptr space =
      (if unat (space - ?d) < unat sz then (None, ptr, space) else (Some p, p, space - ?d))"
    by (simp add: align_gcc4_def Let_def p word_less_nat_alt)
  show ?thesis
  proof (cases "?d \<le> space")
    case True
    then have "unat (space - ?d) = unat space - unat ?d" "unat ?d \<le> unat space"
      by (simp_all add: unat_sub word_le_nat_alt)
    then have "unat (space - ?d) < unat sz \<longleftrightarrow> unat space < unat sz + unat ?d"
      by linarith
    with True show ?thesis by (simp add: g s)
  next
    case False
    then have "unat (space - ?d) = 2 ^ 64 + unat space - unat ?d" "unat space < unat sz + unat ?d"
      by (simp_all add: unat_sub_if_size word_size word_le_nat_alt)
    with False show ?thesis by (simp add: g s)
  qed
qed

text \<open>
  Which alignments the memory resource accepts: \<open>is_pow2\<close> holds for the powers of two and for zero.
  Any other alignment is replaced by 16; with alignment zero \<open>std::align\<close> refuses and the block is
  handed out right behind its header, aligned or not.
\<close>

theorem supported_alignments:
  fixes alloc :: "64 word \<Rightarrow> 'h \<Rightarrow> 64 word \<times> 'h"
  assumes "alloc (bytes + 8) h = (original, h')" and "unat original + 16 < 2 ^ 64"
  shows "(is_supported_alignment a \<longleftrightarrow> a = 0 \<or> (\<exists>k < 64. a = 2 ^ k)) \<and>
    (\<not> is_supported_alignment a \<longrightarrow> do_allocate alloc bytes' a mh = aligned_allocate bytes' 16 alloc mh) \<and>
    do_allocate alloc bytes 0 (m, h) = ok (original + 8, m(original := 8), h')"
proof -
  have 1: "is_supported_alignment a \<longleftrightarrow> a = 0 \<or> (\<exists>k < 64. a = 2 ^ k)"
    by (simp add: is_supported_alignment_def is_pow2_iff)
  have 2: "\<not> is_supported_alignment a \<longrightarrow> do_allocate alloc bytes' a mh = aligned_allocate bytes' 16 alloc mh"
    by (simp add: do_allocate_def default_alignment_def)
  let ?q = "original + 8"
  have "unat ?q = unat original + 8"
    using assms(2) by (simp add: unat_word_ariths)
  then have "unat (- ?q) = 2 ^ 64 - (unat original + 8)"
    using unat_sub_if_size [of 0 ?q] by (simp add: word_size)
  then have "unat (8::64 word) < unat (- ?q)"
    using assms(2) by simp
  then have "bytes + 8 < bytes \<or> bytes + 8 - bytes < - ?q"
    by (simp add: word_less_nat_alt)
  then have "align 0 bytes ?q (bytes + 8) = (None, ?q, bytes + 8)"
    by (simp add: align_def std_align_def)
  then have "do_allocate alloc bytes 0 (m, h) = ok (original + 8, m(original := 8), h')"
    using assms(1)
    by (simp add: do_allocate_def is_supported_alignment_def is_pow2_iff aligned_allocate_def ptrdiff_size_def)
  with 1 2 show ?thesis
    by blast
qed

end
