(* ===== verification/Type_List.thy ===== *)
theory Type_List
  imports Comm_Module
begin

text \<open>
  The compile-time functions that the handlers are built from: \<open>detail/type_list.hpp\<close>,
  \<open>detail/type_traits.hpp\<close>, \<open>detail/callable_trait.hpp\<close> and the type functions of
  \<open>impl/handler.ipp\<close>. A \<open>type_list<Ts...>\<close> is a list of types; a type function whose result does
  not exist, so that the program does not compile, has the value \<open>None\<close>.
\<close>

section \<open>Type lists\<close>

definition type_list_size :: "'t list \<Rightarrow> nat" where
  "type_list_size ts = length ts"

fun type_list_at_impl :: "nat \<Rightarrow> 't list \<Rightarrow> 't option" where
  "type_list_at_impl 0 (e # es) = Some e"
| "type_list_at_impl (Suc n) (e # es) = type_list_at_impl n es"
| "type_list_at_impl n [] = None"

definition type_list_at :: "'t list \<Rightarrow> nat \<Rightarrow> 't option" where
  "type_list_at ts n = type_list_at_impl n ts"

text \<open>The head of the empty list is \<open>void\<close>.\<close>

fun tl_head :: "'t \<Rightarrow> 't list \<Rightarrow> 't" where
  "tl_head void [] = void"
| "tl_head void (t # ts) = t"

fun tl_tail :: "'t list \<Rightarrow> 't list" where
  "tl_tail [] = []"
| "tl_tail (t # ts) = ts"

definition tl_size :: "'t list \<Rightarrow> nat" where
  "tl_size ts = length ts"

text \<open>
  The specialisations of \<open>tl_slice_impl\<close>; the last argument is the parameter pack that collects the
  result.
\<close>

function tl_slice_impl :: "'t \<Rightarrow> nat \<Rightarrow> nat \<Rightarrow> 't \<Rightarrow> 't list \<Rightarrow> 't list \<Rightarrow> 't list" where
  "tl_slice_impl void left_offset remaining pad xs ts =
     (if left_offset \<noteq> 0 then tl_slice_impl void (left_offset - 1) remaining pad (tl_tail xs) ts
      else if remaining = 0 then ts
      else if xs = [] then tl_slice_impl void 0 (remaining - 1) pad [] (ts @ [pad])
      else tl_slice_impl void 0 (remaining - 1) pad (tl_tail xs) (ts @ [tl_head void xs]))"
  by auto
termination
  by (relation "measure (\<lambda>(_, l, r, _). l + r)") auto

declare tl_slice_impl.simps [simp del]

definition tl_slice_aux :: "'t \<Rightarrow> 't \<Rightarrow> 't list \<Rightarrow> nat \<Rightarrow> nat \<Rightarrow> nat \<Rightarrow> 't list" where
  "tl_slice_aux void pad xs list_size start stop =
     (if start = 0 \<and> stop = list_size then xs
      else tl_slice_impl void start (stop - start) pad xs [])"

definition tl_slice :: "'t \<Rightarrow> 't \<Rightarrow> 't list \<Rightarrow> nat \<Rightarrow> nat \<Rightarrow> 't list" where
  "tl_slice void unit_t xs start stop =
     tl_slice_aux void unit_t xs (tl_size xs) (if start > stop then stop else start) stop"

section \<open>Traits\<close>

text \<open>\<open>_or_\<close> over the \<open>value\<close> members of its arguments.\<close>

fun or_trait :: "bool list \<Rightarrow> bool" where
  "or_trait [] = False"
| "or_trait [b] = b"
| "or_trait [b1, b2] = (if b1 then b1 else b2)"
| "or_trait (b1 # b2 # b3 # bs) = (if b1 then b1 else or_trait (b2 # b3 # bs))"

text \<open>
  What follows the parameters in the type of a function: the qualifiers \<open>const\<close>, \<open>volatile\<close>, \<open>&\<close> and
  \<open>&&\<close>, an ellipsis, and \<open>noexcept\<close>, which is part of the type since C++17, the standard these headers
  are written in.
\<close>

datatype ref_qualifier = No_Ref | Lvalue_Ref | Rvalue_Ref

record qualifiers =
  fq_const :: bool
  fq_volatile :: bool
  fq_ref :: ref_qualifier
  fq_variadic :: bool
  fq_noexcept :: bool

definition unqualified :: qualifiers where
  "unqualified = \<lparr>fq_const = False, fq_volatile = False, fq_ref = No_Ref, fq_variadic = False, fq_noexcept = False\<rparr>"

text \<open>
  What can be passed as a callable. A functor has one \<open>operator()\<close>, given by the member function it is;
  classes without or with an overloaded one, and all other types, are \<open>Other\<close>.
\<close>

datatype 't member_fun =
  Member_Fun (mf_class: 't) (mf_result: 't) (mf_args: "'t list") (mf_quals: qualifiers)

datatype 't cpp_type =
    Fun_Type 't "'t list" qualifiers
  | Fun_Ptr 't "'t list" qualifiers
  | Member_Ptr "'t member_fun"
  | Functor "'t member_fun"
  | Other

text \<open>
  \<open>decay_t\<close>: a function type becomes a pointer, unless it has a qualifier that no pointer to a function
  can have.
\<close>

fun decay :: "'t cpp_type \<Rightarrow> 't cpp_type" where
  "decay (Fun_Type r as q) =
     (if fq_const q \<or> fq_volatile q \<or> fq_ref q \<noteq> No_Ref then Fun_Type r as q else Fun_Ptr r as q)"
| "decay t = t"

record 't trait =
  ct_class :: "'t option"
  ct_result :: 't
  ct_args :: "'t list"
  ct_number :: nat

text \<open>
  The trait of \<open>R(Args...)\<close>, from which the others inherit. There are specialisations for unqualified
  functions, pointers to them, and members without qualifiers or with \<open>const\<close> alone; only those for
  members declare a \<open>class_type\<close>. The versions for \<open>noexcept\<close> are commented out.
\<close>

definition fun_trait :: "'t \<Rightarrow> 't list \<Rightarrow> 't trait" where
  "fun_trait r as = \<lparr>ct_class = None, ct_result = r, ct_args = as, ct_number = type_list_size as\<rparr>"

fun callable_trait :: "'t cpp_type \<Rightarrow> 't trait option" where
  "callable_trait (Fun_Type r as q) = (if q = unqualified then Some (fun_trait r as) else None)"
| "callable_trait (Fun_Ptr r as q) = (if q = unqualified then Some (fun_trait r as) else None)"
| "callable_trait (Member_Ptr f) =
     (if mf_quals f = unqualified \<or> mf_quals f = unqualified\<lparr>fq_const := True\<rparr>
      then Some ((fun_trait (mf_result f) (mf_args f))\<lparr>ct_class := Some (mf_class f)\<rparr>) else None)"
| "callable_trait _ = None"

definition is_fun :: "'t cpp_type \<Rightarrow> bool" where
  "is_fun t = (case t of Fun_Type _ _ _ \<Rightarrow> True | Fun_Ptr _ _ _ \<Rightarrow> True | Member_Ptr _ \<Rightarrow> True | _ \<Rightarrow> False)"

definition has_apply_operator :: "'t cpp_type \<Rightarrow> bool" where
  "has_apply_operator t = (case t of Functor _ \<Rightarrow> True | _ \<Rightarrow> False)"

text \<open>
  The primary template needs \<open>class_type\<close> of the trait it wraps; the specialisation for functors uses
  the trait of \<open>operator()\<close> and declares no \<open>class_type\<close>; the one for neither declares nothing.
\<close>

definition get_callable_trait_helper :: "'t cpp_type \<Rightarrow> bool \<Rightarrow> bool \<Rightarrow> 't trait option" where
  "get_callable_trait_helper t isfun hasop =
     (if \<not> isfun \<and> hasop
      then (case t of
              Functor f \<Rightarrow> map_option (\<lambda>c. c\<lparr>ct_class := None, ct_number := tl_size (ct_args c)\<rparr>) (callable_trait (Member_Ptr f))
            | _ \<Rightarrow> None)
      else if \<not> isfun \<and> \<not> hasop then None
      else (case callable_trait t of
              None \<Rightarrow> None
            | Some c \<Rightarrow> if ct_class c = None then None else Some (c\<lparr>ct_number := tl_size (ct_args c)\<rparr>)))"

definition get_callable_trait :: "'t cpp_type \<Rightarrow> 't trait option" where
  "get_callable_trait t = (let t = decay t in get_callable_trait_helper t (is_fun t) (has_apply_operator t))"

text \<open>
  \<open>type_list_to_tuple\<close> and the type of the body that \<open>apply_impl\<close> and \<open>apply_impl_for_class\<close> cast to;
  \<open>dec\<close> removes references and qualifiers from a type.
\<close>

definition type_list_to_tuple :: "('t \<Rightarrow> 't) \<Rightarrow> 't list \<Rightarrow> 't list" where
  "type_list_to_tuple dec ts = map dec ts"

definition apply_tuple :: "('t \<Rightarrow> 't) \<Rightarrow> 't \<Rightarrow> 't \<Rightarrow> 't trait \<Rightarrow> 't list" where
  "apply_tuple dec void unit_t c =
     (let args_size = ct_number c; args_type_list = tl_slice void unit_t (ct_args c) 0 args_size in
      type_list_to_tuple dec args_type_list)"

section \<open>Facts\<close>

lemma tl_tail_eq [simp]: "tl_tail xs = tl xs"
  by (cases xs) simp_all

lemma tl_head_eq [simp]: "xs \<noteq> [] \<Longrightarrow> tl_head void xs = hd xs"
  by (cases xs) simp_all

lemma type_list_at_eq: "type_list_at ts n = (if n < length ts then Some (ts ! n) else None)"
  unfolding type_list_at_def by (induction n ts rule: type_list_at_impl.induct) auto

lemma slice_tail:
  "tl_slice_impl void 0 n pad xs ts = ts @ take n xs @ replicate (n - length xs) pad"
proof (induction n arbitrary: xs ts)
  case 0
  then show ?case by (subst tl_slice_impl.simps) simp
next
  case (Suc n)
  show ?case
    by (subst tl_slice_impl.simps) (cases xs; simp add: Suc)
qed

lemma slice_impl: "tl_slice_impl void k n pad xs ts = ts @ take n (drop k xs) @ replicate (n - (length xs - k)) pad"
proof (induction k arbitrary: xs)
  case 0
  then show ?case by (simp add: slice_tail)
next
  case (Suc k)
  show ?case
    by (subst tl_slice_impl.simps) (cases xs; simp add: Suc)
qed

section \<open>Properties\<close>

text \<open>
  \<open>tl_slice\<close> computes the elements from position \<open>First\<close> (or \<open>Last\<close>, if that is smaller) up to but
  not including \<open>Last\<close>, padded with \<open>unit_t\<close> behind the end of the list, so that it has exactly as many
  elements as the range; the slice over the whole list is the list.
\<close>

theorem tl_slice_is_take_drop:
  "tl_slice void unit_t xs start stop =
     take (stop - start) (drop (min start stop) xs) @
     replicate (stop - start - (length xs - min start stop)) unit_t \<and>
   length (tl_slice void unit_t xs start stop) = stop - start \<and>
   tl_slice void unit_t xs 0 (tl_size xs) = xs"
proof -
  have "tl_slice void unit_t xs start stop =
     take (stop - start) (drop (min start stop) xs) @
     replicate (stop - start - (length xs - min start stop)) unit_t"
    by (auto simp: tl_slice_def tl_slice_aux_def tl_size_def slice_impl min_def)
  moreover from this have "length (tl_slice void unit_t xs start stop) = stop - start"
    by (auto simp: min_def)
  ultimately show ?thesis
    by (simp add: tl_slice_def tl_slice_aux_def)
qed

text \<open>
  C32. Which callables can be handlers: member functions and functors with one call operator, if the member
  or the operator has no qualifier or \<open>const\<close> alone, and nothing else: with \<open>noexcept\<close>, \<open>volatile\<close>, a
  reference qualifier or an ellipsis there is no trait, and none for any free function, since the helper
  asks for a class they do not have. For those that can, the trait tells the arguments and their number,
  and a handler with several parameters casts the body of its message to the tuple of exactly its decayed
  parameter types.
\<close>

theorem callables_with_a_trait:
  "get_callable_trait t =
     (case t of
        Member_Ptr f \<Rightarrow>
          if mf_quals f \<in> {unqualified, unqualified\<lparr>fq_const := True\<rparr>}
          then Some \<lparr>ct_class = Some (mf_class f), ct_result = mf_result f, ct_args = mf_args f, ct_number = length (mf_args f)\<rparr>
          else None
      | Functor f \<Rightarrow>
          if mf_quals f \<in> {unqualified, unqualified\<lparr>fq_const := True\<rparr>}
          then Some \<lparr>ct_class = None, ct_result = mf_result f, ct_args = mf_args f, ct_number = length (mf_args f)\<rparr>
          else None
      | _ \<Rightarrow> None) \<and>
   map_option (apply_tuple dec void unit_t) (get_callable_trait t) =
     map_option (\<lambda>c. map dec (ct_args c)) (get_callable_trait t)"
  by (cases t) (simp_all add: get_callable_trait_def get_callable_trait_helper_def is_fun_def has_apply_operator_def
      tl_size_def type_list_size_def fun_trait_def apply_tuple_def type_list_to_tuple_def tl_slice_def tl_slice_aux_def)

end
