(* ===== verification/Reader_Queue_Conc.thy ===== *)
theory Reader_Queue_Conc
  imports Reader_Queue
begin

text \<open>
  The mailbox of \<open>detail/single_reader_queue.hpp\<close> with any number of producers inside \<open>enqueue\<close> and
  the reader inside \<open>try_pop\<close> at the same time. A step of a thread is one access to the atomic
  \<open>stack_\<close> with the private work up to the next one, or one iteration of a loop over the links. A
  schedule is a list of such steps in any order. \<open>close\<close> is left out: the destructor calls it, when
  no other thread has the queue.
\<close>

section \<open>State\<close>

text \<open>
  Where a producer is: outside, about to call \<open>enqueue\<close> with a message it made, at the head of the
  loop with the value \<open>e\<close> of \<open>stack_\<close>, about to exchange \<open>e\<close> for its message.
\<close>

datatype producer = P_Idle | P_Made nat | P_Loop nat ptr | P_Exchange nat ptr

text \<open>
  Where the reader is: outside, about to load \<open>stack_\<close> in \<open>fetch_new_data\<close>, about to exchange \<open>e\<close>
  for the dummy, in the loop over the fetched chain, about to take the head.
\<close>

datatype reader = R_Idle | R_Load | R_Exchange ptr | R_Reverse ptr | R_Take

text \<open>
  \<open>c_sent\<close>, \<open>c_got\<close>: the messages in the order in which they were exchanged in and taken out. Messages
  taken out belong to the reader (\<open>c_kept\<close>) until it deletes them; then their address is free again.
\<close>

record 'm conc =
  c_heap :: "'m heap"
  c_queue :: srq
  c_producers :: "producer list"
  c_reader :: reader
  c_kept :: "nat list"
  c_sent :: "nat list"
  c_got :: "nat list"

section \<open>The code\<close>

definition at_producer :: "nat \<Rightarrow> producer \<Rightarrow> 'm conc \<Rightarrow> 'm conc" where
  "at_producer i p s = s\<lparr>c_producers := (c_producers s)[i := p]\<rparr>"

text \<open>\<open>enqueue\<close>: the first load, an iteration up to the exchange, the exchange.\<close>

definition enqueue_load :: "nat \<Rightarrow> nat \<Rightarrow> 'm conc \<Rightarrow> 'm conc" where
  "enqueue_load i x s = at_producer i (P_Loop x (q_stack (c_queue s))) s"

definition enqueue_link :: "nat \<Rightarrow> nat \<Rightarrow> ptr \<Rightarrow> 'm conc \<Rightarrow> 'm conc eff" where
  "enqueue_link i x e s =
     (if e = Null then and_then (delete_node (c_heap s) (Node x)) (\<lambda>h. ok (at_producer i P_Idle (s\<lparr>c_heap := h\<rparr>)))
      else and_then (set_next (c_heap s) (Node x) (if is_dummy (c_queue s) e then Null else e)) (\<lambda>h.
           ok (at_producer i (P_Exchange x e) (s\<lparr>c_heap := h\<rparr>))))"

definition enqueue_exchange :: "nat \<Rightarrow> nat \<Rightarrow> ptr \<Rightarrow> 'm conc \<Rightarrow> 'm conc" where
  "enqueue_exchange i x e s =
     (if q_stack (c_queue s) = e
      then at_producer i P_Idle (s\<lparr>c_queue := (c_queue s)\<lparr>q_stack := Node x\<rparr>, c_sent := c_sent s @ [x]\<rparr>)
      else at_producer i (P_Loop x (q_stack (c_queue s))) s)"

definition enqueue_step :: "nat \<Rightarrow> 'm conc \<Rightarrow> 'm conc eff" where
  "enqueue_step i s =
     (case c_producers s ! i of
        P_Idle \<Rightarrow> ok s
      | P_Made x \<Rightarrow> ok (enqueue_load i x s)
      | P_Loop x e \<Rightarrow> enqueue_link i x e s
      | P_Exchange x e \<Rightarrow> ok (enqueue_exchange i x e s))"

text \<open>
  \<open>take_head\<close> with \<open>fetch_new_data\<close> inside. The weak exchange may fail although the values are equal,
  \<open>spurious\<close>; failing, it stores the current value in \<open>e\<close>.
\<close>

definition take_step :: "'m conc \<Rightarrow> 'm conc eff" where
  "take_step s =
     and_then (get_next (c_heap s) (q_head (c_queue s))) (\<lambda>n.
     case q_head (c_queue s) of
       Node x \<Rightarrow> ok (s\<lparr>c_queue := (c_queue s)\<lparr>q_head := n\<rparr>, c_reader := R_Idle, c_kept := x # c_kept s,
                      c_got := c_got s @ [x]\<rparr>)
     | _ \<Rightarrow> ok (s\<lparr>c_queue := (c_queue s)\<lparr>q_head := n\<rparr>, c_reader := R_Idle\<rparr>))"

definition fetch_load :: "'m conc \<Rightarrow> 'm conc eff" where
  "fetch_load s =
     (let e = q_stack (c_queue s) in
      and_then (assert_that (e \<noteq> Null)) (\<lambda>_.
      and_then (assert_that (e \<noteq> reader_blocked_dummy (c_queue s))) (\<lambda>_.
      ok (s\<lparr>c_reader := if e \<noteq> stack_empty_dummy (c_queue s) then R_Exchange e else R_Idle\<rparr>))))"

definition fetch_exchange :: "bool \<Rightarrow> ptr \<Rightarrow> 'm conc \<Rightarrow> 'm conc eff" where
  "fetch_exchange spurious e s =
     (if q_stack (c_queue s) = e \<and> \<not> spurious
      then let s = s\<lparr>c_queue := (c_queue s)\<lparr>q_stack := stack_empty_dummy (c_queue s)\<rparr>\<rparr> in
           and_then (assert_that (e \<noteq> reader_blocked_dummy (c_queue s))) (\<lambda>_.
           if is_dummy (c_queue s) e then fail Assert_Failed
           else ok (s\<lparr>c_reader := R_Reverse e\<rparr>))
      else let e = q_stack (c_queue s) in
           ok (s\<lparr>c_reader := if e \<noteq> stack_empty_dummy (c_queue s) then R_Exchange e else R_Idle\<rparr>))"

definition fetch_reverse :: "ptr \<Rightarrow> 'm conc \<Rightarrow> 'm conc eff" where
  "fetch_reverse e s =
     (if e = Null then ok (s\<lparr>c_reader := R_Take\<rparr>)
      else and_then (assert_that (\<not> is_dummy (c_queue s) e)) (\<lambda>_.
           and_then (get_next (c_heap s) e) (\<lambda>n.
           and_then (set_next (c_heap s) e (q_head (c_queue s))) (\<lambda>h.
           ok (s\<lparr>c_heap := h, c_queue := (c_queue s)\<lparr>q_head := e\<rparr>, c_reader := R_Reverse n\<rparr>)))))"

definition reader_step :: "bool \<Rightarrow> 'm conc \<Rightarrow> 'm conc eff" where
  "reader_step spurious s =
     (case c_reader s of
        R_Idle \<Rightarrow> if q_head (c_queue s) \<noteq> Null then take_step s else ok (s\<lparr>c_reader := R_Load\<rparr>)
      | R_Load \<Rightarrow> fetch_load s
      | R_Exchange e \<Rightarrow> fetch_exchange spurious e s
      | R_Reverse e \<Rightarrow> fetch_reverse e s
      | R_Take \<Rightarrow> take_step s)"

section \<open>Schedules\<close>

text \<open>
  A step of the schedule that is not possible does nothing: making a message at an address that is in
  use, deleting one the reader does not have, blocking the queue or unblocking it while the reader is
  inside \<open>try_pop\<close>, calling \<open>try_pop\<close> while the queue is blocked.
\<close>

datatype 'm action =
    Make nat nat 'm
  | Producer nat
  | Reader bool
  | Try_Block
  | Try_Unblock
  | Drop nat

fun advance :: "'m action \<Rightarrow> 'm conc \<Rightarrow> 'm conc eff" where
  "advance (Make i x v) s =
     (if i < length (c_producers s) \<and> c_producers s ! i = P_Idle \<and> \<not> live (c_heap s) (Node x)
      then ok (at_producer i (P_Made x) (s\<lparr>c_heap := new_node (c_heap s) x v\<rparr>)) else ok s)"
| "advance (Producer i) s = (if i < length (c_producers s) then enqueue_step i s else ok s)"
| "advance (Reader spurious) s =
     (if c_reader s = R_Idle \<and> blocked (c_queue s) then ok s else reader_step spurious s)"
| "advance Try_Block s =
     (if c_reader s = R_Idle then ok (s\<lparr>c_queue := snd (try_block (c_queue s))\<rparr>) else ok s)"
| "advance Try_Unblock s =
     (if c_reader s = R_Idle then ok (s\<lparr>c_queue := snd (try_unblock (c_queue s))\<rparr>) else ok s)"
| "advance (Drop x) s =
     (if x \<in> set (c_kept s)
      then and_then (delete_node (c_heap s) (Node x)) (\<lambda>h. ok (s\<lparr>c_heap := h, c_kept := remove1 x (c_kept s)\<rparr>))
      else ok s)"

primrec run_schedule :: "'m action list \<Rightarrow> 'm conc \<Rightarrow> 'm conc eff" where
  "run_schedule [] s = ok s"
| "run_schedule (a # as) s = and_then (advance a s) (\<lambda>s. run_schedule as s)"

definition conc_init :: "nat \<Rightarrow> 'm \<Rightarrow> nat \<Rightarrow> 'm conc" where
  "conc_init q d n =
     \<lparr>c_heap = pl_ctor q d empty_heap, c_queue = srq_ctor q, c_producers = replicate n P_Idle, c_reader = R_Idle,
      c_kept = [], c_sent = [], c_got = []\<rparr>"

section \<open>Invariant\<close>

fun made :: "producer \<Rightarrow> nat option" where
  "made P_Idle = None"
| "made (P_Made x) = Some x"
| "made (P_Loop x e) = Some x"
| "made (P_Exchange x e) = Some x"

fun producer_ok :: "'m heap \<Rightarrow> srq \<Rightarrow> producer \<Rightarrow> bool" where
  "producer_ok h q (P_Loop x e) \<longleftrightarrow> e \<noteq> Null"
| "producer_ok h q (P_Exchange x e) \<longleftrightarrow>
     e \<noteq> Null \<and> nxt h (Node x) = (if is_dummy q e then Null else e)"
| "producer_ok h q _ \<longleftrightarrow> True"

fun reader_ok :: "'m heap \<Rightarrow> reader \<Rightarrow> qmode \<Rightarrow> nat list \<Rightarrow> nat list \<Rightarrow> nat list \<Rightarrow> bool" where
  "reader_ok h R_Idle m rs hs ss \<longleftrightarrow> rs = []"
| "reader_ok h R_Load m rs hs ss \<longleftrightarrow> rs = [] \<and> hs = [] \<and> m = Ready"
| "reader_ok h (R_Exchange e) m rs hs ss \<longleftrightarrow> rs = [] \<and> hs = [] \<and> ss \<noteq> [] \<and> (\<exists>x. e = Node x)"
| "reader_ok h (R_Reverse e) m rs hs ss \<longleftrightarrow> chain h e rs \<and> rs @ hs \<noteq> [] \<and> m = Ready"
| "reader_ok h R_Take m rs hs ss \<longleftrightarrow> rs = [] \<and> hs \<noteq> []"

text \<open>
  \<open>rs\<close> is what the reader's loop has still to reverse, newest first, \<open>hs\<close> the list at \<open>head_\<close> and \<open>ss\<close>
  the stack; the messages of the producers and those the reader kept are apart from them.
\<close>

definition producers_ok :: "'m heap \<Rightarrow> srq \<Rightarrow> producer list \<Rightarrow> nat set \<Rightarrow> bool" where
  "producers_ok h q ps X \<longleftrightarrow>
     (\<forall>i < length ps. producer_ok h q (ps ! i) \<and>
        (\<forall>x. made (ps ! i) = Some x \<longrightarrow> live h (Node x) \<and> x \<notin> X \<and>
           (\<forall>j < length ps. made (ps ! j) = Some x \<longrightarrow> j = i)))"

definition conc_inv :: "'m conc \<Rightarrow> qmode \<Rightarrow> nat list \<Rightarrow> nat list \<Rightarrow> nat list \<Rightarrow> bool" where
  "conc_inv s m rs hs ss \<longleftrightarrow>
     mbox_rel (c_heap s) (c_queue s) m hs ss [] [] \<and> m \<noteq> Closed \<and>
     distinct (rs @ hs @ ss @ c_kept s) \<and> (\<forall>x \<in> set (c_kept s). live (c_heap s) (Node x)) \<and>
     producers_ok (c_heap s) (c_queue s) (c_producers s) (set (rs @ hs @ ss @ c_kept s)) \<and>
     reader_ok (c_heap s) (c_reader s) m rs hs ss \<and>
     c_sent s = c_got s @ rev rs @ hs @ rev ss"

lemma conc_invD:
  assumes "conc_inv s m rs hs ss"
  shows "mbox_rel (c_heap s) (c_queue s) m hs ss [] []" and "m \<noteq> Closed"
    and "distinct (rs @ hs @ ss @ c_kept s)" and "\<forall>x \<in> set (c_kept s). live (c_heap s) (Node x)"
    and "producers_ok (c_heap s) (c_queue s) (c_producers s) (set (rs @ hs @ ss @ c_kept s))"
    and "reader_ok (c_heap s) (c_reader s) m rs hs ss"
    and "c_sent s = c_got s @ rev rs @ hs @ rev ss"
  using assms by (simp_all add: conc_inv_def)

lemma producers_okD:
  assumes "producers_ok h q ps X" and "i < length ps"
  shows "producer_ok h q (ps ! i)" and "made (ps ! i) = Some x \<Longrightarrow> live h (Node x)"
    and "made (ps ! i) = Some x \<Longrightarrow> x \<notin> X"
    and "made (ps ! i) = Some x \<Longrightarrow> j < length ps \<Longrightarrow> made (ps ! j) = Some x \<Longrightarrow> j = i"
  using assms unfolding producers_ok_def by blast+

text \<open>What one thread does leaves the other producers alone if it does not touch their messages.\<close>

lemma producer_ok_frame:
  assumes "producer_ok h q p" and "q_this q' = q_this q"
    and "\<And>x. made p = Some x \<Longrightarrow> nxt h' (Node x) = nxt h (Node x)"
  shows "producer_ok h' q' p"
  using assms by (cases p) (auto simp: queue_pointers)

lemma producers_frame:
  assumes ps: "producers_ok h q ps X" and q: "q_this q' = q_this q" and X: "X' \<subseteq> X"
    and h: "\<And>x. x \<notin> X \<Longrightarrow> live h (Node x) \<Longrightarrow> nxt h' (Node x) = nxt h (Node x) \<and> live h' (Node x)"
  shows "producers_ok h' q' ps X'"
  unfolding producers_ok_def
proof (intro allI impI conjI)
  fix i
  assume i: "i < length ps"
  note d = producers_okD [OF ps i]
  show "producer_ok h' q' (ps ! i)"
    using d h by (intro producer_ok_frame [OF d(1) q]) blast
  fix x
  assume x: "made (ps ! i) = Some x"
  show "live h' (Node x)" "x \<notin> X'"
    using d(2,3) [OF x] h X by blast+
  fix j
  assume "j < length ps" "made (ps ! j) = Some x"
  then show "j = i"
    by (rule d(4) [OF x])
qed

lemma producers_update:
  assumes ps: "producers_ok h q ps X" and i: "i < length ps" and q: "q_this q' = q_this q"
    and p: "producer_ok h' q' p" and m: "\<And>x. made p = Some x \<Longrightarrow> live h' (Node x) \<and> x \<notin> X' \<and>
      (\<forall>j < length ps. j \<noteq> i \<longrightarrow> made (ps ! j) \<noteq> Some x)"
    and h: "\<And>j x. j < length ps \<Longrightarrow> j \<noteq> i \<Longrightarrow> made (ps ! j) = Some x \<Longrightarrow>
      nxt h' (Node x) = nxt h (Node x) \<and> live h' (Node x) \<and> x \<notin> X'"
  shows "producers_ok h' q' (ps[i := p]) X'"
  unfolding producers_ok_def
proof (intro allI impI conjI)
  fix k
  assume k: "k < length (ps[i := p])"
  then have k': "k < length ps"
    by simp
  note d = producers_okD [OF ps k']
  show "producer_ok h' q' (ps[i := p] ! k)"
    using p h [OF k'] by (cases "k = i") (auto simp: i intro: producer_ok_frame [OF d(1) q])
  fix x
  assume x: "made (ps[i := p] ! k) = Some x"
  show "live h' (Node x)" "x \<notin> X'"
    using x m h [OF k'] i by (cases "k = i"; simp)+
  fix j
  assume j: "j < length (ps[i := p])" "made (ps[i := p] ! j) = Some x"
  have no: "False" if "made p = Some x" "l < length ps" "l \<noteq> i" "made (ps ! l) = Some x" for l
    using m [OF that(1)] that(2-) by blast
  show "j = k"
  proof (cases "k = i \<or> j = i")
    case True
    with x j no [of j] no [of k] k' i show ?thesis
      by (metis length_list_update nth_list_update_eq nth_list_update_neq)
  next
    case False
    with x j d(4) [of x j] show ?thesis
      by simp
  qed
qed

section \<open>Every step keeps the invariant\<close>

lemma mbox_frame:
  assumes "mbox_rel h s m hs ss [] []" and "agree_off {Node x} h h'" and "x \<notin> set hs \<union> set ss"
  shows "mbox_rel h' s m hs ss [] []"
  using assms by (intro mbox_agree [OF assms(1,2)]) (auto simp: mbox_foot_def plist_foot_def)

lemma reader_frame:
  assumes "reader_ok h r m rs hs ss" and "agree_off {Node x} h h'" and "x \<notin> set rs"
  shows "reader_ok h' r m rs hs ss"
  using assms(1,3) chain_agree [OF assms(2), of rs] by (cases r) auto

text \<open>The exchange that succeeds does what a whole call of \<open>enqueue\<close> does when it runs alone.\<close>

lemma exchange_is_enqueue:
  assumes inv: "conc_inv s m rs hs ss" and i: "i < length (c_producers s)"
    and x: "c_producers s ! i = P_Exchange x e" and e: "q_stack (c_queue s) = e"
  shows "enqueue (c_heap s) (c_queue s) (Node x) =
    ok (if m = Blocked then Unblocked_Reader else Success, c_heap s, (c_queue s)\<lparr>q_stack := Node x\<rparr>)"
proof -
  note I = conc_invD [OF inv]
  note d = producers_okD [OF I(5) i]
  have "live (c_heap s) (Node x)" "e \<noteq> Null"
    and "nxt (c_heap s) (Node x) = (if is_dummy (c_queue s) e then Null else e)"
    using d(1) d(2) [of x] x by auto
  then have "set_next (c_heap s) (Node x) (if is_dummy (c_queue s) e then Null else e) = ok (c_heap s)"
    by (simp add: heap_simps fun_upd_idem)
  then show ?thesis
    using e \<open>e \<noteq> Null\<close> stack_rel_mode(2) [OF mbox_relD(2) [OF I(1)]]
    by (simp add: enqueue_def reader_blocked_dummy_def)
qed

lemma producer_step:
  assumes inv: "conc_inv s m rs hs ss" and i: "i < length (c_producers s)"
  shows "\<exists>s' m' ss'. enqueue_step i s = ok s' \<and> conc_inv s' m' rs hs ss'"
proof -
  note I = conc_invD [OF inv]
  note d = producers_okD [OF I(5) i]
  show ?thesis
  proof (cases "c_producers s ! i")
    case P_Idle
    with inv show ?thesis
      by (auto simp: enqueue_step_def)
  next
    case (P_Made x)
    let ?p = "P_Loop x (q_stack (c_queue s))"
    have "q_stack (c_queue s) \<noteq> Null"
      using stack_rel_mode(1) [OF mbox_relD(2) [OF I(1)]] I(2) by simp
    then have "producers_ok (c_heap s) (c_queue s) ((c_producers s)[i := ?p]) (set (rs @ hs @ ss @ c_kept s))"
      using d(2-4) P_Made producers_okD(2,3) [OF I(5)] by (intro producers_update [OF I(5) i]) auto
    with inv P_Made show ?thesis
      by (auto simp: enqueue_step_def enqueue_load_def at_producer_def conc_inv_def)
  next
    case (P_Loop x e)
    have x: "live (c_heap s) (Node x)" "x \<notin> set (rs @ hs @ ss @ c_kept s)" "e \<noteq> Null"
      using d(1) d(2,3) [of x] P_Loop by auto
    let ?v = "if is_dummy (c_queue s) e then Null else e"
    let ?h = "(c_heap s)\<lparr>nxt := (nxt (c_heap s))(Node x := ?v)\<rparr>"
    have a: "agree_off {Node x} (c_heap s) ?h"
      by (simp add: agree_off_def)
    have "producers_ok ?h (c_queue s) ((c_producers s)[i := P_Exchange x e]) (set (rs @ hs @ ss @ c_kept s))"
      using x d(2-4) P_Loop producers_okD(2,3) [OF I(5)] by (intro producers_update [OF I(5) i]) auto
    moreover have "mbox_rel ?h (c_queue s) m hs ss [] []" "reader_ok ?h (c_reader s) m rs hs ss"
      using mbox_frame [OF I(1) a] reader_frame [OF I(6) a] x by auto
    moreover have "enqueue_step i s = ok (at_producer i (P_Exchange x e) (s\<lparr>c_heap := ?h\<rparr>))"
      using x P_Loop by (simp add: enqueue_step_def enqueue_link_def heap_simps)
    ultimately show ?thesis
      using I by (auto simp: at_producer_def conc_inv_def)
  next
    case (P_Exchange x e)
    have x: "live (c_heap s) (Node x)" "x \<notin> set (rs @ hs @ ss @ c_kept s)"
      using d(2,3) [of x] P_Exchange by auto
    show ?thesis
    proof (cases "q_stack (c_queue s) = e")
      case True
      let ?q = "(c_queue s)\<lparr>q_stack := Node x\<rparr>"
      have "mbox_rel (c_heap s) ?q Ready hs (x # ss) [] []"
        using enqueue_rel [OF I(1,2) x(1)] x(2) exchange_is_enqueue [OF inv i P_Exchange True] by auto
      moreover have "producers_ok (c_heap s) ?q ((c_producers s)[i := P_Idle]) (set (rs @ hs @ (x # ss) @ c_kept s))"
        using d(4) [of x] P_Exchange producers_okD(2,3) [OF I(5)] by (intro producers_update [OF I(5) i]) auto
      moreover have "reader_ok (c_heap s) (c_reader s) Ready rs hs (x # ss)"
        using I(6) by (cases "c_reader s") auto
      ultimately have "conc_inv (at_producer i P_Idle (s\<lparr>c_queue := ?q, c_sent := c_sent s @ [x]\<rparr>)) Ready rs hs (x # ss)"
        using I(3,4,7) x(2) by (auto simp: at_producer_def conc_inv_def)
      with P_Exchange True show ?thesis
        by (auto simp: enqueue_step_def enqueue_exchange_def)
    next
      case False
      let ?p = "P_Loop x (q_stack (c_queue s))"
      have "q_stack (c_queue s) \<noteq> Null"
        using stack_rel_mode(1) [OF mbox_relD(2) [OF I(1)]] I(2) by simp
      then have "producers_ok (c_heap s) (c_queue s) ((c_producers s)[i := ?p]) (set (rs @ hs @ ss @ c_kept s))"
        using x d(4) P_Exchange producers_okD(2,3) [OF I(5)] by (intro producers_update [OF I(5) i]) auto
      with inv P_Exchange False show ?thesis
        by (auto simp: enqueue_step_def enqueue_exchange_def at_producer_def conc_inv_def)
    qed
  qed
qed

lemma fetched_stack:
  assumes "mbox_rel h q m hs ss [] []" and "ss \<noteq> []"
  shows "m = Ready" and "chain h (q_stack q) ss" and "q_stack q = Node (hd ss)"
  using stack_rel_mode(4) [OF mbox_relD(2) [OF assms(1)] assms(2)] assms(2) by (cases ss; simp)+

lemma reader_step_ok:
  assumes inv: "conc_inv s m rs hs ss" and idle: "c_reader s \<noteq> R_Idle \<or> m \<noteq> Blocked"
  shows "\<exists>s' m' rs' hs' ss'. reader_step spurious s = ok s' \<and> conc_inv s' m' rs' hs' ss'"
proof -
  note I = conc_invD [OF inv]
  note st = stack_rel_mode [OF mbox_relD(2) [OF I(1)]]
  have take: "\<exists>s' m' rs' hs' ss'. take_step s = ok s' \<and> conc_inv s' m' rs' hs' ss'" if rn: "rs = []" "hs \<noteq> []"
  proof -
    obtain x xs where hs: "hs = x # xs"
      using rn(2) by (cases hs) auto
    note h = pop_head [OF I(1) [unfolded hs]]
    let ?s = "s\<lparr>c_queue := (c_queue s)\<lparr>q_head := nxt (c_heap s) (Node x)\<rparr>, c_reader := R_Idle,
      c_kept := x # c_kept s, c_got := c_got s @ [x]\<rparr>"
    have "producers_ok (c_heap s) (c_queue ?s) (c_producers s) (set (xs @ ss @ x # c_kept s))"
      by (rule producers_frame [OF I(5)]) (auto simp: rn hs)
    then have "conc_inv ?s m [] xs ss"
      using I h rn hs by (auto simp: conc_inv_def)
    then show ?thesis
      using h by (auto simp: take_step_def heap_simps)
  qed
  show ?thesis
  proof (cases "c_reader s")
    case R_Idle
    show ?thesis
    proof (cases "hs = []")
      case True
      then have "conc_inv (s\<lparr>c_reader := R_Load\<rparr>) m [] [] ss"
        using I R_Idle idle by (cases m) (auto simp: conc_inv_def)
      with R_Idle True mbox_relD(5) [OF I(1)] show ?thesis
        by (auto simp: reader_step_def)
    next
      case False
      with R_Idle take I(6) mbox_relD(5) [OF I(1)] show ?thesis
        by (simp add: reader_step_def)
    qed
  next
    case R_Load
    with I(6) have r: "rs = []" "hs = []" "m = Ready"
      by auto
    let ?s = "s\<lparr>c_reader := if q_stack (c_queue s) \<noteq> stack_empty_dummy (c_queue s) then R_Exchange (q_stack (c_queue s)) else R_Idle\<rparr>"
    have "ss = []" if "q_stack (c_queue s) = stack_empty_dummy (c_queue s)"
      using st(3) that by (simp add: queue_pointers)
    moreover have "ss \<noteq> [] \<and> (\<exists>x. q_stack (c_queue s) = Node x)" if "q_stack (c_queue s) \<noteq> stack_empty_dummy (c_queue s)"
      using st(3) that r fetched_stack(3) [OF I(1)] by (auto simp: queue_pointers)
    ultimately have "conc_inv ?s m [] [] ss"
      using I r by (auto simp: conc_inv_def)
    moreover have "reader_step spurious s = ok ?s"
      using R_Load st r by (simp add: reader_step_def fetch_load_def queue_pointers Let_def)
    ultimately show ?thesis
      by blast
  next
    case (R_Exchange e)
    with I(6) have r: "rs = []" "hs = []" "ss \<noteq> []" "\<exists>x. e = Node x"
      by auto
    note f = fetched_stack [OF I(1) r(3)]
    show ?thesis
    proof (cases "q_stack (c_queue s) = e \<and> \<not> spurious")
      case True
      let ?s = "s\<lparr>c_queue := (c_queue s)\<lparr>q_stack := stack_empty_dummy (c_queue s)\<rparr>, c_reader := R_Reverse e\<rparr>"
      have "mbox_rel (c_heap s) (c_queue ?s) Ready [] [] [] []"
        using I(1) r by (auto simp: mbox_rel_def stack_rel_def queue_pointers)
      moreover have "producers_ok (c_heap s) (c_queue ?s) (c_producers s) (set (ss @ c_kept s))"
        by (rule producers_frame [OF I(5)]) (auto simp: r)
      ultimately have "conc_inv ?s Ready ss [] []"
        using I r f True by (auto simp: conc_inv_def)
      moreover have "reader_step spurious s = ok ?s"
        using R_Exchange True r(4) by (auto simp: reader_step_def fetch_exchange_def queue_pointers Let_def)
      ultimately show ?thesis
        by blast
    next
      case False
      let ?s = "s\<lparr>c_reader := R_Exchange (q_stack (c_queue s))\<rparr>"
      have "conc_inv ?s m [] [] ss"
        using I r f by (auto simp: conc_inv_def)
      moreover have "reader_step spurious s = ok ?s"
        using R_Exchange False f by (auto simp: reader_step_def fetch_exchange_def queue_pointers Let_def)
      ultimately show ?thesis
        by blast
    qed
  next
    case (R_Reverse e)
    with I(6) have r: "chain (c_heap s) e rs" "rs @ hs \<noteq> []" "m = Ready"
      by auto
    show ?thesis
    proof (cases rs)
      case Nil
      then have "conc_inv (s\<lparr>c_reader := R_Take\<rparr>) m [] hs ss"
        using I r by (auto simp: conc_inv_def)
      with R_Reverse Nil r show ?thesis
        by (auto simp: reader_step_def fetch_reverse_def)
    next
      case (Cons x xs)
      then have e: "e = Node x" "live (c_heap s) (Node x)" "chain (c_heap s) (nxt (c_heap s) (Node x)) xs"
        using r by auto
      let ?h = "(c_heap s)\<lparr>nxt := (nxt (c_heap s))(Node x := q_head (c_queue s))\<rparr>"
      let ?s = "s\<lparr>c_heap := ?h, c_queue := (c_queue s)\<lparr>q_head := Node x\<rparr>, c_reader := R_Reverse (nxt (c_heap s) (Node x))\<rparr>"
      have a: "agree_off {Node x} (c_heap s) ?h"
        by (simp add: agree_off_def)
      have new: "x \<notin> set xs" "x \<notin> set hs" "x \<notin> set ss" "x \<notin> set (c_kept s)"
        using I(3) Cons by auto
      have "mbox_rel ?h (c_queue s) m hs ss [] []"
        using new by (intro mbox_frame [OF I(1) a]) auto
      then have "mbox_rel ?h (c_queue ?s) m (x # hs) ss [] []"
        using e(2) new by (auto simp: mbox_rel_def stack_rel_def split: qmode.splits if_splits)
      moreover have "chain ?h (nxt (c_heap s) (Node x)) xs"
        using e(3) chain_agree [OF a, of xs] new by auto
      moreover have "producers_ok ?h (c_queue ?s) (c_producers s) (set (xs @ (x # hs) @ ss @ c_kept s))"
        by (rule producers_frame [OF I(5)]) (auto simp: Cons)
      ultimately have "conc_inv ?s m xs (x # hs) ss"
        using I r Cons by (auto simp: conc_inv_def)
      moreover have "reader_step spurious s = ok ?s"
        using R_Reverse e by (simp add: reader_step_def fetch_reverse_def queue_pointers heap_simps)
      ultimately show ?thesis
        by blast
    qed
  next
    case R_Take
    with I(6) take show ?thesis
      by (simp add: reader_step_def)
  qed
qed

lemma conc_live:
  assumes "conc_inv s m rs hs ss" and "x \<in> set (rs @ hs @ ss @ c_kept s)"
  shows "live (c_heap s) (Node x)"
proof -
  note I = conc_invD [OF assms(1)]
  have "live (c_heap s) (Node x)" if "x \<in> set rs"
    using I(6) that chain_live by (cases "c_reader s") auto
  then show ?thesis
    using assms(2) mbox_live [OF I(1)] I(4) by auto
qed

lemma make_ok:
  assumes inv: "conc_inv s m rs hs ss" and i: "i < length (c_producers s)" and "c_producers s ! i = P_Idle"
    and x: "\<not> live (c_heap s) (Node x)"
  shows "conc_inv (at_producer i (P_Made x) (s\<lparr>c_heap := new_node (c_heap s) x v\<rparr>)) m rs hs ss"
proof -
  note I = conc_invD [OF inv]
  let ?h = "new_node (c_heap s) x v"
  have a: "agree_off {Node x} (c_heap s) ?h"
    by (simp add: agree_off_def new_node_def)
  have new: "x \<notin> set (rs @ hs @ ss @ c_kept s)"
    using conc_live [OF inv] x by blast
  have other: "y \<noteq> x" if "j < length (c_producers s)" "made (c_producers s ! j) = Some y" for j y
    using producers_okD(2) [OF I(5) that] x by blast
  then have "producers_ok ?h (c_queue s) ((c_producers s)[i := P_Made x]) (set (rs @ hs @ ss @ c_kept s))"
    using new producers_okD(2,3) [OF I(5)]
    by (intro producers_update [OF I(5) i]) (auto simp: new_node_def live_def)
  moreover have "mbox_rel ?h (c_queue s) m hs ss [] []" "reader_ok ?h (c_reader s) m rs hs ss"
    using mbox_frame [OF I(1) a] reader_frame [OF I(6) a] new by auto
  ultimately show ?thesis
    using I by (auto simp: at_producer_def conc_inv_def)
qed

lemma drop_ok:
  assumes inv: "conc_inv s m rs hs ss" and x: "x \<in> set (c_kept s)"
  shows "conc_inv (s\<lparr>c_heap := (c_heap s)\<lparr>cell := (cell (c_heap s))(Node x := None)\<rparr>, c_kept := remove1 x (c_kept s)\<rparr>)
    m rs hs ss"
proof -
  note I = conc_invD [OF inv]
  let ?h = "(c_heap s)\<lparr>cell := (cell (c_heap s))(Node x := None)\<rparr>"
  have a: "agree_off {Node x} (c_heap s) ?h"
    by (simp add: agree_off_def)
  have new: "x \<notin> set rs" "x \<notin> set hs" "x \<notin> set ss" "distinct (c_kept s)"
    using I(3) x by auto
  have "producers_ok ?h (c_queue s) (c_producers s) (set (rs @ hs @ ss @ remove1 x (c_kept s)))"
    using x new by (intro producers_frame [OF I(5)]) auto
  moreover have "mbox_rel ?h (c_queue s) m hs ss [] []" "reader_ok ?h (c_reader s) m rs hs ss"
    using mbox_frame [OF I(1) a] reader_frame [OF I(6) a] new by auto
  ultimately show ?thesis
    using I new by (auto simp: conc_inv_def)
qed

lemma advance_ok:
  assumes inv: "conc_inv s m rs hs ss"
  shows "\<exists>s' m' rs' hs' ss'. advance a s = ok s' \<and> conc_inv s' m' rs' hs' ss'"
proof -
  note I = conc_invD [OF inv]
  have same: ?thesis if "advance a s = ok s"
    using that inv by blast
  have flags: "\<exists>m'. conc_inv (s\<lparr>c_queue := q'\<rparr>) m' rs hs ss"
    if "mbox_rel (c_heap s) q' m' hs ss [] []" "q_this q' = q_this (c_queue s)" "m' \<noteq> Closed" "c_reader s = R_Idle" for q' m'
    using I that producers_frame [OF I(5), of q' _ "c_heap s"] by (auto simp: conc_inv_def)
  show ?thesis
  proof (cases a)
    case (Make i x v)
    with same make_ok [OF inv, of i x v] show ?thesis
      by (cases "i < length (c_producers s) \<and> c_producers s ! i = P_Idle \<and> \<not> live (c_heap s) (Node x)") auto
  next
    case (Producer i)
    with same producer_step [OF inv, of i] show ?thesis
      by (cases "i < length (c_producers s)") (auto; blast)+
  next
    case (Reader spurious)
    with same reader_step_ok [OF inv, of spurious] mbox_mode(2) [OF I(1)] show ?thesis
      by (cases "c_reader s = R_Idle \<and> blocked (c_queue s)") auto
  next
    case Try_Block
    have "\<exists>m'. conc_inv (s\<lparr>c_queue := snd (try_block (c_queue s))\<rparr>) m' rs hs ss" if "c_reader s = R_Idle"
      by (rule flags [OF try_block_rel(2,3) [OF I(1)] _ that]) (simp add: I(2))
    with same Try_Block show ?thesis
      by (cases "c_reader s = R_Idle") (simp; blast)+
  next
    case Try_Unblock
    have "\<exists>m'. conc_inv (s\<lparr>c_queue := snd (try_unblock (c_queue s))\<rparr>) m' rs hs ss" if "c_reader s = R_Idle"
      by (rule flags [OF try_unblock_rel(2,3) [OF I(1)] _ that]) (simp add: I(2))
    with same Try_Unblock show ?thesis
      by (cases "c_reader s = R_Idle") (simp; blast)+
  next
    case (Drop x)
    with same drop_ok [OF inv, of x] conc_live [OF inv, of x] show ?thesis
      by (cases "x \<in> set (c_kept s)") (auto simp: heap_simps)
  qed
qed

lemma conc_inv_init: "conc_inv (conc_init q d n) Ready [] [] []"
  using mbox_rel_init [of q d empty_heap] by (simp add: conc_inv_def conc_init_def producers_ok_def)

lemma run_schedule_ok:
  assumes "conc_inv s m rs hs ss"
  shows "\<exists>s' m' rs' hs' ss'. run_schedule as s = ok s' \<and> conc_inv s' m' rs' hs' ss'"
  using assms
proof (induction as arbitrary: s m rs hs ss)
  case (Cons a as)
  obtain s' m' rs' hs' ss' where "advance a s = ok s'" "conc_inv s' m' rs' hs' ss'"
    using advance_ok [OF Cons.prems] by blast
  with Cons.IH [of s'] show ?case
    by auto
qed auto

section \<open>Property\<close>

text \<open>
  C1. The mailbox is linearizable: whatever the interleaving of any number of producers with the reader
  and whatever addresses are reused, no assertion fails and no deleted message is touched; the messages
  come out once each, in the order in which the producers' exchanges succeeded, what is between the
  two being the pending messages of the mailbox; and an exchange that succeeds changes heap and queue
  exactly as a call of \<open>enqueue\<close> that runs alone at that moment, the last case of the loop included.
\<close>

theorem mailbox_linearizable:
  "\<exists>s p. run_schedule as (conc_init q d n) = ok s \<and> c_sent s = c_got s @ p \<and>
     (c_reader s = R_Idle \<longrightarrow> (\<exists>m. mailbox (c_heap s) (c_queue s) m p [] [])) \<and>
     (\<forall>i x e. i < length (c_producers s) \<and> c_producers s ! i = P_Exchange x e \<and> q_stack (c_queue s) = e \<longrightarrow>
        (\<exists>r s'. enqueue_step i s = ok s' \<and> c_sent s' = c_sent s @ [x] \<and>
           enqueue (c_heap s) (c_queue s) (Node x) = ok (r, c_heap s', c_queue s')))"
proof -
  obtain s m rs hs ss where s: "run_schedule as (conc_init q d n) = ok s" "conc_inv s m rs hs ss"
    using run_schedule_ok [OF conc_inv_init, of as q d n] by blast
  note I = conc_invD [OF s(2)]
  have "mailbox (c_heap s) (c_queue s) m (rev rs @ hs @ rev ss) [] []" if "c_reader s = R_Idle"
    using I(1,6) that by (auto intro: mailboxI)
  moreover have "\<exists>r s'. enqueue_step i s = ok s' \<and> c_sent s' = c_sent s @ [x] \<and>
      enqueue (c_heap s) (c_queue s) (Node x) = ok (r, c_heap s', c_queue s')"
    if "i < length (c_producers s)" "c_producers s ! i = P_Exchange x e" "q_stack (c_queue s) = e" for i x e
    using exchange_is_enqueue [OF s(2) that] that
    by (simp add: enqueue_step_def enqueue_exchange_def at_producer_def)
  ultimately show ?thesis
    using s(1) I(7) by (intro exI [of _ s] exI [of _ "rev rs @ hs @ rev ss"]) blast
qed

text \<open>
  Two producers load the same value; the second overtakes the first, whose exchange then fails once;
  the reader's first exchange fails spuriously; it gets the message of the second.
\<close>

definition demo_schedule :: "char action list" where
  "demo_schedule =
     [Make 0 1 CHR ''a'', Make 1 2 CHR ''b'', Producer 0, Producer 1, Producer 0, Producer 1, Producer 1,
      Producer 0, Producer 0, Producer 0, Reader False, Reader False, Reader True, Reader False,
      Reader False, Reader False, Reader False, Reader False]"

lemma mailbox_linearizable_witness:
  "\<exists>s m. run_schedule demo_schedule (conc_init 9 CHR ''z'' 2) = ok s \<and> c_sent s = [2, 1] \<and> c_got s = [2] \<and>
     c_reader s = R_Idle \<and> mailbox (c_heap s) (c_queue s) m [1] [] []"
proof -
  obtain s p where s: "run_schedule demo_schedule (conc_init 9 CHR ''z'' 2) = ok s" "c_sent s = c_got s @ p"
      "c_reader s = R_Idle \<longrightarrow> (\<exists>m. mailbox (c_heap s) (c_queue s) m p [] [])"
    using mailbox_linearizable [of demo_schedule 9 "CHR ''z''" 2] by blast
  moreover have "c_sent s = [2, 1] \<and> c_got s = [2] \<and> c_reader s = R_Idle"
    using s(1)
    by (simp add: demo_schedule_def conc_init_def pl_ctor_def empty_heap_def srq_ctor_def enqueue_step_def reader_step_def
        enqueue_load_def enqueue_link_def enqueue_exchange_def at_producer_def take_step_def fetch_load_def fetch_exchange_def
        fetch_reverse_def queue_pointers new_node_def live_def set_next_def get_next_def Let_def
        eval_nat_numeral)
      auto
  ultimately show ?thesis
    by auto
qed

end
