(* ===== verification/Coop_Actor_Conc.thy ===== *)
theory Coop_Actor_Conc
  imports Coop_Actor "HOL-Library.Multiset"
begin

text \<open>
  Scheduling of one actor by several threads: senders inside \<open>enqueue_base\<close>, workers inside \<open>run\<close> and
  in the release that follows it (\<open>impl/actor/cooperative_actor.ipp\<close>). A step of a thread is one
  atomic operation, on \<open>flags_\<close>, on the counter or on the mailbox, whose operations are single steps by
  the linearizability proved in \<open>Reader_Queue_Conc\<close>. Priorities play no part, since
  \<open>is_high_priority\<close> is false for every message.
\<close>

section \<open>State\<close>

text \<open>
  Where a sender is: outside \<open>enqueue_base\<close>, before the test of \<open>flags_\<close>, before the three steps of
  \<open>intrusive_ptr_add_ref_impl\<close>, before \<open>execute(this)\<close>.
\<close>

datatype sender = S_Idle | S_Flags | S_Busy | S_Block | S_Ref | S_Execute

text \<open>
  Where a worker is: without a job of this actor, at the head of the first or second loop of \<open>run\<close>,
  inside \<open>next_message\<close>, before \<open>try_block\<close>, at the two tests before the last return, in the four steps
  of \<open>intrusive_ptr_release_impl\<close>, of which the last two are those of \<open>deref\<close>, \<open>unique()\<close> and
  \<open>fetch_sub\<close>. The flag tells the first loop, the number is \<open>handled_msgs\<close>.
\<close>

datatype stage =
    K_Idle
  | K_Loop bool nat
  | K_Next bool nat
  | K_Try bool nat
  | K_Last
  | K_Last_Try
  | K_Flags
  | K_Unblock
  | K_Deref
  | K_Sub

text \<open>
  \<open>k_stack\<close> holds the messages enqueued, oldest first, and \<open>k_blocked\<close> the dummy when there are none;
  \<open>k_head\<close> is the reader's list and \<open>k_cache\<close> the first partition of the cache (nothing gets into the
  second one). \<open>k_jobs\<close> counts the actor's occurrences in the queue of the executor. The last three
  fields record what was sent, what was handled and what was deleted without being handled.
\<close>

record sched =
  k_blocked :: bool
  k_stack :: "nat list"
  k_head :: "nat list"
  k_cache :: "nat list"
  k_flags :: run_state
  k_rc :: nat
  k_alive :: bool
  k_jobs :: nat
  k_senders :: "sender list"
  k_workers :: "stage list"
  k_sent :: "nat list"
  k_handled :: "nat list"
  k_lost :: "nat list"

section \<open>The code\<close>

definition stack_block :: "sched \<Rightarrow> bool \<times> sched" where
  "stack_block s = (if \<not> k_blocked s \<and> k_stack s = [] then (True, s\<lparr>k_blocked := True\<rparr>) else (False, s))"

definition stack_unblock :: "sched \<Rightarrow> sched" where
  "stack_unblock s = s\<lparr>k_blocked := False\<rparr>"

definition stack_push :: "nat \<Rightarrow> sched \<Rightarrow> sched" where
  "stack_push x s = s\<lparr>k_blocked := False, k_stack := k_stack s @ [x], k_sent := k_sent s @ [x]\<rparr>"

definition reader_pop :: "sched \<Rightarrow> (nat option \<times> sched) eff" where
  "reader_pop s =
     (case k_head s of
        x # xs \<Rightarrow> ok (Some x, s\<lparr>k_head := xs\<rparr>)
      | [] \<Rightarrow> and_then (assert_that (\<not> k_blocked s)) (\<lambda>_.
              case k_stack s of
                x # xs \<Rightarrow> ok (Some x, s\<lparr>k_head := xs, k_stack := []\<rparr>)
              | [] \<Rightarrow> ok (None, s)))"

definition at_sender :: "nat \<Rightarrow> sender \<Rightarrow> sched \<Rightarrow> sched" where
  "at_sender i p s = s\<lparr>k_senders := (k_senders s)[i := p]\<rparr>"

definition at_worker :: "nat \<Rightarrow> stage \<Rightarrow> sched \<Rightarrow> sched" where
  "at_worker w p s = s\<lparr>k_workers := (k_workers s)[w := p]\<rparr>"

text \<open>\<open>enqueue_base\<close>, called with the message \<open>x\<close>.\<close>

definition sender_step :: "nat \<Rightarrow> nat \<Rightarrow> sched \<Rightarrow> sched" where
  "sender_step i x s =
     (case k_senders s ! i of
        S_Idle \<Rightarrow> at_sender i S_Flags (stack_push x s)
      | S_Flags \<Rightarrow> at_sender i (if k_flags s = St_Empty then S_Busy else S_Idle) s
      | S_Busy \<Rightarrow> at_sender i S_Block (s\<lparr>k_flags := St_Busy\<rparr>)
      | S_Block \<Rightarrow> at_sender i S_Ref (snd (stack_block s))
      | S_Ref \<Rightarrow> at_sender i S_Execute (s\<lparr>k_rc := k_rc s + 1\<rparr>)
      | S_Execute \<Rightarrow> at_sender i S_Idle (s\<lparr>k_jobs := k_jobs s + 1\<rparr>))"

text \<open>
  \<open>run\<close> and the release after it. The members that only the reader may touch are raced for when a
  second worker enters \<open>run\<close>. In the first loop the message taken is deleted and
  \<open>consume_from_cache\<close>, which looks at the second partition, handles nothing.
\<close>

definition reading :: "stage \<Rightarrow> bool" where
  "reading p \<longleftrightarrow> p \<notin> {K_Idle, K_Flags, K_Unblock, K_Deref, K_Sub}"

definition got_next :: "nat \<Rightarrow> bool \<Rightarrow> nat \<Rightarrow> nat option \<Rightarrow> sched \<Rightarrow> sched" where
  "got_next w cached n x s =
     (case x of
        Some x \<Rightarrow> s\<lparr>k_cache := k_cache s @ [x]\<rparr>
      | None \<Rightarrow>
          (case k_cache s of
             [] \<Rightarrow> at_worker w (K_Try cached n) s
           | x # xs \<Rightarrow>
               let s = (if cached then s\<lparr>k_lost := k_lost s @ [x]\<rparr> else s\<lparr>k_handled := k_handled s @ [x]\<rparr>) in
               at_worker w (K_Loop cached (Suc n)) (s\<lparr>k_cache := xs\<rparr>)))"

definition worker_step :: "nat \<Rightarrow> nat \<Rightarrow> sched \<Rightarrow> sched eff" where
  "worker_step mx w s =
     (case k_workers s ! w of
        K_Idle \<Rightarrow>
          if k_jobs s = 0 then ok s
          else if \<exists>p \<in> set (k_workers s). reading p then fail Data_Race
          else ok (at_worker w (K_Loop True 0) (s\<lparr>k_jobs := k_jobs s - 1\<rparr>))
      | K_Loop cached n \<Rightarrow>
          if n < mx \<and> (cached \<longrightarrow> k_cache s \<noteq> []) then ok (at_worker w (K_Next cached n) s)
          else if cached then ok (at_worker w (K_Loop False n) s)
          else if n = 0 then fail Assert_Failed
          else ok (at_worker w K_Last s)
      | K_Next cached n \<Rightarrow>
          and_then (reader_pop s) (\<lambda>(x, s). ok (got_next w cached n x s))
      | K_Try cached n \<Rightarrow>
          (case stack_block s of (b, s) \<Rightarrow> ok (at_worker w (if b then K_Flags else K_Next cached n) s))
      | K_Last \<Rightarrow>
          ok (at_worker w (if k_cache s \<noteq> [] \<or> k_head s \<noteq> [] \<or> k_stack s \<noteq> [] then K_Flags else K_Last_Try) s)
      | K_Last_Try \<Rightarrow> ok (at_worker w K_Flags (snd (stack_block s)))
      | K_Flags \<Rightarrow> ok (at_worker w K_Unblock (s\<lparr>k_flags := St_Empty\<rparr>))
      | K_Unblock \<Rightarrow> ok (at_worker w K_Deref (stack_unblock s))
      | K_Deref \<Rightarrow>
          ok (if k_rc s = 1 then at_worker w K_Idle (s\<lparr>k_alive := False\<rparr>) else at_worker w K_Sub s)
      | K_Sub \<Rightarrow>
          ok (at_worker w K_Idle (if k_rc s = 1 then s\<lparr>k_rc := 0, k_alive := False\<rparr> else s\<lparr>k_rc := k_rc s - 1\<rparr>)))"

section \<open>Schedules\<close>

datatype turn = Sender nat nat | Worker nat

fun take_turn :: "nat \<Rightarrow> turn \<Rightarrow> sched \<Rightarrow> sched eff" where
  "take_turn mx (Sender i x) s = (if i < length (k_senders s) then ok (sender_step i x s) else ok s)"
| "take_turn mx (Worker w) s = (if w < length (k_workers s) then worker_step mx w s else ok s)"

primrec take_turns :: "nat \<Rightarrow> turn list \<Rightarrow> sched \<Rightarrow> sched eff" where
  "take_turns mx [] s = ok s"
| "take_turns mx (t # ts) s = and_then (take_turn mx t s) (\<lambda>s. take_turns mx ts s)"

text \<open>An actor just constructed, its one reference with the supervisor.\<close>

definition sched_init :: "nat \<Rightarrow> nat \<Rightarrow> sched" where
  "sched_init senders workers =
     \<lparr>k_blocked = False, k_stack = [], k_head = [], k_cache = [], k_flags = St_Empty, k_rc = 1, k_alive = True,
      k_jobs = 0, k_senders = replicate senders S_Idle, k_workers = replicate workers K_Idle,
      k_sent = [], k_handled = [], k_lost = []\<rparr>"

definition quiet :: "sched \<Rightarrow> bool" where
  "quiet s \<longleftrightarrow> k_jobs s = 0 \<and> set (k_senders s) \<subseteq> {S_Idle} \<and> set (k_workers s) \<subseteq> {K_Idle}"

section \<open>Invariant\<close>

text \<open>References: one per sender about to schedule, one per job, one per worker with a job.\<close>

definition sender_ref :: "sender \<Rightarrow> nat" where
  "sender_ref p = (if p = S_Execute then 1 else 0)"

definition worker_ref :: "stage \<Rightarrow> nat" where
  "worker_ref p = (if p = K_Idle then 0 else 1)"

definition borrowed :: "sched \<Rightarrow> nat" where
  "borrowed s = k_jobs s + sum_list (map sender_ref (k_senders s)) + sum_list (map worker_ref (k_workers s))"

text \<open>Who will set \<open>flags_\<close> back, who will unblock the mailbox, who empties \<open>head_\<close>.\<close>

definition sender_clears :: "sender \<Rightarrow> bool" where
  "sender_clears p \<longleftrightarrow> p \<in> {S_Block, S_Ref, S_Execute}"

definition worker_clears :: "stage \<Rightarrow> bool" where
  "worker_clears p \<longleftrightarrow> p \<notin> {K_Idle, K_Unblock, K_Deref, K_Sub}"

definition sender_unblocks :: "sender \<Rightarrow> bool" where
  "sender_unblocks p \<longleftrightarrow> p \<in> {S_Ref, S_Execute}"

definition worker_unblocks :: "stage \<Rightarrow> bool" where
  "worker_unblocks p \<longleftrightarrow> p \<notin> {K_Idle, K_Deref, K_Sub}"

fun popping :: "stage \<Rightarrow> bool" where
  "popping (K_Next _ _) \<longleftrightarrow> True"
| "popping _ \<longleftrightarrow> False"

definition refs_ok :: "sched \<Rightarrow> bool" where
  "refs_ok s \<longleftrightarrow> k_rc s = 1 + borrowed s \<and> k_alive s"

text \<open>
  The messages that are gone are those handled and those lost, each in the order they were sent; the others
  follow them in that order.
\<close>

definition messages_ok :: "sched \<Rightarrow> bool" where
  "messages_ok s \<longleftrightarrow>
     (\<exists>gone \<in> shuffles (k_handled s) (k_lost s). k_sent s = gone @ k_cache s @ k_head s @ k_stack s)"

definition flags_ok :: "sched \<Rightarrow> bool" where
  "flags_ok s \<longleftrightarrow> k_flags s = St_Empty \<or>
     0 < k_jobs s \<or> list_ex sender_clears (k_senders s) \<or> list_ex worker_clears (k_workers s)"

definition block_ok :: "sched \<Rightarrow> bool" where
  "block_ok s \<longleftrightarrow> \<not> k_blocked s \<or>
     0 < k_jobs s \<or> list_ex sender_unblocks (k_senders s) \<or> list_ex worker_unblocks (k_workers s)"

definition head_ok :: "sched \<Rightarrow> bool" where
  "head_ok s \<longleftrightarrow> (k_blocked s \<longrightarrow> k_stack s = []) \<and> (k_head s = [] \<or> list_ex popping (k_workers s))"

definition sched_inv :: "sched \<Rightarrow> bool" where
  "sched_inv s \<longleftrightarrow> refs_ok s \<and> messages_ok s \<and> flags_ok s \<and> block_ok s \<and> head_ok s"

lemma snoc_in_shuffles:
  assumes "zs \<in> shuffles xs ys"
  shows "zs @ [z] \<in> shuffles (xs @ [z]) ys" and "zs @ [z] \<in> shuffles xs (ys @ [z])"
  using assms
  by (induction zs arbitrary: xs ys) (auto simp: Cons_in_shuffles_iff Cons_in_shuffles_leftI Cons_in_shuffles_rightI)

lemma messages_okI: "g \<in> shuffles (k_handled s) (k_lost s) \<Longrightarrow> k_sent s = g @ k_cache s @ k_head s @ k_stack s \<Longrightarrow> messages_ok s"
  by (auto simp: messages_ok_def)

lemma messages_okE:
  assumes "messages_ok s"
  obtains g where "g \<in> shuffles (k_handled s) (k_lost s)" and "k_sent s = g @ k_cache s @ k_head s @ k_stack s"
  using assms by (auto simp: messages_ok_def)

text \<open>Where the messages are decides \<open>messages_ok\<close>.\<close>

lemma messages_ok_cong:
  "k_sent s' = k_sent s \<Longrightarrow> k_cache s' @ k_head s' @ k_stack s' = k_cache s @ k_head s @ k_stack s \<Longrightarrow>
     k_handled s' = k_handled s \<Longrightarrow> k_lost s' = k_lost s \<Longrightarrow> messages_ok s \<Longrightarrow> messages_ok s'"
  by (simp add: messages_ok_def)

lemmas sched_defs = sender_ref_def worker_ref_def sender_clears_def worker_clears_def sender_unblocks_def
  worker_unblocks_def stack_block_def stack_unblock_def stack_push_def at_sender_def at_worker_def borrowed_def

lemma sender_step_ok:
  assumes inv: "sched_inv s" and i: "i < length (k_senders s)"
  shows "sched_inv (sender_step i x s)"
proof -
  obtain us p vs where t: "k_senders s = us @ p # vs" "i = length us"
    using split_at_thread [OF i] by metis
  note d = sender_step_def sched_defs t
  have I: "refs_ok s" "messages_ok s" "flags_ok s" "block_ok s" "head_ok s"
    using inv by (simp_all add: sched_inv_def)
  have "refs_ok (sender_step i x s)"
    using I(1) by (cases p) (simp_all add: refs_ok_def d)
  moreover have "messages_ok (sender_step i x s)"
    using I(2) by (cases p) (auto simp: messages_ok_def d)
  moreover have "flags_ok (sender_step i x s)"
    using I(3) by (cases p) (auto simp: flags_ok_def d)
  moreover have "block_ok (sender_step i x s)"
    using I(4) by (cases p) (auto simp: block_ok_def d)
  moreover have "head_ok (sender_step i x s)"
    using I(5) by (cases p) (auto simp: head_ok_def d)
  ultimately show ?thesis
    by (simp add: sched_inv_def)
qed

lemma reader_pop_cases:
  assumes "reader_pop s = ok (x, s')"
  obtains y ys where "k_head s = y # ys" and "x = Some y" and "s' = s\<lparr>k_head := ys\<rparr>"
    | y ys where "k_head s = []" and "k_stack s = y # ys" and "x = Some y" and "s' = s\<lparr>k_head := ys, k_stack := []\<rparr>"
    | "k_head s = []" and "k_stack s = []" and "x = None" and "s' = s"
  using assms by (cases "k_head s"; cases "k_stack s") (auto simp: reader_pop_def and_then_ok_iff)

lemma worker_next_ok:
  assumes inv: "sched_inv s" and w: "w < length (k_workers s)" and p: "k_workers s ! w = K_Next cached n"
    and x: "reader_pop s = ok (x, s')"
  shows "sched_inv (got_next w cached n x s')"
proof -
  obtain us p vs where t: "k_workers s = us @ p # vs" "w = length us"
    using split_at_thread [OF w] by metis
  with p have p: "p = K_Next cached n"
    by simp
  note d = sched_defs t p got_next_def
  have I: "refs_ok s" "messages_ok s" "flags_ok s" "block_ok s" "head_ok s"
    using inv by (simp_all add: sched_inv_def)
  show ?thesis
    using x
  proof (cases rule: reader_pop_cases)
    case (1 y ys)
    with I show ?thesis
      by (simp add: sched_inv_def refs_ok_def messages_ok_def flags_ok_def block_ok_def head_ok_def d)
  next
    case (2 y ys)
    with I show ?thesis
      by (simp add: sched_inv_def refs_ok_def messages_ok_def flags_ok_def block_ok_def head_ok_def d)
  next
    case 3
    obtain g where g: "g \<in> shuffles (k_handled s) (k_lost s)" "k_sent s = g @ k_cache s @ k_head s @ k_stack s"
      using I(2) by (rule messages_okE)
    have "messages_ok (got_next w cached n x s')"
    proof (cases "k_cache s")
      case Nil
      with 3 I(2) show ?thesis
        by (simp add: d messages_ok_def)
    next
      case (Cons y ys)
      with 3 g snoc_in_shuffles [OF g(1), of y] show ?thesis
        by (intro messages_okI [where g = "g @ [y]"]) (simp_all add: d)
    qed
    with 3 I(1,3-) show ?thesis
      by (cases "k_cache s") (simp_all add: sched_inv_def refs_ok_def flags_ok_def block_ok_def head_ok_def d)
  qed
qed

lemma worker_step_ok:
  assumes inv: "sched_inv s" and w: "w < length (k_workers s)" and st: "worker_step mx w s = ok s'"
  shows "sched_inv s'"
proof (cases "\<exists>cached n. k_workers s ! w = K_Next cached n")
  case True
  with st worker_next_ok [OF inv w] show ?thesis
    by (auto simp: worker_step_def and_then_ok_iff)
next
  case False
  obtain us p vs where t: "k_workers s = us @ p # vs" "w = length us"
    using split_at_thread [OF w] by metis
  note d = sched_defs t
  note st' = st [unfolded worker_step_def]
  have I: "refs_ok s" "messages_ok s" "flags_ok s" "block_ok s" "head_ok s"
    using inv by (simp_all add: sched_inv_def)
  show ?thesis
  proof (cases "p = K_Idle \<and> k_jobs s = 0")
    case True
    with st' inv show ?thesis
      by (simp add: t)
  next
    case move: False
    have "refs_ok s'"
      using I(1) st' False move
      by (cases p) (auto simp: refs_ok_def d split: if_splits)
    moreover have "messages_ok s'"
      using I(2) st' False move
      by (cases p) (auto simp: messages_ok_def d split: if_splits)
    moreover have "flags_ok s'"
      using I(3) st' False move
      by (cases p) (auto simp: flags_ok_def d split: if_splits)
    moreover have "block_ok s'"
      using I(4) st' False move
      by (cases p) (auto simp: block_ok_def d split: if_splits)
    moreover have "head_ok s'"
      using I(5) st' False move
      by (cases p) (auto simp: head_ok_def d split: if_splits)
    ultimately show ?thesis
      by (simp add: sched_inv_def)
  qed
qed

lemma take_turns_ok:
  assumes "sched_inv s" and "take_turns mx ts s = ok s'"
  shows "sched_inv s'"
  using assms
proof (induction ts arbitrary: s)
  case (Cons t ts)
  then obtain s1 where s1: "take_turn mx t s = ok s1" "take_turns mx ts s1 = ok s'"
    by (auto simp: and_then_ok_iff)
  have "sched_inv s1"
    using s1(1) Cons.prems(1) sender_step_ok worker_step_ok by (cases t) (auto split: if_splits)
  with s1(2) Cons.IH show ?case
    by blast
qed simp

lemma sched_inv_init: "sched_inv (sched_init ns nw)"
  by (simp add: sched_inv_def refs_ok_def messages_ok_def flags_ok_def block_ok_def head_ok_def sched_init_def
      borrowed_def sender_ref_def worker_ref_def sum_list_replicate)

lemma quiet_ok:
  assumes inv: "sched_inv s" and q: "quiet s"
  shows "k_flags s = St_Empty" and "\<not> k_blocked s" and "k_head s = []" and "k_rc s = 1"
proof -
  have no: "\<not> list_ex P (k_senders s)" if "\<not> P S_Idle" for P
    using q that by (auto simp: quiet_def list_ex_iff)
  have no': "\<not> list_ex P (k_workers s)" if "\<not> P K_Idle" for P
    using q that by (auto simp: quiet_def list_ex_iff)
  note n = no [of sender_clears] no [of sender_unblocks] no' [of worker_clears] no' [of worker_unblocks] no' [of popping]
  show "k_flags s = St_Empty" "\<not> k_blocked s" "k_head s = []"
    using inv q n by (auto simp: sched_inv_def flags_ok_def block_ok_def head_ok_def quiet_def sched_defs)
  have "map sender_ref (k_senders s) = map (\<lambda>_. 0) (k_senders s)" "map worker_ref (k_workers s) = map (\<lambda>_. 0) (k_workers s)"
    using q by (auto simp: quiet_def sender_ref_def worker_ref_def)
  then show "k_rc s = 1"
    using inv q by (simp add: sched_inv_def refs_ok_def borrowed_def quiet_def)
qed

section \<open>Runs below the limit\<close>

text \<open>
  One worker at a time is inside \<open>run\<close>. As long as no more messages were sent than a run may handle, the
  cache is empty whenever a run starts, so that its first loop, which loses messages, does nothing.
\<close>

fun stage_ok :: "sched \<Rightarrow> stage \<Rightarrow> bool" where
  "stage_ok s (K_Loop True n) \<longleftrightarrow> n = 0 \<and> k_cache s = []"
| "stage_ok s (K_Next True n) \<longleftrightarrow> False"
| "stage_ok s (K_Try True n) \<longleftrightarrow> False"
| "stage_ok s (K_Loop False n) \<longleftrightarrow> n \<le> length (k_handled s)"
| "stage_ok s (K_Next False n) \<longleftrightarrow> n \<le> length (k_handled s)"
| "stage_ok s (K_Try False n) \<longleftrightarrow> n \<le> length (k_handled s) \<and> k_cache s = []"
| "stage_ok s _ \<longleftrightarrow> k_cache s = []"

definition few_ok :: "sched \<Rightarrow> bool" where
  "few_ok s \<longleftrightarrow> k_lost s = [] \<and> length (filter reading (k_workers s)) \<le> 1 \<and>
     (\<forall>p \<in> set (k_workers s). reading p \<longrightarrow> stage_ok s p) \<and>
     (k_cache s = [] \<or> (\<exists>p \<in> set (k_workers s). reading p))"

lemma few_ok_sender:
  assumes "few_ok s" shows "few_ok (sender_step i x s)"
proof -
  have "stage_ok (sender_step i x s) p = stage_ok s p" for p
    by (cases "(s, p)" rule: stage_ok.cases) (auto simp: sender_step_def sched_defs split: sender.splits)
  with assms show ?thesis
    by (auto simp: few_ok_def sender_step_def sched_defs split: sender.splits)
qed

lemma reading_simps [simp]:
  "reading (K_Loop c n)" "reading (K_Next c n)" "reading (K_Try c n)" "reading K_Last" "reading K_Last_Try"
  "\<not> reading K_Idle" "\<not> reading K_Flags" "\<not> reading K_Unblock" "\<not> reading K_Deref" "\<not> reading K_Sub"
  by (simp_all add: reading_def)

lemma stage_ok_cong:
  "k_cache s' = k_cache s \<Longrightarrow> k_handled s' = k_handled s \<Longrightarrow> stage_ok s' p = stage_ok s p"
  by (cases "(s, p)" rule: stage_ok.cases) simp_all

text \<open>The worker at \<open>w\<close> moves to \<open>p\<close>; the others do not read.\<close>

lemma few_okI:
  assumes "k_workers s' = us @ p # vs" and "\<forall>q \<in> set us \<union> set vs. \<not> reading q" and "k_lost s' = []"
    and "if reading p then stage_ok s' p else k_cache s' = []"
  shows "few_ok s'"
proof -
  have "filter reading us = []" "filter reading vs = []"
    using assms(2) by (auto simp: filter_empty_conv)
  with assms show ?thesis
    by (auto simp: few_ok_def split: if_splits)
qed

lemma few_ok_worker:
  assumes few: "few_ok s" and m: "messages_ok s" and l: "length (k_sent s) \<le> mx"
    and w: "w < length (k_workers s)" and st: "worker_step mx w s = ok s'"
  shows "few_ok s'"
proof -
  obtain us p vs where t: "k_workers s = us @ p # vs" "w = length us"
    using split_at_thread [OF w] by metis
  note d = sched_defs t few_ok_def got_next_def
  note st' = st [unfolded worker_step_def]
  have alone: "filter reading us = []" "filter reading vs = []" if "reading p"
    using few that by (auto simp: few_ok_def t)
  show ?thesis
  proof (cases "reading p")
    case True
    have a: "\<forall>q \<in> set us \<union> set vs. \<not> reading q"
      using alone [OF True] by (auto simp: filter_empty_conv)
    have sp: "stage_ok s p" "k_lost s = []"
      using few True by (simp_all add: few_ok_def t)
    have g: "k_cache s = []" if "mx \<le> length (k_handled s)"
      using m l sp(2) that by (cases "k_cache s") (auto simp: messages_ok_def)
    show ?thesis
    proof (cases p)
      case (K_Loop c n)
      with st' sp g show ?thesis
        by (cases c; cases "n < mx"; cases "n = 0"; intro few_okI [OF _ a]) (auto simp: d t)
    next
      case (K_Next c n)
      with sp have c: "\<not> c" "n \<le> length (k_handled s)"
        by (cases c; simp)+
      obtain y s1 where "reader_pop s = ok (y, s1)" "s' = got_next w c n y s1"
        using st' K_Next by (auto simp: t and_then_ok_iff)
      with K_Next c sp(2) show ?thesis
        by (cases "k_cache s"; elim reader_pop_cases)
           (rule few_okI [OF _ a, where p = "K_Next False n"] few_okI [OF _ a, where p = "K_Try False n"]
              few_okI [OF _ a, where p = "K_Loop False (Suc n)"]; simp add: d t)+
    next
      case (K_Try c n)
      with st' sp show ?thesis
        by (cases c; cases "k_blocked s"; cases "k_stack s"; intro few_okI [OF _ a]) (auto simp: d t)
    qed (use st' sp a True in \<open>auto intro!: few_okI [OF _ a] simp: d t split: if_splits\<close>)
  next
    case False
    show ?thesis
    proof (cases "p = K_Idle \<and> k_jobs s \<noteq> 0")
      case True
      with st' have r: "\<not> (\<exists>q \<in> set (k_workers s). reading q)" "s' = at_worker w (K_Loop True 0) (s\<lparr>k_jobs := k_jobs s - 1\<rparr>)"
        by (auto simp: t split: if_splits)
      then have "k_cache s = []" "\<forall>q \<in> set us \<union> set vs. \<not> reading q"
        using few by (auto simp: few_ok_def t)
      with few r(2) show ?thesis
        by (intro few_okI [where us = us and vs = vs and p = "K_Loop True 0"]) (auto simp: d t)
    next
      case quiet: False
      have "k_cache s' = k_cache s \<and> k_handled s' = k_handled s \<and> k_lost s' = k_lost s \<and>
          (\<exists>q. \<not> reading q \<and> k_workers s' = us @ q # vs)"
      proof (cases p)
        case K_Idle
        with st' quiet have "s' = s" by (simp add: t)
        with K_Idle t(1) show ?thesis by auto
      next
        case K_Flags
        with st' show ?thesis by (auto simp: t at_worker_def)
      next
        case K_Unblock
        with st' show ?thesis by (auto simp: t at_worker_def stack_unblock_def)
      next
        case K_Deref
        with st' show ?thesis by (auto simp: t at_worker_def)
      next
        case K_Sub
        with st' show ?thesis by (auto simp: t at_worker_def)
      qed (use False in simp_all)
      with few False stage_ok_cong [of s' s] show ?thesis
        by (auto simp: few_ok_def t)
    qed
  qed
qed

lemma sender_step_sent: "length (k_sent s) \<le> length (k_sent (sender_step i x s))"
  by (simp add: sender_step_def sched_defs split: sender.splits)

lemma worker_step_sent: "worker_step mx w s = ok s' \<Longrightarrow> k_sent s' = k_sent s"
  by (auto simp: worker_step_def sched_defs got_next_def reader_pop_def and_then_ok_iff Let_def
      split: stage.splits if_splits list.splits option.splits)

lemma take_turns_few:
  assumes "sched_inv s" and "few_ok s" and "take_turns mx ts s = ok s'" and "length (k_sent s') \<le> mx"
  shows "few_ok s'"
  using assms
proof (induction ts arbitrary: s)
  case (Cons t ts)
  then obtain s1 where s1: "take_turn mx t s = ok s1" "take_turns mx ts s1 = ok s'"
    by (auto simp: and_then_ok_iff)
  have inv: "sched_inv s1"
    using s1(1) Cons.prems(1) sender_step_ok worker_step_ok by (cases t) (auto split: if_splits)
  have sent: "length (k_sent s) \<le> length (k_sent s')" if "take_turns mx us s = ok s'" for us s
    using that
  proof (induction us arbitrary: s)
    case (Cons u us)
    then obtain r where r: "take_turn mx u s = ok r" "take_turns mx us r = ok s'"
      by (auto simp: and_then_ok_iff)
    have "length (k_sent s) \<le> length (k_sent r)"
      using r(1) sender_step_sent worker_step_sent by (cases u) (fastforce split: if_splits)+
    with Cons.IH [OF r(2)] show ?case by simp
  qed simp
  have "few_ok s1"
  proof (cases t)
    case (Sender i x)
    with s1(1) few_ok_sender [OF Cons.prems(2)] Cons.prems(2) show ?thesis
      by (auto split: if_splits)
  next
    case (Worker w)
    have "length (k_sent s) \<le> mx"
      using sent [OF Cons.prems(3)] Cons.prems(4) by simp
    with Worker s1(1) few_ok_worker [OF Cons.prems(2)] Cons.prems(1,2) show ?thesis
      by (auto simp: sched_inv_def split: if_splits)
  qed
  with inv s1(2) Cons.IH Cons.prems(4) show ?case
    by blast
qed simp

section \<open>How a schedule ends\<close>

lemma worker_step_ends:
  assumes "w < length (k_workers s)"
  shows "worker_step mx w s = fail Assert_Failed \<or> 2 \<le> length (k_workers s) \<and> worker_step mx w s = fail Data_Race \<or>
     (\<exists>s'. worker_step mx w s = ok s' \<and> length (k_workers s') = length (k_workers s))"
proof -
  obtain us p vs where t: "k_workers s = us @ p # vs" "w = length us"
    using split_at_thread [OF assms] by metis
  show ?thesis
  proof (cases p)
    case K_Idle
    have "2 \<le> length (k_workers s)" if "\<exists>q \<in> set (k_workers s). reading q"
      using that K_Idle by (cases us; cases vs) (auto simp: t)
    with K_Idle show ?thesis
      by (auto simp: worker_step_def t at_worker_def)
  next
    case (K_Next c n)
    then show ?thesis
      by (cases "k_head s"; cases "k_stack s"; cases "k_cache s"; cases "k_blocked s")
        (auto simp: worker_step_def t at_worker_def reader_pop_def got_next_def)
  qed (auto simp: worker_step_def t at_worker_def stack_block_def stack_unblock_def split: if_splits)
qed

lemma take_turns_ends:
  "take_turns mx ts s = fail Assert_Failed \<or> 2 \<le> length (k_workers s) \<and> take_turns mx ts s = fail Data_Race \<or>
     (\<exists>s'. take_turns mx ts s = ok s')"
proof (induction ts arbitrary: s)
  case (Cons t ts)
  have "take_turn mx t s = fail Assert_Failed \<or> 2 \<le> length (k_workers s) \<and> take_turn mx t s = fail Data_Race \<or>
      (\<exists>s'. take_turn mx t s = ok s' \<and> length (k_workers s') = length (k_workers s))"
  proof (cases t)
    case (Sender i x)
    then show ?thesis
      by (auto simp: sender_step_def sched_defs split: sender.splits)
  next
    case (Worker w)
    then show ?thesis
      using worker_step_ends [of w s mx] by auto
  qed
  then consider "take_turn mx t s = fail Assert_Failed" | "2 \<le> length (k_workers s)" "take_turn mx t s = fail Data_Race"
    | s' where "take_turn mx t s = ok s'" "length (k_workers s') = length (k_workers s)"
    by blast
  then show ?case
    by cases (use Cons.IH in \<open>simp_all, metis\<close>)
qed simp

section \<open>Properties\<close>

text \<open>
  C4. What scheduling guarantees. Every interleaving ends in one of three ways: an assertion of the mailbox
  fails; two workers, of at least two, are inside \<open>run\<close> at a time; or no step fails. In the third case the
  actor is alive and its count is one for the supervisor and one for each sender about to schedule it, each
  job and each worker that has it. The messages that are gone were handled or dropped, both in the order
  in which they were sent; the others are in the cache, at \<open>head_\<close> or on the stack, in that order and after
  all that are gone. None is dropped if no more than \<open>max_throughput\<close> were sent. And when no thread is inside,
  the actor is idle and unblocked, so that the next call of \<open>enqueue_base\<close> schedules it.
\<close>

theorem scheduling_keeps_actor:
  "take_turns mx ts (sched_init ns nw) = fail Assert_Failed \<or>
   2 \<le> nw \<and> take_turns mx ts (sched_init ns nw) = fail Data_Race \<or>
   (\<exists>s. take_turns mx ts (sched_init ns nw) = ok s \<and> k_alive s \<and> k_rc s = 1 + borrowed s \<and>
      (\<exists>gone \<in> shuffles (k_handled s) (k_lost s). k_sent s = gone @ k_cache s @ k_head s @ k_stack s) \<and>
      (length (k_sent s) \<le> mx \<longrightarrow> k_lost s = []) \<and>
      (quiet s \<longrightarrow> k_flags s = St_Empty \<and> \<not> k_blocked s \<and> k_head s = [] \<and> k_rc s = 1 \<and>
         (\<forall>i < length (k_senders s). \<forall>x. \<exists>s'. take_turns mx (replicate 6 (Sender i x)) s = ok s' \<and> k_jobs s' = 1 \<and>
            k_rc s' = 2 \<and> k_stack s' = k_stack s @ [x])))"
proof (cases "\<exists>s. take_turns mx ts (sched_init ns nw) = ok s")
  case True
  then obtain s where s: "take_turns mx ts (sched_init ns nw) = ok s"
    by blast
  have inv: "sched_inv s"
    using take_turns_ok [OF sched_inv_init s] .
  have "few_ok (sched_init ns nw)"
    by (simp add: few_ok_def sched_init_def)
  then have few: "length (k_sent s) \<le> mx \<longrightarrow> k_lost s = []"
    using take_turns_few [OF sched_inv_init _ s] by (auto simp: few_ok_def)
  have "\<exists>s'. take_turns mx (replicate 6 (Sender i x)) s = ok s' \<and> k_jobs s' = 1 \<and> k_rc s' = 2 \<and>
      k_stack s' = k_stack s @ [x]" if q: "quiet s" and i: "i < length (k_senders s)" for i x
  proof -
    have "k_senders s ! i = S_Idle" "k_jobs s = 0"
      using q subsetD [OF _ nth_mem [OF i]] by (auto simp: quiet_def)
    with quiet_ok [OF inv q] i show ?thesis
      by (simp add: eval_nat_numeral sender_step_def sched_defs)
  qed
  with s few inv quiet_ok [OF inv] show ?thesis
    by (simp add: sched_inv_def refs_ok_def messages_ok_def)
next
  case False
  then show ?thesis
    using take_turns_ends [of mx ts "sched_init ns nw"] by (auto simp: sched_init_def)
qed

text \<open>One sender and one worker, undisturbed.\<close>

definition demo_turns :: "turn list" where
  "demo_turns = replicate 6 (Sender 0 1) @ replicate 8 (Worker 0)"

lemma scheduling_keeps_actor_witness:
  "\<exists>s s'. take_turns 100 (demo_turns @ replicate 4 (Worker 0)) (sched_init 1 1) = ok s \<and> quiet s \<and>
     k_handled s = [1] \<and> k_lost s = [] \<and> k_rc s = 1 \<and> take_turns 100 (replicate 6 (Sender 0 7)) s = ok s' \<and> k_jobs s' = 1"
proof -
  obtain s where s: "take_turns 100 (demo_turns @ replicate 4 (Worker 0)) (sched_init 1 1) = ok s" "quiet s"
      "k_handled s = [1]" "length (k_senders s) = 1" "length (k_sent s) = 1"
    by (simp add: demo_turns_def sched_init_def sender_step_def worker_step_def got_next_def reader_pop_def sched_defs
        quiet_def eval_nat_numeral)
  from scheduling_keeps_actor [of 100 "demo_turns @ replicate 4 (Worker 0)" 1 1] s obtain s' where
      "take_turns 100 (replicate 6 (Sender 0 7)) s = ok s'" "k_jobs s' = 1" "k_rc s = 1" "k_lost s = []"
    by auto
  with s show ?thesis
    by blast
qed

text \<open>
  C5. What it does not guarantee. With one sender and one worker a message can stay in the mailbox with
  nobody left to schedule the actor: it was sent between \<open>try_block\<close>, after the last message, and
  the reset of \<open>flags_\<close>, and \<open>enqueue_base\<close> ignores that \<open>enqueue\<close> tells it unblocked the reader. A
  sender that tests \<open>flags_\<close> after its message was handled blocks the mailbox, and the run it schedules
  fails an assertion. Two senders that both find the actor idle schedule it twice, and two workers run
  it at the same time.
\<close>

theorem scheduling_hazards:
  "(\<exists>ts s. take_turns 100 ts (sched_init 1 1) = ok s \<and> quiet s \<and> k_stack s \<noteq> []) \<and>
   (\<exists>ts. take_turns 100 ts (sched_init 1 1) = fail Assert_Failed) \<and>
   (\<exists>ts. take_turns 100 ts (sched_init 2 2) = fail Data_Race)"
proof (intro conjI)
  note d = demo_turns_def sched_init_def sender_step_def worker_step_def got_next_def reader_pop_def sched_defs
    quiet_def eval_nat_numeral
  show "\<exists>ts s. take_turns 100 ts (sched_init 1 1) = ok s \<and> quiet s \<and> k_stack s \<noteq> []"
    by (rule exI [of _ "demo_turns @ [Sender 0 2, Sender 0 2] @ replicate 4 (Worker 0)"]) (simp add: d)
  show "\<exists>ts. take_turns 100 ts (sched_init 1 1) = fail Assert_Failed"
    by (rule exI [of _ "replicate 6 (Sender 0 1) @ replicate 4 (Worker 0) @ [Sender 0 2] @ replicate 10 (Worker 0) @
      replicate 5 (Sender 0 2) @ replicate 5 (Worker 0)"]) (simp add: d)
  show "\<exists>ts. take_turns 100 ts (sched_init 2 2) = fail Data_Race"
    by (rule exI [of _ "[Sender 0 1, Sender 1 2, Sender 0 1, Sender 1 2] @ replicate 4 (Sender 0 1) @
      replicate 4 (Sender 1 2) @ [Worker 0, Worker 1]"]) (simp add: d)
qed

end
