(* ===== verification/Profiled.thy ===== *)
theory Profiled
  imports Executable AF_Prelude
begin

text \<open>
  The profiler of \<open>executor/profiled_executor.hpp\<close> and the policy \<open>executor/policy/profiled.hpp\<close> that
  feeds it. Points in time and durations are counts of microseconds; the present time is an argument of
  the operations that read the clock. The output file is the list of the lines written.
\<close>

section \<open>Measurements\<close>

datatype measurement = Measurement (runtime: int) (usr: int) (sys: int) (mem: int)

text \<open>\<open>operator+=\<close> and \<open>operator-=\<close>: the new value of the left operand.\<close>

fun measurement_add :: "measurement \<Rightarrow> measurement \<Rightarrow> measurement" where
  "measurement_add (Measurement r u s m) (Measurement r' u' s' m') = Measurement (r + r') (u + u') (s + s') (m + m')"

fun measurement_sub :: "measurement \<Rightarrow> measurement \<Rightarrow> measurement" where
  "measurement_sub (Measurement r u s m) (Measurement r' u' s' m') = Measurement (r - r') (u - u') (s - s') (m - m')"

instantiation measurement :: ab_group_add
begin

definition zero_measurement :: measurement where
  "zero_measurement = Measurement 0 0 0 0"

definition plus_measurement :: "measurement \<Rightarrow> measurement \<Rightarrow> measurement" where
  "plus_measurement = measurement_add"

definition minus_measurement :: "measurement \<Rightarrow> measurement \<Rightarrow> measurement" where
  "minus_measurement = measurement_sub"

definition uminus_measurement :: "measurement \<Rightarrow> measurement" where
  "- x = 0 - (x::measurement)"

instance
proof
  fix a b c :: measurement
  show "a + b + c = a + (b + c)" "a + b = b + a" "0 + a = a"
    by (cases a; cases b; cases c; simp add: zero_measurement_def plus_measurement_def)+
  show "- a + a = 0" "a - b = a + - b"
    by (cases a; cases b; simp add: zero_measurement_def uminus_measurement_def plus_measurement_def minus_measurement_def)+
qed

end

lemma measurement_simps [simp]:
  "Measurement r u s m + Measurement r' u' s' m' = Measurement (r + r') (u + u') (s + s') (m + m')"
  "Measurement r u s m - Measurement r' u' s' m' = Measurement (r - r') (u - u') (s - s') (m - m')"
  by (simp_all add: plus_measurement_def minus_measurement_def)

definition to_usec :: "int \<Rightarrow> int \<Rightarrow> int" where
  "to_usec tv_sec tv_usec = tv_sec * 1000000 + tv_usec"

definition take_measurement :: "int \<Rightarrow> measurement" where
  "take_measurement now = Measurement now 0 0 0"

section \<open>State\<close>

record worker_state =
  ws_current :: nat
  ws_job :: measurement
  ws_worker :: measurement
  ws_last_flush :: int

datatype label = L_Worker | L_Actor

datatype line = Header | Entry (e_clock: int) (e_label: label) (e_id: nat) (e_value: measurement)

text \<open>\<open>pf_jobs\<close> is \<open>jobs_\<close> with its entries in the order of iteration.\<close>

record prof =
  pf_resolution :: int
  pf_system_start :: int
  pf_clock_start :: int
  pf_workers :: "worker_state list"
  pf_jobs :: "(nat \<times> measurement) list"
  pf_last_flush :: int
  pf_file :: "line list"

section \<open>The code\<close>

definition worker_state_init :: worker_state where
  "worker_state_init = \<lparr>ws_current = 0, ws_job = 0, ws_worker = 0, ws_last_flush = 0\<rparr>"

definition profiled_ctor :: prof where
  "profiled_ctor =
     \<lparr>pf_resolution = 100000, pf_system_start = 0, pf_clock_start = 0, pf_workers = [], pf_jobs = [],
      pf_last_flush = 0, pf_file = []\<rparr>"

definition profiled_start :: "int \<Rightarrow> nat \<Rightarrow> prof \<Rightarrow> prof" where
  "profiled_start now n p =
     p\<lparr>pf_clock_start := now,
       pf_workers := take n (pf_workers p) @ replicate (n - length (pf_workers p)) worker_state_init,
       pf_file := pf_file p @ [Header]\<rparr>"

definition record_line :: "int \<Rightarrow> label \<Rightarrow> nat \<Rightarrow> measurement \<Rightarrow> prof \<Rightarrow> prof" where
  "record_line t l i m p = p\<lparr>pf_file := pf_file p @ [Entry t l i m]\<rparr>"

definition wallclock :: "int \<Rightarrow> prof \<Rightarrow> int" where
  "wallclock now p = pf_system_start p + (now - pf_clock_start p)"

definition profiled_stop :: "int \<Rightarrow> prof \<Rightarrow> prof" where
  "profiled_stop now p =
     fold (\<lambda>i p. record_line (wallclock now p) L_Worker i (ws_worker (pf_workers p ! i)) p)
       [0..<length (pf_workers p)] p"

definition set_worker :: "nat \<Rightarrow> worker_state \<Rightarrow> prof \<Rightarrow> prof" where
  "set_worker w x p = p\<lparr>pf_workers := (pf_workers p)[w := x]\<rparr>"

definition start_measuring :: "int \<Rightarrow> nat \<Rightarrow> nat \<Rightarrow> prof \<Rightarrow> prof" where
  "start_measuring now w job p =
     set_worker w ((pf_workers p ! w)\<lparr>ws_current := job, ws_job := take_measurement now\<rparr>) p"

text \<open>\<open>jobs_[job] += m\<close>: the entry is made when it is missing.\<close>

fun add_job :: "nat \<Rightarrow> measurement \<Rightarrow> (nat \<times> measurement) list \<Rightarrow> (nat \<times> measurement) list" where
  "add_job job m [] = [(job, 0 + m)]"
| "add_job job m ((k, v) # js) = (if k = job then (k, v + m) # js else (k, v) # add_job job m js)"

text \<open>The loop of \<open>report\<close>: every entry is written and reset.\<close>

fun flush_jobs :: "int \<Rightarrow> (nat \<times> measurement) list \<Rightarrow> prof \<Rightarrow> (nat \<times> measurement) list \<times> prof" where
  "flush_jobs clock [] p = ([], p)"
| "flush_jobs clock ((k, v) # js) p =
     (case flush_jobs clock js (record_line clock L_Actor k v p) of (js, p) \<Rightarrow> ((k, 0) # js, p))"

definition report :: "int \<Rightarrow> nat \<Rightarrow> measurement \<Rightarrow> prof \<Rightarrow> prof" where
  "report now job m p =
     (let p = p\<lparr>pf_jobs := add_job job m (pf_jobs p)\<rparr> in
      if runtime m - pf_last_flush p \<ge> pf_resolution p
      then let p = p\<lparr>pf_last_flush := runtime m\<rparr> in
           case flush_jobs (wallclock now p) (pf_jobs p) p of (js, p) \<Rightarrow> p\<lparr>pf_jobs := js\<rparr>
      else p)"

definition clamp :: "measurement \<Rightarrow> measurement" where
  "clamp d = (if runtime d < usr d + sys d then Measurement (usr d + sys d) (usr d) (sys d) (mem d) else d)"

definition stop_measuring :: "int \<Rightarrow> nat \<Rightarrow> nat \<Rightarrow> prof \<Rightarrow> prof eff" where
  "stop_measuring now w job p =
     (let m = take_measurement now; x = pf_workers p ! w in
      and_then (assert_that (job = ws_current x)) (\<lambda>_.
      let delta = clamp (m - ws_job x);
          x = x\<lparr>ws_worker := ws_worker x + delta\<rparr>;
          p = report now job delta (set_worker w x p)
      in if runtime m - ws_last_flush x \<ge> pf_resolution p
         then let x = x\<lparr>ws_last_flush := runtime m\<rparr>;
                  p = record_line (wallclock (runtime m) p) L_Worker w (ws_worker x) p
              in ok (set_worker w (x\<lparr>ws_worker := 0\<rparr>) p)
         else ok p))"

definition remove_job :: "int \<Rightarrow> nat \<Rightarrow> prof \<Rightarrow> prof" where
  "remove_job now job p =
     (case map_of (pf_jobs p) job of
        None \<Rightarrow> p
      | Some m \<Rightarrow>
          (let p = (if job \<noteq> 0 then record_line (wallclock now p) L_Actor job m p else p) in
           p\<lparr>pf_jobs := filter (\<lambda>(k, v). k \<noteq> job) (pf_jobs p)\<rparr>))"

text \<open>The hooks of the policy. Every job has the same number.\<close>

definition id_of :: "'j option \<Rightarrow> nat" where
  "id_of job = (if job \<noteq> None then 1 else 0)"

definition before_resume :: "int \<Rightarrow> nat \<Rightarrow> 'j option \<Rightarrow> prof \<Rightarrow> prof" where
  "before_resume now w job p = start_measuring now w (id_of job) p"

definition after_resume :: "int \<Rightarrow> nat \<Rightarrow> 'j option \<Rightarrow> prof \<Rightarrow> prof eff" where
  "after_resume now w job p = stop_measuring now w (id_of job) p"

definition after_completion :: "int \<Rightarrow> nat \<Rightarrow> 'j option \<Rightarrow> prof \<Rightarrow> prof" where
  "after_completion now w job p = remove_job now (id_of job) p"

section \<open>What the profiler is fed\<close>

text \<open>
  Calls of the profiler in any order and from any worker, as long as the number of the worker is one of
  the pool's.
\<close>

datatype call = Start int nat nat | Stop int nat nat | Remove int nat

fun profile :: "call \<Rightarrow> prof \<Rightarrow> prof eff" where
  "profile (Start t w j) p = (if w < length (pf_workers p) then ok (start_measuring t w j p) else ok p)"
| "profile (Stop t w j) p = (if w < length (pf_workers p) then stop_measuring t w j p else ok p)"
| "profile (Remove t j) p = ok (remove_job t j p)"

primrec profile_all :: "call list \<Rightarrow> prof \<Rightarrow> prof eff" where
  "profile_all [] p = ok p"
| "profile_all (c # cs) p = and_then (profile c p) (\<lambda>p. profile_all cs p)"

text \<open>The samples taken on the way: worker, job and what was measured.\<close>

fun sample :: "call \<Rightarrow> prof \<Rightarrow> (nat \<times> nat \<times> measurement) list" where
  "sample (Stop t w j) p =
     (if w < length (pf_workers p) then [(w, j, clamp (take_measurement t - ws_job (pf_workers p ! w)))] else [])"
| "sample _ p = []"

primrec samples :: "call list \<Rightarrow> prof \<Rightarrow> (nat \<times> nat \<times> measurement) list" where
  "samples [] p = []"
| "samples (c # cs) p =
     sample c p @ (case profile c p of Some (Inr p) \<Rightarrow> samples cs p | _ \<Rightarrow> [])"

section \<open>Accounts\<close>

text \<open>What has been written for an actor or a worker and what is still to be written.\<close>

fun amount :: "label \<Rightarrow> nat \<Rightarrow> line \<Rightarrow> measurement" where
  "amount l i Header = 0"
| "amount l i (Entry t l' k m) = (if l' = l \<and> k = i then m else 0)"

definition written :: "label \<Rightarrow> nat \<Rightarrow> prof \<Rightarrow> measurement" where
  "written l i p = sum_list (map (amount l i) (pf_file p))"

definition pending_job :: "nat \<Rightarrow> prof \<Rightarrow> measurement" where
  "pending_job i p = sum_list (map (\<lambda>(k, v). if k = i then v else 0) (pf_jobs p))"

definition actor_total :: "nat \<Rightarrow> prof \<Rightarrow> measurement" where
  "actor_total i p = written L_Actor i p + pending_job i p"

definition worker_total :: "nat \<Rightarrow> prof \<Rightarrow> measurement" where
  "worker_total w p = written L_Worker w p + ws_worker (pf_workers p ! w)"

definition job_sum :: "nat \<Rightarrow> (nat \<times> nat \<times> measurement) list \<Rightarrow> measurement" where
  "job_sum i xs = sum_list (map (\<lambda>(w, j, d). if j = i then d else 0) xs)"

definition worker_sum :: "nat \<Rightarrow> (nat \<times> nat \<times> measurement) list \<Rightarrow> measurement" where
  "worker_sum i xs = sum_list (map (\<lambda>(w, j, d). if w = i then d else 0) xs)"

lemma record_line_fields [simp]:
  "pf_workers (record_line t l i m p) = pf_workers p" "pf_jobs (record_line t l i m p) = pf_jobs p"
  "pf_resolution (record_line t l i m p) = pf_resolution p" "pf_last_flush (record_line t l i m p) = pf_last_flush p"
  "pf_file (record_line t l i m p) = pf_file p @ [Entry t l i m]"
  by (simp_all add: record_line_def)

lemma set_worker_fields [simp]:
  "pf_workers (set_worker w x p) = (pf_workers p)[w := x]" "pf_jobs (set_worker w x p) = pf_jobs p"
  "pf_resolution (set_worker w x p) = pf_resolution p" "pf_last_flush (set_worker w x p) = pf_last_flush p"
  "pf_file (set_worker w x p) = pf_file p"
  by (simp_all add: set_worker_def)

lemma add_job_sum:
  "sum_list (map (\<lambda>(k, v). if k = i then v else 0) (add_job job m js)) =
   sum_list (map (\<lambda>(k, v). if k = i then v else 0) js) + (if job = i then m else (0::measurement))"
  by (induction js) (auto simp: algebra_simps)

lemma add_job_keys: "set (map fst (add_job job m js)) = insert job (set (map fst js))"
proof (induction js)
  case (Cons x js)
  then show ?case by (cases x) auto
qed simp

lemma add_job_distinct: "distinct (map fst js) \<Longrightarrow> distinct (map fst (add_job job m js))"
proof (induction js)
  case (Cons x js)
  have "fst x \<notin> set (map fst (add_job job m js))" if "fst x \<noteq> job"
    using that Cons.prems by (simp only: add_job_keys) simp
  with Cons show ?case by (cases x) auto
qed simp

lemma flush_jobs_ok:
  assumes "flush_jobs t js p = (js', p')"
  shows "pf_file p' = pf_file p @ map (\<lambda>(k, v). Entry t L_Actor k v) js" and "js' = map (\<lambda>(k, v). (k, 0)) js"
    and "pf_workers p' = pf_workers p" and "pf_resolution p' = pf_resolution p" and "pf_last_flush p' = pf_last_flush p"
  using assms by (induction js arbitrary: p js' p') (auto split: prod.splits)

lemma sum_zero: "sum_list (map (\<lambda>(k, v). if k = i then v else 0) (map (\<lambda>(k, v). (k, 0)) xs)) = (0::measurement)"
  by (induction xs) (auto split: prod.splits)

lemma written_snoc:
  "pf_file p' = pf_file p @ [Entry t l i m] \<Longrightarrow>
   written l' k p' = written l' k p + (if l = l' \<and> i = k then m else 0)"
  by (simp add: written_def)

lemma written_jobs:
  assumes "pf_file p' = pf_file p @ map (\<lambda>(k, v). Entry t L_Actor k v) js"
  shows "written L_Actor i p' = written L_Actor i p + sum_list (map (\<lambda>(k, v). if k = i then v else 0) js)"
    and "written L_Worker i p' = written L_Worker i p"
proof -
  have "sum_list (map (amount L_Actor i) (map (\<lambda>(k, v). Entry t L_Actor k v) js)) =
      sum_list (map (\<lambda>(k, v). if k = i then v else 0) js)"
    "sum_list (map (amount L_Worker i) (map (\<lambda>(k, v). Entry t L_Actor k v) js)) = 0"
    by (induction js) auto
  with assms show "written L_Actor i p' = written L_Actor i p + sum_list (map (\<lambda>(k, v). if k = i then v else 0) js)"
    "written L_Worker i p' = written L_Worker i p"
    by (simp_all add: written_def del: map_map)
qed

text \<open>The state a profiler is in: the keys of the map are distinct.\<close>

definition prof_ok :: "prof \<Rightarrow> bool" where
  "prof_ok p \<longleftrightarrow> distinct (map fst (pf_jobs p))"

lemma report_ok:
  assumes "prof_ok p"
  shows "prof_ok (report t job m p)" and "actor_total i (report t job m p) = actor_total i p + (if job = i then m else 0)"
    and "written L_Worker i (report t job m p) = written L_Worker i p"
    and "pf_workers (report t job m p) = pf_workers p" and "pf_resolution (report t job m p) = pf_resolution p"
proof -
  let ?p = "p\<lparr>pf_jobs := add_job job m (pf_jobs p)\<rparr>"
  have d: "distinct (map fst (add_job job m (pf_jobs p)))"
    using assms add_job_distinct by (simp add: prof_ok_def)
  have a: "actor_total i ?p = actor_total i p + (if job = i then m else 0)"
    by (simp add: actor_total_def pending_job_def written_def add_job_sum algebra_simps)
  have "prof_ok (report t job m p) \<and> actor_total i (report t job m p) = actor_total i p + (if job = i then m else 0) \<and>
    written L_Worker i (report t job m p) = written L_Worker i p \<and> pf_workers (report t job m p) = pf_workers p \<and>
    pf_resolution (report t job m p) = pf_resolution p"
  proof (cases "runtime m - pf_last_flush ?p \<ge> pf_resolution ?p")
    case False
    with a d show ?thesis
      by (simp add: report_def prof_ok_def written_def)
  next
    case True
    let ?q = "?p\<lparr>pf_last_flush := runtime m\<rparr>"
    obtain js r where f: "flush_jobs (wallclock t ?q) (pf_jobs ?q) ?q = (js, r)"
      by (cases "flush_jobs (wallclock t ?q) (pf_jobs ?q) ?q")
    note g = flush_jobs_ok [OF f]
    have r: "report t job m p = r\<lparr>pf_jobs := js\<rparr>"
      using True f by (simp add: report_def Let_def)
    have "pf_file (r\<lparr>pf_jobs := js\<rparr>) = pf_file ?p @ map (\<lambda>(k, v). Entry (wallclock t ?q) L_Actor k v) (pf_jobs ?p)"
      using g(1) by simp
    note w = written_jobs [OF this]
    have "pending_job i (r\<lparr>pf_jobs := js\<rparr>) = 0"
      using g(2) by (simp add: pending_job_def sum_zero del: map_map)
    moreover have "written L_Worker i ?p = written L_Worker i p" "written L_Actor i ?p = written L_Actor i p"
      by (simp_all add: written_def)
    ultimately show ?thesis
      using a d g w [of i] by (simp add: r prof_ok_def actor_total_def pending_job_def comp_def case_prod_unfold)
  qed
  then show "prof_ok (report t job m p)" "actor_total i (report t job m p) = actor_total i p + (if job = i then m else 0)"
    "written L_Worker i (report t job m p) = written L_Worker i p" "pf_workers (report t job m p) = pf_workers p"
    "pf_resolution (report t job m p) = pf_resolution p"
    by blast+
qed

lemma stop_measuring_ok:
  assumes p: "prof_ok p" and w: "w < length (pf_workers p)" and st: "stop_measuring t w j p = ok p'"
  shows "prof_ok p'" and "length (pf_workers p') = length (pf_workers p)"
    and "actor_total i p' = actor_total i p + (if j = i then clamp (take_measurement t - ws_job (pf_workers p ! w)) else 0)"
    and "k < length (pf_workers p) \<Longrightarrow>
      worker_total k p' = worker_total k p + (if w = k then clamp (take_measurement t - ws_job (pf_workers p ! w)) else 0)"
proof -
  define d where "d = clamp (take_measurement t - ws_job (pf_workers p ! w))"
  define x where "x = (pf_workers p ! w)\<lparr>ws_worker := ws_worker (pf_workers p ! w) + d\<rparr>"
  define q where "q = report t j d (set_worker w x p)"
  have sp: "prof_ok (set_worker w x p)" "actor_total i (set_worker w x p) = actor_total i p"
    "written L_Worker k (set_worker w x p) = written L_Worker k p" for k
    using p by (simp_all add: prof_ok_def actor_total_def written_def pending_job_def)
  note r = report_ok [OF sp(1), where t = t and job = j and m = d, folded q_def]
  have q: "prof_ok q" "actor_total i q = actor_total i p + (if j = i then d else 0)"
    "pf_workers q = (pf_workers p)[w := x]" "written L_Worker k q = written L_Worker k p" for k
    using r(1,3,4) r(2) [where i = i] sp(2,3) by simp_all
  have "p' = (if runtime (take_measurement t) - ws_last_flush x \<ge> pf_resolution q
      then set_worker w (x\<lparr>ws_last_flush := runtime (take_measurement t), ws_worker := 0\<rparr>)
        (record_line (wallclock (runtime (take_measurement t)) q) L_Worker w (ws_worker x) q)
      else q)"
    using st by (simp add: stop_measuring_def Let_def and_then_ok_iff d_def [symmetric] x_def [symmetric] q_def [symmetric]
        split: if_splits) (simp_all add: x_def)
  then consider "p' = q" | y z where "p' = set_worker w z (record_line y L_Worker w (ws_worker x) q)" "ws_worker z = 0"
    by (cases "runtime (take_measurement t) - ws_last_flush x \<ge> pf_resolution q") simp_all
  then have p': "p' = q \<or> (\<exists>y z. p' = set_worker w z (record_line y L_Worker w (ws_worker x) q) \<and> ws_worker z = 0)"
    by cases blast+
  have x: "ws_worker x = ws_worker (pf_workers p ! w) + d"
    by (simp add: x_def)
  show "prof_ok p'" "length (pf_workers p') = length (pf_workers p)"
    using p' q(1,3) by (auto simp: prof_ok_def)
  show "actor_total i p' = actor_total i p + (if j = i then clamp (take_measurement t - ws_job (pf_workers p ! w)) else 0)"
    using p' q(2) by (auto simp: actor_total_def pending_job_def written_def d_def)
  show "worker_total k p' = worker_total k p + (if w = k then clamp (take_measurement t - ws_job (pf_workers p ! w)) else 0)"
    if "k < length (pf_workers p)"
    using p' q(3,4) w that x
    by (cases "k = w") (auto simp: worker_total_def written_def d_def [symmetric] algebra_simps)
qed

lemma job_entry:
  fixes m :: measurement
  assumes "distinct (map fst js)" and "map_of js j = Some m"
  shows "sum_list (map (\<lambda>(k, v). if k = i then v else 0) js) =
    (if j = i then m else 0) + sum_list (map (\<lambda>(k, v). if k = i then v else 0) (filter (\<lambda>(k, v). k \<noteq> j) js))"
  using assms
proof (induction js)
  case (Cons x js)
  show ?case
  proof (cases "fst x = j")
    case True
    with Cons.prems have "\<forall>y \<in> set js. fst y \<noteq> j" "snd x = m"
      by (cases x; force)+
    then have "filter (\<lambda>(k, v). k \<noteq> j) js = js"
      by (auto simp: filter_id_conv)
    with True \<open>snd x = m\<close> show ?thesis
      by (cases x) auto
  next
    case False
    with Cons show ?thesis
      by (cases x) (auto simp: algebra_simps)
  qed
qed simp

lemma remove_job_ok:
  assumes p: "prof_ok p"
  shows "prof_ok (remove_job t j p)" and "pf_workers (remove_job t j p) = pf_workers p"
    and "i \<noteq> 0 \<Longrightarrow> actor_total i (remove_job t j p) = actor_total i p"
    and "written L_Worker k (remove_job t j p) = written L_Worker k p"
proof -
  have d: "distinct (map fst (filter f (pf_jobs p)))" for f
    using p by (simp add: prof_ok_def distinct_map_filter)
  show "prof_ok (remove_job t j p)" "pf_workers (remove_job t j p) = pf_workers p"
    "written L_Worker k (remove_job t j p) = written L_Worker k p"
    using p d by (auto simp: remove_job_def prof_ok_def written_def record_line_def split: option.splits)
  show "actor_total i (remove_job t j p) = actor_total i p" if "i \<noteq> 0"
  proof (cases "map_of (pf_jobs p) j")
    case (Some m)
    with p that job_entry [of "pf_jobs p" j m i] show ?thesis
      by (auto simp: remove_job_def actor_total_def pending_job_def written_def prof_ok_def record_line_def algebra_simps)
  qed (simp add: remove_job_def)
qed

lemma start_measuring_ok:
  assumes "prof_ok p" and w: "w < length (pf_workers p)"
  shows "prof_ok (start_measuring t w j p)" and "length (pf_workers (start_measuring t w j p)) = length (pf_workers p)"
    and "actor_total i (start_measuring t w j p) = actor_total i p"
    and "k < length (pf_workers p) \<Longrightarrow> worker_total k (start_measuring t w j p) = worker_total k p"
  using assms by (cases "k = w"; simp add: start_measuring_def prof_ok_def actor_total_def worker_total_def written_def pending_job_def)+

lemma profile_all_ok:
  assumes "prof_ok p" and "profile_all cs p = ok p'"
  shows "length (pf_workers p') = length (pf_workers p) \<and>
    (i \<noteq> 0 \<longrightarrow> actor_total i p' = actor_total i p + job_sum i (samples cs p)) \<and>
    (k < length (pf_workers p) \<longrightarrow> worker_total k p' = worker_total k p + worker_sum k (samples cs p))"
  using assms
proof (induction cs arbitrary: p)
  case Nil
  then show ?case
    by (simp add: job_sum_def worker_sum_def)
next
  case (Cons c cs)
  then obtain q where q: "profile c p = ok q" "profile_all cs q = ok p'"
    by (auto simp: and_then_ok_iff)
  have step: "prof_ok q \<and> length (pf_workers q) = length (pf_workers p) \<and>
      (i \<noteq> 0 \<longrightarrow> actor_total i q = actor_total i p + job_sum i (sample c p)) \<and>
      (k < length (pf_workers p) \<longrightarrow> worker_total k q = worker_total k p + worker_sum k (sample c p))"
  proof (cases c)
    case (Start t w j)
    with q(1) Cons.prems(1) start_measuring_ok [where p = p and w = w and t = t and j = j] show ?thesis
      by (auto simp: job_sum_def worker_sum_def split: if_splits)
  next
    case (Stop t w j)
    with q(1) Cons.prems(1) stop_measuring_ok [where p = p and w = w and t = t and j = j and p' = q] show ?thesis
      by (auto simp: job_sum_def worker_sum_def split: if_splits)
  next
    case (Remove t j)
    with q(1) Cons.prems(1) remove_job_ok [where p = p and t = t and j = j] show ?thesis
      by (auto simp: job_sum_def worker_sum_def worker_total_def)
  qed
  with Cons.IH [of q] q show ?case
    by (simp add: job_sum_def worker_sum_def algebra_simps)
qed

lemma profiled_stop_written:
  assumes "\<And>i p. pf_workers (f i p) = pf_workers p"
    and "\<And>i p. written L_Worker k (f i p) = written L_Worker k p + (if i = k then ws_worker (pf_workers p ! i) else 0)"
  shows "written L_Worker k (fold f ks p) =
    written L_Worker k p + sum_list (map (\<lambda>i. if i = k then ws_worker (pf_workers p ! i) else 0) ks)"
proof (induction ks arbitrary: p)
  case (Cons i ks)
  then show ?case
    by (simp only: fold_simps comp_def assms) (simp add: algebra_simps)
qed simp

lemma profiled_stop_ok:
  assumes "k < length (pf_workers p)"
  shows "written L_Worker k (profiled_stop t p) = worker_total k p"
proof -
  have "sum_list (map (\<lambda>i. if i = k then ws_worker (pf_workers p ! i) else 0) [0..<length (pf_workers p)]) =
      ws_worker (pf_workers p ! k)"
    using assms by (simp add: interv_sum_list_conv_sum_set_nat sum.delta)
  then show ?thesis
    unfolding profiled_stop_def
    by (subst profiled_stop_written) (simp_all add: worker_total_def written_snoc)
qed

lemma prof_started_ok:
  "prof_ok (profiled_start t n profiled_ctor)" "length (pf_workers (profiled_start t n profiled_ctor)) = n"
  "actor_total i (profiled_start t n profiled_ctor) = 0"
  "k < n \<Longrightarrow> worker_total k (profiled_start t n profiled_ctor) = 0"
  by (simp_all add: prof_ok_def profiled_start_def profiled_ctor_def actor_total_def worker_total_def written_def
      pending_job_def worker_state_init_def)

section \<open>Properties\<close>

text \<open>
  C33. The profiler loses no time: in whatever order the workers call it, for every job number but zero
  what is in the file and what waits in \<open>jobs_\<close> add up to the samples taken of it, completion of the job
  included, and when the pool has been stopped the entries of every worker add up to its samples.
\<close>

theorem profiler_conserves:
  assumes "profile_all cs (profiled_start t n profiled_ctor) = ok p"
  shows "(\<forall>i. i \<noteq> 0 \<longrightarrow> written L_Actor i p + pending_job i p = job_sum i (samples cs (profiled_start t n profiled_ctor))) \<and>
    (\<forall>w < n. written L_Worker w (profiled_stop t' p) = worker_sum w (samples cs (profiled_start t n profiled_ctor)))"
proof (intro conjI allI impI)
  note ok = profile_all_ok [OF prof_started_ok(1) assms]
  show "written L_Actor i p + pending_job i p = job_sum i (samples cs (profiled_start t n profiled_ctor))" if "i \<noteq> 0" for i
    using ok [of i 0] that by (simp add: prof_started_ok actor_total_def [of i p, symmetric])
  show "written L_Worker w (profiled_stop t' p) = worker_sum w (samples cs (profiled_start t n profiled_ctor))" if "w < n" for w
    using ok [of 0 w] that by (simp add: prof_started_ok profiled_stop_ok)
qed

text \<open>Two workers; job 1 runs on both, for 150 and 20 milliseconds, then it is done.\<close>

definition demo_calls :: "call list" where
  "demo_calls = [Start 0 0 1, Start 10000 1 1, Stop 30000 1 1, Stop 150000 0 1, Remove 160000 1]"

lemma profiler_conserves_witness:
  "\<exists>p. profile_all demo_calls (profiled_start 0 2 profiled_ctor) = ok p \<and>
     written L_Actor 1 p + pending_job 1 p = Measurement 170000 0 0 0 \<and>
     written L_Worker 0 (profiled_stop 200000 p) = Measurement 150000 0 0 0"
proof -
  note d = demo_calls_def profiled_start_def profiled_ctor_def worker_state_init_def start_measuring_def stop_measuring_def
    remove_job_def report_def clamp_def take_measurement_def set_worker_def record_line_def Let_def zero_measurement_def
  obtain p where p: "profile_all demo_calls (profiled_start 0 2 profiled_ctor) = ok p"
    by (simp add: d eval_nat_numeral)
  have "job_sum 1 (samples demo_calls (profiled_start 0 2 profiled_ctor)) = Measurement 170000 0 0 0"
    "worker_sum 0 (samples demo_calls (profiled_start 0 2 profiled_ctor)) = Measurement 150000 0 0 0"
    by (simp_all add: d eval_nat_numeral job_sum_def worker_sum_def)
  with profiler_conserves [OF p, of 200000] p show ?thesis
    by (intro exI [of _ p]) simp
qed

text \<open>
  When it writes: \<open>report\<close> compares the length of one sample with \<open>last_flush_\<close>, where the length of an
  earlier one is stored, so that jobs whose samples stay below the resolution are never written by it,
  however long the program runs.
\<close>

lemma short_samples_not_reported:
  assumes "pf_last_flush p \<ge> 0" and "runtime m < pf_resolution p"
  shows "pf_file (report now job m p) = pf_file p \<and> pf_last_flush (report now job m p) = pf_last_flush p"
  using assms by (simp add: report_def Let_def)

end
