(* ===== verification/Round_Robin.thy ===== *)
theory Round_Robin
  imports Supervisor Actor
begin

text \<open>
  The supervisor of \<open>examples/smart-send\<close>: it executes system commands itself and hands every other message
  to its actors in turn; its worker, and \<open>main\<close>. The class of the same name in \<open>examples/delegate\<close>, with another
  set of system commands, is in \<open>Delegate\<close>. Handing a message to another module is \<open>outbox\<close>, see \<open>Supervisor\<close>.
\<close>

section \<open>State\<close>

text \<open>
  The members of \<open>supervisor_lite\<close>; \<open>l_next\<close> is the number the next module constructed gets. The set
  \<open>system_\<close> never changes and is an argument of the operations.
\<close>

record lite =
  l_actors :: "nat list"
  l_supervisors :: "nat list"
  l_cursor :: nat
  l_next :: nat

type_synonym lite_sup = "lite post sup"

abbreviation user :: "lite_sup \<Rightarrow> lite" where
  "user s \<equiv> p_user (v_env s)"

definition set_user :: "lite \<Rightarrow> lite_sup \<Rightarrow> lite_sup" where
  "set_user l s = s\<lparr>v_env := (v_env s)\<lparr>p_user := l\<rparr>\<rparr>"

section \<open>The code\<close>

definition add_actor_impl :: "nat \<Rightarrow> lite_sup \<Rightarrow> lite_sup eff" where
  "add_actor_impl t s = ok (set_user ((user s)\<lparr>l_actors := l_actors (user s) @ [t]\<rparr>) s)"

definition add_supervisor_impl :: "nat \<Rightarrow> lite_sup \<Rightarrow> lite_sup eff" where
  "add_supervisor_impl t s = ok (set_user ((user s)\<lparr>l_supervisors := l_supervisors (user s) @ [t]\<rparr>) s)"

text \<open>\<open>new worker_t(this)\<close>: only its number matters to the supervisor.\<close>

definition new_module :: "lite_sup \<Rightarrow> (nat \<times> lite_sup) eff" where
  "new_module s = ok (l_next (user s), set_user ((user s)\<lparr>l_next := Suc (l_next (user s))\<rparr>) s)"

definition lite_create :: "lite post delivery \<Rightarrow> nat \<Rightarrow> (nat \<Rightarrow> string) \<Rightarrow> lite_sup callable" where
  "lite_create dlv self types =
     Callable [] (\<lambda>vs s. and_then (spawn new_module add_actor_impl dlv self types s) (\<lambda>(_, s). ok (vs, s)))"

definition lite_ctor :: "lite post delivery \<Rightarrow> nat \<Rightarrow> (nat \<Rightarrow> string) \<Rightarrow> lite_sup comm_module" where
  "lite_ctor dlv self types = add_handler ''create'' (lite_create dlv self types) (sup_ctor dlv self types)"

definition lite_init :: "message heap \<Rightarrow> nat \<Rightarrow> nat \<Rightarrow> lite_sup" where
  "lite_init h n next =
     sup_init h n \<lparr>p_out = [], p_user = \<lparr>l_actors = [], l_supervisors = [], l_cursor = 0, l_next = next\<rparr>\<rparr>"

definition lite_local :: "(nat \<Rightarrow> string) \<Rightarrow> lite_sup comm_module \<Rightarrow> ptr \<Rightarrow> lite_sup \<Rightarrow> lite_sup eff" where
  "lite_local types c p s = sup_execute types c (set_current_message p s)"

text \<open>With no actors the message goes with the parameter that holds it.\<close>

definition redirect_robin :: "lite post delivery \<Rightarrow> ptr \<Rightarrow> lite_sup \<Rightarrow> lite_sup eff" where
  "redirect_robin dlv p s =
     (if l_actors (user s) \<noteq> []
      then and_then (dlv (l_actors (user s) ! l_cursor (user s)) p s) (\<lambda>s.
           let cursor = Suc (l_cursor (user s)) in
           ok (set_user ((user s)\<lparr>l_cursor := if cursor \<ge> length (l_actors (user s)) then 0 else cursor\<rparr>) s))
      else delete_message p s)"

definition lite_enqueue_base ::
  "string set \<Rightarrow> lite post delivery \<Rightarrow> (nat \<Rightarrow> string) \<Rightarrow> lite_sup comm_module \<Rightarrow> ptr \<Rightarrow> lite_sup \<Rightarrow> lite_sup eff" where
  "lite_enqueue_base system dlv types c p s =
     and_then (get_value (v_heap s) p) (\<lambda>msg.
     if m_command msg \<in> system then lite_local types c p s else redirect_robin dlv p s)"

text \<open>The system commands, the worker and the functions \<open>main\<close> is made of.\<close>

definition smart_system :: "string set" where
  "smart_system = {''sync_contacts'', ''add_link'', ''remove_link'', ''spawn_actor'', ''create''}"

text \<open>
  The messages that \<open>send(supervisor, ...)\<close> makes go to \<open>enqueue_base\<close> of the supervisor. \<open>download_data\<close>
  and \<open>work_data\<close> are types 1 and 2 of the program.
\<close>

definition lite_send ::
  "string set \<Rightarrow> nat \<Rightarrow> (nat \<Rightarrow> string) \<Rightarrow> addr \<Rightarrow> string \<Rightarrow> val list \<Rightarrow> lite_sup \<Rightarrow> lite_sup eff" where
  "lite_send system self types sender name args s =
     (case new_message sender name args s of (p, s) \<Rightarrow>
      lite_enqueue_base system outbox types (lite_ctor outbox self types) p s)"

definition make_task :: "nat \<Rightarrow> (nat \<Rightarrow> string) \<Rightarrow> string \<Rightarrow> val \<Rightarrow> lite_sup \<Rightarrow> lite_sup eff" where
  "make_task self types command task s =
     and_then (sup_address self) (\<lambda>a. lite_send smart_system self types a command [task] s)"

definition make_task_broadcast :: "nat \<Rightarrow> string \<Rightarrow> val \<Rightarrow> lite_sup \<Rightarrow> lite_sup eff" where
  "make_task_broadcast self command task s =
     and_then (sup_address self) (\<lambda>a.
     case new_message a command [task] s of (p, s) \<Rightarrow> broadcast outbox p s)"

primrec times :: "nat \<Rightarrow> ('s \<Rightarrow> 's eff) \<Rightarrow> 's \<Rightarrow> 's eff" where
  "times 0 f s = ok s"
| "times (Suc n) f s = and_then (f s) (times n f)"

definition smart_main :: "nat \<Rightarrow> nat \<Rightarrow> nat \<Rightarrow> (nat \<Rightarrow> string) \<Rightarrow> lite_sup \<Rightarrow> lite_sup eff" where
  "smart_main actors task self types s =
     and_then (times (actors - 1) (lite_send smart_system self types addr_empty ''create'' []) s) (\<lambda>s.
     and_then (times (task - 1) (make_task self types ''download''
       (V_User 1 [V_String ''fb'', V_String ''jack'', V_String ''1''])) s) (\<lambda>s.
     times (task - 1) (make_task_broadcast self ''work_data'' (V_User 2 [V_String ''fb'', V_String ''jack''])) s))"

text \<open>The worker: \<open>tmp_\<close> and the two counters of the program.\<close>

record worker =
  w_tmp :: string
  w_downloads :: "64 word"
  w_works :: "64 word"

definition set_worker_user :: "worker \<Rightarrow> worker actor \<Rightarrow> worker actor" where
  "set_worker_user w s = s\<lparr>a_env := (a_env s)\<lparr>ae_user := w\<rparr>\<rparr>"

definition worker_download :: "worker actor callable" where
  "worker_download =
     Callable [T_User 1] (\<lambda>vs s.
       case vs of [V_User t (V_String url # others)] \<Rightarrow>
         (let w = ae_user (a_env s) in
          ok (vs, set_worker_user (w\<lparr>w_tmp := url, w_downloads := w_downloads w + 1\<rparr>) s))
       | _ \<Rightarrow> ok (vs, s))"

definition worker_work_data :: "worker actor callable" where
  "worker_work_data =
     Callable [T_User 2] (\<lambda>vs s.
       case vs of [V_User t (V_String data # others)] \<Rightarrow>
         (let w = ae_user (a_env s) in
          ok (vs, set_worker_user (w\<lparr>w_tmp := data, w_works := w_works w + 1\<rparr>) s))
       | _ \<Rightarrow> ok (vs, s))"

definition worker_ctor :: "nat \<Rightarrow> (nat \<Rightarrow> string) \<Rightarrow> worker actor comm_module" where
  "worker_ctor self types =
     add_handler ''work_data'' worker_work_data
       (add_handler ''download'' worker_download (actor_ctor self types))"

section \<open>Round robin\<close>

lemma set_user_simps [simp]:
  "v_heap (set_user l s) = v_heap s" "v_contacts (set_user l s) = v_contacts s" "v_current (set_user l s) = v_current s"
  "v_fresh (set_user l s) = v_fresh s" "v_log (set_user l s) = v_log s" "out (set_user l s) = out s"
  "user (set_user l s) = l" "set_user l (set_user l' s) = set_user l s"
  by (simp_all add: set_user_def)

lemma set_user_facts [simp]:
  "heap_ok (set_user l s) = heap_ok s" "sent (set_user l s) = sent s" "contacts_ok self types (set_user l s) = contacts_ok self types s"
  by (simp_all add: heap_ok_def sent_def contacts_ok_def)

text \<open>The cursor is a valid index.\<close>

definition lite_ok :: "lite_sup \<Rightarrow> bool" where
  "lite_ok s \<longleftrightarrow> (if l_actors (user s) = [] then l_cursor (user s) = 0 else l_cursor (user s) < length (l_actors (user s)))"

lemma redirect_robin_ok:
  assumes "lite_ok s" and "l_actors (user s) \<noteq> []"
  defines "k \<equiv> length (l_actors (user s))" and "c \<equiv> l_cursor (user s)"
  shows "redirect_robin outbox p s =
    ok (set_user ((user s)\<lparr>l_cursor := Suc c mod k\<rparr>) (s\<lparr>v_env := posted s [(l_actors (user s) ! c, p)]\<rparr>))"
proof -
  have "Suc c mod k = (if k \<le> Suc c then 0 else Suc c)"
    using assms(1,2) by (auto simp: lite_ok_def k_def c_def not_le dest: le_antisym)
  with assms(2) show ?thesis
    unfolding k_def c_def by (simp add: redirect_robin_def outbox_def set_user_def Let_def)
qed

text \<open>A list of messages handed to the supervisor one after the other.\<close>

primrec enqueue_each :: "string set \<Rightarrow> (nat \<Rightarrow> string) \<Rightarrow> lite_sup comm_module \<Rightarrow> ptr list \<Rightarrow> lite_sup \<Rightarrow> lite_sup eff" where
  "enqueue_each system types c [] s = ok s"
| "enqueue_each system types c (p # ps) s =
     and_then (lite_enqueue_base system outbox types c p s) (enqueue_each system types c ps)"

lemma enqueue_each_ok:
  assumes "lite_ok s" and "l_actors (user s) \<noteq> []"
    and "\<And>p. p \<in> set ps \<Longrightarrow> \<exists>m. get_value (v_heap s) p = ok m \<and> m_command m \<notin> system"
  defines "k \<equiv> length (l_actors (user s))" and "c0 \<equiv> l_cursor (user s)"
  shows "enqueue_each system types c ps s =
    ok (set_user ((user s)\<lparr>l_cursor := (c0 + length ps) mod k\<rparr>)
      (s\<lparr>v_env := posted s (map (\<lambda>i. (l_actors (user s) ! ((c0 + i) mod k), ps ! i)) [0..<length ps])\<rparr>))"
  using assms(1-3) unfolding k_def c0_def
proof (induction ps arbitrary: s)
  case Nil
  then show ?case
    by (simp add: lite_ok_def set_user_def)
next
  case (Cons p ps)
  let ?k = "length (l_actors (user s))" and ?c = "l_cursor (user s)"
  let ?s = "set_user ((user s)\<lparr>l_cursor := Suc ?c mod ?k\<rparr>) (s\<lparr>v_env := posted s [(l_actors (user s) ! ?c, p)]\<rparr>)"
  obtain m where m: "get_value (v_heap s) p = ok m" "m_command m \<notin> system"
    using Cons.prems(3) [of p] by auto
  have one: "lite_enqueue_base system outbox types c p s = ok ?s"
    using m redirect_robin_ok [OF Cons.prems(1,2), of p] by (simp add: lite_enqueue_base_def)
  have s': "lite_ok ?s" "l_actors (user ?s) \<noteq> []"
    using Cons.prems(2) by (simp_all add: lite_ok_def)
  have "enqueue_each system types c ps ?s =
      ok (set_user ((user ?s)\<lparr>l_cursor := (l_cursor (user ?s) + length ps) mod length (l_actors (user ?s))\<rparr>)
        (?s\<lparr>v_env := posted ?s (map (\<lambda>i. (l_actors (user ?s) ! ((l_cursor (user ?s) + i) mod length (l_actors (user ?s))), ps ! i))
          [0..<length ps])\<rparr>))"
    using Cons.prems(3) by (intro Cons.IH [OF s']) auto
  moreover have "?c mod ?k = ?c"
    using Cons.prems(1,2) by (simp add: lite_ok_def)
  ultimately show ?case
    by (simp add: one set_user_def mod_simps upt_conv_Cons map_Suc_upt [symmetric] comp_def del: upt_Suc)
qed

text \<open>How often each index comes up.\<close>

lemma residue_in_window:
  fixes a c k j :: nat
  assumes "j < k"
  shows "card {i. a \<le> i \<and> i < a + k \<and> (c + i) mod k = j} = 1"
proof -
  have inj: "inj_on (\<lambda>i. (c + i) mod k) {a..<a + k}"
  proof (rule inj_onI)
    fix x y
    assume xy: "x \<in> {a..<a + k}" "y \<in> {a..<a + k}" "(c + x) mod k = (c + y) mod k"
    show "x = y"
    proof (rule ccontr)
      assume "x \<noteq> y"
      then have "\<bar>int x - int y\<bar> < int k" "int x - int y \<noteq> 0"
        using xy(1,2) by auto
      moreover have "int k dvd int x - int y"
        using xy(3) by (metis add_diff_cancel_left mod_eq_dvd_iff of_nat_add zmod_int)
      ultimately show False
        using zdvd_not_zless [of "\<bar>int x - int y\<bar>" "int k"] by (simp add: dvd_abs_iff)
    qed
  qed
  have "(\<lambda>i. (c + i) mod k) ` {a..<a + k} \<subseteq> {..<k}" "finite {..<k}"
    using assms by auto
  moreover have "card ((\<lambda>i. (c + i) mod k) ` {a..<a + k}) = card {..<k}"
    using inj by (simp add: card_image)
  ultimately have "(\<lambda>i. (c + i) mod k) ` {a..<a + k} = {..<k}"
    by (simp add: card_subset_eq)
  then obtain i where i: "i \<in> {a..<a + k}" "(c + i) mod k = j"
    using assms by (metis (mono_tags, lifting) image_iff lessThan_iff)
  then have "{i. a \<le> i \<and> i < a + k \<and> (c + i) mod k = j} = {i}"
    using inj by (auto dest: inj_onD)
  then show ?thesis
    by simp
qed

lemma residue_count:
  fixes c k j n :: nat
  assumes j: "j < k"
  shows "card {i. i < n \<and> (c + i) mod k = j} \<in> {n div k, Suc (n div k)}"
proof -
  have fin: "finite {i. i < m \<and> Q i}" for m and Q :: "nat \<Rightarrow> bool"
    by simp
  have win: "card {i. i < a + q * k \<and> (c + i) mod k = j} = card {i. i < a \<and> (c + i) mod k = j} + q" for a q
  proof (induction q)
    case (Suc q)
    let ?A = "{i. i < a + q * k \<and> (c + i) mod k = j}"
    let ?B = "{i. a + q * k \<le> i \<and> i < (a + q * k) + k \<and> (c + i) mod k = j}"
    have "finite ?A" "finite ?B" "?A \<inter> ?B = {}"
      by (auto simp del: add_Suc_right)
    moreover have "{i. i < a + Suc q * k \<and> (c + i) mod k = j} = ?A \<union> ?B"
      by (auto simp: ac_simps)
    ultimately have "card {i. i < a + Suc q * k \<and> (c + i) mod k = j} = card ?A + card ?B"
      by (simp only: card_Un_disjoint)
    with Suc residue_in_window [OF j, of "a + q * k" c] show ?case
      by simp
  qed simp
  have "card {i. i < n mod k \<and> (c + i) mod k = j} \<le> card {i. 0 \<le> i \<and> i < 0 + k \<and> (c + i) mod k = j}"
    using j by (intro card_mono) (auto intro: less_trans [OF _ mod_less_divisor])
  then have "card {i. i < n mod k \<and> (c + i) mod k = j} \<le> 1"
    using residue_in_window [OF j, of 0 c] by simp
  moreover have "card {i. i < n \<and> (c + i) mod k = j} = card {i. i < n mod k \<and> (c + i) mod k = j} + n div k"
    using win [of "n mod k" "n div k"] by (simp add: mult.commute)
  ultimately show ?thesis
    unfolding insert_iff empty_iff by linarith
qed

section \<open>The program of smart-send\<close>

text \<open>
  After \<open>n\<close> actors were created: their numbers start at \<open>k\<close>, each is in \<open>actors_\<close> and a contact.
\<close>

definition smart_inv :: "nat \<Rightarrow> (nat \<Rightarrow> string) \<Rightarrow> nat \<Rightarrow> nat \<Rightarrow> lite_sup \<Rightarrow> bool" where
  "smart_inv self types k n s \<longleftrightarrow>
     contacts_ok self types s \<and> heap_ok s \<and> lite_ok s \<and> self < k \<and> (\<forall>m \<ge> k. types m = ''bot'') \<and>
     l_actors (user s) = [k..<k + n] \<and> l_next (user s) = k + n \<and>
     v_contacts s = (if n = 0 then [] else [(''bot'', map A_Mod [k..<k + n])])"

lemma smart_invD:
  assumes "smart_inv self types k n s"
  shows "contacts_ok self types s" and "heap_ok s" and "lite_ok s" and "self < k" and "\<And>m. k \<le> m \<Longrightarrow> types m = ''bot''"
    and "l_actors (user s) = [k..<k + n]" and "l_next (user s) = k + n"
    and "v_contacts s = (if n = 0 then [] else [(''bot'', map A_Mod [k..<k + n])])"
  using assms by (simp_all add: smart_inv_def)

definition sent_count :: "string \<Rightarrow> lite_sup \<Rightarrow> nat" where
  "sent_count c s = length (filter (\<lambda>(n, m). m_command m = c) (sent s))"

lemma cell_new_node: "cell (new_node h n m) (Node n) = Some m"
  by (simp add: new_node_def)

lemma single_contact:
  assumes "distinct (map fst xs)" and "map_of xs = [k \<mapsto> v]"
  shows "xs = [(k, v)]"
proof -
  have "set xs = {(k, v)}"
    using assms by (auto simp: map_of_eq_Some_iff [OF assms(1), symmetric] split: if_splits)
  moreover have "distinct xs"
    using assms(1) by (simp add: distinct_map)
  ultimately show ?thesis
    using distinct_card [of xs] by (cases xs; cases "tl xs") auto
qed

lemma lite_ctor_handlers:
  "cm_handlers (lite_ctor dlv self types) ''create'' = Some (lite_create dlv self types)"
  by (simp add: lite_ctor_def sup_ctor_handlers)

lemma create_ok:
  assumes inv: "smart_inv self types k n s"
  shows "\<exists>s'. lite_send smart_system self types addr_empty ''create'' [] s = ok s' \<and> smart_inv self types k (Suc n) s' \<and>
    sent s' = sent s @ [(k + n, make_message (A_Mod self) ''add_link'' [])]"
proof -
  note I = smart_invD [OF inv]
  let ?m = "make_message addr_empty ''create'' []" and ?p = "Node (v_fresh s)"
  let ?s0 = "s\<lparr>v_heap := new_node (v_heap s) (v_fresh s) ?m, v_fresh := Suc (v_fresh s)\<rparr>"
  let ?l = "(user s)\<lparr>l_next := Suc (k + n), l_actors := [k..<k + Suc n]\<rparr>"
  let ?s1 = "set_user ?l (set_current_message ?p ?s0)"
  have new: "new_message addr_empty ''create'' [] s = (?p, ?s0)"
    by (simp add: new_message_def make_message_ptr_def)
  have g: "get_value (v_heap ?s0) ?p = ok ?m" "live (v_heap ?s1) (v_current ?s1)" "v_current ?s1 \<noteq> Node (v_fresh ?s1)"
    "the (cell (v_heap ?s1) (v_current ?s1)) = ?m"
    by (simp_all add: get_value_def new_node_def live_def set_current_message_def)
  have c1: "contacts_ok self types ?s1" "heap_ok ?s1" "sent ?s1 = sent s"
    using I sent_new_node [of s ?m] heap_ok_cong [of ?s1 ?s0]
    by (auto simp: contacts_ok_def heap_ok_def set_current_message_def sent_def set_user_def)
  have sn: "k + n \<noteq> self" "m_sender (the (cell (v_heap ?s1) (v_current ?s1))) = A_Null"
    using I g(4) by (simp_all add: addr_empty_def)
  obtain s' where s': "sync outbox self types (A_Mod (k + n)) ?s1 = ok s'"
      "sent s' = sent ?s1 @ introductions self (k + n) A_Null" "heap_ok s'" "contacts_ok self types s'" "calm ?s1 s'"
      "map_of (v_contacts s') = (map_of (v_contacts ?s1))(types (k + n) \<mapsto>
        (case map_of (v_contacts ?s1) (types (k + n)) of None \<Rightarrow> [] | Some as \<Rightarrow> as) @ [A_Mod (k + n)])"
    using sync_outbox [OF c1(1,2) sn(1) g(2,3)] sn(2) by auto
  have "map_of (v_contacts s') = [''bot'' \<mapsto> map A_Mod [k..<k + Suc n]]"
    using s'(6) I by (simp add: set_current_message_def split: if_splits)
  then have cs: "v_contacts s' = [(''bot'', map A_Mod [k..<k + Suc n])]"
    using s'(4) by (intro single_contact) (simp_all add: contacts_ok_def)
  have u: "user s' = ?l"
    using s'(5) by (simp add: calm_def)
  have sp: "spawn new_module add_actor_impl outbox self types (set_current_message ?p ?s0) = ok (A_Mod (k + n), s')"
    using s'(1) I by (simp add: spawn_def new_module_def add_actor_impl_def addr_ctor_def set_user_def set_current_message_def)
  have "sup_execute types (lite_ctor outbox self types) (set_current_message ?p ?s0) = ok s'"
  proof -
    have r: "read_message sup_ctx (current_message sup_ctx (set_current_message ?p ?s0)) (set_current_message ?p ?s0) = ok ?m"
      using g(1) by (simp add: set_current_message_def)
    have h: "cm_handlers (lite_ctor outbox self types) (m_command ?m) = Some (lite_create outbox self types)"
      by (simp add: lite_ctor_handlers)
    show ?thesis
      unfolding sup_execute_def execute_handler [OF r h]
      by (simp add: invoke_def transformer_0_def lite_create_def sp)
  qed
  then have "lite_send smart_system self types addr_empty ''create'' [] s = ok s'"
    using g(1) by (simp add: lite_send_def new lite_enqueue_base_def smart_system_def lite_local_def)
  moreover have "l_cursor (user s) < Suc n"
    using I(3,6) by (simp add: lite_ok_def split: if_splits)
  then have "smart_inv self types k (Suc n) s'"
    using I s'(3,4) cs u by (auto simp: smart_inv_def lite_ok_def)
  ultimately show ?thesis
    using s'(2) c1(3) by (intro exI [of _ s']) (simp add: introductions_def)
qed

lemma task_ok:
  assumes inv: "smart_inv self types k n s" and n: "0 < n" and c: "c \<notin> smart_system"
  shows "\<exists>s'. make_task self types c v s = ok s' \<and> smart_inv self types k n s' \<and>
    sent s' = sent s @ [(k + l_cursor (user s), make_message (A_Mod self) c [v])] \<and>
    l_cursor (user s') = Suc (l_cursor (user s)) mod n"
proof -
  note I = smart_invD [OF inv]
  let ?m = "make_message (A_Mod self) c [v]" and ?p = "Node (v_fresh s)" and ?c = "l_cursor (user s)"
  let ?s0 = "s\<lparr>v_heap := new_node (v_heap s) (v_fresh s) ?m, v_fresh := Suc (v_fresh s)\<rparr>"
  let ?s1 = "set_user ((user s)\<lparr>l_cursor := Suc ?c mod n\<rparr>) (?s0\<lparr>v_env := posted s [(k + ?c, ?p)]\<rparr>)"
  have new: "new_message (A_Mod self) c [v] s = (?p, ?s0)"
    by (simp add: new_message_def make_message_ptr_def)
  have cur: "?c < n"
    using I(3,6) n by (simp add: lite_ok_def)
  have "redirect_robin outbox ?p ?s0 = ok ?s1"
    using redirect_robin_ok [of ?s0 ?p] I n cur by (simp add: lite_ok_def)
  then have "make_task self types c v s = ok ?s1"
    using c by (simp add: make_task_def sup_address_def addr_ctor_def lite_send_def new lite_enqueue_base_def
        get_value_def new_node_def live_def)
  moreover have "sent ?s1 = sent s @ [(k + ?c, ?m)]"
    using I(2) by (fastforce simp: sent_def heap_ok_def new_node_def)
  moreover have "smart_inv self types k n ?s1"
    using I n heap_ok_cong by (fastforce simp: smart_inv_def contacts_ok_def heap_ok_def lite_ok_def)
  ultimately show ?thesis
    by (intro exI [of _ ?s1]) simp
qed

lemma task_broadcast_ok:
  assumes inv: "smart_inv self types k n s"
  shows "\<exists>s'. make_task_broadcast self c v s = ok s' \<and> smart_inv self types k n s' \<and>
    sent s' = sent s @ map (\<lambda>i. (i, make_message (A_Mod self) c [v])) [k..<k + n]"
proof -
  note I = smart_invD [OF inv]
  let ?m = "make_message (A_Mod self) c [v]" and ?k = "v_fresh s"
  let ?s0 = "s\<lparr>v_heap := new_node (v_heap s) ?k ?m, v_fresh := Suc ?k\<rparr>"
  have new: "new_message (A_Mod self) c [v] s = (Node ?k, ?s0)"
    by (simp add: new_message_def make_message_ptr_def)
  have h0: "heap_ok ?s0" "Node ?k \<notin> snd ` set (out s)"
    using I(2) by (fastforce simp: heap_ok_def)+
  have p: "contacts_ok self types ?s0" "heap_ok ?s0" "live (v_heap ?s0) (Node ?k)" "?k < v_fresh ?s0"
    "Node ?k \<notin> snd ` set (out ?s0)" "sent ?s0 = sent s" "the (cell (v_heap ?s0) (Node ?k)) = ?m"
    using I(1) h0 sent_new_node [OF I(2), of ?m] by (simp_all add: contacts_ok_def cell_new_node)
  have t: "concat (map snd (v_contacts ?s0)) = map A_Mod [k..<k + n]"
    using I by simp
  obtain s' where s': "broadcast outbox (Node ?k) ?s0 = ok s'"
      "sent s' = sent ?s0 @ map (\<lambda>a. (the_inv A_Mod a, msg_clone (the (cell (v_heap ?s0) (Node ?k))))) (concat (map snd (v_contacts ?s0)))"
      "v_contacts s' = v_contacts s" "heap_ok s'" "user s' = user s"
    using broadcast_outbox [OF p(1-5)] by auto
  have "msg_clone ?m = ?m"
    by (simp add: msg_clone_def make_message_def addr_copy_ctor_def message_ctor_def addr_move_ctor_def addr_swap_def)
  moreover have "the_inv A_Mod (A_Mod i) = i" for i
    by (rule the_inv_f_f) (simp add: inj_def)
  ultimately have "sent s' = sent s @ map (\<lambda>i. (i, ?m)) [k..<k + n]"
    unfolding s'(2) t p(6,7) by simp
  moreover have "make_task_broadcast self c v s = ok s'"
    using s'(1) by (simp add: make_task_broadcast_def sup_address_def addr_ctor_def new)
  moreover have "smart_inv self types k n s'"
    using I s'(3-5) by (auto simp: smart_inv_def contacts_ok_def lite_ok_def)
  ultimately show ?thesis
    by blast
qed

lemma times_create:
  assumes "smart_inv self types k n s"
  shows "\<exists>s'. times m (lite_send smart_system self types addr_empty ''create'' []) s = ok s' \<and>
    smart_inv self types k (n + m) s' \<and>
    sent s' = sent s @ map (\<lambda>i. (i, make_message (A_Mod self) ''add_link'' [])) [k + n..<k + n + m]"
  using assms
proof (induction m arbitrary: n s)
  case (Suc m)
  obtain s1 where s1: "lite_send smart_system self types addr_empty ''create'' [] s = ok s1" "smart_inv self types k (Suc n) s1"
      "sent s1 = sent s @ [(k + n, make_message (A_Mod self) ''add_link'' [])]"
    using create_ok [OF Suc.prems] by blast
  with Suc.IH [OF s1(2)] show ?case
    by (auto simp: upt_conv_Cons simp del: upt_Suc)
qed simp

lemma times_task:
  assumes "smart_inv self types k n s" and n: "0 < n" and c: "c \<notin> smart_system"
  shows "\<exists>s'. times m (make_task self types c v) s = ok s' \<and> smart_inv self types k n s' \<and>
    sent s' = sent s @ map (\<lambda>i. (k + (l_cursor (user s) + i) mod n, make_message (A_Mod self) c [v])) [0..<m]"
  using assms(1)
proof (induction m arbitrary: s)
  case (Suc m)
  obtain s1 where s1: "make_task self types c v s = ok s1" "smart_inv self types k n s1"
      "sent s1 = sent s @ [(k + l_cursor (user s), make_message (A_Mod self) c [v])]"
      "l_cursor (user s1) = Suc (l_cursor (user s)) mod n"
    using task_ok [OF Suc.prems n c] by blast
  have "l_cursor (user s) mod n = l_cursor (user s)"
    using smart_invD(3,6) [OF Suc.prems] n by (simp add: lite_ok_def)
  moreover obtain s2 where "times m (make_task self types c v) s1 = ok s2" "smart_inv self types k n s2"
      "sent s2 = sent s1 @ map (\<lambda>i. (k + (l_cursor (user s1) + i) mod n, make_message (A_Mod self) c [v])) [0..<m]"
    using Suc.IH [OF s1(2)] by blast
  ultimately show ?case
    using s1 by (simp add: upt_conv_Cons map_Suc_upt [symmetric] comp_def mod_simps del: upt_Suc)
qed simp

lemma times_broadcast:
  assumes "smart_inv self types k n s"
  shows "\<exists>s'. times m (make_task_broadcast self c v) s = ok s' \<and> smart_inv self types k n s' \<and>
    sent s' = sent s @ concat (replicate m (map (\<lambda>i. (i, make_message (A_Mod self) c [v])) [k..<k + n]))"
  using assms
proof (induction m arbitrary: s)
  case (Suc m)
  obtain s1 where s1: "make_task_broadcast self c v s = ok s1" "smart_inv self types k n s1"
      "sent s1 = sent s @ map (\<lambda>i. (i, make_message (A_Mod self) c [v])) [k..<k + n]"
    using task_broadcast_ok [OF Suc.prems] by blast
  with Suc.IH [OF s1(2)] show ?case
    by auto
qed simp

lemma smart_init: "self < k \<Longrightarrow> (\<And>m. k \<le> m \<Longrightarrow> types m = ''bot'') \<Longrightarrow> smart_inv self types k 0 (lite_init h f k)"
  by (simp add: smart_inv_def lite_init_def sup_init_def contacts_ok_def heap_ok_def lite_ok_def)

lemma count_list_distinct: "distinct xs \<Longrightarrow> x \<in> set xs \<Longrightarrow> count_list xs x = 1"
  by (induction xs) (auto simp: count_list_0_iff)

lemma count_const: "length (filter (\<lambda>(n, m). m_command m = c') (concat (replicate m (map (\<lambda>i. (i, make_message a c vs)) is)))) =
    (if c = c' then m * length is else 0)"
  by (induction m) (auto simp: filter_concat comp_def)

section \<open>Properties\<close>

text \<open>
  C34. Round robin: messages that are not system commands go to the actors in turn, each message to one
  actor, starting where the last one stopped, and the numbers of messages any two actors get differ by
  at most one; without actors such a message is deleted and reaches nobody.
\<close>

theorem round_robin_fair:
  assumes "lite_ok s" and "\<forall>p \<in> set ps. \<exists>m. get_value (v_heap s) p = ok m \<and> m_command m \<notin> system"
  defines "k \<equiv> length (l_actors (user s))" and "c0 \<equiv> l_cursor (user s)"
  shows "(0 < k \<longrightarrow>
      (\<exists>s'. enqueue_each system types c ps s = ok s' \<and>
         out s' = out s @ map (\<lambda>i. (l_actors (user s) ! ((c0 + i) mod k), ps ! i)) [0..<length ps] \<and>
         user s' = (user s)\<lparr>l_cursor := (c0 + length ps) mod k\<rparr> \<and> v_heap s' = v_heap s) \<and>
      (\<forall>j < k. card {i. i < length ps \<and> (c0 + i) mod k = j} \<in> {length ps div k, Suc (length ps div k)})) \<and>
    (k = 0 \<longrightarrow> (\<forall>p \<in> set ps. lite_enqueue_base system outbox types c p s = delete_message p s))"
proof (intro conjI impI allI ballI)
  assume "0 < k"
  then show "\<exists>s'. enqueue_each system types c ps s = ok s' \<and>
         out s' = out s @ map (\<lambda>i. (l_actors (user s) ! ((c0 + i) mod k), ps ! i)) [0..<length ps] \<and>
         user s' = (user s)\<lparr>l_cursor := (c0 + length ps) mod k\<rparr> \<and> v_heap s' = v_heap s"
    using enqueue_each_ok [OF assms(1), of ps system types c] assms(2) by (simp add: k_def c0_def)
  show "card {i. i < length ps \<and> (c0 + i) mod k = j} \<in> {length ps div k, Suc (length ps div k)}" if "j < k" for j
    using residue_count [OF that] .
next
  fix p
  assume "k = 0" "p \<in> set ps"
  with assms(2) show "lite_enqueue_base system outbox types c p s = delete_message p s"
    by (force simp: lite_enqueue_base_def redirect_robin_def k_def)
qed

text \<open>Three messages and two actors, the cursor at the second one.\<close>

definition demo_lite :: lite_sup where
  "demo_lite = set_user \<lparr>l_actors = [4, 5], l_supervisors = [], l_cursor = 1, l_next = 6\<rparr>
     (lite_init (new_node (new_node (new_node empty_heap 1 (make_message A_Null ''x'' [])) 2 (make_message A_Null ''y'' []))
       3 (make_message A_Null ''z'' [])) 7 6)"

lemma demo_lite_simps:
  "l_actors (user demo_lite) = [4, 5]" "l_cursor (user demo_lite) = 1" "out demo_lite = []" "lite_ok demo_lite"
  by (simp_all add: demo_lite_def lite_init_def sup_init_def lite_ok_def)

lemma demo_lite_messages:
  "\<forall>p \<in> set [Node 1, Node 2, Node 3]. \<exists>m. get_value (v_heap demo_lite) p = ok m \<and> m_command m \<notin> smart_system"
  by (simp add: demo_lite_def lite_init_def sup_init_def new_node_def get_value_def live_def smart_system_def make_message_def)

lemma round_robin_fair_witness:
  "\<exists>s'. enqueue_each smart_system (\<lambda>_. ''storage'') (comm_ctor []) [Node 1, Node 2, Node 3] demo_lite = ok s' \<and>
     out s' = [(5, Node 1), (4, Node 2), (5, Node 3)] \<and> l_cursor (user s') = 0"
proof -
  have i: "[0..<length [Node 1, Node 2, Node 3]] = [0, 1, 2]"
    by (simp add: upt_rec)
  show ?thesis
    using round_robin_fair [OF demo_lite_simps(4) demo_lite_messages, of "\<lambda>_. ''storage''" "comm_ctor []"]
    unfolding demo_lite_simps i by (auto simp: mod_Suc numeral_3_eq_3 numeral_2_eq_2)
qed

text \<open>
  What the main program of \<open>smart-send\<close> sends: with \<open>actors - 1\<close> workers created, each of the
  \<open>task - 1\<close> downloads goes to one worker and each of the \<open>task - 1\<close> broadcasts to all of them, so that
  for its 10 and 10000 there are 9999 downloads but 89991 pieces of work, where the assertion at its end
  expects 9999 of either.
\<close>

theorem smart_send_counts:
  assumes "self < k" and "\<forall>m \<ge> k. types m = ''bot''" and "1 < actors"
  shows "\<exists>s. smart_main actors task self types (lite_init h f k) = ok s \<and>
    sent_count ''download'' s = task - 1 \<and> sent_count ''work_data'' s = (task - 1) * (actors - 1) \<and>
    (\<forall>i < actors - 1. count_list (map fst (filter (\<lambda>(n, m). m_command m = ''work_data'') (sent s))) (k + i) = task - 1)"
proof -
  let ?s0 = "lite_init h f k :: lite_sup" and ?n = "actors - 1" and ?t = "task - 1"
  let ?d = "V_User 1 [V_String ''fb'', V_String ''jack'', V_String ''1'']" and ?w = "V_User 2 [V_String ''fb'', V_String ''jack'']"
  have "smart_inv self types k 0 ?s0"
    using assms(1,2) by (simp add: smart_init)
  then obtain s1 where s1: "times ?n (lite_send smart_system self types addr_empty ''create'' []) ?s0 = ok s1"
      "smart_inv self types k ?n s1"
      "sent s1 = sent ?s0 @ map (\<lambda>i. (i, make_message (A_Mod self) ''add_link'' [])) [k + 0..<k + 0 + ?n]"
    using times_create [of self types k 0 ?s0 ?n] by auto
  have n: "0 < ?n" "''download'' \<notin> smart_system"
    using assms(3) by (auto simp: smart_system_def)
  obtain s2 where s2: "times ?t (make_task self types ''download'' ?d) s1 = ok s2" "smart_inv self types k ?n s2"
      "sent s2 = sent s1 @ map (\<lambda>i. (k + (l_cursor (user s1) + i) mod ?n, make_message (A_Mod self) ''download'' [?d])) [0..<?t]"
    using times_task [OF s1(2) n] by blast
  obtain s3 where s3: "times ?t (make_task_broadcast self ''work_data'' ?w) s2 = ok s3" "smart_inv self types k ?n s3"
      "sent s3 = sent s2 @ concat (replicate ?t (map (\<lambda>i. (i, make_message (A_Mod self) ''work_data'' [?w])) [k..<k + ?n]))"
    using times_broadcast [OF s2(2)] by blast
  have main: "smart_main actors task self types ?s0 = ok s3"
    using s1(1) s2(1) s3(1) by (simp add: smart_main_def)
  have "sent ?s0 = []"
    by (simp add: lite_init_def sup_init_def sent_def)
  then have sent: "sent s3 = map (\<lambda>i. (i, make_message (A_Mod self) ''add_link'' [])) [k..<k + ?n] @
      map (\<lambda>i. (k + (l_cursor (user s1) + i) mod ?n, make_message (A_Mod self) ''download'' [?d])) [0..<?t] @
      concat (replicate ?t (map (\<lambda>i. (i, make_message (A_Mod self) ''work_data'' [?w])) [k..<k + ?n]))"
    using s1(3) s2(3) s3(3) by simp
  have w: "filter (\<lambda>(n, m). m_command m = ''work_data'') (sent s3) =
      concat (replicate ?t (map (\<lambda>i. (i, make_message (A_Mod self) ''work_data'' [?w])) [k..<k + ?n]))"
    unfolding sent by (simp add: comp_def filter_concat)
  have "count_list (map fst (concat (replicate m (map (\<lambda>i. (i, x)) [k..<k + ?n])))) (k + i) = m" if "i < ?n" for i m and x :: message
  proof -
    have "count_list [k..<k + ?n] (k + i) = 1"
      using that by (simp add: count_list_distinct)
    then show ?thesis
      by (induction m) (simp_all add: comp_def)
  qed
  moreover have "sent_count ''download'' s3 = ?t"
    unfolding sent_count_def sent by (simp add: comp_def count_const)
  moreover have "sent_count ''work_data'' s3 = ?t * ?n"
    unfolding sent_count_def w by (simp add: length_concat sum_list_replicate)
  ultimately show ?thesis
    using main w by auto
qed

lemma smart_send_counts_witness:
  "\<exists>s. smart_main 10 10000 0 (\<lambda>_. ''bot'') (lite_init empty_heap 0 1) = ok s \<and>
     sent_count ''download'' s = 9999 \<and> sent_count ''work_data'' s = 89991"
  using smart_send_counts [of 0 1 "\<lambda>_. ''bot''" 10 10000 empty_heap 0] by auto

end
