(* ===== verification/World.thy ===== *)
theory World
  imports Actor Supervisor "HOL-Library.More_List"
begin

text \<open>
  All modules of a program on one heap: \<open>enqueue\<close> of a module, from whatever code it is called, runs
  \<open>enqueue_base\<close> of that module on its own members; actors are run by the executor of their supervisor.
  The classes a program adds are described by a table, \<open>program\<close>.
\<close>

section \<open>State\<close>

text \<open>
  The executors: \<open>Inline mx r\<close> is the \<open>dummy_executor\<close> of the examples, which runs a job inside
  \<open>execute\<close> and, if \<open>r\<close>, releases it; \<open>Pool mx\<close> is \<open>executor_t\<close>, which queues it.
\<close>

datatype executor_kind = Inline nat bool | Pool nat

text \<open>
  The members of an actor and of a supervisor that are not on the message heap; \<open>'k\<close> are the classes of
  the program, \<open>'u\<close> the members they add.
\<close>

record 'u actor_members =
  o_mbox :: srq
  o_flags :: run_state
  o_current :: ptr
  o_device :: "nat option"
  o_rc :: "64 word"
  o_alive :: bool
  o_contacts :: "string \<rightharpoonup> addr"
  o_super :: nat
  o_user :: 'u

record 'u sup_members =
  so_contacts :: "(string \<times> addr list) list"
  so_current :: ptr
  so_executor :: executor_kind
  so_user :: 'u

datatype ('k, 'u) obj =
    Actor_Obj (obj_class: 'k) (obj_type: string) "'u actor_members"
  | Sup_Obj (obj_class: 'k) (obj_type: string) "'u sup_members"

text \<open>\<open>w_jobs\<close>: the actors queued in the pools, in order.\<close>

record ('k, 'u) world =
  w_heap :: "message heap"
  w_fresh :: nat
  w_log :: "log list"
  w_objs :: "('k, 'u) obj list"
  w_jobs :: "nat list"

definition types_of :: "('k, 'u) world \<Rightarrow> nat \<Rightarrow> string" where
  "types_of w = nth_default [] (map obj_type (w_objs w))"

text \<open>
  The state the code of a module works on: its members, the heap, and, beside the members its class adds,
  the rest of the world, in which what is in the view is blank (its own entry in \<open>w_objs\<close> only tells its
  class and type).
\<close>

type_synonym ('k, 'u) actor_view = "('u \<times> ('k, 'u) world) actor"
type_synonym ('k, 'u) sup_view = "('u \<times> ('k, 'u) world) sup"

definition get_actor :: "'u actor_members \<Rightarrow> ('k, 'u) world \<Rightarrow> ('k, 'u) actor_view" where
  "get_actor a w =
     \<lparr>a_heap = w_heap w, a_mbox = o_mbox a, a_flags = o_flags a, a_current = o_current a,
      a_executor = o_device a, a_rc = o_rc a, a_alive = o_alive a,
      a_env = \<lparr>ae_contacts = o_contacts a, ae_log = w_log w,
        ae_user = (o_user a, w\<lparr>w_heap := empty_heap, w_log := []\<rparr>)\<rparr>\<rparr>"

definition put_actor :: "nat \<Rightarrow> ('k, 'u) actor_view \<Rightarrow> ('k, 'u) world" where
  "put_actor n s =
     (case ae_user (a_env s) of (u, w) \<Rightarrow>
      (case w_objs w ! n of
        Actor_Obj k t a \<Rightarrow>
          w\<lparr>w_heap := a_heap s, w_log := ae_log (a_env s),
            w_objs := (w_objs w)[n := Actor_Obj k t
              \<lparr>o_mbox = a_mbox s, o_flags = a_flags s, o_current = a_current s, o_device = a_executor s,
               o_rc = a_rc s, o_alive = a_alive s, o_contacts = ae_contacts (a_env s), o_super = o_super a,
               o_user = u\<rparr>]\<rparr>
      | Sup_Obj k t a \<Rightarrow> w))"

definition get_sup :: "'u sup_members \<Rightarrow> ('k, 'u) world \<Rightarrow> ('k, 'u) sup_view" where
  "get_sup a w =
     \<lparr>v_heap = w_heap w, v_contacts = so_contacts a, v_current = so_current a, v_fresh = w_fresh w,
      v_log = w_log w, v_env = (so_user a, w\<lparr>w_heap := empty_heap, w_fresh := 0, w_log := []\<rparr>)\<rparr>"

definition put_sup :: "nat \<Rightarrow> ('k, 'u) sup_view \<Rightarrow> ('k, 'u) world" where
  "put_sup n s =
     (case v_env s of (u, w) \<Rightarrow>
      (case w_objs w ! n of
        Sup_Obj k t a \<Rightarrow>
          w\<lparr>w_heap := v_heap s, w_fresh := v_fresh s, w_log := v_log s,
            w_objs := (w_objs w)[n := Sup_Obj k t
              \<lparr>so_contacts = v_contacts s, so_current = v_current s, so_executor = so_executor a, so_user = u\<rparr>]\<rparr>
      | Actor_Obj k t a \<Rightarrow> w))"

section \<open>Delivery\<close>

text \<open>
  \<open>enqueue\<close> called by the code of module \<open>self\<close>: its members are written back, the other module does
  what it does, and the members are read again, for it may have called back.
\<close>

type_synonym ('k, 'u) deliver = "nat \<Rightarrow> ptr \<Rightarrow> ('k, 'u) world \<Rightarrow> ('k, 'u) world eff"

definition actor_again :: "nat \<Rightarrow> ('k, 'u) world \<Rightarrow> ('k, 'u) actor_view eff" where
  "actor_again self w =
     (case w_objs w ! self of Actor_Obj k t a \<Rightarrow> ok (get_actor a w) | Sup_Obj k t a \<Rightarrow> fail Wild_Deref)"

definition sup_again :: "nat \<Rightarrow> ('k, 'u) world \<Rightarrow> ('k, 'u) sup_view eff" where
  "sup_again self w =
     (case w_objs w ! self of Sup_Obj k t a \<Rightarrow> ok (get_sup a w) | Actor_Obj k t a \<Rightarrow> fail Wild_Deref)"

definition from_actor :: "('k, 'u) deliver \<Rightarrow> nat \<Rightarrow> nat \<Rightarrow> ptr \<Rightarrow> ('k, 'u) actor_view \<Rightarrow> ('k, 'u) actor_view eff" where
  "from_actor dl self n p s = and_then (dl n p (put_actor self s)) (actor_again self)"

definition from_sup :: "('k, 'u) deliver \<Rightarrow> nat \<Rightarrow> ('u \<times> ('k, 'u) world) delivery" where
  "from_sup dl self n p s = and_then (dl n p (put_sup self s)) (sup_again self)"

text \<open>\<open>send\<close> and \<open>link\<close> called by an actor.\<close>

definition actor_send ::
  "('k, 'u) deliver \<Rightarrow> nat \<Rightarrow> addr \<Rightarrow> addr \<Rightarrow> string \<Rightarrow> val list \<Rightarrow> ('k, 'u) actor_view \<Rightarrow> ('k, 'u) actor_view eff" where
  "actor_send dl self a sender name args s =
     (case ae_user (a_env s) of (u, w) \<Rightarrow>
      case make_message_ptr (w_fresh w) sender name args (a_heap s) of (p, h) \<Rightarrow>
      and_then (addr_deref a) (\<lambda>n.
      from_actor dl self n p
        (s\<lparr>a_heap := h, a_env := (a_env s)\<lparr>ae_user := (u, w\<lparr>w_fresh := Suc (w_fresh w)\<rparr>)\<rparr>\<rparr>)))"

definition actor_link ::
  "('k, 'u) deliver \<Rightarrow> nat \<Rightarrow> addr \<Rightarrow> addr \<Rightarrow> ('k, 'u) actor_view \<Rightarrow> ('k, 'u) actor_view eff" where
  "actor_link dl self a1 a2 s =
     and_then (actor_send dl self a1 a2 ''add_link'' [] s) (\<lambda>s. actor_send dl self a2 a1 ''add_link'' [] s)"

text \<open>
  The classes of a program: the handlers of its actors and supervisors, given how messages are delivered,
  and \<open>enqueue_base\<close> of its supervisors, given that and their \<open>execute\<close>.
\<close>

record ('k, 'u) program =
  pr_actor :: "'k \<Rightarrow> ('k, 'u) deliver \<Rightarrow> nat \<Rightarrow> (nat \<Rightarrow> string) \<Rightarrow> ('k, 'u) actor_view comm_module"
  pr_sup :: "'k \<Rightarrow> ('k, 'u) deliver \<Rightarrow> nat \<Rightarrow> (nat \<Rightarrow> string) \<Rightarrow> ('k, 'u) sup_view comm_module"
  pr_enqueue :: "'k \<Rightarrow> ('k, 'u) deliver \<Rightarrow> nat \<Rightarrow>
    (('k, 'u) sup_view \<Rightarrow> ('k, 'u) sup_view eff) \<Rightarrow> ptr \<Rightarrow> ('k, 'u) sup_view \<Rightarrow> ('k, 'u) sup_view eff"

text \<open>\<open>supervisor()->executor()->execute(this)\<close>, called in \<open>enqueue_base\<close>.\<close>

definition executor_of :: "nat \<Rightarrow> ('k, 'u) world \<Rightarrow> executor_kind eff" where
  "executor_of n w =
     (case w_objs w ! n of Sup_Obj k t a \<Rightarrow> ok (so_executor a) | Actor_Obj k t a \<Rightarrow> fail Wild_Deref)"

definition run_view ::
  "('k, 'u) program \<Rightarrow> ('k, 'u) deliver \<Rightarrow> 'k \<Rightarrow> nat \<Rightarrow> nat \<Rightarrow> ('k, 'u) actor_view \<Rightarrow> ('k, 'u) actor_view eff" where
  "run_view P dl k mx self s =
     and_then (run is_high_priority
       (\<lambda>s. let types = types_of (snd (ae_user (a_env s))) in actor_execute types (pr_actor P k dl self types) s)
       None mx s) (\<lambda>(_, s). ok s)"

definition inline_execute :: "('k, 'u) program \<Rightarrow> ('k, 'u) deliver \<Rightarrow> 'k \<Rightarrow> nat \<Rightarrow> bool \<Rightarrow> nat \<Rightarrow>
    ('k, 'u) actor_view \<Rightarrow> ('k, 'u) actor_view eff" where
  "inline_execute P dl k mx r self s =
     and_then (run_view P dl k mx self s) (\<lambda>s. ok (if r then release_impl s else s))"

definition queue_job :: "nat \<Rightarrow> ('k, 'u) actor_view \<Rightarrow> ('k, 'u) actor_view" where
  "queue_job self s =
     (case ae_user (a_env s) of (u, w) \<Rightarrow>
      s\<lparr>a_env := (a_env s)\<lparr>ae_user := (u, w\<lparr>w_jobs := w_jobs w @ [self]\<rparr>)\<rparr>\<rparr>)"

definition executor_execute_actor :: "('k, 'u) program \<Rightarrow> ('k, 'u) deliver \<Rightarrow> 'k \<Rightarrow> executor_kind \<Rightarrow> nat \<Rightarrow>
    ('k, 'u) actor_view \<Rightarrow> ('k, 'u) actor_view eff" where
  "executor_execute_actor P dl k x self s =
     (case x of Inline mx r \<Rightarrow> inline_execute P dl k mx r self s | Pool mx \<Rightarrow> ok (queue_job self s))"

text \<open>
  Delivery to module \<open>n\<close>; the fuel bounds how deep calls of \<open>enqueue\<close> nest.
\<close>

primrec deliver :: "('k, 'u) program \<Rightarrow> nat \<Rightarrow> ('k, 'u) deliver" where
  "deliver P 0 n p w = None"
| "deliver P (Suc f) n p w =
     (if n < length (w_objs w)
      then case w_objs w ! n of
          Actor_Obj k t a \<Rightarrow>
            and_then (executor_of (o_super a) w) (\<lambda>x.
            and_then (enqueue_base (\<lambda>_. executor_execute_actor P (deliver P f) k x n) p None (get_actor a w)) (\<lambda>s.
            ok (put_actor n s)))
        | Sup_Obj k t a \<Rightarrow>
            and_then (pr_enqueue P k (deliver P f) n (sup_execute (types_of w) (pr_sup P k (deliver P f) n (types_of w))) p (get_sup a w)) (\<lambda>s.
            ok (put_sup n s))
      else fail Wild_Deref)"

text \<open>A worker of a pool takes the job at the front, runs it and releases it.\<close>

definition pool_turn :: "('k, 'u) program \<Rightarrow> nat \<Rightarrow> ('k, 'u) world \<Rightarrow> ('k, 'u) world eff" where
  "pool_turn P f w =
     (case w_jobs w of
        [] \<Rightarrow> ok w
      | n # ns \<Rightarrow>
          let w = w\<lparr>w_jobs := ns\<rparr> in
          (case w_objs w ! n of
             Sup_Obj k t a \<Rightarrow> fail Wild_Deref
           | Actor_Obj k t a \<Rightarrow>
               and_then (executor_of (o_super a) w) (\<lambda>x.
               and_then (inline_execute P (deliver P f) k (case x of Inline mx r \<Rightarrow> mx | Pool mx \<Rightarrow> mx) True n (get_actor a w)) (\<lambda>s.
               ok (put_actor n s)))))"

primrec pool_turns :: "('k, 'u) program \<Rightarrow> nat \<Rightarrow> nat \<Rightarrow> ('k, 'u) world \<Rightarrow> ('k, 'u) world eff" where
  "pool_turns P f 0 w = ok w"
| "pool_turns P f (Suc n) w = and_then (pool_turn P f w) (pool_turns P f n)"

section \<open>The main thread\<close>

text \<open>\<open>send\<close>, \<open>delegate_send\<close> and \<open>link\<close> called from \<open>main\<close>.\<close>

definition main_new :: "addr \<Rightarrow> string \<Rightarrow> val list \<Rightarrow> ('k, 'u) world \<Rightarrow> ptr \<times> ('k, 'u) world" where
  "main_new sender name args w =
     (case make_message_ptr (w_fresh w) sender name args (w_heap w) of (p, h) \<Rightarrow>
      (p, w\<lparr>w_heap := h, w_fresh := Suc (w_fresh w)\<rparr>))"

definition main_send :: "('k, 'u) deliver \<Rightarrow> nat \<Rightarrow> addr \<Rightarrow> string \<Rightarrow> val list \<Rightarrow> ('k, 'u) world \<Rightarrow> ('k, 'u) world eff" where
  "main_send dl n sender name args w = (case main_new sender name args w of (p, w) \<Rightarrow> dl n p w)"

definition main_delegate_send ::
  "('k, 'u) deliver \<Rightarrow> nat \<Rightarrow> string \<Rightarrow> string \<Rightarrow> val list \<Rightarrow> ('k, 'u) world \<Rightarrow> ('k, 'u) world eff" where
  "main_delegate_send dl n type name args w =
     (case main_new addr_empty name args w of (p, w) \<Rightarrow>
      main_send dl n (A_Mod n) ''delegate'' [V_String type, V_Msg p] w)"

definition main_link :: "('k, 'u) deliver \<Rightarrow> nat \<Rightarrow> nat \<Rightarrow> ('k, 'u) world \<Rightarrow> ('k, 'u) world eff" where
  "main_link dl a1 a2 w =
     and_then (main_send dl a1 (A_Mod a2) ''add_link'' [] w) (\<lambda>w. main_send dl a2 (A_Mod a1) ''add_link'' [] w)"

section \<open>Constructing modules\<close>

definition actor_members_of :: "nat \<Rightarrow> 'u \<Rightarrow> (message, unit) act \<Rightarrow> 'u actor_members" where
  "actor_members_of super u s =
     \<lparr>o_mbox = a_mbox s, o_flags = a_flags s, o_current = a_current s, o_device = a_executor s, o_rc = a_rc s,
      o_alive = a_alive s, o_contacts = Map.empty, o_super = super, o_user = u\<rparr>"

text \<open>
  \<open>new (buffer) Actor(this, ...)\<close> of supervisor \<open>self\<close>: the next number is the object's.
\<close>

definition new_actor :: "'k \<Rightarrow> string \<Rightarrow> 'u \<Rightarrow> nat \<Rightarrow> ('k, 'u) sup_view \<Rightarrow> (nat \<times> ('k, 'u) sup_view) eff" where
  "new_actor k t u self s =
     (case v_env s of (su, w) \<Rightarrow>
      let n = length (w_objs w); a = coop_ctor n message_default (v_heap s) () in
      ok (n, s\<lparr>v_heap := a_heap a, v_env := (su, w\<lparr>w_objs := w_objs w @ [Actor_Obj k t (actor_members_of self u a)]\<rparr>)\<rparr>))"

definition new_sup_obj :: "'k \<Rightarrow> string \<Rightarrow> executor_kind \<Rightarrow> 'u \<Rightarrow> ('k, 'u) obj" where
  "new_sup_obj k t x u = Sup_Obj k t \<lparr>so_contacts = [], so_current = Uninit, so_executor = x, so_user = u\<rparr>"

definition new_sup :: "'k \<Rightarrow> string \<Rightarrow> executor_kind \<Rightarrow> 'u \<Rightarrow> ('k, 'u) sup_view \<Rightarrow> (nat \<times> ('k, 'u) sup_view) eff" where
  "new_sup k t x u s =
     (case v_env s of (su, w) \<Rightarrow>
      ok (length (w_objs w), s\<lparr>v_env := (su, w\<lparr>w_objs := w_objs w @ [new_sup_obj k t x u]\<rparr>)\<rparr>))"

definition main_new_sup :: "'k \<Rightarrow> string \<Rightarrow> executor_kind \<Rightarrow> 'u \<Rightarrow> ('k, 'u) world \<Rightarrow> nat \<times> ('k, 'u) world" where
  "main_new_sup k t x u w = (length (w_objs w), w\<lparr>w_objs := w_objs w @ [new_sup_obj k t x u]\<rparr>)"

definition empty_world :: "('k, 'u) world" where
  "empty_world = \<lparr>w_heap = empty_heap, w_fresh = 0, w_log = [], w_objs = [], w_jobs = []\<rparr>"

text \<open>
  \<open>actors_.emplace_back(std::move(t))\<close>: the handle made of the raw pointer keeps its reference.
\<close>

definition count_ref :: "nat \<Rightarrow> ('k, 'u) world \<Rightarrow> ('k, 'u) world" where
  "count_ref n w =
     (case w_objs w ! n of
        Actor_Obj k t a \<Rightarrow> w\<lparr>w_objs := (w_objs w)[n := Actor_Obj k t (a\<lparr>o_rc := o_rc a + 1\<rparr>)]\<rparr>
      | Sup_Obj k t a \<Rightarrow> w)"

definition keep_actor :: "nat \<Rightarrow> ('k, 'u) sup_view \<Rightarrow> ('k, 'u) sup_view eff" where
  "keep_actor n s = (case v_env s of (u, w) \<Rightarrow> ok (s\<lparr>v_env := (u, count_ref n w)\<rparr>))"

text \<open>\<open>spawn_actor\<close> and \<open>spawn_supervisor\<close> of supervisor \<open>self\<close>; the child has type \<open>t\<close>.\<close>

definition world_spawn ::
  "(('k, 'u) sup_view \<Rightarrow> (nat \<times> ('k, 'u) sup_view) eff) \<Rightarrow> (nat \<Rightarrow> ('k, 'u) sup_view \<Rightarrow> ('k, 'u) sup_view eff) \<Rightarrow>
     string \<Rightarrow> ('k, 'u) deliver \<Rightarrow> nat \<Rightarrow> ('k, 'u) sup_view \<Rightarrow> (addr \<times> ('k, 'u) sup_view) eff" where
  "world_spawn construct keep t dl self s =
     (let w = snd (v_env s) in
      spawn construct keep (from_sup dl self) self ((types_of w)(length (w_objs w) := t)) s)"

section \<open>Symbolic execution\<close>

text \<open>The equations with which the simplifier runs a program; \<open>program\<close> adds its own.\<close>

lemmas heap_eval = new_node_def empty_heap_def get_next_def get_prev_def get_value_def set_next_def set_prev_def
  live_def deref_fault_def delete_node_def pl_ctor_def pl_insert_def pl_take_def pl_begin_def pl_separator_def
  pl_continuation_def pl_end_def pl_empty_def iter_dec_def

lemmas queue_eval = srq_ctor_def enqueue_def try_pop_def take_head_def fetch_new_data_def fetch_loop.simps
  try_block_def try_unblock_def is_dummy_def stack_empty_dummy_def reader_blocked_dummy_def can_fetch_more_def

lemmas run_eval = act_try_pop_def act_insert_def act_take_def act_delete_def act_try_block_def act_try_unblock_def
  next_message_def next_message_loop.simps has_next_message_def consume_def reactivate_def set_context_def activate_def
  acquire.simps is_high_priority_def

text \<open>The links of the cache of actor \<open>n\<close> when it is empty.\<close>

definition rest_links :: "message heap \<Rightarrow> nat \<Rightarrow> bool" where
  "rest_links h n \<longleftrightarrow>
     nxt h (Head_S n) = Sep_S n \<and> nxt h (Sep_S n) = Tail_S n \<and> prv h (Sep_S n) = Head_S n \<and> prv h (Tail_S n) = Sep_S n \<and>
     cell h (Head_S n) \<noteq> None \<and> cell h (Sep_S n) \<noteq> None \<and> cell h (Tail_S n) \<noteq> None"

text \<open>\<open>run\<close> from the second iteration of its message loop.\<close>

definition run_on :: "((message, 'e) act \<Rightarrow> (message, 'e) act eff) \<Rightarrow> nat \<Rightarrow> nat \<Rightarrow> ptr \<Rightarrow> (message, 'e) act \<Rightarrow>
    (executable_result \<times> (message, 'e) act) eff" where
  "run_on exec mx handled p s =
     and_then (run_new is_high_priority exec mx handled p s) (\<lambda>(ret, p, s).
     if ret then and_then (act_delete p s) (\<lambda>s. ok (Awaiting, s))
     else and_then (run_push is_high_priority p s) (\<lambda>(p, s). run_tail p s))"

lemma upd_idem: "f y = b \<Longrightarrow> x \<noteq> y \<Longrightarrow> f(x := a, y := b) = f(x := a)"
  by auto

text \<open>
  An actor takes the only message of its mailbox, at the start of \<open>run\<close> or after it handled another one,
  which is deleted then; with an empty mailbox the run ends. The states are written out, so that the
  equations rewrite.
\<close>

lemma run_first:
  assumes "rest_links h n" and "nxt h (Node x) = Null" and "cell h (Node x) \<noteq> None" and "0 < mx"
  shows "run is_high_priority exec None mx \<lparr>a_heap = h, a_mbox = \<lparr>q_this = n, q_stack = Node x, q_head = Null\<rparr>,
      a_flags = fl, a_current = cu, a_executor = ex, a_rc = rc, a_alive = al, a_env = e\<rparr> =
    and_then (exec \<lparr>a_heap = h\<lparr>nxt := (nxt h)(Node x := Sep_S n), prv := (prv h)(Node x := Head_S n)\<rparr>,
      a_mbox = \<lparr>q_this = n, q_stack = Empty_D n, q_head = Null\<rparr>,
      a_flags = fl, a_current = Node x, a_executor = ex, a_rc = rc, a_alive = al, a_env = e\<rparr>)
      (run_on exec mx (Suc 0) (Node x))"
  using assms unfolding run_on_def [abs_def]
  by (simp add: run_unfold activate_def run_cache.simps run_new.simps [of _ _ _ 0] run_eval queue_eval heap_eval
      rest_links_def Let_def and_then_assoc upd_idem)

lemma run_on_more:
  assumes "rest_links h n" and "nxt h (Node y) = Null" and "cell h (Node y) \<noteq> None" and "cell h (Node x) \<noteq> None"
    and "handled < mx" and "x \<noteq> y"
  shows "run_on exec mx handled (Node x) \<lparr>a_heap = h, a_mbox = \<lparr>q_this = n, q_stack = Node y, q_head = Null\<rparr>,
      a_flags = fl, a_current = cu, a_executor = ex, a_rc = rc, a_alive = al, a_env = e\<rparr> =
    and_then (exec \<lparr>a_heap = h\<lparr>nxt := (nxt h)(Node y := Sep_S n), prv := (prv h)(Node y := Head_S n),
        cell := (cell h)(Node x := None)\<rparr>,
      a_mbox = \<lparr>q_this = n, q_stack = Empty_D n, q_head = Null\<rparr>,
      a_flags = fl, a_current = Node y, a_executor = ex, a_rc = rc, a_alive = al, a_env = e\<rparr>)
      (run_on exec mx (Suc handled) (Node y))"
  using assms unfolding run_on_def [abs_def]
  by (simp add: run_new.simps [of _ _ _ handled] run_eval queue_eval heap_eval rest_links_def Let_def and_then_assoc upd_idem)

lemma run_on_done:
  assumes "rest_links h n" and "cell h (Node x) \<noteq> None" and "handled \<le> mx"
  shows "run_on exec mx handled (Node x) \<lparr>a_heap = h, a_mbox = \<lparr>q_this = n, q_stack = Empty_D n, q_head = Null\<rparr>,
      a_flags = fl, a_current = cu, a_executor = ex, a_rc = rc, a_alive = al, a_env = e\<rparr> =
    ok (Awaiting, \<lparr>a_heap = h\<lparr>cell := (cell h)(Node x := None)\<rparr>,
      a_mbox = \<lparr>q_this = n, q_stack = Blocked_D n, q_head = Null\<rparr>,
      a_flags = fl, a_current = cu, a_executor = ex, a_rc = rc, a_alive = al, a_env = e\<rparr>)"
proof (cases "handled < mx")
  case True
  with assms show ?thesis
    by (simp add: run_on_def run_new.simps run_eval queue_eval heap_eval rest_links_def Let_def)
next
  case False
  with assms show ?thesis
    by (simp add: run_on_def run_new.simps run_push.simps run_tail_def run_eval queue_eval heap_eval rest_links_def Let_def)
qed

lemma enqueue_idle:
  assumes "cell h (Node x) \<noteq> None"
  shows "enqueue_base sched (Node x) None \<lparr>a_heap = h, a_mbox = \<lparr>q_this = n, q_stack = Empty_D n, q_head = Null\<rparr>,
      a_flags = St_Empty, a_current = cu, a_executor = ex, a_rc = rc, a_alive = al, a_env = e\<rparr> =
    sched None \<lparr>a_heap = h\<lparr>nxt := (nxt h)(Node x := Null)\<rparr>, a_mbox = \<lparr>q_this = n, q_stack = Node x, q_head = Null\<rparr>,
      a_flags = St_Busy, a_current = cu, a_executor = ex, a_rc = rc + 1, a_alive = al, a_env = e\<rparr>"
  using assms by (simp add: enqueue_base_def add_ref_impl_def run_eval queue_eval heap_eval Let_def)

lemma enqueue_busy:
  assumes "cell h (Node x) \<noteq> None"
  shows "enqueue_base sched (Node x) None \<lparr>a_heap = h, a_mbox = \<lparr>q_this = n, q_stack = Empty_D n, q_head = Null\<rparr>,
      a_flags = St_Busy, a_current = cu, a_executor = ex, a_rc = rc, a_alive = al, a_env = e\<rparr> =
    ok \<lparr>a_heap = h\<lparr>nxt := (nxt h)(Node x := Null)\<rparr>, a_mbox = \<lparr>q_this = n, q_stack = Node x, q_head = Null\<rparr>,
      a_flags = St_Busy, a_current = cu, a_executor = ex, a_rc = rc, a_alive = al, a_env = e\<rparr>"
  using assms by (simp add: enqueue_base_def queue_eval heap_eval Let_def)

lemma release_blocked:
  assumes "rc \<noteq> 1"
  shows "release_impl \<lparr>a_heap = h, a_mbox = \<lparr>q_this = n, q_stack = Blocked_D n, q_head = Null\<rparr>,
      a_flags = fl, a_current = cu, a_executor = ex, a_rc = rc, a_alive = al, a_env = e\<rparr> =
    \<lparr>a_heap = h, a_mbox = \<lparr>q_this = n, q_stack = Empty_D n, q_head = Null\<rparr>,
      a_flags = St_Empty, a_current = cu, a_executor = ex, a_rc = rc - 1, a_alive = al, a_env = e\<rparr>"
  using assms by (simp add: release_impl_def deref_def run_eval queue_eval Let_def)

lemma coop_ctor_eval:
  "coop_ctor q d h env =
     \<lparr>a_heap = pl_ctor q d h, a_mbox = srq_ctor q, a_flags = St_Empty, a_current = Uninit, a_executor = None, a_rc = 1,
      a_alive = True, a_env = env\<rparr>"
  by (simp add: coop_ctor_def act_try_unblock_def queue_eval)

lemmas message_eval = make_message_ptr_def make_message_def message_ctor_def addr_move_ctor_def addr_swap_def
  addr_empty_def addr_ctor_def addr_type_def addr_get_def addr_copy_ctor_def addr_move_assign_def msg_body_def msg_clone_def

text \<open>
  The handlers every actor and every supervisor has. Only the one that is called is looked at.
\<close>

lemma add_link_call:
  "c_args (add_link self types) = []"
  "c_call (add_link self types) vs s = and_then (add_link_impl self types (a_current s) s) (\<lambda>s. ok (vs, s))"
  by (simp_all add: add_link_def)

lemma sup_add_link_call:
  "c_args (sup_add_link self types) = []"
  "c_call (sup_add_link self types) vs s =
     and_then (get_value (v_heap s) (v_current s)) (\<lambda>msg.
     case addr_move_ctor (m_sender msg) of (a, left) \<Rightarrow>
     and_then (put_message (v_current s) (msg\<lparr>m_sender := left\<rparr>) s) (\<lambda>s.
     and_then (sup_add_link_impl self types a s) (\<lambda>s. ok (vs, s))))"
  by (simp_all add: sup_add_link_def)

lemma redirect_call:
  "c_args (redirect dlv self) = [T_String, T_Msg]"
  "c_call (redirect dlv self) [V_String t, V_Msg p] s =
     and_then (redirect_impl dlv self t p s) (\<lambda>s. ok ([V_String [], V_Msg p], s))"
  by (simp_all add: redirect_def)

lemmas module_eval = write_body_def transformer_0_def transformer_1_def transformer_n_def invoke_def
  execute_def set_value_def act_print_def set_contacts_def emplace_def add_link_impl_def
  add_link_call actor_ctor_handlers address_book_def actor_address_def actor_execute_def

lemmas sup_eval = sup_print_def put_message_def addr_enqueue_def new_message_def send_ptr_def send_def link_imp_def
  link_def set_current_message_def sup_address_def sup_address_book_def sup_add_link_impl_def sup_add_link_call
  redirect_impl_def redirect_call sup_ctor_handlers sup_execute_def sync_def spawn_def

lemmas world_eval = types_of_def get_actor_def put_actor_def get_sup_def put_sup_def actor_again_def sup_again_def
  from_actor_def from_sup_def actor_send_def actor_link_def executor_of_def run_view_def inline_execute_def
  executor_execute_actor_def main_new_def main_send_def main_delegate_send_def main_link_def actor_members_of_def
  new_actor_def new_sup_obj_def new_sup_def main_new_sup_def empty_world_def count_ref_def keep_actor_def world_spawn_def
  nth_default_def

text \<open>An idle actor with an inline executor that is introduced to another module.\<close>

lemma add_link_idle:
  assumes "rest_links h n" and "cell h (Node x) \<noteq> None" and "m_command (the (cell h (Node x))) = ''add_link''"
    and "\<exists>i. m_sender (the (cell h (Node x))) = A_Mod i \<and> i \<noteq> n" and "0 < mx" and "rc \<noteq> 0"
    and "cm_handlers (pr_actor P k dl n (types_of w)) ''add_link'' = Some (add_link n (types_of w))"
  shows "enqueue_base (\<lambda>_. executor_execute_actor P dl k (Inline mx True) n) (Node x) None
      \<lparr>a_heap = h, a_mbox = \<lparr>q_this = n, q_stack = Empty_D n, q_head = Null\<rparr>, a_flags = St_Empty, a_current = cu,
       a_executor = ex, a_rc = rc, a_alive = al, a_env = \<lparr>ae_contacts = cs, ae_log = lg, ae_user = (u, w)\<rparr>\<rparr> =
    ok \<lparr>a_heap = h\<lparr>nxt := (nxt h)(Node x := Sep_S n), prv := (prv h)(Node x := Head_S n), cell := (cell h)(Node x := None)\<rparr>,
       a_mbox = \<lparr>q_this = n, q_stack = Empty_D n, q_head = Null\<rparr>, a_flags = St_Empty, a_current = Node x,
       a_executor = ex, a_rc = rc, a_alive = al,
       a_env = \<lparr>ae_contacts = emplace (case m_sender (the (cell h (Node x))) of A_Mod i \<Rightarrow> types_of w i)
           (m_sender (the (cell h (Node x)))) cs, ae_log = lg, ae_user = (u, w)\<rparr>\<rparr>"
proof -
  obtain i m where m: "cell h (Node x) = Some m" "m_sender m = A_Mod i" "i \<noteq> n" "m_command m = ''add_link''"
    using assms(2-4) by auto
  have "rc + 1 \<noteq> 1"
    using assms(6) by simp
  then show ?thesis
    using assms(1,5,7) m
    by (simp add: enqueue_idle executor_execute_actor_def inline_execute_def run_view_def run_first run_on_done release_blocked
        rest_links_def actor_execute_def execute_def invoke_def transformer_0_def add_link_call add_link_impl_def set_value_def
        live_def set_contacts_def heap_eval addr_get_def addr_type_def addr_move_ctor_def addr_swap_def Let_def)
qed

lemmas actor_eval = run_first run_on_more run_on_done enqueue_idle enqueue_busy release_blocked add_link_idle
  coop_ctor_eval srq_ctor_def rest_links_def

text \<open>An actor at rest: idle, its mailbox empty.\<close>

definition at_rest :: "nat \<Rightarrow> nat \<Rightarrow> ptr \<Rightarrow> 64 word \<Rightarrow> (string \<rightharpoonup> addr) \<Rightarrow> 'u \<Rightarrow> 'u actor_members" where
  "at_rest n super cur rc contacts u =
     \<lparr>o_mbox = srq_ctor n, o_flags = St_Empty, o_current = cur, o_device = None, o_rc = rc, o_alive = True,
      o_contacts = contacts, o_super = super, o_user = u\<rparr>"

text \<open>Which messages are alive.\<close>

definition messages_alive :: "(ptr \<Rightarrow> message option) \<Rightarrow> nat set" where
  "messages_alive c = {k. c (Node k) \<noteq> None}"

lemma messages_alive_upd [simp]:
  "messages_alive (c(Node k := Some m)) = insert k (messages_alive c)"
  "messages_alive (c(Node k := None)) = messages_alive c - {k}"
  "messages_alive (c(Head_S n := v)) = messages_alive c" "messages_alive (c(Sep_S n := v)) = messages_alive c"
  "messages_alive (c(Tail_S n := v)) = messages_alive c" "messages_alive (\<lambda>_. None) = {}"
  by (auto simp: messages_alive_def)

end
