(* ===== verification/Databases.thy ===== *)
theory Databases
  imports World
begin

text \<open>
  The program \<open>examples/spawn_supervisor\<close>: two supervisors with executors of their own, an actor that
  has databases and collections created through them, and the databases, supervisors that are created
  at run time. All its executors run jobs inline, so the program is sequential.
\<close>

section \<open>State\<close>

datatype db_class = Dispatcher | Collection | Database | Mdb | Mdispatcher

text \<open>The members of all classes: \<open>actors_\<close> and \<open>supervisor_\<close>, and \<open>storage_\<close> of a collection.\<close>

record db_members =
  dm_actors :: "nat list"
  dm_supervisors :: "nat list"
  dm_storage :: "32 word \<rightharpoonup> 32 word"

definition db_none :: db_members where
  "db_none = \<lparr>dm_actors = [], dm_supervisors = [], dm_storage = Map.empty\<rparr>"

type_synonym db_world = "(db_class, db_members) world"
type_synonym db_actor = "(db_class, db_members) actor_view"
type_synonym db_sup = "(db_class, db_members) sup_view"

definition dummy_executor :: executor_kind where
  "dummy_executor = Inline 100 True"

section \<open>The actors\<close>

text \<open>An argument passed by reference and moved from is an empty string afterwards.\<close>

definition insert_handler :: "(db_class, db_members) deliver \<Rightarrow> nat \<Rightarrow> db_actor callable" where
  "insert_handler dl self =
     Callable [T_String, T_Int, T_Int] (\<lambda>vs s.
       case vs of [V_String name, V_Int key, V_Int v] \<Rightarrow>
         and_then (address_book ''collection_test'' s) (\<lambda>a.
         and_then (actor_address self) (\<lambda>own.
         and_then (actor_send dl self a own ''insert'' [V_String name, V_Int key, V_Int v] s) (\<lambda>s.
         ok ([V_String [], V_Int key, V_Int v], s))))
       | _ \<Rightarrow> ok (vs, s))"

definition create_database :: "(db_class, db_members) deliver \<Rightarrow> nat \<Rightarrow> db_actor callable" where
  "create_database dl self =
     Callable [T_String] (\<lambda>vs s.
       case vs of [V_String name] \<Rightarrow>
         and_then (address_book ''mdb'' s) (\<lambda>a.
         and_then (actor_address self) (\<lambda>own.
         and_then (actor_send dl self a own ''create'' [V_String name] s) (\<lambda>s. ok ([V_String []], s))))
       | _ \<Rightarrow> ok (vs, s))"

definition create_collection :: "(db_class, db_members) deliver \<Rightarrow> nat \<Rightarrow> db_actor callable" where
  "create_collection dl self =
     Callable [T_String, T_String] (\<lambda>vs s.
       case vs of [V_String name_database, V_String name_collection] \<Rightarrow>
         and_then (address_book name_database s) (\<lambda>database.
         and_then (actor_address self) (\<lambda>own.
         and_then (actor_send dl self database own ''create'' [V_String name_collection] s) (\<lambda>s.
         ok ([V_String name_database, V_String []], s))))
       | _ \<Rightarrow> ok (vs, s))"

definition dispatcher_ctor :: "(db_class, db_members) deliver \<Rightarrow> nat \<Rightarrow> (nat \<Rightarrow> string) \<Rightarrow> db_actor comm_module" where
  "dispatcher_ctor dl self types =
     add_handler ''insert'' (insert_handler dl self)
       (add_handler ''create_collection'' (create_collection dl self)
         (add_handler ''create_database'' (create_database dl self) (actor_ctor self types)))"

definition collection_insert :: "db_actor callable" where
  "collection_insert =
     Callable [T_Int, T_Int] (\<lambda>vs s.
       case vs of [V_Int key, V_Int v] \<Rightarrow>
         (case ae_user (a_env s) of (u, w) \<Rightarrow>
          ok (vs, s\<lparr>a_env := (a_env s)\<lparr>ae_user := (u\<lparr>dm_storage := emplace key v (dm_storage u)\<rparr>, w)\<rparr>\<rparr>))
       | _ \<Rightarrow> ok (vs, s))"

definition collection_ctor :: "nat \<Rightarrow> (nat \<Rightarrow> string) \<Rightarrow> db_actor comm_module" where
  "collection_ctor self types = add_handler ''insert'' collection_insert (actor_ctor self types)"

section \<open>The supervisors\<close>

definition db_add_actor :: "nat \<Rightarrow> db_sup \<Rightarrow> db_sup eff" where
  "db_add_actor t s =
     and_then (keep_actor t s) (\<lambda>s.
     case v_env s of (u, w) \<Rightarrow> ok (s\<lparr>v_env := (u\<lparr>dm_actors := dm_actors u @ [t]\<rparr>, w)\<rparr>))"

definition db_add_supervisor :: "nat \<Rightarrow> db_sup \<Rightarrow> db_sup eff" where
  "db_add_supervisor t s =
     (case v_env s of (u, w) \<Rightarrow> ok (s\<lparr>v_env := (u\<lparr>dm_supervisors := dm_supervisors u @ [t]\<rparr>, w)\<rparr>))"

definition database_create :: "(db_class, db_members) deliver \<Rightarrow> nat \<Rightarrow> db_sup callable" where
  "database_create dl self =
     Callable [T_String] (\<lambda>vs s.
       case vs of [V_String name] \<Rightarrow>
         and_then (world_spawn (new_actor Collection name db_none self) db_add_actor name dl self s) (\<lambda>(_, s).
         ok ([V_String []], s))
       | _ \<Rightarrow> ok (vs, s))"

definition database_ctor :: "(db_class, db_members) deliver \<Rightarrow> nat \<Rightarrow> (nat \<Rightarrow> string) \<Rightarrow> db_sup comm_module" where
  "database_ctor dl self types =
     add_handler ''create'' (database_create dl self) (sup_ctor (from_sup dl self) self types)"

text \<open>The database uses the executor of the supervisor that spawned it.\<close>

definition mdb_create :: "(db_class, db_members) deliver \<Rightarrow> nat \<Rightarrow> db_sup callable" where
  "mdb_create dl self =
     Callable [T_String] (\<lambda>vs s.
       case vs of [V_String name] \<Rightarrow>
         and_then (executor_of self (snd (v_env s))) (\<lambda>x.
         and_then (world_spawn (new_sup Database name x db_none) db_add_supervisor name dl self s) (\<lambda>(_, s).
         ok ([V_String []], s)))
       | _ \<Rightarrow> ok (vs, s))"

definition mdb_ctor :: "(db_class, db_members) deliver \<Rightarrow> nat \<Rightarrow> (nat \<Rightarrow> string) \<Rightarrow> db_sup comm_module" where
  "mdb_ctor dl self types = add_handler ''create'' (mdb_create dl self) (sup_ctor (from_sup dl self) self types)"

definition mdispatcher_create :: "(db_class, db_members) deliver \<Rightarrow> nat \<Rightarrow> db_sup callable" where
  "mdispatcher_create dl self =
     Callable [T_String] (\<lambda>vs s.
       case vs of [V_String name] \<Rightarrow>
         and_then (world_spawn (new_actor Dispatcher name db_none self) db_add_actor name dl self s) (\<lambda>(dispatcher, s).
         and_then (sup_address_book ''mdb'' s) (\<lambda>mdb.
         and_then (link (from_sup dl self) mdb dispatcher s) (\<lambda>s. ok ([V_String []], s))))
       | _ \<Rightarrow> ok (vs, s))"

definition mdispatcher_ctor :: "(db_class, db_members) deliver \<Rightarrow> nat \<Rightarrow> (nat \<Rightarrow> string) \<Rightarrow> db_sup comm_module" where
  "mdispatcher_ctor dl self types =
     add_handler ''create'' (mdispatcher_create dl self) (sup_ctor (from_sup dl self) self types)"

text \<open>\<open>enqueue_base\<close> is the same in the three classes.\<close>

definition db_enqueue_base :: "(db_sup \<Rightarrow> db_sup eff) \<Rightarrow> ptr \<Rightarrow> db_sup \<Rightarrow> db_sup eff" where
  "db_enqueue_base exec p s = exec (set_current_message p s)"

section \<open>The program\<close>

definition databases :: "(db_class, db_members) program" where
  "databases =
     \<lparr>pr_actor = (\<lambda>k dl self types. if k = Dispatcher then dispatcher_ctor dl self types else collection_ctor self types),
      pr_sup = (\<lambda>k dl self types.
        if k = Database then database_ctor dl self types
        else if k = Mdb then mdb_ctor dl self types else mdispatcher_ctor dl self types),
      pr_enqueue = (\<lambda>_ _ _. db_enqueue_base)\<rparr>"

definition db_start :: db_world where
  "db_start = snd (main_new_sup Mdispatcher ''mdispatcher'' dummy_executor db_none
     (snd (main_new_sup Mdb ''mdb'' dummy_executor db_none empty_world)))"

definition db_setup :: "(db_class, db_members) deliver \<Rightarrow> db_world eff" where
  "db_setup dl =
     and_then (main_link dl 0 1 db_start) (\<lambda>w.
     and_then (main_send dl 1 addr_empty ''create'' [V_String ''dispatcher''] w) (\<lambda>w.
     and_then (main_delegate_send dl 1 ''dispatcher'' ''create_database'' [V_String ''database_test''] w) (\<lambda>w.
     main_delegate_send dl 1 ''dispatcher'' ''create_collection''
       [V_String ''database_test'', V_String ''collection_test''] w)))"

definition db_main :: "(db_class, db_members) deliver \<Rightarrow> db_world eff" where
  "db_main dl =
     and_then (db_setup dl) (\<lambda>w.
     main_delegate_send dl 1 ''dispatcher'' ''insert'' [V_String ''collection_test'', V_Int 1, V_Int 5] w)"

section \<open>Running it\<close>

lemma db_handlers:
  "cm_handlers (dispatcher_ctor dl self types) n =
     (if n = ''create_database'' then Some (create_database dl self)
      else if n = ''create_collection'' then Some (create_collection dl self)
      else if n = ''insert'' then Some (insert_handler dl self) else cm_handlers (actor_ctor self types) n)"
  "cm_handlers (collection_ctor self types) n =
     (if n = ''insert'' then Some collection_insert else cm_handlers (actor_ctor self types) n)"
  "cm_handlers (database_ctor dl self types) n =
     (if n = ''create'' then Some (database_create dl self) else cm_handlers (sup_ctor (from_sup dl self) self types) n)"
  "cm_handlers (mdb_ctor dl self types) n =
     (if n = ''create'' then Some (mdb_create dl self) else cm_handlers (sup_ctor (from_sup dl self) self types) n)"
  "cm_handlers (mdispatcher_ctor dl self types) n =
     (if n = ''create'' then Some (mdispatcher_create dl self) else cm_handlers (sup_ctor (from_sup dl self) self types) n)"
  by (simp_all add: dispatcher_ctor_def collection_ctor_def database_ctor_def mdb_ctor_def mdispatcher_ctor_def
      actor_ctor_handlers sup_ctor_handlers)

lemma db_args:
  "c_args (create_database dl self) = [T_String]" "c_args (create_collection dl self) = [T_String, T_String]"
  "c_args (insert_handler dl self) = [T_String, T_Int, T_Int]" "c_args collection_insert = [T_Int, T_Int]"
  "c_args (database_create dl self) = [T_String]" "c_args (mdb_create dl self) = [T_String]"
  "c_args (mdispatcher_create dl self) = [T_String]"
  by (simp_all add: create_database_def create_collection_def insert_handler_def collection_insert_def database_create_def
      mdb_create_def mdispatcher_create_def)

lemma db_calls:
  "c_call (create_database dl self) [V_String name] s =
     and_then (address_book ''mdb'' s) (\<lambda>a.
     and_then (actor_address self) (\<lambda>own.
     and_then (actor_send dl self a own ''create'' [V_String name] s) (\<lambda>s. ok ([V_String []], s))))"
  "c_call (create_collection dl self) [V_String name, V_String name'] s =
     and_then (address_book name s) (\<lambda>a.
     and_then (actor_address self) (\<lambda>own.
     and_then (actor_send dl self a own ''create'' [V_String name'] s) (\<lambda>s. ok ([V_String name, V_String []], s))))"
  "c_call (insert_handler dl self) [V_String name, V_Int key, V_Int x] s =
     and_then (address_book ''collection_test'' s) (\<lambda>a.
     and_then (actor_address self) (\<lambda>own.
     and_then (actor_send dl self a own ''insert'' [V_String name, V_Int key, V_Int x] s) (\<lambda>s.
     ok ([V_String [], V_Int key, V_Int x], s))))"
  "c_call (database_create dl self) [V_String name] v =
     and_then (world_spawn (new_actor Collection name db_none self) db_add_actor name dl self v) (\<lambda>(_, v).
     ok ([V_String []], v))"
  "c_call (mdb_create dl self) [V_String name] v =
     and_then (executor_of self (snd (v_env v))) (\<lambda>x.
     and_then (world_spawn (new_sup Database name x db_none) db_add_supervisor name dl self v) (\<lambda>(_, v).
     ok ([V_String []], v)))"
  "c_call (mdispatcher_create dl self) [V_String name] v =
     and_then (world_spawn (new_actor Dispatcher name db_none self) db_add_actor name dl self v) (\<lambda>(dispatcher, v).
     and_then (sup_address_book ''mdb'' v) (\<lambda>mdb.
     and_then (link (from_sup dl self) mdb dispatcher v) (\<lambda>v. ok ([V_String []], v))))"
  by (simp_all add: create_database_def create_collection_def insert_handler_def database_create_def
      mdb_create_def mdispatcher_create_def)

lemmas db_eval = db_handlers db_args db_calls db_none_def dummy_executor_def db_add_actor_def db_add_supervisor_def
  db_enqueue_base_def databases_def db_start_def

text \<open>While the program is run, its strings are numbered, so that terms stay small.\<close>

definition names :: "string list" where
  "names = [''mdb'', ''mdispatcher'', ''dispatcher'', ''database_test'', ''collection_test'', ''create'',
     ''create_database'', ''create_collection'', ''insert'', ''add_link'', ''remove_link'', ''delegate'']"

definition name :: "nat \<Rightarrow> string" where
  "name i = names ! i"

lemma name_eq: "i < 12 \<Longrightarrow> j < 12 \<Longrightarrow> (name i = name j) = (i = j)"
  unfolding name_def by (intro nth_eq_iff_index_eq) (simp_all add: names_def)

lemma name_folds:
  "''mdb'' = name 0" "CHR ''m'' # name 2 = name 1" "''dispatcher'' = name 2" "''database_test'' = name 3"
  "''collection_test'' = name 4" "''create'' = name 5" "''create_database'' = name 6" "''create_collection'' = name 7"
  "''insert'' = name 8" "''add_link'' = name 9" "''remove_link'' = name 10" "''delegate'' = name 11"
  by (simp_all add: name_def names_def)

lemmas eval = heap_eval actor_eval message_eval module_eval sup_eval world_eval db_eval name_eq name_folds Let_def

definition db_sup_obj ::
  "db_class \<Rightarrow> string \<Rightarrow> (string \<times> addr list) list \<Rightarrow> ptr \<Rightarrow> nat list \<Rightarrow> nat list \<Rightarrow> (db_class, db_members) obj" where
  "db_sup_obj k t cs cur actors sups =
     Sup_Obj k t \<lparr>so_contacts = cs, so_current = cur, so_executor = dummy_executor,
       so_user = \<lparr>dm_actors = actors, dm_supervisors = sups, dm_storage = Map.empty\<rparr>\<rparr>"

definition db_world_of :: "message heap \<Rightarrow> nat \<Rightarrow> (db_class, db_members) obj list \<Rightarrow> db_world" where
  "db_world_of h n os = \<lparr>w_heap = h, w_fresh = n, w_log = [], w_objs = os, w_jobs = []\<rparr>"

abbreviation dl :: "nat \<Rightarrow> (db_class, db_members) deliver" where
  "dl f \<equiv> deliver databases (Suc (Suc (Suc (Suc f))))"

text \<open>The modules after each line of \<open>main\<close> but the last.\<close>

definition db_linked :: "(db_class, db_members) obj list" where
  "db_linked =
     [db_sup_obj Mdb ''mdb'' [(''mdispatcher'', [A_Mod 1])] (Node 0) [] [],
      db_sup_obj Mdispatcher ''mdispatcher'' [(''mdb'', [A_Mod 0])] (Node 1) [] []]"

definition db_created :: "(db_class, db_members) obj list" where
  "db_created =
     [db_sup_obj Mdb ''mdb'' [(''mdispatcher'', [A_Mod 1]), (''dispatcher'', [A_Mod 2])] (Node 4) [] [],
      db_sup_obj Mdispatcher ''mdispatcher'' [(''mdb'', [A_Mod 0]), (''dispatcher'', [A_Mod 2])] (Node 2) [2] [],
      Actor_Obj Dispatcher ''dispatcher''
        (at_rest 2 1 (Node 5) 2 [''mdispatcher'' \<mapsto> A_Mod 1, ''mdb'' \<mapsto> A_Mod 0] db_none)]"

definition db_with_database :: "(db_class, db_members) obj list" where
  "db_with_database =
     [db_sup_obj Mdb ''mdb''
        [(''mdispatcher'', [A_Mod 1]), (''dispatcher'', [A_Mod 2]), (''database_test'', [A_Mod 3])] (Node 8) [] [3],
      db_sup_obj Mdispatcher ''mdispatcher'' [(''mdb'', [A_Mod 0]), (''dispatcher'', [A_Mod 2])] (Node 7) [2] [],
      Actor_Obj Dispatcher ''dispatcher''
        (at_rest 2 1 (Node 10) 2
          [''mdispatcher'' \<mapsto> A_Mod 1, ''mdb'' \<mapsto> A_Mod 0, ''database_test'' \<mapsto> A_Mod 3] db_none),
      db_sup_obj Database ''database_test'' [(''mdb'', [A_Mod 0]), (''dispatcher'', [A_Mod 2])] (Node 11) [] []]"

definition db_built :: "(db_class, db_members) obj list" where
  "db_built =
     [db_sup_obj Mdb ''mdb''
        [(''mdispatcher'', [A_Mod 1]), (''dispatcher'', [A_Mod 2]), (''database_test'', [A_Mod 3])] (Node 8) [] [3],
      db_sup_obj Mdispatcher ''mdispatcher'' [(''mdb'', [A_Mod 0]), (''dispatcher'', [A_Mod 2])] (Node 13) [2] [],
      Actor_Obj Dispatcher ''dispatcher''
        (at_rest 2 1 (Node 16) 2
          [''mdispatcher'' \<mapsto> A_Mod 1, ''mdb'' \<mapsto> A_Mod 0, ''database_test'' \<mapsto> A_Mod 3, ''collection_test'' \<mapsto> A_Mod 4]
          db_none),
      db_sup_obj Database ''database_test''
        [(''mdb'', [A_Mod 0]), (''dispatcher'', [A_Mod 2]), (''collection_test'', [A_Mod 4])] (Node 14) [4] [],
      Actor_Obj Collection ''collection_test''
        (at_rest 4 3 (Node 17) 2 [''database_test'' \<mapsto> A_Mod 3, ''dispatcher'' \<mapsto> A_Mod 2] db_none)]"

lemmas db_state = db_sup_obj_def db_world_of_def at_rest_def db_linked_def db_created_def
  db_with_database_def db_built_def

lemma db_step_link:
  "\<exists>h. main_link (dl f) 0 1 db_start = ok (db_world_of h 2 db_linked) \<and> messages_alive (cell h) = {0, 1}"
  by (simp add: eval db_state) auto

lemma db_step_create:
  assumes "messages_alive (cell h) = {0, 1}"
  shows "\<exists>h'. main_send (dl f) 1 addr_empty ''create'' [V_String ''dispatcher''] (db_world_of h 2 db_linked) =
      ok (db_world_of h' 6 db_created) \<and> rest_links h' 2 \<and> messages_alive (cell h') = {0, 1, 2, 4}"
  using assms by (simp add: eval db_state) auto

lemma db_step_database:
  assumes "rest_links h 2" and "messages_alive (cell h) = {0, 1, 2, 4}"
  shows "\<exists>h'. main_delegate_send (dl f) 1 ''dispatcher'' ''create_database'' [V_String ''database_test'']
        (db_world_of h 6 db_created) =
      ok (db_world_of h' 12 db_with_database) \<and> rest_links h' 2 \<and>
      messages_alive (cell h') = {0, 1, 2, 4, 7, 8, 9, 11}"
  using assms by (simp add: eval db_state) auto

lemma db_step_collection:
  assumes "rest_links h 2" and "messages_alive (cell h) = {0, 1, 2, 4, 7, 8, 9, 11}"
  shows "\<exists>h'. main_delegate_send (dl f) 1 ''dispatcher'' ''create_collection''
        [V_String ''database_test'', V_String ''collection_test''] (db_world_of h 12 db_with_database) =
      ok (db_world_of h' 18 db_built) \<and> rest_links h' 2 \<and> rest_links h' 4 \<and>
      messages_alive (cell h') = {0, 1, 2, 4, 7, 8, 9, 11, 13, 14}"
  using assms by (simp add: eval db_state) auto

lemma db_step_insert:
  assumes "rest_links h 2" and "rest_links h 4"
  shows "main_delegate_send (dl f) 1 ''dispatcher'' ''insert''
       [V_String ''collection_test'', V_Int 1, V_Int 5] (db_world_of h 18 db_built) = fail Bad_Any_Cast"
  using assms by (simp add: eval db_state)

lemma db_setup_built:
  "\<exists>h. db_setup (dl f) = ok (db_world_of h 18 db_built) \<and> rest_links h 2 \<and> rest_links h 4 \<and>
     messages_alive (cell h) = {0, 1, 2, 4, 7, 8, 9, 11, 13, 14}"
proof -
  obtain h1 where 1: "main_link (dl f) 0 1 db_start = ok (db_world_of h1 2 db_linked)" "messages_alive (cell h1) = {0, 1}"
    using db_step_link [of f] by (elim exE conjE)
  obtain h2 where 2: "main_send (dl f) 1 addr_empty ''create'' [V_String ''dispatcher''] (db_world_of h1 2 db_linked) =
        ok (db_world_of h2 6 db_created)" "rest_links h2 2" "messages_alive (cell h2) = {0, 1, 2, 4}"
    using db_step_create [OF 1(2), of f] by (elim exE conjE)
  obtain h3 where 3: "main_delegate_send (dl f) 1 ''dispatcher'' ''create_database'' [V_String ''database_test'']
        (db_world_of h2 6 db_created) = ok (db_world_of h3 12 db_with_database)"
      "rest_links h3 2" "messages_alive (cell h3) = {0, 1, 2, 4, 7, 8, 9, 11}"
    using db_step_database [OF 2(2,3), of f] by (elim exE conjE)
  show ?thesis
    using db_step_collection [OF 3(2,3), of f] unfolding db_setup_def 1(1) 2(1) 3(1) and_then_simps .
qed

section \<open>Property\<close>

text \<open>
  C36. The program, whatever the fuel from 4 on: it spawns two supervisors, an actor through one of them
  and, on the actor's request, a database and a collection; every module is introduced to its supervisor
  and to the module that asked for it, the database through the actor's own mailbox while the actor
  runs; all actors are idle again with empty mailboxes, and of the 18 messages sent those that a
  supervisor handled are never deleted. The last line, which should insert into the collection, sends the
  collection its name and two integers where its handler takes the integers: \<open>bad_any_cast\<close> leaves
  \<open>main\<close>.
\<close>

theorem databases_built_but_not_filled:
  assumes "4 \<le> f"
  shows "(\<exists>w. db_setup (deliver databases f) = ok w \<and> w_objs w = db_built \<and> w_fresh w = 18 \<and> w_log w = [] \<and>
      rest_links (w_heap w) 2 \<and> rest_links (w_heap w) 4 \<and>
      messages_alive (cell (w_heap w)) = {0, 1, 2, 4, 7, 8, 9, 11, 13, 14}) \<and>
    db_main (deliver databases f) = fail Bad_Any_Cast"
proof -
  obtain k where f: "f = Suc (Suc (Suc (Suc k)))"
    using that [of "f - 4"] assms by simp
  obtain h where h: "db_setup (dl k) = ok (db_world_of h 18 db_built)" "rest_links h 2" "rest_links h 4"
      "messages_alive (cell h) = {0, 1, 2, 4, 7, 8, 9, 11, 13, 14}"
    using db_setup_built [of k] by (elim exE conjE)
  have "db_main (dl k) = fail Bad_Any_Cast"
    unfolding db_main_def h(1) and_then_simps by (rule db_step_insert [OF h(2,3)])
  with h show ?thesis
    unfolding f by (intro conjI exI [of _ "db_world_of h 18 db_built"]) (simp_all add: db_world_of_def)
qed

lemma databases_built_but_not_filled_witness:
  "(\<exists>w. db_setup (deliver databases 4) = ok w \<and> length (w_objs w) = 5) \<and> db_main (deliver databases 4) = fail Bad_Any_Cast"
  using databases_built_but_not_filled [of 4] by (auto simp: db_built_def)

end
