(* ===== verification/World_Mail.thy ===== *)
theory World_Mail
  imports World
begin

text \<open>
  Actors of a pool in the world, at the level of what their mailboxes hold: delivering to one appends a
  message and queues the actor if it was idle, also when \<open>main\<close> delegates it through a supervisor; a worker's
  turn handles all that is pending, or fails at the first message whose handler does.
\<close>

section \<open>Delivery\<close>

lemma mailbox_single:
  assumes "rest_links h n" and "nxt h (Node x) = Null" and "cell h (Node x) \<noteq> None"
  shows "mailbox h \<lparr>q_this = n, q_stack = Node x, q_head = Null\<rparr> Ready [x] [] []"
  using assms by (intro mailboxI [where hs = "[]" and ss = "[x]"])
    (auto simp: mbox_rel_def stack_rel_def plist_rel_def rest_links_def live_def)

lemma deliver_pooled:
  assumes n: "n < length (w_objs w)" "w_objs w ! n = Actor_Obj k t a" and x: "executor_of (o_super a) w = ok (Pool mx)"
    and h: "mailbox (w_heap w) (o_mbox a) m p c1 []" "m \<noteq> Closed" "live (w_heap w) (Node x)" "x \<notin> set (c1 @ p)"
  shows "\<exists>h q r d. deliver P (Suc f) n (Node x) w =
      ok (w\<lparr>w_heap := h,
            w_objs := (w_objs w)[n := Actor_Obj k t (a\<lparr>o_mbox := q, o_flags := St_Busy, o_device := d, o_rc := r\<rparr>)],
            w_jobs := (if o_flags a = St_Empty then w_jobs w @ [n] else w_jobs w)\<rparr>) \<and>
    mailbox h q Ready (p @ [x]) c1 [] \<and> cell h = cell (w_heap w) \<and> q_this q = q_this (o_mbox a) \<and>
    agree_off (plist_foot (q_this (o_mbox a)) (insert x (set (c1 @ p)))) (w_heap w) h"
proof -
  let ?s = "get_actor a w"
  let ?sched = "\<lambda>_. executor_execute_actor P (deliver P f) k (Pool mx) n"
  let ?G = "frame_of ?s (insert x (set (c1 @ p)))"
  have "holds ?s m p c1 []"
    using h by (simp add: get_actor_def holds_def)
  then have "holds_in ?G ?s m p c1 []"
    by (rule holds_frame_of) auto
  moreover have "live (a_heap ?s) (Node x)" "x \<notin> set p \<union> set c1 \<union> set []" "Node x \<notin> fr_others ?G"
    using h by (simp_all add: get_actor_def frame_of_def plist_foot_def)
  ultimately obtain s' where
      s0: "holds_in ?G s' Ready (p @ [x]) c1 []" and s1: "cell (a_heap s') = cell (a_heap ?s)" "a_env s' = a_env ?s"
      "a_current s' = a_current ?s" "a_alive s' = a_alive ?s" "a_flags s' = St_Busy"
      "a_flags ?s = St_Empty \<longrightarrow> enqueue_base ?sched (Node x) None ?s = ?sched None s'"
      "a_flags ?s = St_Busy \<longrightarrow> enqueue_base ?sched (Node x) None ?s = ok s'"
    using enqueue_base_ok [of ?G ?s m p c1 "[]" x None ?sched] h(2) by blast
  note s' = holds_in_frame_of [OF s0] s1
  have flags: "a_flags ?s = o_flags a"
    by (simp add: get_actor_def)
  show ?thesis
    using n x s' flags
    by (intro exI [of _ "a_heap s'"] exI [of _ "a_mbox s'"] exI [of _ "a_rc s'"] exI [of _ "a_executor s'"])
      (cases "o_flags a"; cases a; cases w; simp add: get_actor_def put_actor_def executor_execute_actor_def queue_job_def holds_def)
qed

section \<open>Delegation\<close>

text \<open>\<open>delegate_send\<close> from \<open>main\<close>, through supervisor \<open>v\<close> to its first contact of a type, up to and after the delivery to it.\<close>

definition delegated :: "message heap \<Rightarrow> nat \<Rightarrow> nat \<Rightarrow> string \<Rightarrow> string \<Rightarrow> val list \<Rightarrow> message heap" where
  "delegated h n v name c vs =
     h\<lparr>nxt := (nxt h)(Node n := Uninit, Node (Suc n) := Uninit),
       prv := (prv h)(Node n := Uninit, Node (Suc n) := Uninit),
       cell := (cell h)(Node (Suc n) \<mapsto> make_message (A_Mod v) ''delegate'' [V_String name, V_Msg (Node n)],
         Node n \<mapsto> make_message (A_Mod v) c vs)\<rparr>"

text \<open>
  What is needed of the class of the supervisor: it executes \<open>delegate\<close> itself, with the handler every
  supervisor has.
\<close>

definition delegates :: "('k, 'u) program \<Rightarrow> 'k \<Rightarrow> nat \<Rightarrow> bool" where
  "delegates P k v \<longleftrightarrow>
     (\<forall>dl exec p s m. get_value (v_heap s) p = ok m \<longrightarrow> m_command m = ''delegate'' \<longrightarrow>
        pr_enqueue P k dl v exec p s = exec (set_current_message p s)) \<and>
     (\<forall>dl types. cm_handlers (pr_sup P k dl v types) ''delegate'' = Some (redirect (from_sup dl v) v))"

lemma delegate_steps:
  assumes v: "v < length (w_objs w)" "w_objs w ! v = Sup_Obj k t su" "map_of (so_contacts su) name = Some (A_Mod i # as)"
    and d: "delegates P k v"
  defines "n \<equiv> w_fresh w"
  shows "main_delegate_send (deliver P (Suc f)) v name c vs w =
     and_then (deliver P f i (Node n) (w\<lparr>w_heap := delegated (w_heap w) n v name c vs, w_fresh := Suc (Suc n),
         w_objs := (w_objs w)[v := Sup_Obj k t (su\<lparr>so_current := Node (Suc n)\<rparr>)]\<rparr>)) (\<lambda>w.
     and_then (sup_again v w) (\<lambda>s.
     and_then (write_body sup_ctx (Node (Suc n)) (V_Tuple [V_String [], V_Msg (Node n)]) s) (\<lambda>s. ok (put_sup v s))))"
proof -
  have q: "pr_enqueue P k dl v exec p s = exec (set_current_message p s)"
    if "get_value (v_heap s) p = ok m" "m_command m = ''delegate''" for dl exec p s m
    using d that unfolding delegates_def by blast
  have r: "cm_handlers (pr_sup P k dl v types) ''delegate'' = Some (redirect (from_sup dl v) v)" for dl types
    using d unfolding delegates_def by blast
  obtain h fr lg os js where w: "w = \<lparr>w_heap = h, w_fresh = fr, w_log = lg, w_objs = os, w_jobs = js\<rparr>"
    by (cases w)
  obtain cs cur x u where su: "su = \<lparr>so_contacts = cs, so_current = cur, so_executor = x, so_user = u\<rparr>"
    by (cases su)
  show ?thesis
    using v unfolding w su n_def
    by (simp add: delegated_def r q heap_eval message_eval module_eval sup_eval world_eval Let_def and_then_assoc cong del: and_then_weak_cong)
qed


lemma mailbox_other:
  assumes "mailbox h q m p c1 []" and "agree_off (Node ` X) h h'" and "X \<inter> set (c1 @ p) = {}"
  shows "mailbox h' q m p c1 []"
  using assms(3) by (intro mailbox_agree [OF assms(1,2)]) (auto simp: mbox_foot_def plist_foot_def)

lemma delegate_pooled:
  assumes v: "v < length (w_objs w)" "w_objs w ! v = Sup_Obj k t su" "map_of (so_contacts su) name = Some (A_Mod i # as)"
    and d: "delegates P k v"
    and i: "i < length (w_objs w)" "w_objs w ! i = Actor_Obj k' t' a" "executor_of (o_super a) w = ok (Pool mx)"
    and m: "mailbox (w_heap w) (o_mbox a) m p c1 []" "m \<noteq> Closed" "\<forall>x \<in> set (c1 @ p). x < w_fresh w"
  defines "n \<equiv> w_fresh w"
  shows "\<exists>h q r d. main_delegate_send (deliver P (Suc (Suc f))) v name c vs w =
      ok (w\<lparr>w_heap := h, w_fresh := Suc (Suc n),
        w_objs := (w_objs w)[v := Sup_Obj k t (su\<lparr>so_current := Node (Suc n)\<rparr>),
          i := Actor_Obj k' t' (a\<lparr>o_mbox := q, o_flags := St_Busy, o_device := d, o_rc := r\<rparr>)],
        w_jobs := (if o_flags a = St_Empty then w_jobs w @ [i] else w_jobs w)\<rparr>) \<and>
    mailbox h q Ready (p @ [n]) c1 [] \<and>
    map (\<lambda>x. the (cell h (Node x))) (c1 @ p @ [n]) =
      map (\<lambda>x. the (cell (w_heap w) (Node x))) (c1 @ p) @ [make_message (A_Mod v) c vs]"
proof -
  have iv: "i \<noteq> v"
    using v(2) i(2) by auto
  let ?h = "delegated (w_heap w) n v name c vs"
  let ?w = "w\<lparr>w_heap := ?h, w_fresh := Suc (Suc n),
      w_objs := (w_objs w)[v := Sup_Obj k t (su\<lparr>so_current := Node (Suc n)\<rparr>)]\<rparr>"
  have x: "executor_of (o_super a) ?w = ok (Pool mx)"
    using i(3) v(1,2) by (cases "o_super a = v") (auto simp: executor_of_def)
  have fresh: "n \<notin> set (c1 @ p)" "Suc n \<notin> set (c1 @ p)"
    using m(3) unfolding n_def by (meson less_irrefl, meson Suc_n_not_le_n less_imp_le)
  have m1: "mailbox ?h (o_mbox a) m p c1 []"
    using fresh by (intro mailbox_other [OF m(1), of "{n, Suc n}"]) (auto simp: agree_off_def delegated_def)
  have "i < length (w_objs ?w)" "w_objs ?w ! i = Actor_Obj k' t' a" "mailbox (w_heap ?w) (o_mbox a) m p c1 []"
      "live (w_heap ?w) (Node n)"
    using i(1,2) iv m1 by (simp_all add: delegated_def live_def)
  from deliver_pooled [OF this(1,2) x this(3) m(2) this(4) fresh(1), of P f] obtain h q r d where e:
      "deliver P (Suc f) i (Node n) ?w = ok (?w\<lparr>w_heap := h,
            w_objs := (w_objs ?w)[i := Actor_Obj k' t' (a\<lparr>o_mbox := q, o_flags := St_Busy, o_device := d, o_rc := r\<rparr>)],
            w_jobs := (if o_flags a = St_Empty then w_jobs ?w @ [i] else w_jobs ?w)\<rparr>)"
      "mailbox h q Ready (p @ [n]) c1 []" "cell h = cell ?h"
    by auto
  let ?h2 = "h\<lparr>cell := (cell h)(Node (Suc n) \<mapsto> make_message (A_Mod v) ''delegate'' [V_String [], V_Msg (Node n)])\<rparr>"
  have "main_delegate_send (deliver P (Suc (Suc f))) v name c vs w =
      ok (w\<lparr>w_heap := ?h2, w_fresh := Suc (Suc n),
        w_objs := (w_objs w)[v := Sup_Obj k t (su\<lparr>so_current := Node (Suc n)\<rparr>),
          i := Actor_Obj k' t' (a\<lparr>o_mbox := q, o_flags := St_Busy, o_device := d, o_rc := r\<rparr>)],
        w_jobs := (if o_flags a = St_Empty then w_jobs w @ [i] else w_jobs w)\<rparr>)"
    using v(1,2) iv unfolding delegate_steps [OF v assms(4)] n_def [symmetric] e(1)
    by (cases w; cases su; cases a) (simp add: sup_again_def get_sup_def put_sup_def write_body_def put_message_def e(3)
      delegated_def heap_eval message_eval list_update_swap)
  moreover have "mailbox ?h2 q Ready (p @ [n]) c1 []"
    using fresh by (intro mailbox_other [OF e(2), of "{Suc n}"]) (auto simp: agree_off_def)
  moreover have "map (\<lambda>x. the (cell ?h2 (Node x))) (c1 @ p @ [n]) =
      map (\<lambda>x. the (cell (w_heap w) (Node x))) (c1 @ p) @ [make_message (A_Mod v) c vs]"
    using fresh by (auto simp: e(3) delegated_def)
  ultimately show ?thesis
    by (intro exI conjI)
qed

section \<open>A turn\<close>

text \<open>What a run calls for each message, and what an introduction changes.\<close>

definition body_of :: "((nat \<Rightarrow> string) \<Rightarrow> ('k, 'u) actor_view comm_module) \<Rightarrow> ('k, 'u) actor_view \<Rightarrow> ('k, 'u) actor_view eff" where
  "body_of c s = (let types = types_of (snd (ae_user (a_env s))) in actor_execute types (c types) s)"

type_synonym ('k, 'u) world_env = "('u \<times> ('k, 'u) world) actor_env"

definition introduces :: "nat \<Rightarrow> message \<Rightarrow> bool" where
  "introduces self m \<longleftrightarrow> m_command m = ''add_link'' \<and> (\<exists>i. m_sender m = A_Mod i \<and> i \<noteq> self)"

definition introduce :: "(nat \<Rightarrow> string) \<Rightarrow> message \<Rightarrow> (string \<rightharpoonup> addr) \<Rightarrow> (string \<rightharpoonup> addr)" where
  "introduce types m cs = emplace (case m_sender m of A_Mod i \<Rightarrow> types i) (m_sender m) cs"

definition introduced :: "message \<Rightarrow> ('k, 'u) world_env \<Rightarrow> ('k, 'u) world_env" where
  "introduced m e = e\<lparr>ae_contacts := introduce (types_of (snd (ae_user e))) m (ae_contacts e)\<rparr>"

lemma fold_introduced:
  "fold introduced ms e = e\<lparr>ae_contacts := fold (introduce (types_of (snd (ae_user e)))) ms (ae_contacts e)\<rparr>"
  by (induction ms arbitrary: e) (simp_all add: introduced_def)

lemma introductions:
  fixes c :: "(nat \<Rightarrow> string) \<Rightarrow> ('k, 'u) actor_view comm_module"
  assumes "\<And>types. cm_handlers (c types) ''add_link'' = Some (add_link self types)"
  shows "message_body (body_of c) (\<lambda>_ _. []) introduced (\<lambda>_. introduces self)"
proof
  fix G and s :: "('k, 'u) actor_view" and p c1 c2 x
  assume h: "holds_in G s Ready p c1 c2" "a_current s = Node x" "owned_in G s (Node x) (p @ c1 @ c2)"
    and "introduces self (content s x)"
  then obtain i where i: "m_command (content s x) = ''add_link''" "m_sender (content s x) = A_Mod i" "i \<noteq> self"
    by (auto simp: introduces_def)
  let ?t = "types_of (snd (ae_user (a_env s)))"
  from execute_introduction [OF assms h i] obtain s' where "actor_execute ?t (c ?t) s = ok s'"
      "holds_in G s' Ready p c1 c2" "owned_in G s' (Node x) (p @ c1 @ c2)" "kept s s' (set p \<union> set c1 \<union> set c2)"
      "a_env s' = (a_env s)\<lparr>ae_contacts := emplace (?t i) (A_Mod i) (ae_contacts (a_env s))\<rparr>"
    by blast
  then show "\<exists>s' ys. body_of c s = ok s' \<and> holds_in G s' Ready (p @ ys) c1 c2 \<and> owned_in G s' (Node x) (p @ ys @ c1 @ c2) \<and>
      kept s s' (set p \<union> set c1 \<union> set c2) \<and> map (content s') ys = [] \<and> a_env s' = introduced (content s x) (a_env s)"
    using i by (intro exI [of _ s'] exI [of _ "[]"]) (simp add: body_of_def introduced_def introduce_def)
qed simp_all

lemma pool_turn_eq:
  assumes "w_jobs w = n # ns" and "w_objs w ! n = Actor_Obj k t a" and "executor_of (o_super a) w = ok (Pool mx)"
  shows "pool_turn P f w =
    and_then (run is_high_priority (body_of (pr_actor P k (deliver P f) n)) None mx (get_actor a (w\<lparr>w_jobs := ns\<rparr>)))
      (\<lambda>(_, s). ok (put_actor n (release_impl s)))"
proof -
  have "executor_of (o_super a) (w\<lparr>w_jobs := ns\<rparr>) = ok (Pool mx)"
    using assms(3) by (simp add: executor_of_def)
  moreover have "and_then (and_then r (\<lambda>(_, s). ok s)) g = and_then r (\<lambda>(_, s). g s)" for r :: "('x \<times> 'y) eff" and g :: "'y \<Rightarrow> 'z eff"
    by (cases r) (auto simp: and_then_def split: sum.splits)
  ultimately show ?thesis
    using assms(1,2)
    by (simp add: pool_turn_def inline_execute_def run_view_def body_of_def [abs_def] and_then_assoc case_prod_unfold
        cong del: and_then_weak_cong)
qed

text \<open>An actor all of whose pending messages are introductions, at most as many as it handles at a time.\<close>

lemma turn_introduces:
  assumes j: "w_jobs w = n # ns" "n < length (w_objs w)" "w_objs w ! n = Actor_Obj k t a"
      "executor_of (o_super a) w = ok (Pool mx)"
    and c: "\<And>types. cm_handlers (pr_actor P k (deliver P f) n types) ''add_link'' = Some (add_link n types)"
    and h: "mailbox (w_heap w) (o_mbox a) Ready p [] []" "\<forall>x \<in> set p. introduces n (the (cell (w_heap w) (Node x)))"
    and mx: "length p < mx"
  shows "\<exists>h a'. pool_turn P f w =
      ok (w\<lparr>w_heap := h, w_objs := (w_objs w)[n := Actor_Obj k t a'], w_jobs := ns\<rparr>) \<and>
    mailbox h (o_mbox a') Ready [] [] [] \<and> o_flags a' = St_Empty \<and> o_super a' = o_super a \<and> o_user a' = o_user a \<and>
    o_contacts a' = fold (introduce (types_of w)) (map (\<lambda>x. the (cell (w_heap w) (Node x))) p) (o_contacts a)"
proof -
  let ?s = "get_actor a (w\<lparr>w_jobs := ns\<rparr>)"
  let ?ms = "map (\<lambda>x. the (cell (w_heap w) (Node x))) p"
  note body = introductions [of "pr_actor P k (deliver P f) n" n, OF c]
  have s: "holds ?s Ready p [] []" "map (content ?s) p = ?ms" "a_env ?s = a_env (get_actor a w)\<lparr>ae_user := (o_user a, w\<lparr>w_heap := empty_heap, w_log := [], w_jobs := ns\<rparr>)\<rparr>"
    using h(1) by (simp_all add: get_actor_def holds_def)
  have pre: "\<forall>m \<in> set (map (content ?s) p). introduces n m"
    using h(2) by (simp add: s(2))
  obtain s' where s': "run is_high_priority (body_of (pr_actor P k (deliver P f) n)) None mx ?s = ok (Awaiting, s')"
      "a_env s' = fold introduced ?ms (a_env ?s)" "holds s' Blocked [] [] []"
    using message_body.run_drive [OF body no_high_priority s(1) _ pre, of mx "[]" "fold introduced ?ms (a_env ?s)" True None] mx
    by (auto simp: drive_quiet s(2))
  let ?r = "release_impl s'"
  have r: "holds ?r Ready [] [] []" "a_flags ?r = St_Empty" "a_env ?r = fold introduced ?ms (a_env ?s)"
    using release_ok [OF s'(3)] s'(2) by simp_all
  have e: "a_env ?r = (a_env ?s)\<lparr>ae_contacts := fold (introduce (types_of w)) ?ms (o_contacts a)\<rparr>"
    using r(3) by (simp add: fold_introduced get_actor_def types_of_def)
  have "pool_turn P f w = ok (put_actor n ?r)"
    by (simp add: pool_turn_eq [OF j(1,3,4)] s'(1))
  moreover have "put_actor n ?r = w\<lparr>w_heap := a_heap ?r, w_objs := (w_objs w)[n := Actor_Obj k t
      \<lparr>o_mbox = a_mbox ?r, o_flags = a_flags ?r, o_current = a_current ?r, o_device = a_executor ?r, o_rc = a_rc ?r,
       o_alive = a_alive ?r, o_contacts = fold (introduce (types_of w)) ?ms (o_contacts a), o_super = o_super a,
       o_user = o_user a\<rparr>], w_jobs := ns\<rparr>"
    using j(2,3) e by (cases w) (simp add: put_actor_def get_actor_def)
  ultimately show ?thesis
    using r(1,2) by (intro exI [of _ "a_heap ?r"] exI conjI) (assumption | simp add: holds_def)+
qed

text \<open>A turn that comes to a message whose handler fails.\<close>

lemma turn_fails:
  assumes j: "w_jobs w = n # ns" "w_objs w ! n = Actor_Obj k t a" "executor_of (o_super a) w = ok (Pool mx)"
    and c: "\<And>types. cm_handlers (pr_actor P k (deliver P f) n types) ''add_link'' = Some (add_link n types)"
    and h: "mailbox (w_heap w) (o_mbox a) Ready p [] []"
    and q: "map (\<lambda>x. the (cell (w_heap w) (Node x))) p = q @ b # r" "\<forall>m \<in> set q. introduces n m" "length q < mx"
    and bad: "\<And>s p c1 c2 x. holds s Ready p c1 c2 \<Longrightarrow> a_current s = Node x \<Longrightarrow> owned s (Node x) (p @ c1 @ c2) \<Longrightarrow>
      content s x = b \<Longrightarrow> types_of (snd (ae_user (a_env s))) = types_of w \<Longrightarrow>
      ae_contacts (a_env s) = fold (introduce (types_of w)) q (o_contacts a) \<Longrightarrow>
      body_of (pr_actor P k (deliver P f) n) s = fail ft"
  shows "pool_turn P f w = fail ft"
proof -
  let ?s = "get_actor a (w\<lparr>w_jobs := ns\<rparr>)"
  note body = introductions [of "pr_actor P k (deliver P f) n" n, OF c]
  have t: "types_of (snd (ae_user (a_env ?s))) = types_of w"
    by (simp add: get_actor_def types_of_def)
  have s: "holds ?s Ready p [] []" "map (content ?s) p = q @ b # r"
    using h q(1) by (simp_all add: get_actor_def holds_def)
  have "run is_high_priority (body_of (pr_actor P k (deliver P f) n)) None mx ?s = fail ft"
  proof (rule message_body.run_fails [OF body no_high_priority _ _ s q(2,3)])
    fix s p c1 c2 x
    assume s: "holds s Ready p c1 c2" "a_current s = Node x" "owned s (Node x) (p @ c1 @ c2)" "content s x = b"
      and e: "a_env s = fold introduced q (a_env ?s)"
    have "types_of (snd (ae_user (a_env s))) = types_of w"
        "ae_contacts (a_env s) = fold (introduce (types_of w)) q (o_contacts a)"
      by (simp_all add: e fold_introduced t) (simp_all add: get_actor_def)
    then show "body_of (pr_actor P k (deliver P f) n) s = fail ft"
      by (rule bad [OF s])
  qed simp
  then show ?thesis
    by (simp add: pool_turn_eq [OF j])
qed

end
