(* ===== verification/Spawn_Actor.thy ===== *)
theory Spawn_Actor
  imports World_Mail
begin

text \<open>
  The program \<open>examples/spawn_actor\<close>: two supervisors with a thread pool each, and three classes of
  actors. What the handlers print is kept only where it depends on the state (\<open>print_links\<close>).
\<close>

section \<open>State\<close>

datatype sa_class = Bot1 | Bot2 | Bot3 | Manager

text \<open>The members of the supervisors, and the sets of names that \<open>print_links\<close> of an actor has printed.\<close>

record sa_members =
  sm_actors :: "nat list"
  sm_supervisors :: "nat list"
  sm_printed :: "string set list"


type_synonym sa_sup = "(sa_class, sa_members) sup_view"


section \<open>The actors\<close>








section \<open>The supervisors\<close>





definition sa_add_supervisor :: "nat \<Rightarrow> sa_sup \<Rightarrow> sa_sup eff" where
  "sa_add_supervisor t s =
     (case v_env s of (u, w) \<Rightarrow> ok (s\<lparr>v_env := (u\<lparr>sm_supervisors := sm_supervisors u @ [t]\<rparr>, w)\<rparr>))"




section \<open>The program\<close>






section \<open>Running it\<close>





















section \<open>Property\<close>



end
