(* ===== verification/Network.thy ===== *)
theory Network
  imports Message
begin

text \<open>
  The test network of \<open>examples/testsuite\<close>: connection identifiers and their strings
  (\<open>network/connection_identifying.hpp\<close>), sockets that play back a scenario, and the multiplexer that
  owns them (\<open>network/fake_multiplexer.hpp\<close> and its source). What \<open>send\<close> does with a message is a
  parameter; it may call the multiplexer back.
\<close>

section \<open>Numbers as strings\<close>

text \<open>\<open>std::to_string(int)\<close>: the decimal digits, after a minus sign for a negative number.\<close>

definition digit_char :: "nat \<Rightarrow> char" where
  "digit_char d = char_of (48 + d)"

fun digits :: "nat \<Rightarrow> string" where
  "digits n = (if n < 10 then [digit_char n] else digits (n div 10) @ [digit_char (n mod 10)])"

declare digits.simps [simp del]

definition int_to_string :: "32 word \<Rightarrow> string" where
  "int_to_string w =
     (if sint w < 0 then CHR ''-'' # digits (nat (- sint w)) else digits (nat (sint w)))"

definition number_of :: "string \<Rightarrow> nat" where
  "number_of cs = foldl (\<lambda>n c. 10 * n + (of_char c - 48)) 0 cs"

lemma digit_char_simps:
  "d < 10 \<Longrightarrow> of_char (digit_char d) = 48 + d"
  by (simp add: digit_char_def)

lemma number_of_digits: "number_of (digits n) = n"
proof (induction n rule: digits.induct)
  case (1 n)
  show ?case
  proof (cases "n < 10")
    case True
    then show ?thesis
      by (simp add: digits.simps [of n] number_of_def digit_char_simps)
  next
    case False
    with 1 have "number_of (digits (n div 10)) = n div 10"
      by simp
    with False show ?thesis
      by (simp add: digits.simps [of n] number_of_def digit_char_simps)
  qed
qed

lemma digits_range: "c \<in> set (digits n) \<Longrightarrow> 48 \<le> (of_char c :: nat) \<and> (of_char c :: nat) < 58"
proof (induction n rule: digits.induct)
  case (1 n)
  then show ?case
    by (cases "n < 10") (auto simp: digits.simps [of n] digit_char_simps)
qed

lemma digits_not_in:
  assumes "(of_char c :: nat) < 48 \<or> 58 \<le> (of_char c :: nat)"
  shows "c \<notin> set (digits n)"
  using digits_range [of c n] assms by auto

lemma digits_not_empty: "digits n \<noteq> []"
  by (cases "n < 10") (simp_all add: digits.simps [of n])

lemma digits_inject: "digits m = digits n \<longleftrightarrow> m = n"
  using number_of_digits by metis

lemma int_to_string_inject: "int_to_string v = int_to_string w \<longleftrightarrow> v = w"
proof
  have minus: "CHR ''-'' \<notin> set (digits n)" for n
    by (rule digits_not_in) simp
  have no: "digits m \<noteq> CHR ''-'' # cs" for m cs
    using minus [of m] by auto
  assume "int_to_string v = int_to_string w"
  then have "sint v = sint w"
    using no by (auto simp: int_to_string_def digits_inject split: if_splits dest: sym)
  then show "v = w"
    by (simp add: signed_word_eqI)
qed simp

lemma until_char:
  "x \<notin> set xs \<Longrightarrow> x \<notin> set ys \<Longrightarrow> xs @ x # zs = ys @ x # zs' \<longleftrightarrow> xs = ys \<and> zs = zs'"
proof (induction xs arbitrary: ys)
  case Nil
  then show ?case by (cases ys) auto
next
  case (Cons a xs)
  then show ?case by (cases ys) auto
qed

lemma no_colon: "CHR '':'' \<notin> set (int_to_string w)"
  using digits_not_in [of "CHR '':''"] by (simp add: int_to_string_def)

section \<open>Connection identifiers\<close>

datatype connect_type = Tcp | Udp

record connection_identifying =
  ci_type :: connect_type
  ci_ip :: string
  ci_port :: "32 word"

definition connect_type_string :: "connect_type \<Rightarrow> string" where
  "connect_type_string tc = (case tc of Tcp \<Rightarrow> ''tcp'' | Udp \<Rightarrow> ''udp'')"

definition ci_to_string :: "connection_identifying \<Rightarrow> string" where
  "ci_to_string ci =
     connect_type_string (ci_type ci) @ ''://'' @ ci_ip ci @ '':'' @ int_to_string (ci_port ci)"

definition ci_eq :: "connection_identifying \<Rightarrow> connection_identifying \<Rightarrow> bool" where
  "ci_eq a b \<longleftrightarrow> ci_type a = ci_type b \<and> ci_ip a = ci_ip b \<and> ci_port a = ci_port b"

text \<open>\<open>std::hash\<close>; \<open>h\<close> is the library's hash of strings.\<close>

definition ci_hash :: "(string \<Rightarrow> 64 word) \<Rightarrow> connection_identifying \<Rightarrow> 64 word" where
  "ci_hash h ci = h (ci_to_string ci)"

lemma ci_eq_iff [simp]: "ci_eq a b \<longleftrightarrow> a = b"
  by (cases a; cases b) (simp add: ci_eq_def)

section \<open>Sockets with a scenario\<close>

datatype client_state = Cl_Close | Cl_Open | Cl_Accept | Cl_Connect | Cl_Write | Cl_Read | Cl_Disconnect

text \<open>The member \<open>state\<close> has no initialiser: \<open>None\<close> until a constructor sets it.\<close>

record fake_state =
  fs_checker :: "(string \<Rightarrow> bool) option"
  fs_buffer :: string
  fs_state :: "client_state option"
  fs_wait :: "64 word"

definition fs_default :: fake_state where
  "fs_default = \<lparr>fs_checker = None, fs_buffer = [], fs_state = None, fs_wait = 0\<rparr>"

definition fs_next :: "client_state \<Rightarrow> fake_state" where
  "fs_next st = fs_default\<lparr>fs_state := Some st\<rparr>"

definition fs_input :: "string \<Rightarrow> client_state \<Rightarrow> fake_state" where
  "fs_input b st = fs_default\<lparr>fs_buffer := b, fs_state := Some st\<rparr>"

definition fs_check :: "(string \<Rightarrow> bool) \<Rightarrow> client_state \<Rightarrow> 64 word \<Rightarrow> fake_state" where
  "fs_check f st n = fs_default\<lparr>fs_checker := Some f, fs_state := Some st, fs_wait := n\<rparr>"

record fake_socket =
  sk_current :: fake_state
  sk_scenario :: "fake_state list"

definition socket_init :: fake_socket where
  "socket_init = \<lparr>sk_current = fs_default, sk_scenario = []\<rparr>"

definition socket_add :: "fake_state \<Rightarrow> fake_socket \<Rightarrow> fake_socket" where
  "socket_add st s = s\<lparr>sk_scenario := sk_scenario s @ [st]\<rparr>"

text \<open>
  The first lines of \<open>read\<close>, \<open>close\<close> and \<open>write\<close>: the next entry of the scenario becomes the current one,
  and has to be of the kind asked for.
\<close>

definition socket_next :: "client_state \<Rightarrow> fake_socket \<Rightarrow> fake_socket eff" where
  "socket_next st s =
     and_then (assert_that (sk_scenario s \<noteq> [])) (\<lambda>_.
     let s = \<lparr>sk_current = hd (sk_scenario s), sk_scenario = tl (sk_scenario s)\<rparr> in
     and_then (check (fs_state (sk_current s) \<noteq> None) Wild_Deref) (\<lambda>_.
     and_then (assert_that (fs_state (sk_current s) = Some st)) (\<lambda>_. ok s)))"

definition socket_read :: "fake_socket \<Rightarrow> (string \<times> fake_socket) eff" where
  "socket_read s = and_then (socket_next Cl_Read s) (\<lambda>s. ok (fs_buffer (sk_current s), s))"

definition socket_close :: "fake_socket \<Rightarrow> fake_socket eff" where
  "socket_close s = socket_next Cl_Close s"

definition socket_write :: "string \<Rightarrow> fake_socket \<Rightarrow> fake_socket eff" where
  "socket_write b s =
     and_then (socket_next Cl_Write s) (\<lambda>s.
     case fs_checker (sk_current s) of
       None \<Rightarrow> fail Bad_Function_Call
     | Some f \<Rightarrow> let is_equality = f b in
         if is_equality then and_then (assert_that is_equality) (\<lambda>_. ok s) else ok s)"

definition wait_size :: "fake_socket \<Rightarrow> 64 word" where
  "wait_size s = fs_wait (sk_current s)"

section \<open>The multiplexer\<close>

record connection =
  cn_socket :: fake_socket
  cn_address :: addr

definition connection_ctor :: "fake_socket \<Rightarrow> addr \<Rightarrow> connection" where
  "connection_ctor s a = \<lparr>cn_socket = s, cn_address = fst (addr_move_ctor a)\<rparr>"

text \<open>
  The two hash maps are association lists; a task is the listener it was made for, since the only
  closure the code stores captures an identifier.
\<close>

record multiplexer =
  mx_enabled :: bool
  mx_tasks :: "connection_identifying list"
  mx_sockets :: "(connection_identifying \<times> connection) list"
  mx_scenario :: "(connection_identifying \<times> fake_socket) list"

definition mx_ctor :: multiplexer where
  "mx_ctor = \<lparr>mx_enabled = True, mx_tasks = [], mx_sockets = [], mx_scenario = []\<rparr>"

definition mx_dtor :: "multiplexer \<Rightarrow> multiplexer" where
  "mx_dtor m = m\<lparr>mx_enabled := False, mx_sockets := [], mx_scenario := []\<rparr>"

text \<open>\<open>unordered_map::emplace\<close>, \<open>at\<close>, an update through the reference \<open>at\<close> returns, and \<open>erase\<close>.\<close>

definition al_emplace :: "'k \<Rightarrow> 'v \<Rightarrow> ('k \<times> 'v) list \<Rightarrow> ('k \<times> 'v) list" where
  "al_emplace k v xs = (if map_of xs k = None then xs @ [(k, v)] else xs)"

definition al_at :: "'k \<Rightarrow> ('k \<times> 'v) list \<Rightarrow> 'v eff" where
  "al_at k xs = (case map_of xs k of Some v \<Rightarrow> ok v | None \<Rightarrow> fail Out_Of_Range)"

primrec al_set :: "'k \<Rightarrow> 'v \<Rightarrow> ('k \<times> 'v) list \<Rightarrow> ('k \<times> 'v) list" where
  "al_set k v [] = []"
| "al_set k v (x # xs) = (if fst x = k then (k, v) # xs else x # al_set k v xs)"

definition al_erase :: "'k \<Rightarrow> ('k \<times> 'v) list \<Rightarrow> ('k \<times> 'v) list" where
  "al_erase k xs = filter (\<lambda>x. fst x \<noteq> k) xs"

definition tcp_id :: "string \<Rightarrow> 16 word \<Rightarrow> connection_identifying" where
  "tcp_id host port = \<lparr>ci_type = Tcp, ci_ip = host, ci_port = ucast port\<rparr>"

text \<open>\<open>add_scenario\<close> returns a reference, through which \<open>sts\<close> are added.\<close>

definition add_scenario :: "string \<Rightarrow> 16 word \<Rightarrow> fake_state list \<Rightarrow> multiplexer \<Rightarrow> multiplexer eff" where
  "add_scenario host port sts m =
     (let ci = tcp_id host port; sc = al_emplace ci socket_init (mx_scenario m) in
      and_then (al_at ci sc) (\<lambda>s. ok (m\<lparr>mx_scenario := al_set ci (fold socket_add sts s) sc\<rparr>)))"

text \<open>
  The socket is moved out of the scenario: its deque is empty then, its current entry is not looked at
  before it is overwritten.
\<close>

definition new_tcp_listener :: "string \<Rightarrow> 16 word \<Rightarrow> addr \<Rightarrow> multiplexer \<Rightarrow> multiplexer eff" where
  "new_tcp_listener host port a m =
     (let ci = tcp_id host port in
      and_then (al_at ci (mx_scenario m)) (\<lambda>s.
      ok (m\<lparr>mx_scenario := al_set ci (s\<lparr>sk_scenario := []\<rparr>) (mx_scenario m),
            mx_sockets := al_emplace ci (connection_ctor s a) (mx_sockets m),
            mx_tasks := mx_tasks m @ [ci]\<rparr>)))"

definition new_tcp_connection :: "string \<Rightarrow> 16 word \<Rightarrow> addr \<Rightarrow> multiplexer \<Rightarrow> multiplexer" where
  "new_tcp_connection host port a m = m"

definition mx_write :: "connection_identifying \<Rightarrow> string \<Rightarrow> multiplexer \<Rightarrow> multiplexer eff" where
  "mx_write ci b m =
     and_then (al_at ci (mx_sockets m)) (\<lambda>c.
     and_then (socket_write b (cn_socket c)) (\<lambda>s.
     ok (m\<lparr>mx_sockets := al_set ci (c\<lparr>cn_socket := s\<rparr>) (mx_sockets m)\<rparr>)))"

definition mx_close :: "connection_identifying \<Rightarrow> multiplexer \<Rightarrow> multiplexer eff" where
  "mx_close ci m =
     and_then (al_at ci (mx_sockets m)) (\<lambda>c.
     and_then (socket_close (cn_socket c)) (\<lambda>s. ok (m\<lparr>mx_sockets := al_erase ci (mx_sockets m)\<rparr>)))"

text \<open>The messages of the network, with the types of their bodies: identifiers, requests.\<close>

definition ci_val :: "connection_identifying \<Rightarrow> val" where
  "ci_val ci = V_User 0 [V_Bool (ci_type ci = Udp), V_String (ci_ip ci), V_Int (ci_port ci)]"

fun val_ci :: "val \<Rightarrow> connection_identifying" where
  "val_ci (V_User n [V_Bool b, V_String ip, V_Int port]) =
     \<lparr>ci_type = (if b then Udp else Tcp), ci_ip = ip, ci_port = port\<rparr>"
| "val_ci v = \<lparr>ci_type = Tcp, ci_ip = [], ci_port = 0\<rparr>"

lemma val_ci_val [simp]: "val_ci (ci_val ci) = ci"
  by (cases ci; cases "ci_type ci") (simp_all add: ci_val_def)

definition query_raw_val :: "connection_identifying \<Rightarrow> string \<Rightarrow> val" where
  "query_raw_val ci raw = V_User 1 [ci_val ci, V_String raw]"

text \<open>
  \<open>start\<close>. The multiplexer is reached through \<open>get\<close> and \<open>put\<close> in the state of the whole program, on
  which \<open>send_to\<close>, what \<open>send\<close> does, works too.
\<close>

record 's net =
  net_get :: "'s \<Rightarrow> multiplexer"
  net_put :: "multiplexer \<Rightarrow> 's \<Rightarrow> 's"
  net_send :: "addr \<Rightarrow> addr \<Rightarrow> string \<Rightarrow> val list \<Rightarrow> 's \<Rightarrow> 's eff"

definition mx_task :: "'s net \<Rightarrow> connection_identifying \<Rightarrow> 's \<Rightarrow> 's eff" where
  "mx_task N ci s =
     (let m = net_get N s in
      and_then (al_at ci (mx_sockets m)) (\<lambda>c.
      and_then (socket_read (cn_socket c)) (\<lambda>(raw, sk).
      net_send N (cn_address c) addr_empty ''read'' [query_raw_val ci raw]
        (net_put N (m\<lparr>mx_sockets := al_set ci (c\<lparr>cn_socket := sk\<rparr>) (mx_sockets m)\<rparr>) s))))"

partial_function (option) drain_tasks :: "'s net \<Rightarrow> 's \<Rightarrow> 's eff" where
  "drain_tasks N s =
     (case mx_tasks (net_get N s) of
        [] \<Rightarrow> ok s
      | ci # cis \<Rightarrow> and_then (mx_task N ci (net_put N ((net_get N s)\<lparr>mx_tasks := cis\<rparr>) s)) (drain_tasks N))"

declare drain_tasks.simps [code]

text \<open>
  The outer loop calls \<open>sleep_for\<close> at the head of every pass; what the other threads do during the \<open>i\<close>-th pass
  is \<open>others i\<close>.
\<close>

partial_function (option) start_loop :: "(nat \<Rightarrow> 's \<Rightarrow> 's eff) \<Rightarrow> 's net \<Rightarrow> nat \<Rightarrow> 's \<Rightarrow> 's eff" where
  "start_loop others N i s =
     (if mx_enabled (net_get N s)
      then and_then (others i s) (\<lambda>s. and_then (drain_tasks N s) (start_loop others N (Suc i)))
      else ok s)"

declare start_loop.simps [code]

definition mx_start :: "(nat \<Rightarrow> 's \<Rightarrow> 's eff) \<Rightarrow> 's net \<Rightarrow> 's \<Rightarrow> (nat \<times> 's) eff" where
  "mx_start others N s =
     and_then (assert_that (mx_scenario (net_get N s) \<noteq> [])) (\<lambda>_.
     and_then (assert_that (mx_tasks (net_get N s) \<noteq> [])) (\<lambda>_.
     and_then (start_loop others N 0 s) (\<lambda>s. ok (0, s))))"

section \<open>Facts\<close>

lemma socket_write_check:
  assumes "sk_scenario s = fs_check f Cl_Write n # sts"
  shows "socket_write b s = ok \<lparr>sk_current = fs_check f Cl_Write n, sk_scenario = sts\<rparr>"
  using assms by (simp add: socket_write_def socket_next_def fs_check_def Let_def)

lemma socket_read_input:
  assumes "sk_scenario s = fs_input b Cl_Read # sts"
  shows "socket_read s = ok (b, \<lparr>sk_current = fs_input b Cl_Read, sk_scenario = sts\<rparr>)"
  using assms by (simp add: socket_read_def socket_next_def fs_input_def)

lemma al_set_set [simp]: "al_set k v (al_set k u xs) = al_set k v xs"
  by (induction xs) auto

lemma map_of_al_set: "map_of (al_set k v xs) k = (if map_of xs k = None then None else Some v)"
  by (induction xs) auto

text \<open>
  Once the tasks are done and the other threads have nothing left to do, \<open>start\<close> spins: only the
  destructor clears \<open>enabled\<close>.
\<close>

definition loop_idle :: "(nat \<Rightarrow> 's \<Rightarrow> 's eff) \<Rightarrow> 's net \<Rightarrow> nat \<Rightarrow> 's \<Rightarrow> bool" where
  "loop_idle others N i s \<longleftrightarrow>
     mx_enabled (net_get N s) \<and> mx_tasks (net_get N s) = [] \<and> (\<forall>j \<ge> i. others j s = ok s)"

lemma start_loop_not_idle:
  assumes "start_loop others N i s = Some r"
  shows "\<not> loop_idle others N i s"
proof (rule start_loop.raw_induct [where P = "\<lambda>others N i s r. \<not> loop_idle others N i s", OF _ assms])
  fix loop and others :: "nat \<Rightarrow> 'a \<Rightarrow> 'a eff" and N :: "'a net" and i and s :: 'a and r :: "fault + 'a"
  assume IH: "\<And>others N i s r. loop others N i s = Some r \<Longrightarrow> \<not> loop_idle others N i s"
    and r: "(if mx_enabled (net_get N s)
      then and_then (others i s) (\<lambda>s. and_then (drain_tasks N s) (loop others N (Suc i))) else ok s) = Some r"
  show "\<not> loop_idle others N i s"
  proof
    assume idle: "loop_idle others N i s"
    then have "others i s = ok s" "drain_tasks N s = ok s" "mx_enabled (net_get N s)"
      by (simp_all add: loop_idle_def drain_tasks.simps [of N s])
    with r have "loop others N (Suc i) s = Some r"
      by simp
    moreover have "loop_idle others N (Suc i) s"
      using idle by (simp add: loop_idle_def)
    ultimately show False
      using IH by blast
  qed
qed

lemma start_loop_spins: "loop_idle others N i s \<Longrightarrow> start_loop others N i s = None"
  using start_loop_not_idle [of others N i s] by (cases "start_loop others N i s") auto

text \<open>The loop waits, without a change of the state, for the first pass in which another thread moves.\<close>

lemma start_loop_waits:
  assumes "mx_enabled (net_get N s)" and "mx_tasks (net_get N s) = []"
    and "i \<le> k" and "\<And>j. i \<le> j \<Longrightarrow> j < k \<Longrightarrow> others j s = ok s"
  shows "start_loop others N i s = start_loop others N k s"
  using assms(3,4)
proof (induction rule: inc_induct)
  case base
  show ?case ..
next
  case (step j)
  have "start_loop others N j s = start_loop others N (Suc j) s"
    using step assms(1,2) by (subst start_loop.simps) (simp add: drain_tasks.simps [of N s])
  with step show ?case
    by simp
qed

section \<open>Identifiers and their strings\<close>

text \<open>
  The string of a connection identifier determines it: two identifiers have the same string exactly
  when \<open>operator==\<close> holds, and exactly when \<open>std::hash\<close> gives them the same value whatever the hash of
  strings is. So the maps keyed by identifiers never confuse two of them.
\<close>

lemma connection_string_identifies:
  "(ci_eq a b \<longleftrightarrow> ci_to_string a = ci_to_string b) \<and> (ci_eq a b \<longleftrightarrow> (\<forall>h. ci_hash h a = ci_hash h b))"
proof -
  have len: "length (connect_type_string t) = 3" for t
    by (cases t) (simp_all add: connect_type_string_def)
  have ct: "connect_type_string s = connect_type_string t \<longleftrightarrow> s = t" for s t
    by (cases s; cases t) (simp_all add: connect_type_string_def)
  have "a = b" if "ci_to_string a = ci_to_string b"
  proof -
    from that have t: "ci_type a = ci_type b"
      and r: "ci_ip a @ CHR '':'' # int_to_string (ci_port a) = ci_ip b @ CHR '':'' # int_to_string (ci_port b)"
      by (simp_all add: ci_to_string_def append_eq_append_conv len ct)
    have "rev (int_to_string (ci_port a)) @ CHR '':'' # rev (ci_ip a) =
        rev (int_to_string (ci_port b)) @ CHR '':'' # rev (ci_ip b)"
      using arg_cong [OF r, of rev] by simp
    then show ?thesis
      using t no_colon by (cases a; cases b) (simp add: until_char int_to_string_inject)
  qed
  then have 1: "ci_eq a b \<longleftrightarrow> ci_to_string a = ci_to_string b"
    by auto
  have "ci_to_string a = ci_to_string b" if "\<forall>h. ci_hash h a = ci_hash h b"
    using spec [OF that, of "\<lambda>s. if s = ci_to_string a then 0 else 1"] by (auto simp: ci_hash_def split: if_splits)
  with 1 show ?thesis
    by auto
qed

end
