(* ===== verification/Key_Value.thy ===== *)
theory Key_Value
  imports World Network
begin

text \<open>
  The program \<open>examples/key-value-storage\<close>: a supervisor that owns the network, the parser of its requests
  and the actor that stores the values. The free function \<open>spawn_actor\<close> that its \<open>main\<close> calls is nowhere
  in the framework, so what is run is one request in a world where the two modules are linked.
\<close>

section \<open>Parsing a request\<close>

text \<open>\<open>std::string::find\<close> of a string.\<close>

fun str_find :: "string \<Rightarrow> string \<Rightarrow> nat option" where
  "str_find d [] = (if d = [] then Some 0 else None)"
| "str_find d (c # cs) =
     (if take (length d) (c # cs) = d then Some 0 else map_option Suc (str_find d cs))"

lemma str_find_char: "str_find [x] cs = (if x \<in> set cs then Some (length (takeWhile (\<lambda>c. c \<noteq> x) cs)) else None)"
  by (induction cs) auto

definition delimiter :: string where
  "delimiter = ''.''"

lemma length_delimiter [simp]: "length delimiter = 1"
  by (simp add: delimiter_def)

lemma str_find_delimiter:
  "str_find delimiter cs =
     (if CHR ''.'' \<in> set cs then Some (length (takeWhile (\<lambda>c. c \<noteq> CHR ''.'') cs)) else None)"
  by (simp add: delimiter_def str_find_char)

function parse_loop :: "string \<Rightarrow> string list \<Rightarrow> string list \<times> string" where
  "parse_loop raw acc =
     (case str_find delimiter raw of
        None \<Rightarrow> (acc, raw)
      | Some pos \<Rightarrow> parse_loop (drop (pos + length delimiter) raw) (acc @ [take pos raw]))"
  by auto
termination
proof (relation "measure (\<lambda>(raw, acc). length raw)")
  fix raw acc pos
  assume "str_find delimiter raw = Some pos"
  then have "CHR ''.'' \<in> set raw"
    by (auto simp: str_find_delimiter split: if_splits)
  then show "((drop (pos + length delimiter) raw, acc @ [take pos raw]), raw, acc) \<in> measure (\<lambda>(raw, acc). length raw)"
    by (cases raw) (auto simp: delimiter_def)
qed simp

declare parse_loop.simps [simp del]

definition parse_request :: "string \<Rightarrow> string list" where
  "parse_request raw = (case parse_loop raw [] of (parsed, raw) \<Rightarrow> parsed @ [raw])"

text \<open>What a request is made of, by the comment on the protocol: its words with a dot in between.\<close>

fun join_words :: "string list \<Rightarrow> string" where
  "join_words [] = []"
| "join_words [w] = w"
| "join_words (w # ws) = w @ CHR ''.'' # join_words ws"

lemma parse_loop_plain: "CHR ''.'' \<notin> set raw \<Longrightarrow> parse_loop raw acc = (acc, raw)"
  by (simp add: parse_loop.simps [of raw acc] str_find_delimiter)

lemma parse_loop_word:
  assumes "CHR ''.'' \<notin> set w"
  shows "parse_loop (w @ CHR ''.'' # raw) acc = parse_loop raw (acc @ [w])"
proof -
  have "takeWhile (\<lambda>c. c \<noteq> CHR ''.'') (w @ CHR ''.'' # raw) = w"
    using assms by (subst takeWhile_append2) auto
  then show ?thesis
    by (simp add: parse_loop.simps [of "w @ CHR ''.'' # raw" acc] str_find_delimiter)
qed

lemma parse_loop_words:
  assumes "ws \<noteq> []" and "\<forall>w \<in> set ws. CHR ''.'' \<notin> set w"
  shows "parse_loop (join_words ws) acc = (acc @ butlast ws, last ws)"
  using assms by (induction ws arbitrary: acc rule: join_words.induct) (auto simp: parse_loop_plain parse_loop_word)

lemma words_exist: "\<exists>ws. raw = join_words ws \<and> ws \<noteq> [] \<and> (\<forall>w \<in> set ws. CHR ''.'' \<notin> set w)"
proof (induction raw)
  case Nil
  show ?case by (intro exI [of _ "[[]]"]) simp
next
  case (Cons c raw)
  then obtain ws where ws: "raw = join_words ws" "ws \<noteq> []" "\<forall>w \<in> set ws. CHR ''.'' \<notin> set w"
    by blast
  then obtain v vs where v: "ws = v # vs"
    by (cases ws) auto
  show ?case
  proof (cases "c = CHR ''.''")
    case True
    then show ?thesis
      using ws v by (intro exI [of _ "[] # ws"]) simp
  next
    case False
    then show ?thesis
      using ws v by (intro exI [of _ "(c # v) # vs"]) (cases vs, auto)
  qed
qed

lemma parse_join:
  "ws \<noteq> [] \<Longrightarrow> \<forall>w \<in> set ws. CHR ''.'' \<notin> set w \<Longrightarrow> parse_request (join_words ws) = ws"
  by (simp add: parse_request_def parse_loop_words)

section \<open>The storage\<close>

type_synonym storage = "string \<rightharpoonup> string"

definition kv_find :: "string \<Rightarrow> storage \<Rightarrow> string eff" where
  "kv_find key st = (case st key of Some v \<Rightarrow> ok v | None \<Rightarrow> fail Out_Of_Range)"

definition kv_update :: "string \<Rightarrow> string \<Rightarrow> storage \<Rightarrow> bool \<times> storage" where
  "kv_update key blob st = (True, if st key = None then emplace key blob st else st(key \<mapsto> blob))"

definition kv_in :: "string \<Rightarrow> storage \<Rightarrow> bool" where
  "kv_in key st \<longleftrightarrow> st key \<noteq> None"

definition kv_remove :: "string \<Rightarrow> storage \<Rightarrow> storage" where
  "kv_remove key st = st(key := None)"

section \<open>The modules\<close>

datatype kv_class = Kv_Network | Kv_Storage

record kv_members =
  km_mx :: multiplexer
  km_storage :: storage

type_synonym kv_world = "(kv_class, kv_members) world"
type_synonym kv_actor = "(kv_class, kv_members) actor_view"
type_synonym kv_sup = "(kv_class, kv_members) sup_view"
type_synonym kv_deliver = "(kv_class, kv_members) deliver"

definition query_val :: "connection_identifying \<Rightarrow> string \<Rightarrow> string list \<Rightarrow> val" where
  "query_val ci commands parameter =
     V_User 2 [ci_val ci, V_String commands, V_User 4 (map V_String parameter)]"

definition response_val :: "connection_identifying \<Rightarrow> string \<Rightarrow> val" where
  "response_val ci r = V_User 3 [ci_val ci, V_String r]"

fun val_string :: "val \<Rightarrow> string" where
  "val_string (V_String s) = s"
| "val_string v = []"

text \<open>
  The last two arguments of \<open>send\<close> read and move from \<open>query_\<close>; C++ leaves open which is evaluated first.
  A string moved from is empty in every implementation at hand.
\<close>

datatype arg_order = Command_First | Query_First

definition read_handler :: "arg_order \<Rightarrow> kv_deliver \<Rightarrow> nat \<Rightarrow> kv_sup callable" where
  "read_handler order dl self =
     Callable [T_User 1] (\<lambda>vs s.
       case vs of [V_User n [ci, V_String raw]] \<Rightarrow>
         let parsed = parse_request raw;
             query = query_val (val_ci ci) (hd parsed) (tl parsed);
             command = (case order of Command_First \<Rightarrow> hd parsed | Query_First \<Rightarrow> []) in
         and_then (sup_address_book ''storage'' s) (\<lambda>a.
         and_then (sup_address self) (\<lambda>own.
         and_then (send (from_sup dl self) a own command [query] s) (\<lambda>s. ok (vs, s))))
       | _ \<Rightarrow> ok (vs, s))"

definition write_handler :: "kv_sup callable" where
  "write_handler =
     Callable [T_User 3] (\<lambda>vs s.
       case vs of [V_User n [ci, V_String r]] \<Rightarrow>
         (case v_env s of (u, w) \<Rightarrow>
          and_then (mx_write (val_ci ci) r (km_mx u)) (\<lambda>m. ok (vs, s\<lparr>v_env := (u\<lparr>km_mx := m\<rparr>, w)\<rparr>)))
       | _ \<Rightarrow> ok (vs, s))"

definition close_handler :: "kv_sup callable" where
  "close_handler =
     Callable [T_User 3] (\<lambda>vs s.
       case vs of [V_User n [ci, V_String r]] \<Rightarrow>
         (case v_env s of (u, w) \<Rightarrow>
          and_then (mx_close (val_ci ci) (km_mx u)) (\<lambda>m. ok (vs, s\<lparr>v_env := (u\<lparr>km_mx := m\<rparr>, w)\<rparr>)))
       | _ \<Rightarrow> ok (vs, s))"

definition network_ctor :: "arg_order \<Rightarrow> kv_deliver \<Rightarrow> nat \<Rightarrow> (nat \<Rightarrow> string) \<Rightarrow> kv_sup comm_module" where
  "network_ctor order dl self types =
     add_handler ''close'' close_handler
       (add_handler ''read'' (read_handler order dl self)
         (add_handler ''write'' write_handler (sup_ctor (from_sup dl self) self types)))"

text \<open>The last lines of the constructor: the supervisor listens.\<close>

definition network_listen :: "nat \<Rightarrow> multiplexer \<Rightarrow> multiplexer eff" where
  "network_listen self m =
     and_then (sup_address self) (\<lambda>a. new_tcp_listener ''localhost'' 5555 a m)"

definition kv_enqueue_base :: "(kv_sup \<Rightarrow> kv_sup eff) \<Rightarrow> ptr \<Rightarrow> kv_sup \<Rightarrow> kv_sup eff" where
  "kv_enqueue_base exec p s = exec (set_current_message p s)"

text \<open>\<open>parameter[0]\<close> and \<open>parameter[1]\<close> are read without looking at how many there are.\<close>

definition update_handler :: "kv_deliver \<Rightarrow> nat \<Rightarrow> kv_actor callable" where
  "update_handler dl self =
     Callable [T_User 2] (\<lambda>vs s.
       case vs of [V_User n [ci, commands, V_User k parameter]] \<Rightarrow>
         (case ae_user (a_env s) of (u, w) \<Rightarrow>
          and_then (check (2 \<le> length parameter) Wild_Deref) (\<lambda>_.
          case kv_update (val_string (parameter ! 0)) (val_string (parameter ! 1)) (km_storage u) of (status, st) \<Rightarrow>
          let s = s\<lparr>a_env := (a_env s)\<lparr>ae_user := (u\<lparr>km_storage := st\<rparr>, w)\<rparr>\<rparr> in
          and_then (assert_that (kv_in ''1qaz'' st)) (\<lambda>_.
          and_then (kv_find ''1qaz'' st) (\<lambda>v.
          and_then (assert_that (v = ''7'')) (\<lambda>_.
          let response = response_val (val_ci ci) (int_to_string (if status then 1 else 0)) in
          and_then (get_value (a_heap s) (a_current s)) (\<lambda>msg.
          and_then (actor_address self) (\<lambda>own.
          and_then (actor_send dl self (m_sender msg) own ''write'' [response] s) (\<lambda>s. ok (vs, s)))))))))
       | _ \<Rightarrow> ok (vs, s))"

definition kv_storage_ctor :: "kv_deliver \<Rightarrow> nat \<Rightarrow> (nat \<Rightarrow> string) \<Rightarrow> kv_actor comm_module" where
  "kv_storage_ctor dl self types = add_handler ''update'' (update_handler dl self) (actor_ctor self types)"

definition key_value :: "arg_order \<Rightarrow> (kv_class, kv_members) program" where
  "key_value order =
     \<lparr>pr_actor = (\<lambda>k. kv_storage_ctor), pr_sup = (\<lambda>k. network_ctor order), pr_enqueue = (\<lambda>_ _ _. kv_enqueue_base)\<rparr>"

section \<open>The program\<close>

definition kv_executor :: executor_kind where
  "kv_executor = Pool (2 ^ 64 - 1)"

text \<open>The scenario \<open>main\<close> prepares, and the multiplexer once the supervisor listens.\<close>

definition kv_scenario :: "fake_state list" where
  "kv_scenario =
     [fs_input ''update.1qaz.7'' Cl_Read, fs_check (\<lambda>buffer. buffer = ''1'') Cl_Write 0, fs_next Cl_Close]"

definition kv_network :: "fake_state list \<Rightarrow> multiplexer eff" where
  "kv_network sts = and_then (add_scenario ''localhost'' 5555 sts mx_ctor) (network_listen 0)"

text \<open>The multiplexer is a member of the supervisor, object 0; \<open>send\<close> is called in the main thread.\<close>

definition kv_get :: "kv_world \<Rightarrow> multiplexer" where
  "kv_get w = (case w_objs w ! 0 of Sup_Obj k t a \<Rightarrow> km_mx (so_user a) | Actor_Obj k t a \<Rightarrow> km_mx (o_user a))"

definition kv_put :: "multiplexer \<Rightarrow> kv_world \<Rightarrow> kv_world" where
  "kv_put m w =
     (case w_objs w ! 0 of
        Sup_Obj k t a \<Rightarrow> w\<lparr>w_objs := (w_objs w)[0 := Sup_Obj k t (a\<lparr>so_user := (so_user a)\<lparr>km_mx := m\<rparr>\<rparr>)]\<rparr>
      | Actor_Obj k t a \<Rightarrow> w)"

definition kv_net :: "arg_order \<Rightarrow> nat \<Rightarrow> kv_world net" where
  "kv_net order f =
     \<lparr>net_get = kv_get, net_put = kv_put,
      net_send = (\<lambda>a sender name args w.
        and_then (addr_deref a) (\<lambda>n. main_send (deliver (key_value order) f) n sender name args w))\<rparr>"

text \<open>While \<open>start\<close> loops, the worker of the pool takes \<open>ts i\<close> turns during the \<open>i\<close>-th pass.\<close>

definition kv_turns :: "arg_order \<Rightarrow> nat \<Rightarrow> (nat \<Rightarrow> nat) \<Rightarrow> nat \<Rightarrow> kv_world \<Rightarrow> kv_world eff" where
  "kv_turns order f ts i = pool_turns (key_value order) f (ts i)"

section \<open>One request\<close>

lemma kv_handlers:
  "cm_handlers (network_ctor order dl self types) n =
     (if n = ''write'' then Some write_handler else if n = ''read'' then Some (read_handler order dl self)
      else if n = ''close'' then Some close_handler else cm_handlers (sup_ctor (from_sup dl self) self types) n)"
  "cm_handlers (kv_storage_ctor dl self types) n =
     (if n = ''update'' then Some (update_handler dl self) else cm_handlers (actor_ctor self types) n)"
  by (simp_all add: network_ctor_def kv_storage_ctor_def actor_ctor_handlers sup_ctor_handlers)

lemma kv_args:
  "c_args (read_handler order dl self) = [T_User 1]" "c_args write_handler = [T_User 3]"
  "c_args (update_handler dl self) = [T_User 2]"
  by (simp_all add: read_handler_def write_handler_def update_handler_def)

text \<open>
  The network and the storage, linked with each other and idle; \<open>cur\<close> are the messages they handled
  last, \<open>rc\<close> the references to the storage.
\<close>

definition kv_linked ::
  "message heap \<Rightarrow> nat \<Rightarrow> multiplexer \<Rightarrow> storage \<Rightarrow> ptr \<Rightarrow> ptr \<Rightarrow> 64 word \<Rightarrow> kv_world" where
  "kv_linked h n m st c0 c1 rc =
     \<lparr>w_heap = h, w_fresh = n, w_log = [],
      w_objs =
        [Sup_Obj Kv_Network ''network''
           \<lparr>so_contacts = [(''storage'', [A_Mod 1])], so_current = c0, so_executor = kv_executor,
            so_user = \<lparr>km_mx = m, km_storage = Map.empty\<rparr>\<rparr>,
         Actor_Obj Kv_Storage ''storage''
           (at_rest 1 0 c1 rc [''network'' \<mapsto> A_Mod 0] \<lparr>km_mx = mx_ctor, km_storage = st\<rparr>)],
      w_jobs = []\<rparr>"

text \<open>The network has read the request, the storage has the query in its mailbox and is queued.\<close>

definition kv_queued ::
  "message heap \<Rightarrow> nat \<Rightarrow> multiplexer \<Rightarrow> storage \<Rightarrow> ptr \<Rightarrow> ptr \<Rightarrow> 64 word \<Rightarrow> nat \<Rightarrow> kv_world" where
  "kv_queued h n m st c0 c1 rc x =
     \<lparr>w_heap = h, w_fresh = n, w_log = [],
      w_objs =
        [Sup_Obj Kv_Network ''network''
           \<lparr>so_contacts = [(''storage'', [A_Mod 1])], so_current = c0, so_executor = kv_executor,
            so_user = \<lparr>km_mx = m, km_storage = Map.empty\<rparr>\<rparr>,
         Actor_Obj Kv_Storage ''storage''
           \<lparr>o_mbox = \<lparr>q_this = 1, q_stack = Node x, q_head = Null\<rparr>, o_flags = St_Busy, o_current = c1,
            o_device = None, o_rc = rc, o_alive = True, o_contacts = [''network'' \<mapsto> A_Mod 0], o_super = 0,
            o_user = \<lparr>km_mx = mx_ctor, km_storage = st\<rparr>\<rparr>],
      w_jobs = [1]\<rparr>"

lemmas kv_eval = kv_handlers kv_args key_value_def kv_enqueue_base_def kv_net_def kv_get_def kv_put_def al_at_def kv_executor_def

lemma kv_read_request:
  assumes "mx_tasks m = [ci]" and "map_of (mx_sockets m) ci = Some \<lparr>cn_socket = sk, cn_address = A_Mod 0\<rparr>"
    and "sk_scenario sk = fs_input raw Cl_Read # sts" and "rest_links h 1"
  shows "\<exists>h'. drain_tasks (kv_net order (Suc (Suc f))) (kv_linked h n m st c0 c1 rc) =
      ok (kv_queued h' (Suc (Suc n))
        (m\<lparr>mx_tasks := [],
           mx_sockets := al_set ci \<lparr>cn_socket = \<lparr>sk_current = fs_input raw Cl_Read, sk_scenario = sts\<rparr>, cn_address = A_Mod 0\<rparr>
             (mx_sockets m)\<rparr>)
        st (Node n) c1 (rc + 1) (Suc n)) \<and> rest_links h' 1 \<and> nxt h' (Node (Suc n)) = Null \<and>
      cell h' (Node (Suc n)) = Some (make_message (A_Mod 0)
        (case order of Command_First \<Rightarrow> hd (parse_request raw) | Query_First \<Rightarrow> [])
        [query_val ci (hd (parse_request raw)) (tl (parse_request raw))])"
  using assms
  by (subst drain_tasks.simps, simp add: kv_linked_def kv_queued_def kv_eval mx_task_def socket_read_input drain_tasks.simps at_rest_def
      heap_eval actor_eval message_eval module_eval sup_eval world_eval Let_def query_raw_val_def read_handler_def queue_job_def
     cong del: and_then_weak_cong)

lemma kv_update_eq: "kv_update k v st = (True, st(k \<mapsto> v))"
  by (simp add: kv_update_def emplace_def)

lemmas kv_run = heap_eval actor_eval message_eval module_eval sup_eval world_eval kv_eval Let_def

lemma kv_update_served:
  assumes "kv_update k v st = (True, st')" and "kv_in ''1qaz'' st'" and "kv_find ''1qaz'' st' = ok ''7''"
    and "cell h (Node x) = Some (make_message (A_Mod 0) ''update'' [query_val ci ''update'' (k # v # ps)])"
    and "nxt h (Node x) = Null" and "rest_links h 1" and "x \<noteq> n" and "rc \<noteq> 1"
    and "map_of (mx_sockets m) ci = Some \<lparr>cn_socket = sk, cn_address = A_Mod 0\<rparr>"
    and "sk_scenario sk = fs_check chk Cl_Write t # sts"
  shows "\<exists>h'. pool_turn (key_value order) (Suc f) (kv_queued h n m st c0 c1 rc x) =
      ok (kv_linked h' (Suc n)
        (m\<lparr>mx_sockets := al_set ci \<lparr>cn_socket = \<lparr>sk_current = fs_check chk Cl_Write t, sk_scenario = sts\<rparr>, cn_address = A_Mod 0\<rparr>
             (mx_sockets m)\<rparr>)
        st' (Node n) (Node x) (rc - 1))"
  using assms
  apply (simp add: pool_turn_def kv_linked_def kv_queued_def at_rest_def kv_run update_handler_def write_handler_def
     query_val_def response_val_def mx_write_def socket_write_check
     cong del: and_then_weak_cong)
  done

lemma kv_update_refused:
  assumes "kv_update k v st = (True, st')" and "kv_in ''1qaz'' st' \<Longrightarrow> \<exists>y. kv_find ''1qaz'' st' = ok y \<and> y \<noteq> ''7''"
    and "cell h (Node x) = Some (make_message (A_Mod 0) ''update'' [query_val ci ''update'' (k # v # ps)])"
    and "nxt h (Node x) = Null" and "rest_links h 1"
  shows "pool_turn (key_value order) (Suc f) (kv_queued h n m st c0 c1 rc x) = fail Assert_Failed"
proof (cases "kv_in ''1qaz'' st'")
  case True
  with assms(2) obtain y where "kv_find ''1qaz'' st' = ok y" "y \<noteq> ''7''"
    by blast
  with True assms(1,3-) show ?thesis
    by (simp add: pool_turn_def kv_queued_def kv_run update_handler_def query_val_def cong del: and_then_weak_cong)
next
  case False
  with assms(1,3-) show ?thesis
    by (simp add: pool_turn_def kv_queued_def kv_run update_handler_def query_val_def cong del: and_then_weak_cong)
qed

text \<open>An actor that is asked for something it has no handler for reports it and goes on.\<close>

lemma kv_unknown_skipped:
  assumes "cell h (Node x) = Some (make_message (A_Mod 0) cmd vs)"
    and "cmd \<notin> {''update'', ''add_link'', ''remove_link''}"
    and "nxt h (Node x) = Null" and "rest_links h 1" and "rc \<noteq> 1"
  shows "\<exists>h'. pool_turn (key_value order) (Suc f) (kv_queued h n m st c0 c1 rc x) =
      ok (kv_linked h' n m st c0 (Node x) (rc - 1)\<lparr>w_log := [Log_Skip ''network'' ''storage'' cmd]\<rparr>)"
  using assms
  by (simp add: pool_turn_def kv_linked_def kv_queued_def at_rest_def kv_run kv_storage_ctor_def
    actor_ctor_def comm_ctor_def
     cong del: and_then_weak_cong)

text \<open>The request read by the main thread and then served by the worker of the pool.\<close>

definition kv_run_request :: "arg_order \<Rightarrow> nat \<Rightarrow> kv_world \<Rightarrow> kv_world eff" where
  "kv_run_request order f w = and_then (drain_tasks (kv_net order f) w) (pool_turn (key_value order) f)"

definition mx_after :: "connection_identifying \<Rightarrow> fake_state \<Rightarrow> fake_state list \<Rightarrow> multiplexer \<Rightarrow> multiplexer" where
  "mx_after ci st sts m =
     m\<lparr>mx_tasks := [],
       mx_sockets := al_set ci \<lparr>cn_socket = \<lparr>sk_current = st, sk_scenario = sts\<rparr>, cn_address = A_Mod 0\<rparr> (mx_sockets m)\<rparr>"

lemma kv_read_request_after:
  assumes "mx_tasks m = [ci]" and "map_of (mx_sockets m) ci = Some \<lparr>cn_socket = sk, cn_address = A_Mod 0\<rparr>"
    and "sk_scenario sk = fs_input raw Cl_Read # sts" and "rest_links h 1"
  obtains h' where "drain_tasks (kv_net order (Suc (Suc f))) (kv_linked h n m st c0 c1 rc) =
      ok (kv_queued h' (Suc (Suc n)) (mx_after ci (fs_input raw Cl_Read) sts m) st (Node n) c1 (rc + 1) (Suc n))"
    and "rest_links h' 1" and "nxt h' (Node (Suc n)) = Null"
    and "cell h' (Node (Suc n)) = Some (make_message (A_Mod 0)
        (case order of Command_First \<Rightarrow> hd (parse_request raw) | Query_First \<Rightarrow> [])
        [query_val ci (hd (parse_request raw)) (tl (parse_request raw))])"
    and "map_of (mx_sockets (mx_after ci (fs_input raw Cl_Read) sts m)) ci =
      Some \<lparr>cn_socket = \<lparr>sk_current = fs_input raw Cl_Read, sk_scenario = sts\<rparr>, cn_address = A_Mod 0\<rparr>"
  using kv_read_request [OF assms, of order f n st c0 c1 rc] assms(2) that
  unfolding mx_after_def by (elim exE conjE) (simp add: map_of_al_set)

text \<open>The request, in either order, up to the worker's turn, and the outcomes of that turn.\<close>

lemmas add_numbers = add_2_eq_Suc' numeral_3_eq_3 add_Suc_right add_0_right Suc_eq_plus1 [symmetric]

lemma kv_run_turn:
  assumes "parse_request raw = ''update'' # k # v # ps"
    and "mx_tasks m = [ci]" and "map_of (mx_sockets m) ci = Some \<lparr>cn_socket = sk, cn_address = A_Mod 0\<rparr>"
    and "sk_scenario sk = fs_input raw Cl_Read # fs_check chk Cl_Write t # sts"
    and "rest_links h 1"
  obtains h' where "kv_run_request order (f + 2) (kv_linked h n m st c0 c1 rc) =
      pool_turn (key_value order) (Suc (Suc f))
        (kv_queued h' (n + 2) (mx_after ci (fs_input raw Cl_Read) (fs_check chk Cl_Write t # sts) m) st (Node n) c1
          (rc + 1) (n + 1))"
    and "rest_links h' 1" and "nxt h' (Node (n + 1)) = Null"
    and "cell h' (Node (n + 1)) = Some (make_message (A_Mod 0)
        (case order of Command_First \<Rightarrow> ''update'' | Query_First \<Rightarrow> []) [query_val ci ''update'' (k # v # ps)])"
    and "map_of (mx_sockets (mx_after ci (fs_input raw Cl_Read) (fs_check chk Cl_Write t # sts) m)) ci =
      Some \<lparr>cn_socket = \<lparr>sk_current = fs_input raw Cl_Read, sk_scenario = fs_check chk Cl_Write t # sts\<rparr>,
        cn_address = A_Mod 0\<rparr>"
proof (rule kv_read_request_after [OF assms(2-5), where order = order and f = f and n = n and st = st and ?c0.0 = c0 and
      ?c1.0 = c1 and rc = rc])
  fix h'
  assume d: "drain_tasks (kv_net order (Suc (Suc f))) (kv_linked h n m st c0 c1 rc) =
      ok (kv_queued h' (Suc (Suc n)) (mx_after ci (fs_input raw Cl_Read) (fs_check chk Cl_Write t # sts) m) st (Node n) c1
        (rc + 1) (Suc n))"
    and h': "rest_links h' 1" "nxt h' (Node (Suc n)) = Null"
      "cell h' (Node (Suc n)) = Some (make_message (A_Mod 0)
        (case order of Command_First \<Rightarrow> hd (parse_request raw) | Query_First \<Rightarrow> [])
        [query_val ci (hd (parse_request raw)) (tl (parse_request raw))])"
      "map_of (mx_sockets (mx_after ci (fs_input raw Cl_Read) (fs_check chk Cl_Write t # sts) m)) ci =
        Some \<lparr>cn_socket = \<lparr>sk_current = fs_input raw Cl_Read, sk_scenario = fs_check chk Cl_Write t # sts\<rparr>,
          cn_address = A_Mod 0\<rparr>"
  show thesis
  proof (rule that)
    show "kv_run_request order (f + 2) (kv_linked h n m st c0 c1 rc) =
        pool_turn (key_value order) (Suc (Suc f))
          (kv_queued h' (n + 2) (mx_after ci (fs_input raw Cl_Read) (fs_check chk Cl_Write t # sts) m) st (Node n) c1
            (rc + 1) (n + 1))"
      unfolding kv_run_request_def add_numbers d and_then_simps ..
  qed (use h' assms(1) in \<open>simp_all cong: arg_order.case_cong\<close>)
qed

lemma kv_run_served:
  assumes "parse_request raw = ''update'' # k # v # ps"
    and "mx_tasks m = [ci]" and "map_of (mx_sockets m) ci = Some \<lparr>cn_socket = sk, cn_address = A_Mod 0\<rparr>"
    and "sk_scenario sk = fs_input raw Cl_Read # fs_check chk Cl_Write t # sts"
    and "rest_links h 1"
    and "rc \<noteq> 0" and "(st(k \<mapsto> v)) ''1qaz'' = Some ''7''"
  shows "\<exists>h'. kv_run_request Command_First (f + 2) (kv_linked h n m st c0 c1 rc) =
      ok (kv_linked h' (n + 3) (mx_after ci (fs_check chk Cl_Write t) sts m) (st(k \<mapsto> v)) (Node (n + 2)) (Node (n + 1)) rc)"
proof (rule kv_run_turn [OF assms(1-5), where order = Command_First and f = f and n = n and st = st and ?c0.0 = c0 and
      ?c1.0 = c1 and rc = rc])
  fix h'
  let ?m = "mx_after ci (fs_input raw Cl_Read) (fs_check chk Cl_Write t # sts) m"
  assume r: "kv_run_request Command_First (f + 2) (kv_linked h n m st c0 c1 rc) =
      pool_turn (key_value Command_First) (Suc (Suc f)) (kv_queued h' (n + 2) ?m st (Node n) c1 (rc + 1) (n + 1))"
    and h': "rest_links h' 1" "nxt h' (Node (n + 1)) = Null"
      "cell h' (Node (n + 1)) = Some (make_message (A_Mod 0)
        (case Command_First of Command_First \<Rightarrow> ''update'' | Query_First \<Rightarrow> []) [query_val ci ''update'' (k # v # ps)])"
      "map_of (mx_sockets ?m) ci =
        Some \<lparr>cn_socket = \<lparr>sk_current = fs_input raw Cl_Read, sk_scenario = fs_check chk Cl_Write t # sts\<rparr>,
          cn_address = A_Mod 0\<rparr>"
  have rc: "rc + 1 \<noteq> 1"
    using assms(6) by simp
  show ?thesis
    using kv_update_served [OF kv_update_eq _ _ h'(3) [unfolded arg_order.case] h'(2,1) _ rc h'(4),
        where order = Command_First and f = "Suc f" and n = "n + 2" and ?c0.0 = "Node n" and ?c1.0 = c1 and st = st] assms(7)
    unfolding r by (simp add: kv_in_def kv_find_def mx_after_def eval_nat_numeral)
qed

lemma kv_run_refused:
  assumes "parse_request raw = ''update'' # k # v # ps"
    and "mx_tasks m = [ci]" and "map_of (mx_sockets m) ci = Some \<lparr>cn_socket = sk, cn_address = A_Mod 0\<rparr>"
    and "sk_scenario sk = fs_input raw Cl_Read # fs_check chk Cl_Write t # sts"
    and "rest_links h 1"
    and "(st(k \<mapsto> v)) ''1qaz'' \<noteq> Some ''7''"
  shows "kv_run_request Command_First (f + 2) (kv_linked h n m st c0 c1 rc) = fail Assert_Failed"
proof (rule kv_run_turn [OF assms(1-5), where order = Command_First and f = f and n = n and st = st and ?c0.0 = c0 and
      ?c1.0 = c1 and rc = rc])
  fix h'
  let ?m = "mx_after ci (fs_input raw Cl_Read) (fs_check chk Cl_Write t # sts) m"
  assume r: "kv_run_request Command_First (f + 2) (kv_linked h n m st c0 c1 rc) =
      pool_turn (key_value Command_First) (Suc (Suc f)) (kv_queued h' (n + 2) ?m st (Node n) c1 (rc + 1) (n + 1))"
    and h': "rest_links h' 1" "nxt h' (Node (n + 1)) = Null"
      "cell h' (Node (n + 1)) = Some (make_message (A_Mod 0)
        (case Command_First of Command_First \<Rightarrow> ''update'' | Query_First \<Rightarrow> []) [query_val ci ''update'' (k # v # ps)])"
  show ?thesis
    unfolding r
    by (rule kv_update_refused [OF kv_update_eq _ h'(3) [unfolded arg_order.case] h'(2,1)])
      (use assms(6) in \<open>auto simp: kv_in_def kv_find_def simp del: fun_upd_apply\<close>)
qed

lemma kv_run_lost:
  assumes "parse_request raw = ''update'' # k # v # ps"
    and "mx_tasks m = [ci]" and "map_of (mx_sockets m) ci = Some \<lparr>cn_socket = sk, cn_address = A_Mod 0\<rparr>"
    and "sk_scenario sk = fs_input raw Cl_Read # fs_check chk Cl_Write t # sts"
    and "rest_links h 1"
    and "rc \<noteq> 0"
  shows "\<exists>h'. kv_run_request Query_First (f + 2) (kv_linked h n m st c0 c1 rc) =
      ok (kv_linked h' (n + 2) (mx_after ci (fs_input raw Cl_Read) (fs_check chk Cl_Write t # sts) m) st (Node n)
        (Node (n + 1)) rc\<lparr>w_log := [Log_Skip ''network'' ''storage'' []]\<rparr>)"
proof (rule kv_run_turn [OF assms(1-5), where order = Query_First and f = f and n = n and st = st and ?c0.0 = c0 and
      ?c1.0 = c1 and rc = rc])
  fix h'
  let ?m = "mx_after ci (fs_input raw Cl_Read) (fs_check chk Cl_Write t # sts) m"
  assume r: "kv_run_request Query_First (f + 2) (kv_linked h n m st c0 c1 rc) =
      pool_turn (key_value Query_First) (Suc (Suc f)) (kv_queued h' (n + 2) ?m st (Node n) c1 (rc + 1) (n + 1))"
    and h': "rest_links h' 1" "nxt h' (Node (n + 1)) = Null"
      "cell h' (Node (n + 1)) = Some (make_message (A_Mod 0)
        (case Query_First of Command_First \<Rightarrow> ''update'' | Query_First \<Rightarrow> []) [query_val ci ''update'' (k # v # ps)])"
  have rc: "rc + 1 \<noteq> 1"
    using assms(6) by simp
  show ?thesis
    using kv_unknown_skipped [OF h'(3) [unfolded arg_order.case] _ h'(2,1) rc, where order = Query_First and f = "Suc f"
        and n = "n + 2" and ?c0.0 = "Node n" and ?c1.0 = c1 and st = st and m = ?m]
    unfolding r by simp
qed

text \<open>
  \<open>start\<close>: nothing happens until the first turn of the worker, and its outcome is that of the job; after
  it the loop spins.
\<close>

definition kv_at_rest :: "kv_world \<Rightarrow> bool" where
  "kv_at_rest w \<longleftrightarrow> w_jobs w = [] \<and> mx_tasks (kv_get w) = [] \<and> mx_enabled (kv_get w)"

lemma pool_turns_no_job: "w_jobs w = [] \<Longrightarrow> pool_turns P f n w = ok w"
  by (induction n) (simp_all add: pool_turn_def)

lemma kv_at_rest_spins: "kv_at_rest w \<Longrightarrow> start_loop (kv_turns order f ts) (kv_net order f) i w = None"
  by (rule start_loop_spins) (simp add: kv_at_rest_def loop_idle_def kv_net_def kv_turns_def pool_turns_no_job)

lemma kv_start_loop:
  assumes "mx_enabled (kv_get w)" and "mx_tasks (kv_get w) = []"
    and "(\<exists>w'. pool_turn (key_value order) f w = ok w' \<and> kv_at_rest w') \<or> pool_turn (key_value order) f w = fail x"
  shows "start_loop (kv_turns order f ts) (kv_net order f) i w =
    (if (\<exists>j \<ge> i. ts j \<noteq> 0) \<and> pool_turn (key_value order) f w = fail x then fail x else None)"
proof (cases "\<exists>j \<ge> i. ts j \<noteq> 0")
  case False
  then have "loop_idle (kv_turns order f ts) (kv_net order f) i w"
    using assms(1,2) by (simp add: loop_idle_def kv_net_def kv_turns_def)
  with False show ?thesis
    by (simp add: start_loop_spins)
next
  case True
  define j where "j = (LEAST j. i \<le> j \<and> ts j \<noteq> 0)"
  have j: "i \<le> j" "ts j \<noteq> 0"
    using LeastI_ex [of "\<lambda>j. i \<le> j \<and> ts j \<noteq> 0"] True unfolding j_def by blast+
  have before: "ts l = 0" if "i \<le> l" "l < j" for l
    using not_less_Least [of l "\<lambda>j. i \<le> j \<and> ts j \<noteq> 0"] that unfolding j_def by blast
  have wait: "start_loop (kv_turns order f ts) (kv_net order f) i w = start_loop (kv_turns order f ts) (kv_net order f) j w"
    by (rule start_loop_waits) (use assms(1,2) j before in \<open>simp_all add: kv_net_def kv_turns_def\<close>)
  obtain m where m: "ts j = Suc m"
    using j(2) not0_implies_Suc by blast
  show ?thesis
  proof (cases "pool_turn (key_value order) f w = fail x")
    case fails: True
    then have "start_loop (kv_turns order f ts) (kv_net order f) j w = fail x"
      using assms(1) m by (subst start_loop.simps) (simp add: kv_net_def kv_turns_def)
    with wait True fails show ?thesis
      by simp
  next
    case False
    with assms(3) obtain w' where w': "pool_turn (key_value order) f w = ok w'" "kv_at_rest w'"
      by blast
    then have "kv_turns order f ts j w = ok w'"
      by (simp add: kv_turns_def m kv_at_rest_def pool_turns_no_job)
    moreover have "drain_tasks (kv_net order f) w' = ok w'"
      using w'(2) by (simp add: drain_tasks.simps [of _ w'] kv_net_def kv_at_rest_def)
    ultimately have "start_loop (kv_turns order f ts) (kv_net order f) j w = None"
      using assms(1) w'(2) by (subst start_loop.simps) (simp add: kv_net_def kv_at_rest_spins [unfolded kv_net_def])
    with wait False show ?thesis
      by simp
  qed
qed

lemma kv_at_rest_linked:
  "kv_at_rest (kv_linked h n (mx_after ci cur sts m) st c0 c1 rc) \<longleftrightarrow> mx_enabled m"
  "kv_at_rest (kv_linked h n (mx_after ci cur sts m) st c0 c1 rc\<lparr>w_log := l\<rparr>) \<longleftrightarrow> mx_enabled m"
  by (simp_all add: kv_at_rest_def kv_get_def kv_linked_def mx_after_def)

lemma kv_start_spins:
  assumes "parse_request raw = ''update'' # k # v # ps"
    and "mx_tasks m = [ci]" and "map_of (mx_sockets m) ci = Some \<lparr>cn_socket = sk, cn_address = A_Mod 0\<rparr>"
    and "sk_scenario sk = fs_input raw Cl_Read # fs_check chk Cl_Write t # sts"
    and "rest_links h 1" and "rc \<noteq> 0"
    and "mx_enabled m" and "mx_scenario m \<noteq> []"
  shows "mx_start (kv_turns order (f + 2) ts) (kv_net order (f + 2)) (kv_linked h n m st c0 c1 rc) =
    (if order = Command_First \<and> (st(k \<mapsto> v)) ''1qaz'' \<noteq> Some ''7'' \<and> (\<exists>i > 0. ts i \<noteq> 0) then fail Assert_Failed else None)"
proof (rule kv_read_request_after [OF assms(2-5), where order = order and f = f and n = n and st = st and ?c0.0 = c0 and
      ?c1.0 = c1 and rc = rc])
  fix h'
  let ?F = "Suc (Suc f)"
  let ?w = "kv_linked h n m st c0 c1 rc"
  let ?q = "kv_queued h' (Suc (Suc n)) (mx_after ci (fs_input raw Cl_Read) (fs_check chk Cl_Write t # sts) m) st (Node n) c1
    (rc + 1) (Suc n)"
  assume d: "drain_tasks (kv_net order ?F) ?w = ok ?q"
  then have run: "kv_run_request order (f + 2) ?w = pool_turn (key_value order) ?F ?q"
    by (simp add: kv_run_request_def)
  have q: "mx_enabled (kv_get ?q)" "mx_tasks (kv_get ?q) = []"
    using assms(7) by (simp_all add: kv_get_def kv_queued_def mx_after_def)
  let ?bad = "order = Command_First \<and> (st(k \<mapsto> v)) ''1qaz'' \<noteq> Some ''7''"
  have bad: "pool_turn (key_value order) ?F ?q = fail Assert_Failed" if ?bad
    using kv_run_refused [OF assms(1-5), of st f n c0 c1 rc] run that by simp
  have good: "\<exists>w'. pool_turn (key_value order) ?F ?q = ok w' \<and> kv_at_rest w'" if "\<not> ?bad"
  proof (cases order)
    case Command_First
    with that show ?thesis
      using kv_run_served [OF assms(1-6), of st f n c0 c1] run assms(7) by (auto simp: kv_at_rest_linked)
  next
    case Query_First
    then show ?thesis
      using kv_run_lost [OF assms(1-6), of f n st c0 c1] run assms(7) by (auto simp: kv_at_rest_linked)
  qed
  have turn: "pool_turn (key_value order) ?F ?q = fail Assert_Failed \<longleftrightarrow> ?bad"
    using bad good by (cases ?bad) auto
  have "start_loop (kv_turns order ?F ts) (kv_net order ?F) 1 ?q =
      (if (\<exists>j \<ge> 1. ts j \<noteq> 0) \<and> pool_turn (key_value order) ?F ?q = fail Assert_Failed then fail Assert_Failed else None)"
    by (rule kv_start_loop) (use q bad good in blast)+
  moreover have "start_loop (kv_turns order ?F ts) (kv_net order ?F) 0 ?w =
      start_loop (kv_turns order ?F ts) (kv_net order ?F) 1 ?q"
    using d assms(7)
    by (subst start_loop.simps) (simp add: kv_turns_def pool_turns_no_job kv_net_def kv_get_def kv_linked_def)
  ultimately have "start_loop (kv_turns order ?F ts) (kv_net order ?F) 0 ?w =
      (if ?bad \<and> (\<exists>i > 0. ts i \<noteq> 0) then fail Assert_Failed else None)"
    unfolding turn by (simp add: Suc_le_eq conj_commute)
  then show ?thesis
    using assms(2,8) by (simp add: mx_start_def kv_net_def kv_get_def kv_linked_def)
qed

text \<open>The multiplexer when \<open>main\<close> has prepared the scenario and the supervisor listens.\<close>

definition kv_ready :: "fake_state list \<Rightarrow> multiplexer" where
  "kv_ready sts =
     (let ci = tcp_id ''localhost'' 5555 in
      \<lparr>mx_enabled = True, mx_tasks = [ci],
       mx_sockets = [(ci, \<lparr>cn_socket = \<lparr>sk_current = fs_default, sk_scenario = sts\<rparr>, cn_address = A_Mod 0\<rparr>)],
       mx_scenario = [(ci, socket_init)]\<rparr>)"

lemma kv_network_ready: "kv_network sts = ok (kv_ready sts)"
proof -
  have "fold socket_add sts s = s\<lparr>sk_scenario := sk_scenario s @ sts\<rparr>" for s
    by (induction sts arbitrary: s) (simp_all add: socket_add_def)
  then show ?thesis
    by (simp add: kv_network_def add_scenario_def network_listen_def new_tcp_listener_def kv_ready_def mx_ctor_def al_emplace_def
        al_at_def socket_init_def connection_ctor_def sup_address_def addr_ctor_def addr_move_ctor_def addr_swap_def Let_def)
qed

section \<open>Properties\<close>

text \<open>
  C39. Parsing a request: words without dots, joined by dots, are the words the parser returns, and joining
  what the parser returns, whatever the request, gives the request back.
\<close>

theorem request_round_trip:
  assumes "ws \<noteq> []" and "\<forall>w \<in> set ws. CHR ''.'' \<notin> set w"
  shows "parse_request (join_words ws) = ws \<and> join_words (parse_request raw) = raw"
proof
  show "parse_request (join_words ws) = ws"
    by (rule parse_join [OF assms])
  obtain vs where vs: "raw = join_words vs" "vs \<noteq> []" "\<forall>w \<in> set vs. CHR ''.'' \<notin> set w"
    using words_exist by blast
  then show "join_words (parse_request raw) = raw"
    by (simp add: parse_join)
qed

lemma request_round_trip_witness:
  "parse_request ''update.1qaz.7'' = [''update'', ''1qaz'', ''7''] \<and> join_words (parse_request ''a..b.'') = ''a..b.''"
  using request_round_trip [of "[''update'', ''1qaz'', ''7'']" "''a..b.''"] by simp

text \<open>
  C38. A request whose command is \<open>update\<close>, with at least two parameters, \<open>k\<close> and \<open>v\<close>, that the network reads from
  its socket, with the network and the storage linked and idle, and the job it causes, run after the multiplexer has
  emptied its tasks. If \<open>send\<close>'s arguments are evaluated from the left and \<open>1qaz\<close> is mapped to \<open>7\<close> once \<open>k\<close> is mapped
  to \<open>v\<close>, the storage maps \<open>k\<close> to \<open>v\<close> and writes \<open>1\<close> back to the socket, whose next entry is used up whatever its
  check says. With any other contents, as after \<open>update.foo.bar\<close> on an empty storage, an assertion in the handler
  fails. If the query is moved first, its command is lost: the storage reports a message without a handler, nothing
  is stored, nothing is written. While \<open>start\<close> loops, with any number \<open>ts i\<close> of turns of the worker in its
  \<open>i\<close>-th pass: it never returns, in either order; it loops forever, or the assertion of the handler ends the
  program, and that exactly when the request is refused as above and the worker takes a turn after the first pass.
\<close>

theorem request_served:
  assumes "parse_request raw = ''update'' # k # v # ps"
    and "mx_tasks m = [ci]" and "map_of (mx_sockets m) ci = Some \<lparr>cn_socket = sk, cn_address = A_Mod 0\<rparr>"
    and "sk_scenario sk = fs_input raw Cl_Read # fs_check chk Cl_Write t # sts"
    and "rest_links h 1" and "rc \<noteq> 0" and "mx_enabled m" and "mx_scenario m \<noteq> []"
  shows "(if (st(k \<mapsto> v)) ''1qaz'' = Some ''7''
      then \<exists>h'. kv_run_request Command_First (f + 2) (kv_linked h n m st c0 c1 rc) =
        ok (kv_linked h' (n + 3) (mx_after ci (fs_check chk Cl_Write t) sts m) (st(k \<mapsto> v)) (Node (n + 2)) (Node (n + 1)) rc)
      else kv_run_request Command_First (f + 2) (kv_linked h n m st c0 c1 rc) = fail Assert_Failed) \<and>
    (\<exists>h'. kv_run_request Query_First (f + 2) (kv_linked h n m st c0 c1 rc) =
        ok (kv_linked h' (n + 2) (mx_after ci (fs_input raw Cl_Read) (fs_check chk Cl_Write t # sts) m) st (Node n)
          (Node (n + 1)) rc\<lparr>w_log := [Log_Skip ''network'' ''storage'' []]\<rparr>)) \<and>
    mx_start (kv_turns order (f + 2) ts) (kv_net order (f + 2)) (kv_linked h n m st c0 c1 rc) =
      (if order = Command_First \<and> (st(k \<mapsto> v)) ''1qaz'' \<noteq> Some ''7'' \<and> (\<exists>i > 0. ts i \<noteq> 0) then fail Assert_Failed else None)"
  using kv_run_served [OF assms(1-6)] kv_run_refused [OF assms(1-5)] kv_run_lost [OF assms(1-6)]
    kv_start_spins [OF assms] by simp

lemma request_served_witness:
  "kv_network kv_scenario = ok (kv_ready kv_scenario) \<and>
   (\<exists>h'. kv_run_request Command_First 2 (kv_linked (pl_ctor 1 message_default empty_heap) 0 (kv_ready kv_scenario) Map.empty
       Uninit Uninit 1) =
     ok (kv_linked h' 3
       (mx_after (tcp_id ''localhost'' 5555) (fs_check (\<lambda>buffer. buffer = ''1'') Cl_Write 0) [fs_next Cl_Close]
         (kv_ready kv_scenario))
       [''1qaz'' \<mapsto> ''7''] (Node 2) (Node 1) 1)) \<and>
   mx_start (kv_turns Command_First 2 (\<lambda>i. 1)) (kv_net Command_First 2)
     (kv_linked (pl_ctor 1 message_default empty_heap) 0 (kv_ready kv_scenario) Map.empty Uninit Uninit 1) = None"
proof -
  have parse: "parse_request ''update.1qaz.7'' = ''update'' # ''1qaz'' # ''7'' # []"
    using parse_join [of "[''update'', ''1qaz'', ''7'']"] by simp
  have rest: "rest_links (pl_ctor 1 message_default empty_heap) 1"
    by (simp add: rest_links_def heap_eval)
  have m: "mx_tasks (kv_ready kv_scenario) = [tcp_id ''localhost'' 5555]"
    "map_of (mx_sockets (kv_ready kv_scenario)) (tcp_id ''localhost'' 5555) =
      Some \<lparr>cn_socket = \<lparr>sk_current = fs_default, sk_scenario = kv_scenario\<rparr>, cn_address = A_Mod 0\<rparr>"
    "mx_enabled (kv_ready kv_scenario)" "mx_scenario (kv_ready kv_scenario) \<noteq> []"
    by (simp_all add: kv_ready_def Let_def)
  have sk: "sk_scenario \<lparr>sk_current = fs_default, sk_scenario = kv_scenario\<rparr> =
      fs_input ''update.1qaz.7'' Cl_Read # fs_check (\<lambda>buffer. buffer = ''1'') Cl_Write 0 # [fs_next Cl_Close]"
    by (simp add: kv_scenario_def)
  show ?thesis
    using request_served [OF parse m(1,2) sk rest _ m(3,4), where f = 0 and n = 0 and st = Map.empty and ?c0.0 = Uninit and
        ?c1.0 = Uninit and rc = 1 and order = Command_First and ts = "\<lambda>i. 1"] kv_network_ready
    by (simp add: numeral_2_eq_2)
qed

end
