(* ===== verification/Communication.thy ===== *)
theory Communication
  imports World
begin

text \<open>
  The program \<open>examples/communication\<close>: two supervisors that are to create actors on request. The executor
  runs jobs inline and does not release them.
\<close>

section \<open>State\<close>

datatype cm_class = Cm_Storage | Cm_Network | Cm_Supervisor

record cm_members =
  cm_actors :: "nat list"
  cm_cursor :: nat

definition cm_none :: cm_members where
  "cm_none = \<lparr>cm_actors = [], cm_cursor = 0\<rparr>"

type_synonym cm_world = "(cm_class, cm_members) world"
type_synonym cm_actor = "(cm_class, cm_members) actor_view"
type_synonym cm_sup = "(cm_class, cm_members) sup_view"
type_synonym cm_deliver = "(cm_class, cm_members) deliver"

definition cm_executor :: executor_kind where
  "cm_executor = Inline 10000 False"

definition cm_system :: "string set" where
  "cm_system = {''sync_contacts'', ''add_link'', ''remove_link''}"

section \<open>The modules\<close>

definition do_nothing :: "cm_actor callable" where
  "do_nothing = Callable [] (\<lambda>vs s. ok (vs, s))"

definition cm_storage_ctor :: "nat \<Rightarrow> (nat \<Rightarrow> string) \<Rightarrow> cm_actor comm_module" where
  "cm_storage_ctor self types =
     add_handler ''remove'' do_nothing
       (add_handler ''find'' do_nothing (add_handler ''update'' do_nothing (actor_ctor self types)))"

definition cm_network_ctor :: "nat \<Rightarrow> (nat \<Rightarrow> string) \<Rightarrow> cm_actor comm_module" where
  "cm_network_ctor self types = actor_ctor self types"

text \<open>\<open>add_actor_impl\<close> lets go of the handle it is given, which takes back the reference of that handle.\<close>

definition cm_add_actor :: "nat \<Rightarrow> cm_sup \<Rightarrow> cm_sup eff" where
  "cm_add_actor t s = ok s"

definition cm_create :: "cm_class \<Rightarrow> string \<Rightarrow> cm_deliver \<Rightarrow> nat \<Rightarrow> cm_sup callable" where
  "cm_create k t dl self =
     Callable [] (\<lambda>vs s.
       and_then (world_spawn (new_actor k t cm_none self) cm_add_actor t dl self s) (\<lambda>(_, s). ok (vs, s)))"

definition cm_ctor :: "cm_deliver \<Rightarrow> nat \<Rightarrow> (nat \<Rightarrow> string) \<Rightarrow> cm_sup comm_module" where
  "cm_ctor dl self types =
     add_handler ''create_storage'' (cm_create Cm_Storage ''storage'' dl self)
       (add_handler ''create_network'' (cm_create Cm_Network ''network'' dl self)
         (sup_ctor (from_sup dl self) self types))"

text \<open>Without actors the message is deleted with the pointer that holds it.\<close>

definition cm_redirect_robin :: "cm_deliver \<Rightarrow> nat \<Rightarrow> ptr \<Rightarrow> cm_sup \<Rightarrow> cm_sup eff" where
  "cm_redirect_robin dl self p s =
     (case v_env s of (u, w) \<Rightarrow>
      if cm_actors u \<noteq> []
      then and_then (from_sup dl self (cm_actors u ! cm_cursor u) p s) (\<lambda>s.
           case v_env s of (u, w) \<Rightarrow>
           let c = Suc (cm_cursor u); c = (if c \<ge> length (cm_actors u) then 0 else c) in
           ok (s\<lparr>v_env := (u\<lparr>cm_cursor := c\<rparr>, w)\<rparr>))
      else delete_message p s)"

definition cm_enqueue_base :: "cm_deliver \<Rightarrow> nat \<Rightarrow> (cm_sup \<Rightarrow> cm_sup eff) \<Rightarrow> ptr \<Rightarrow> cm_sup \<Rightarrow> cm_sup eff" where
  "cm_enqueue_base dl self exec p s =
     and_then (get_value (v_heap s) p) (\<lambda>msg.
     if m_command msg \<in> cm_system then exec (set_current_message p s) else cm_redirect_robin dl self p s)"

definition communication :: "(cm_class, cm_members) program" where
  "communication =
     \<lparr>pr_actor = (\<lambda>k dl self types. if k = Cm_Storage then cm_storage_ctor self types else cm_network_ctor self types),
      pr_sup = (\<lambda>_. cm_ctor), pr_enqueue = (\<lambda>_. cm_enqueue_base)\<rparr>"

section \<open>The program\<close>

definition cm_main :: "cm_deliver \<Rightarrow> cm_world eff" where
  "cm_main dl =
     (case main_new_sup Cm_Supervisor ''network'' cm_executor cm_none empty_world of (supervisor_tmp, w) \<Rightarrow>
      and_then (main_send dl supervisor_tmp addr_empty ''create_storage'' [] w) (\<lambda>w.
      and_then (main_send dl supervisor_tmp addr_empty ''create_network'' [] w) (\<lambda>w.
      case main_new_sup Cm_Supervisor ''network'' cm_executor cm_none w of (supervisor1, w) \<Rightarrow>
      and_then (main_link dl supervisor_tmp supervisor1 w) (\<lambda>w.
      and_then (main_send dl supervisor1 addr_empty ''create_storage'' [] w) (\<lambda>w.
      main_send dl supervisor1 addr_empty ''create_network'' [] w)))))"

text \<open>A command that is not one of the system's is never executed, for no actor is ever kept.\<close>

lemma cm_dropped:
  assumes "m_command msg \<notin> cm_system" and "cell (v_heap s) (Node x) = Some msg" and "cm_actors (fst (v_env s)) = []"
  shows "cm_enqueue_base dl self exec (Node x) s = ok (s\<lparr>v_heap := (v_heap s)\<lparr>cell := (cell (v_heap s))(Node x := None)\<rparr>\<rparr>)"
  using assms
  by (cases "v_env s")
    (simp add: cm_enqueue_base_def cm_redirect_robin_def delete_message_def delete_node_def get_value_def live_def)

lemmas cm_eval = cm_none_def cm_executor_def communication_def cm_ctor_def cm_enqueue_base_def cm_redirect_robin_def
  cm_system_def delete_message_def cm_main_def

definition cm_sup_obj :: "addr \<Rightarrow> ptr \<Rightarrow> (cm_class, cm_members) obj" where
  "cm_sup_obj a cur = Sup_Obj Cm_Supervisor ''network''
     \<lparr>so_contacts = [(''network'', [a])], so_current = cur, so_executor = cm_executor, so_user = cm_none\<rparr>"

text \<open>
  The program links its two supervisors and creates nothing: its four requests are dropped, only the
  two introductions are handled.
\<close>

lemma communication_creates_nothing:
  "\<exists>w. cm_main (deliver communication (Suc (Suc f))) = ok w \<and>
     w_objs w = [cm_sup_obj (A_Mod 1) (Node 2), cm_sup_obj (A_Mod 0) (Node 3)] \<and>
     w_fresh w = 6 \<and> w_log w = [] \<and> messages_alive (cell (w_heap w)) = {2, 3}"
  by (simp add: cm_eval cm_sup_obj_def heap_eval message_eval module_eval sup_eval world_eval Let_def) auto

end
