(* ===== verification/Add_Method.thy ===== *)
theory Add_Method
  imports World
begin

text \<open>
  The program \<open>examples/add_method\<close>: a supervisor creates one actor, whose constructor checks its own
  handlers. Jobs run inline, one message at a time.
\<close>

section \<open>State\<close>

datatype am_class = Am_Storage | Am_Supervisor

record am_members =
  am_actors :: "nat list"
  am_supervisors :: "nat list"

definition am_none :: am_members where
  "am_none = \<lparr>am_actors = [], am_supervisors = []\<rparr>"

type_synonym am_world = "(am_class, am_members) world"
type_synonym am_actor = "(am_class, am_members) actor_view"
type_synonym am_sup = "(am_class, am_members) sup_view"
type_synonym am_deliver = "(am_class, am_members) deliver"

definition am_executor :: executor_kind where
  "am_executor = Inline 1 True"

section \<open>The actor\<close>

definition am_nothing :: "am_actor callable" where
  "am_nothing = Callable [] (\<lambda>vs s. ok (vs, s))"

definition am_handlers :: "nat \<Rightarrow> (nat \<Rightarrow> string) \<Rightarrow> am_actor comm_module" where
  "am_handlers self types =
     add_handler ''remove'' am_nothing
       (add_handler ''find'' am_nothing (add_handler ''update'' am_nothing (actor_ctor self types)))"

definition am_control :: "string set" where
  "am_control = {''add_link'', ''remove_link'', ''update'', ''remove'', ''find''}"

text \<open>The constructor with its two assertions.\<close>

definition am_storage_ctor :: "nat \<Rightarrow> (nat \<Rightarrow> string) \<Rightarrow> am_actor comm_module eff" where
  "am_storage_ctor self types =
     (let m = am_handlers self types in
      and_then (assert_that (cm_type m = ''storage'')) (\<lambda>_.
      let diff = message_types m - am_control in
      and_then (assert_that (diff = {})) (\<lambda>_. ok m)))"

section \<open>The supervisor\<close>

definition am_add_actor :: "nat \<Rightarrow> am_sup \<Rightarrow> am_sup eff" where
  "am_add_actor t s =
     and_then (keep_actor t s) (\<lambda>s.
     case v_env s of (u, w) \<Rightarrow> ok (s\<lparr>v_env := (u\<lparr>am_actors := am_actors u @ [t]\<rparr>, w)\<rparr>))"

definition am_add_supervisor :: "nat \<Rightarrow> am_sup \<Rightarrow> am_sup eff" where
  "am_add_supervisor t s =
     (case v_env s of (u, w) \<Rightarrow> ok (s\<lparr>v_env := (u\<lparr>am_supervisors := am_supervisors u @ [t]\<rparr>, w)\<rparr>))"

text \<open>\<open>new (buffer) storage_t(this)\<close> runs the constructor on the type the object is given.\<close>

definition am_new_storage :: "nat \<Rightarrow> am_sup \<Rightarrow> (nat \<times> am_sup) eff" where
  "am_new_storage self s =
     (let w = snd (v_env s) in
      and_then (am_storage_ctor (length (w_objs w)) ((types_of w)(length (w_objs w) := ''storage''))) (\<lambda>_.
      new_actor Am_Storage ''storage'' am_none self s))"

definition am_create :: "am_deliver \<Rightarrow> nat \<Rightarrow> am_sup callable" where
  "am_create dl self =
     Callable [] (\<lambda>vs s.
       and_then (world_spawn (am_new_storage self) am_add_actor ''storage'' dl self s) (\<lambda>(_, s). ok (vs, s)))"

definition am_ctor :: "am_deliver \<Rightarrow> nat \<Rightarrow> (nat \<Rightarrow> string) \<Rightarrow> am_sup comm_module" where
  "am_ctor dl self types = add_handler ''create'' (am_create dl self) (sup_ctor (from_sup dl self) self types)"

definition am_enqueue_base :: "(am_sup \<Rightarrow> am_sup eff) \<Rightarrow> ptr \<Rightarrow> am_sup \<Rightarrow> am_sup eff" where
  "am_enqueue_base exec p s = exec (set_current_message p s)"

definition add_method :: "(am_class, am_members) program" where
  "add_method =
     \<lparr>pr_actor = (\<lambda>_ _. am_handlers), pr_sup = (\<lambda>_. am_ctor), pr_enqueue = (\<lambda>_ _ _. am_enqueue_base)\<rparr>"

section \<open>The program\<close>

definition am_main :: "am_deliver \<Rightarrow> am_world eff" where
  "am_main dl =
     (case main_new_sup Am_Supervisor ''dummy_supervisor'' am_executor am_none empty_world of (supervisor, w) \<Rightarrow>
      main_send dl supervisor addr_empty ''create'' [] w)"

lemma am_message_types:
  "message_types (am_handlers self types) = am_control"
  by (auto simp: message_types_def am_handlers_def actor_ctor_handlers am_control_def split: if_splits)

text \<open>Both assertions of the constructor hold.\<close>

lemma am_storage_ctor_ok:
  "types self = ''storage'' \<Longrightarrow> am_storage_ctor self types = ok (am_handlers self types)"
proof -
  assume "types self = ''storage''"
  then have "cm_type (am_handlers self types) = ''storage''"
    by (simp add: am_handlers_def actor_ctor_def comm_ctor_def)
  then show ?thesis
    by (simp add: am_storage_ctor_def am_message_types Let_def)
qed

lemma am_handlers_eval:
  "cm_handlers (am_handlers self types) ''add_link'' = Some (add_link self types)"
  by (simp add: am_handlers_def actor_ctor_handlers)

lemmas am_eval = am_none_def am_executor_def add_method_def am_ctor_def am_enqueue_base_def am_create_def am_new_storage_def
  am_add_actor_def am_storage_ctor_ok am_handlers_eval am_main_def

text \<open>
  The program ends with the actor introduced to its supervisor and idle; the message that asked for it
  is never deleted, the introduction is.
\<close>

lemma add_method_runs:
  "\<exists>w. am_main (deliver add_method (Suc (Suc f))) = ok w \<and>
     w_objs w =
       [Sup_Obj Am_Supervisor ''dummy_supervisor''
          \<lparr>so_contacts = [(''storage'', [A_Mod 1])], so_current = Node 0, so_executor = am_executor,
           so_user = \<lparr>am_actors = [1], am_supervisors = []\<rparr>\<rparr>,
        Actor_Obj Am_Storage ''storage'' (at_rest 1 0 (Node 1) 2 [''dummy_supervisor'' \<mapsto> A_Mod 0] am_none)] \<and>
     w_fresh w = 2 \<and> w_log w = [] \<and> messages_alive (cell (w_heap w)) = {0} \<and> rest_links (w_heap w) 1"
  by (simp add: am_eval at_rest_def heap_eval actor_eval message_eval module_eval sup_eval world_eval Let_def)

end
