(* ===== verification/World_Actors.thy ===== *)
theory World_Actors
  imports World_Mail
begin

text \<open>
  Actors in the world whose handlers keep to their own members. Such a class is described once, on those
  members alone (\<open>actor_module\<close> in \<open>Actor\<close>); here it is put into a world, where the members are part of
  a larger state, and what a worker's turn does with its mailbox is read off its description. At the end, the
  mailbox of such an actor as an abstract queue.
\<close>

section \<open>Members as part of a larger state\<close>

locale member =
  fixes get :: "'v \<Rightarrow> 'u" and put :: "'u \<Rightarrow> 'v \<Rightarrow> 'v"
  assumes get_put: "get (put u v) = u"
    and put_put: "put u (put u' v) = put u v"
    and put_get: "put (get v) v = v"

definition narrow :: "('v \<Rightarrow> 'u) \<Rightarrow> 'v actor \<Rightarrow> 'u actor" where
  "narrow get s =
     \<lparr>a_heap = a_heap s, a_mbox = a_mbox s, a_flags = a_flags s, a_current = a_current s, a_executor = a_executor s,
      a_rc = a_rc s, a_alive = a_alive s,
      a_env = \<lparr>ae_contacts = ae_contacts (a_env s), ae_log = ae_log (a_env s), ae_user = get (ae_user (a_env s))\<rparr>\<rparr>"

definition widen :: "('u \<Rightarrow> 'v \<Rightarrow> 'v) \<Rightarrow> 'v \<Rightarrow> 'u actor \<Rightarrow> 'v actor" where
  "widen put v s =
     \<lparr>a_heap = a_heap s, a_mbox = a_mbox s, a_flags = a_flags s, a_current = a_current s, a_executor = a_executor s,
      a_rc = a_rc s, a_alive = a_alive s,
      a_env = \<lparr>ae_contacts = ae_contacts (a_env s), ae_log = ae_log (a_env s), ae_user = put (ae_user (a_env s)) v\<rparr>\<rparr>"

text \<open>A handler of the class, called on the larger state.\<close>

definition own :: "('v \<Rightarrow> 'u) \<Rightarrow> ('u \<Rightarrow> 'v \<Rightarrow> 'v) \<Rightarrow> 'u actor callable \<Rightarrow> 'v actor callable" where
  "own get put h =
     Callable (c_args h) (\<lambda>vs s.
       and_then (c_call h vs (narrow get s)) (\<lambda>(vs, s'). ok (vs, widen put (ae_user (a_env s)) s')))"

definition own_spec :: "('v \<Rightarrow> 'u) \<Rightarrow> ('u \<Rightarrow> 'v \<Rightarrow> 'v) \<Rightarrow> 'u handler_spec \<Rightarrow> 'v handler_spec" where
  "own_spec get put user n = map_option (\<lambda>(ts, f). (ts, \<lambda>vs v. put (f vs (get v)) v)) (user n)"

lemma own_call:
  assumes "c_call h vs (narrow get s) =
      ok (vs', (narrow get s)\<lparr>a_env := (a_env (narrow get s))\<lparr>ae_user := f (ae_user (a_env (narrow get s)))\<rparr>\<rparr>)"
  shows "c_call (own get put h) vs s =
      ok (vs', s\<lparr>a_env := (a_env s)\<lparr>ae_user := put (f (get (ae_user (a_env s)))) (ae_user (a_env s))\<rparr>\<rparr>)"
  using assms by (cases s) (simp add: own_def narrow_def widen_def)

text \<open>The class in the world: the same table with every handler of its own called that way.\<close>

lemma own_module:
  assumes "actor_module self types c user"
    and "cm_type c' = types self" and "cm_handlers c' ''add_link'' = Some (add_link self types)"
    and "cm_handlers c' ''remove_link'' = Some (remove_link types)"
    and tab: "\<And>n. n \<notin> builtin \<Longrightarrow> cm_handlers c' n = map_option (own get put) (cm_handlers c n)"
  shows "actor_module self types c' (own_spec get put user)"
proof
  show "cm_type c' = types self" "cm_handlers c' ''add_link'' = Some (add_link self types)"
    "cm_handlers c' ''remove_link'' = Some (remove_link types)"
    by fact+
  show "cm_handlers c' n = None" if "n \<notin> builtin" "own_spec get put user n = None" for n
    using that tab actor_module.no_handler [OF assms(1)] by (simp add: own_spec_def)
  show "\<exists>h. cm_handlers c' n = Some h \<and> c_args h = ts \<and>
      (\<forall>vs s. map ty_of vs = ts \<longrightarrow>
        (\<exists>vs'. c_call h vs s = ok (vs', s\<lparr>a_env := (a_env s)\<lparr>ae_user := f vs (ae_user (a_env s))\<rparr>\<rparr>)))"
    if n: "n \<notin> builtin" "own_spec get put user n = Some (ts, f)" for n ts f
  proof -
    obtain g where g: "user n = Some (ts, g)" "f = (\<lambda>vs v. put (g vs (get v)) v)"
      using n(2) by (auto simp: own_spec_def)
    obtain h where h: "cm_handlers c n = Some h" "c_args h = ts"
      "\<forall>vs s. map ty_of vs = ts \<longrightarrow>
        (\<exists>vs'. c_call h vs s = ok (vs', s\<lparr>a_env := (a_env s)\<lparr>ae_user := g vs (ae_user (a_env s))\<rparr>\<rparr>))"
      using actor_module.handler [OF assms(1) n(1) g(1)] by blast
    have "\<exists>vs'. c_call (own get put h) vs s = ok (vs', s\<lparr>a_env := (a_env s)\<lparr>ae_user := f vs (ae_user (a_env s))\<rparr>\<rparr>)"
      if "map ty_of vs = ts" for vs s
      using h(3) [rule_format, OF that, of "narrow get s"] own_call [of h vs get s _ "g vs"] unfolding g(2) by blast
    with h(1,2) tab [OF n(1)] show ?thesis
      by (intro exI [of _ "own get put h"]) (simp add: own_def)
  qed
qed

lemma actor_env_eta: "\<lparr>ae_contacts = ae_contacts e, ae_log = ae_log e, ae_user = ae_user e\<rparr> = e"
  by (cases e) simp

context member
begin

lemma fits_own: "fits (own_spec get put user) m = fits user m"
  by (auto simp: fits_def own_spec_def split: option.splits)

lemma effect_own:
  "effect self types (own_spec get put user) m e =
     (let r = effect self types user m \<lparr>ae_contacts = ae_contacts e, ae_log = ae_log e, ae_user = get (ae_user e)\<rparr> in
      \<lparr>ae_contacts = ae_contacts r, ae_log = ae_log r, ae_user = put (ae_user r) (ae_user e)\<rparr>)"
  by (cases e) (auto simp: effect_def own_spec_def Let_def put_get split: option.splits)

lemma fold_effect_own:
  "fold (effect self types (own_spec get put user)) ms e =
     (let r = fold (effect self types user) ms \<lparr>ae_contacts = ae_contacts e, ae_log = ae_log e, ae_user = get (ae_user e)\<rparr> in
      \<lparr>ae_contacts = ae_contacts r, ae_log = ae_log r, ae_user = put (ae_user r) (ae_user e)\<rparr>)"
proof (induction ms arbitrary: e)
  case Nil
  then show ?case by (cases e) (simp add: put_get)
next
  case (Cons m ms)
  then show ?case
    by (simp add: effect_own Let_def get_put put_put actor_env_eta)
qed

end

section \<open>A turn\<close>

text \<open>The members an actor has in a view are the first part of the state its handlers see there.\<close>

definition own_get :: "('m \<Rightarrow> 'u) \<Rightarrow> 'm \<times> ('k, 'm) world \<Rightarrow> 'u" where
  "own_get get v = get (fst v)"

definition own_put :: "('u \<Rightarrow> 'm \<Rightarrow> 'm) \<Rightarrow> 'u \<Rightarrow> 'm \<times> ('k, 'm) world \<Rightarrow> 'm \<times> ('k, 'm) world" where
  "own_put put u v = (put u (fst v), snd v)"

locale own_actor = member get put
  for get :: "'m \<Rightarrow> 'u" and put :: "'u \<Rightarrow> 'm \<Rightarrow> 'm" +
  fixes n :: nat and c :: "(nat \<Rightarrow> string) \<Rightarrow> ('k, 'm) actor_view comm_module" and user :: "'u handler_spec"
  assumes class_module: "actor_module n types (c types) (own_spec (own_get get) (own_put put) user)"

sublocale own_actor \<subseteq> view: member "own_get get" "own_put put"
  by unfold_locales (simp_all add: own_get_def own_put_def get_put put_put put_get)

context own_actor
begin

abbreviation step :: "message \<Rightarrow> ('k, 'm) world_env \<Rightarrow> ('k, 'm) world_env" where
  "step m e \<equiv> effect n (types_of (snd (ae_user e))) (own_spec (own_get get) (own_put put) user) m e"

lemma class_body: "message_body (body_of c) (\<lambda>_ _. []) step (\<lambda>_ m. fits user m)"
proof
  fix G and s :: "('k, 'm) actor_view" and p c1 c2 x
  assume h: "holds_in G s Ready p c1 c2" "a_current s = Node x" "owned_in G s (Node x) (p @ c1 @ c2)" "fits user (content s x)"
  let ?t = "types_of (snd (ae_user (a_env s)))"
  have "fits (own_spec (own_get get) (own_put put) user) (content s x)"
    using h(4) by (simp add: view.fits_own)
  from actor_module.execute_fits [OF class_module h(1-3) this, of ?t] obtain s' where "actor_execute ?t (c ?t) s = ok s'"
      "holds_in G s' Ready p c1 c2" "owned_in G s' (Node x) (p @ c1 @ c2)" "kept s s' (set p \<union> set c1 \<union> set c2)"
      "a_env s' = step (content s x) (a_env s)"
    by blast
  then show "\<exists>s' ys. body_of c s = ok s' \<and> holds_in G s' Ready (p @ ys) c1 c2 \<and> owned_in G s' (Node x) (p @ ys @ c1 @ c2) \<and>
      kept s s' (set p \<union> set c1 \<union> set c2) \<and> map (content s') ys = [] \<and> a_env s' = step (content s x) (a_env s)"
    by (intro exI [of _ s'] exI [of _ "[]"]) (simp add: body_of_def)
qed simp_all

lemma world_kept: "snd (ae_user (effect n types (own_spec (own_get get) (own_put put) user) m e)) = snd (ae_user e)"
  by (simp add: view.effect_own Let_def) (simp add: own_put_def)

lemma fold_steps:
  "fold step ms e =
   (let r = fold (effect n (types_of (snd (ae_user e))) user) ms
          \<lparr>ae_contacts = ae_contacts e, ae_log = ae_log e, ae_user = get (fst (ae_user e))\<rparr> in
    \<lparr>ae_contacts = ae_contacts r, ae_log = ae_log r, ae_user = (put (ae_user r) (fst (ae_user e)), snd (ae_user e))\<rparr>)"
proof -
  have "fold step ms e = fold (effect n (types_of (snd (ae_user e))) (own_spec (own_get get) (own_put put) user)) ms e"
  proof (induction ms arbitrary: e)
    case (Cons m ms)
    then show ?case by (simp add: world_kept)
  qed simp
  then show ?thesis
    by (simp add: view.fold_effect_own own_put_def own_get_def)
qed

text \<open>
  A turn of an actor whose mailbox holds the messages \<open>ms\<close>. With an empty cache they are pending and the
  first \<open>mx\<close> of them are handled; otherwise the first \<open>mx\<close> are lost. What is left is in the cache.
\<close>

lemma turn_takes:
  assumes j: "w_jobs w = n # ns" "n < length (w_objs w)" "w_objs w ! n = Actor_Obj k t a"
      "executor_of (o_super a) w = ok (Pool mx)"
    and c: "pr_actor P k (deliver P f) n = c"
    and h: "mailbox (w_heap w) (o_mbox a) Ready p c1 []" "0 < mx"
    and ms: "map (\<lambda>x. the (cell (w_heap w) (Node x))) (c1 @ p) = ms" "c1 = [] \<longrightarrow> (\<forall>m \<in> set ms. fits user m)"
  defines "e \<equiv> \<lparr>ae_contacts = o_contacts a, ae_log = w_log w, ae_user = get (o_user a)\<rparr>"
  defines "r \<equiv> if c1 = [] then fold (effect n (types_of w) user) (take mx ms) e else e"
  shows "\<exists>h a' p' d1. pool_turn P f w =
      ok (w\<lparr>w_heap := h, w_log := ae_log r, w_objs := (w_objs w)[n := Actor_Obj k t a'], w_jobs := ns\<rparr>) \<and>
    mailbox h (o_mbox a') Ready p' d1 [] \<and> d1 @ p' = drop mx (c1 @ p) \<and> (d1 = [] \<longrightarrow> p' = []) \<and>
    map (\<lambda>x. the (cell h (Node x))) (d1 @ p') = drop mx ms \<and>
    q_this (o_mbox a') = q_this (o_mbox a) \<and> agree_off (plist_foot (q_this (o_mbox a)) (set (c1 @ p))) (w_heap w) h \<and>
    o_flags a' = St_Empty \<and> o_super a' = o_super a \<and> o_user a' = put (ae_user r) (o_user a) \<and> o_contacts a' = ae_contacts r"
proof -
  let ?s = "get_actor a (w\<lparr>w_jobs := ns\<rparr>)"
  define G where "G = frame_of ?s (set (c1 @ p))"
  have "holds ?s Ready p c1 []"
    using h(1) by (simp add: get_actor_def holds_def)
  then have "holds_in G ?s Ready p c1 []"
    unfolding G_def by (rule holds_frame_of) auto
  then have s: "holds_in G ?s Ready p c1 []" "map (content ?s) (c1 @ p) = ms"
    using ms(1) by (simp_all add: get_actor_def)
  have "\<exists>s' p' d1. run is_high_priority (body_of c) None mx ?s = ok (Awaiting, s') \<and>
      a_env s' = (if c1 = [] then fold step (take mx ms) (a_env ?s) else a_env ?s) \<and>
      holds_in G s' (if drop mx ms = [] then Blocked else Ready) p' d1 [] \<and> d1 @ p' = drop mx (c1 @ p) \<and>
      (d1 = [] \<longrightarrow> p' = []) \<and> map (content s') (d1 @ p') = drop mx ms"
  proof (cases "c1 = []")
    case True
    then have msp: "map (content ?s) p = ms"
      using s(2) by simp
    have "\<forall>m \<in> set (map (content ?s) p). fits user m"
      using ms(2) True by (simp add: msp)
    from message_body.run_drive [OF class_body no_high_priority s(1) [unfolded True] h(2) this drive_quiet]
    obtain s' p' d1 where s': "run is_high_priority (body_of c) None mx ?s = ok (Awaiting, s')"
        "a_env s' = fold step (take mx ms) (a_env ?s)" "holds_in G s' (if drop mx ms = [] then Blocked else Ready) p' d1 []"
        "map (content s') (d1 @ p') = drop mx ms" "p' = []" "d1 = drop mx p"
      unfolding msp by blast
    then show ?thesis
      unfolding True by - (rule exI [of _ s'], rule exI [of _ p'], rule exI [of _ d1], simp)
  next
    case False
    from run_drops_kept [OF no_high_priority s(1) False h(2)]
    obtain s' p' d1 where s': "run is_high_priority (body_of c) None mx ?s = ok (Awaiting, s')" "a_env s' = a_env ?s"
        "holds_in G s' (if length (c1 @ p) \<le> mx then Blocked else Ready) p' d1 []" "d1 @ p' = drop mx (c1 @ p)"
        "d1 = [] \<longrightarrow> p' = []" "map (content s') (d1 @ p') = map (content ?s) (d1 @ p')"
      by blast
    have "map (content s') (d1 @ p') = drop mx ms"
      unfolding s'(6) unfolding s'(4) s(2) [symmetric] by (simp only: drop_map)
    moreover have "length (c1 @ p) \<le> mx \<longleftrightarrow> drop mx ms = []"
      using arg_cong [OF s(2), of length] by simp
    then have "holds_in G s' (if drop mx ms = [] then Blocked else Ready) p' d1 []"
      using s'(3) by (simp only:)
    ultimately show ?thesis
      using False s'(1,2,4,5) by - (rule exI [of _ s'], rule exI [of _ p'], rule exI [of _ d1], simp)
  qed
  then obtain s' p' d1 where s': "run is_high_priority (body_of c) None mx ?s = ok (Awaiting, s')"
      "a_env s' = (if c1 = [] then fold step (take mx ms) (a_env ?s) else a_env ?s)"
      "holds_in G s' (if drop mx ms = [] then Blocked else Ready) p' d1 []" "d1 @ p' = drop mx (c1 @ p)" "d1 = [] \<longrightarrow> p' = []"
      "map (content s') (d1 @ p') = drop mx ms"
    by blast
  let ?r = "release_impl s'"
  have q0: "holds_in G ?r Ready p' d1 []" and q1: "a_flags ?r = St_Empty" "a_env ?r = a_env s'" "a_heap ?r = a_heap s'"
    using release_ok [OF s'(3)] by (simp_all split: if_splits)
  note q = holds_in_frame_of(1) [OF q0 [unfolded G_def]] q1 holds_in_frame_of(2,3) [OF q0 [unfolded G_def]]
  have e: "a_env ?r = \<lparr>ae_contacts = ae_contacts r, ae_log = ae_log r, ae_user = (put (ae_user r) (o_user a),
      w\<lparr>w_heap := empty_heap, w_log := [], w_jobs := ns\<rparr>)\<rparr>"
    unfolding q(3) s'(2) fold_steps by (simp add: Let_def r_def e_def get_actor_def types_of_def put_get)
  have "pool_turn P f w = ok (put_actor n ?r)"
    by (simp add: pool_turn_eq [OF j(1,3,4)] c s'(1))
  moreover have "put_actor n ?r = w\<lparr>w_heap := a_heap ?r, w_log := ae_log r, w_objs := (w_objs w)[n := Actor_Obj k t
      \<lparr>o_mbox = a_mbox ?r, o_flags = a_flags ?r, o_current = a_current ?r, o_device = a_executor ?r, o_rc = a_rc ?r,
       o_alive = a_alive ?r, o_contacts = ae_contacts r, o_super = o_super a, o_user = put (ae_user r) (o_user a)\<rparr>],
      w_jobs := ns\<rparr>"
    using j(2,3) e by (cases w) (simp add: put_actor_def)
  ultimately show ?thesis
    using q(1,2,5,6) s'(4-6)
    by - (rule exI [of _ "a_heap ?r"], rule exI [of _ "\<lparr>o_mbox = a_mbox ?r, o_flags = a_flags ?r, o_current = a_current ?r,
        o_device = a_executor ?r, o_rc = a_rc ?r, o_alive = a_alive ?r, o_contacts = ae_contacts r, o_super = o_super a,
        o_user = put (ae_user r) (o_user a)\<rparr>"], rule exI [of _ p'], rule exI [of _ d1], simp add: holds_def q(4) get_actor_def)
qed

end

section \<open>The mailbox of an actor in a pool, abstractly\<close>

text \<open>
  What senders and workers see of such an actor: it is idle or queued in the pool; its mailbox holds a queue
  of messages; it is stalled if these were left over by a run, for then the next run loses them.
\<close>

record lossy =
  lm_idle :: bool
  lm_stalled :: bool
  lm_queue :: "message list"
  lm_handled :: "message list"

definition lossy_start :: lossy where
  "lossy_start = \<lparr>lm_idle = True, lm_stalled = False, lm_queue = [], lm_handled = []\<rparr>"

definition lossy_send :: "message \<Rightarrow> lossy \<Rightarrow> lossy" where
  "lossy_send m s = s\<lparr>lm_idle := False, lm_queue := lm_queue s @ [m]\<rparr>"

definition lossy_turn :: "nat \<Rightarrow> lossy \<Rightarrow> lossy" where
  "lossy_turn mx s =
     (if lm_idle s then s
      else \<lparr>lm_idle = True, lm_stalled = drop mx (lm_queue s) \<noteq> [], lm_queue = drop mx (lm_queue s),
        lm_handled = (if lm_stalled s then lm_handled s else lm_handled s @ take mx (lm_queue s))\<rparr>)"

text \<open>Turns of the worker and messages, in the order they happen.\<close>

primrec lossy_run :: "nat \<Rightarrow> nat list \<Rightarrow> message list \<Rightarrow> lossy \<Rightarrow> lossy" where
  "lossy_run mx ts [] s = s"
| "lossy_run mx ts (m # ms) s = lossy_run mx (tl ts) ms (lossy_send m ((lossy_turn mx ^^ nth_default 0 ts 0) s))"

lemma lossy_turns_idle: "lm_idle s \<Longrightarrow> (lossy_turn mx ^^ k) s = s"
  by (induction k) (simp_all add: lossy_turn_def)

lemma lossy_turns:
  "(lossy_turn mx ^^ k) s = (if k = 0 then s else lossy_turn mx s)"
proof (cases k)
  case (Suc j)
  have "lm_idle (lossy_turn mx s)"
    by (simp add: lossy_turn_def)
  with Suc show ?thesis
    by (simp add: funpow_Suc_right lossy_turns_idle del: funpow.simps)
qed simp

lemma lossy_queue_subset: "set (lm_queue (lossy_turn mx s)) \<subseteq> set (lm_queue s)"
  using set_drop_subset [of mx "lm_queue s"] by (auto simp: lossy_turn_def)

text \<open>A queue that never holds more than a run handles loses nothing.\<close>

lemma lossy_run_short:
  assumes "\<not> lm_stalled s" and "length (lm_queue s) + length ms \<le> mx"
  shows "\<not> lm_stalled (lossy_run mx ts ms s) \<and> length (lm_queue (lossy_run mx ts ms s)) \<le> length (lm_queue s) + length ms \<and>
    lm_handled (lossy_run mx ts ms s) @ lm_queue (lossy_run mx ts ms s) = lm_handled s @ lm_queue s @ ms"
  using assms
proof (induction ms arbitrary: s ts)
  case (Cons m ms)
  let ?s = "lossy_send m ((lossy_turn mx ^^ nth_default 0 ts 0) s)"
  have "\<not> lm_stalled ?s" "length (lm_queue ?s) + length ms \<le> mx" "length (lm_queue ?s) \<le> Suc (length (lm_queue s))"
      "lm_handled ?s @ lm_queue ?s = lm_handled s @ lm_queue s @ [m]"
    using Cons.prems by (auto simp: lossy_turns lossy_send_def lossy_turn_def)
  with Cons.IH [of ?s "tl ts"] show ?case
    by auto
qed simp

lemma lossy_run_busy: "ms \<noteq> [] \<Longrightarrow> \<not> lm_idle (lossy_run mx ts ms s)"
proof (induction ms arbitrary: s ts)
  case (Cons m ms)
  then show ?case
    by (cases ms) (simp_all add: lossy_send_def)
qed simp

lemma lossy_turn_short:
  assumes "\<not> lm_idle s" and "\<not> lm_stalled s" and "length (lm_queue s) \<le> mx"
  shows "lossy_turn mx s = \<lparr>lm_idle = True, lm_stalled = False, lm_queue = [], lm_handled = lm_handled s @ lm_queue s\<rparr>"
  using assms by (simp add: lossy_turn_def)

text \<open>Messages that come faster than the worker.\<close>

lemma lossy_run_no_turns:
  "lossy_run mx [] ms s = (if ms = [] then s else s\<lparr>lm_idle := False, lm_queue := lm_queue s @ ms\<rparr>)"
proof (induction ms arbitrary: s)
  case (Cons m ms)
  then show ?case
    by (simp add: lossy_send_def nth_default_def)
qed simp

end
