(* ===== verification/Delegate.thy ===== *)
theory Delegate
  imports World_Actors
begin

text \<open>
  The program \<open>examples/delegate/main.cpp\<close> in the world: \<open>main\<close> has its supervisor create the storage and
  delegates four requests to it, while the worker of the pool takes turns whenever it is scheduled.
  The handlers of the storage are those of \<open>Actor\<close>.
\<close>

section \<open>State\<close>

datatype dl_class = Storage | Lite

record dl_members =
  dm_actors :: "nat list"
  dm_supervisors :: "nat list"
  dm_cursor :: nat
  dm_printed :: "string list"

definition dl_none :: dl_members where
  "dl_none = \<lparr>dm_actors = [], dm_supervisors = [], dm_cursor = 0, dm_printed = []\<rparr>"

type_synonym dl_world = "(dl_class, dl_members) world"
type_synonym dl_actor = "(dl_class, dl_members) actor_view"
type_synonym dl_sup = "(dl_class, dl_members) sup_view"
type_synonym dl_deliver = "(dl_class, dl_members) deliver"

section \<open>The storage\<close>

definition dl_get :: "dl_members \<Rightarrow> string list" where
  "dl_get = dm_printed"

definition dl_put :: "string list \<Rightarrow> dl_members \<Rightarrow> dl_members" where
  "dl_put u m = m\<lparr>dm_printed := u\<rparr>"

definition dl_storage :: "nat \<Rightarrow> (nat \<Rightarrow> string) \<Rightarrow> dl_actor comm_module" where
  "dl_storage self types =
     (let h = own (own_get dl_get) (own_put dl_put) in
      add_handler ''status'' (h storage_status)
       (add_handler ''remove'' (h storage_remove)
         (add_handler ''find'' (h storage_find)
           (add_handler ''update'' (h storage_update) (actor_ctor self types)))))"

interpretation dl: member dl_get dl_put
  by unfold_locales (simp_all add: dl_get_def dl_put_def)

lemma dl_storage_handlers:
  "cm_handlers (dl_storage self types) n =
     (if n \<in> builtin then cm_handlers (actor_ctor self types) n
      else map_option (own (own_get dl_get) (own_put dl_put)) (cm_handlers (storage_ctor self types) n))"
  by (simp add: dl_storage_def storage_handlers actor_ctor_handlers builtin_def Let_def)

lemma dl_storage_module:
  "actor_module self types (dl_storage self types) (own_spec (own_get dl_get) (own_put dl_put) storage_spec)"
  by (rule own_module [OF storage.actor_module_axioms])
    (simp_all add: dl_storage_handlers storage_handlers actor_ctor_handlers builtin_def dl_storage_def Let_def actor_ctor_def
      comm_ctor_def)

interpretation dl_own: own_actor dl_get dl_put self "dl_storage self" storage_spec for self
  by (intro own_actor.intro own_actor_axioms.intro dl.member_axioms dl_storage_module)

section \<open>The supervisor\<close>

definition dl_system :: "string set" where
  "dl_system = {''sync_contacts'', ''add_link'', ''remove_link'', ''spawn_actor'', ''delegate'', ''create''}"

definition dl_add_actor :: "nat \<Rightarrow> dl_sup \<Rightarrow> dl_sup eff" where
  "dl_add_actor t s =
     and_then (keep_actor t s) (\<lambda>s.
     case v_env s of (u, w) \<Rightarrow> ok (s\<lparr>v_env := (u\<lparr>dm_actors := dm_actors u @ [t]\<rparr>, w)\<rparr>))"

definition dl_add_supervisor :: "nat \<Rightarrow> dl_sup \<Rightarrow> dl_sup eff" where
  "dl_add_supervisor t s =
     (case v_env s of (u, w) \<Rightarrow> ok (s\<lparr>v_env := (u\<lparr>dm_supervisors := dm_supervisors u @ [t]\<rparr>, w)\<rparr>))"

definition dl_create :: "dl_deliver \<Rightarrow> nat \<Rightarrow> dl_sup callable" where
  "dl_create dl self =
     Callable [] (\<lambda>vs s.
       and_then (world_spawn (new_actor Storage ''storage'' dl_none self) dl_add_actor ''storage'' dl self s)
         (\<lambda>(_, s). ok (vs, s)))"

definition dl_lite :: "dl_deliver \<Rightarrow> nat \<Rightarrow> (nat \<Rightarrow> string) \<Rightarrow> dl_sup comm_module" where
  "dl_lite dl self types = add_handler ''create'' (dl_create dl self) (sup_ctor (from_sup dl self) self types)"

definition dl_local :: "(dl_sup \<Rightarrow> dl_sup eff) \<Rightarrow> ptr \<Rightarrow> dl_sup \<Rightarrow> dl_sup eff" where
  "dl_local exec p s = exec (set_current_message p s)"

definition dl_redirect_robin :: "dl_deliver \<Rightarrow> nat \<Rightarrow> ptr \<Rightarrow> dl_sup \<Rightarrow> dl_sup eff" where
  "dl_redirect_robin dl self p s =
     (case v_env s of (u, _) \<Rightarrow>
      if dm_actors u \<noteq> []
      then and_then (from_sup dl self (dm_actors u ! dm_cursor u) p s) (\<lambda>s.
           case v_env s of (u, w) \<Rightarrow>
           let cursor = Suc (dm_cursor u) in
           ok (s\<lparr>v_env := (u\<lparr>dm_cursor := if cursor \<ge> length (dm_actors u) then 0 else cursor\<rparr>, w)\<rparr>))
      else delete_message p s)"

definition dl_enqueue_base :: "dl_deliver \<Rightarrow> nat \<Rightarrow> (dl_sup \<Rightarrow> dl_sup eff) \<Rightarrow> ptr \<Rightarrow> dl_sup \<Rightarrow> dl_sup eff" where
  "dl_enqueue_base dl self exec p s =
     and_then (get_value (v_heap s) p) (\<lambda>msg.
     if m_command msg \<in> dl_system then dl_local exec p s else dl_redirect_robin dl self p s)"

section \<open>The program\<close>

definition delegating :: "(dl_class, dl_members) program" where
  "delegating = \<lparr>pr_actor = (\<lambda>_ _. dl_storage), pr_sup = (\<lambda>_. dl_lite), pr_enqueue = (\<lambda>_. dl_enqueue_base)\<rparr>"

definition dl_start :: dl_world where
  "dl_start = snd (main_new_sup Lite ''network'' (Pool 100) dl_none empty_world)"

text \<open>
  \<open>main\<close> with any requests to the storage; the worker takes \<open>ts ! i\<close> turns before the line that sends
  request \<open>i\<close>, and \<open>k\<close> turns while \<open>main\<close> sleeps.
\<close>

primrec dl_delegate_all :: "nat \<Rightarrow> nat list \<Rightarrow> (string \<times> val list) list \<Rightarrow> dl_world \<Rightarrow> dl_world eff" where
  "dl_delegate_all f ts [] w = ok w"
| "dl_delegate_all f ts (r # rs) w =
     (case r of (c, vs) \<Rightarrow>
      and_then (pool_turns delegating f (nth_default 0 ts 0) w) (\<lambda>w.
      and_then (main_delegate_send (deliver delegating f) 0 ''storage'' c vs w) (dl_delegate_all f (tl ts) rs)))"

definition dl_run :: "nat \<Rightarrow> nat list \<Rightarrow> (string \<times> val list) list \<Rightarrow> nat \<Rightarrow> dl_world eff" where
  "dl_run f ts rs k =
     and_then (main_send (deliver delegating f) 0 addr_empty ''create'' [] dl_start) (\<lambda>w.
     and_then (dl_delegate_all f ts rs w) (pool_turns delegating f k))"

definition dl_requests :: "(string \<times> val list) list" where
  "dl_requests = [(''update'', [V_String ''payload'']), (''find'', []), (''remove'', []), (''status'', [])]"

definition dl_main :: "nat \<Rightarrow> nat list \<Rightarrow> nat \<Rightarrow> dl_world eff" where
  "dl_main f ts k = dl_run f ts dl_requests k"

section \<open>Running it\<close>

lemma dl_handlers:
  "cm_handlers (dl_lite dl self types) n =
     (if n = ''create'' then Some (dl_create dl self) else cm_handlers (sup_ctor (from_sup dl self) self types) n)"
  by (simp add: dl_lite_def sup_ctor_handlers)

lemma dl_create_call:
  "c_args (dl_create dl self) = []"
  "c_call (dl_create dl self) vs s =
     and_then (world_spawn (new_actor Storage ''storage'' dl_none self) dl_add_actor ''storage'' dl self s)
       (\<lambda>(_, s). ok (vs, s))"
  by (simp_all add: dl_create_def)

lemma delegating_sel:
  "pr_actor delegating k dl = dl_storage" "pr_sup delegating k = dl_lite" "pr_enqueue delegating k = dl_enqueue_base"
  by (simp_all add: delegating_def)

lemmas dl_eval = dl_handlers dl_create_call delegating_sel dl_none_def dl_start_def dl_enqueue_base_def dl_local_def
  dl_add_actor_def dl_system_def

definition dl_sup_members :: "ptr \<Rightarrow> dl_members sup_members" where
  "dl_sup_members cur =
     \<lparr>so_contacts = [(''storage'', [A_Mod 1])], so_current = cur, so_executor = Pool 100,
      so_user = \<lparr>dm_actors = [1], dm_supervisors = [], dm_cursor = 0, dm_printed = []\<rparr>\<rparr>"

definition dl_world_of :: "message heap \<Rightarrow> nat \<Rightarrow> log list \<Rightarrow> ptr \<Rightarrow> dl_members actor_members \<Rightarrow> nat list \<Rightarrow> dl_world" where
  "dl_world_of h n ls cur a js =
     \<lparr>w_heap = h, w_fresh = n, w_log = ls,
      w_objs = [Sup_Obj Lite ''network'' (dl_sup_members cur), Actor_Obj Storage ''storage'' a], w_jobs = js\<rparr>"

text \<open>What the storage has done after handling the messages \<open>ms\<close>.\<close>

definition dl_types :: "nat \<Rightarrow> string" where
  "dl_types = nth_default [] [''network'', ''storage'']"

definition dl_done :: "message list \<Rightarrow> string list actor_env" where
  "dl_done ms = fold (effect 1 dl_types storage_spec) ms \<lparr>ae_contacts = Map.empty, ae_log = [], ae_user = []\<rparr>"

text \<open>
  The storage in a world and its mailbox as an abstract one: it has handled what that has handled, its mailbox
  holds the same messages, in the cache first, and it is in the pool when it is not idle.
\<close>

definition dl_state :: "dl_world \<Rightarrow> lossy \<Rightarrow> bool" where
  "dl_state w s \<longleftrightarrow>
     (\<exists>h n cur a p c1. w = dl_world_of h n (ae_log (dl_done (lm_handled s))) cur a (if lm_idle s then [] else [1]) \<and>
        mailbox h (o_mbox a) Ready p c1 [] \<and> map (\<lambda>x. the (cell h (Node x))) (c1 @ p) = lm_queue s \<and>
        (\<forall>x \<in> set (c1 @ p). x < n) \<and> (lm_stalled s \<longleftrightarrow> c1 \<noteq> []) \<and> (o_flags a = St_Empty \<longleftrightarrow> lm_idle s) \<and>
        o_super a = 0 \<and> o_contacts a = ae_contacts (dl_done (lm_handled s)) \<and>
        o_user a = dl_none\<lparr>dm_printed := ae_user (dl_done (lm_handled s))\<rparr>)"

lemma dl_executor_of: "executor_of 0 (dl_world_of h n ls cur a js) = ok (Pool 100)"
  by (simp add: executor_of_def dl_world_of_def dl_sup_members_def)

lemma dl_delegates: "delegates delegating Lite v"
  by (simp add: delegates_def delegating_sel dl_enqueue_base_def dl_local_def dl_system_def dl_handlers sup_ctor_handlers)

definition dl_link :: message where
  "dl_link = make_message (A_Mod 0) ''add_link'' []"

lemma dl_created:
  "\<exists>w. main_send (deliver delegating (Suc (Suc f))) 0 addr_empty ''create'' [] dl_start = ok w \<and>
    dl_state w (lossy_send dl_link lossy_start)"
  unfolding dl_state_def
  by (simp add: dl_world_of_def dl_sup_members_def dl_eval dl_done_def heap_eval message_eval module_eval sup_eval world_eval
      actor_eval dl_link_def lossy_send_def lossy_start_def Let_def and_then_assoc queue_job_def cong del: and_then_weak_cong)
    (intro exI [of _ "[Suc 0]"] exI [of _ "[]"] conjI mailbox_single, simp_all add: rest_links_def)

lemma dl_delegate:
  assumes "dl_state w s"
  shows "\<exists>w'. main_delegate_send (deliver delegating (Suc (Suc f))) 0 ''storage'' c vs w = ok w' \<and>
    dl_state w' (lossy_send (make_message (A_Mod 0) c vs) s)"
proof -
  obtain h n cur a p c1 where
      w: "w = dl_world_of h n (ae_log (dl_done (lm_handled s))) cur a (if lm_idle s then [] else [1])"
      and m: "mailbox h (o_mbox a) Ready p c1 []" and c: "map (\<lambda>x. the (cell h (Node x))) (c1 @ p) = lm_queue s"
        "\<forall>x \<in> set (c1 @ p). x < n"
      and a: "lm_stalled s \<longleftrightarrow> c1 \<noteq> []" "o_flags a = St_Empty \<longleftrightarrow> lm_idle s" "o_super a = 0"
        "o_contacts a = ae_contacts (dl_done (lm_handled s))"
        "o_user a = dl_none\<lparr>dm_printed := ae_user (dl_done (lm_handled s))\<rparr>"
    using assms unfolding dl_state_def by (elim exE conjE)
  have x: "executor_of (o_super a) w = ok (Pool 100)"
    by (simp add: w a(3) dl_executor_of)
  have objs: "0 < length (w_objs w)" "w_objs w ! 0 = Sup_Obj Lite ''network'' (dl_sup_members cur)"
      "map_of (so_contacts (dl_sup_members cur)) ''storage'' = Some (A_Mod 1 # [])" "1 < length (w_objs w)"
      "w_objs w ! 1 = Actor_Obj Storage ''storage'' a" "mailbox (w_heap w) (o_mbox a) Ready p c1 []"
      "\<forall>x \<in> set (c1 @ p). x < w_fresh w"
    using m c(2) by (simp_all add: w dl_world_of_def dl_sup_members_def)
  have n: "w_fresh w = n"
    by (simp add: w dl_world_of_def)
  obtain h' q r d where e: "main_delegate_send (deliver delegating (Suc (Suc f))) 0 ''storage'' c vs w =
      ok (w\<lparr>w_heap := h', w_fresh := Suc (Suc n),
        w_objs := (w_objs w)[0 := Sup_Obj Lite ''network'' (dl_sup_members cur\<lparr>so_current := Node (Suc n)\<rparr>),
          1 := Actor_Obj Storage ''storage'' (a\<lparr>o_mbox := q, o_flags := St_Busy, o_device := d, o_rc := r\<rparr>)],
        w_jobs := (if o_flags a = St_Empty then w_jobs w @ [1] else w_jobs w)\<rparr>)"
      "mailbox h' q Ready (p @ [n]) c1 []"
      "map (\<lambda>x. the (cell h' (Node x))) (c1 @ p @ [n]) =
        map (\<lambda>x. the (cell (w_heap w) (Node x))) (c1 @ p) @ [make_message (A_Mod 0) c vs]"
    using delegate_pooled [OF objs(1-3) dl_delegates objs(4,5) x objs(6) _ objs(7), of f c vs] unfolding n by auto
  let ?a = "a\<lparr>o_mbox := q, o_flags := St_Busy, o_device := d, o_rc := r\<rparr>"
  have "main_delegate_send (deliver delegating (Suc (Suc f))) 0 ''storage'' c vs w =
      ok (dl_world_of h' (Suc (Suc n)) (ae_log (dl_done (lm_handled s))) (Node (Suc n)) ?a [1])"
    unfolding e(1) using a(2) by (simp add: w dl_world_of_def dl_sup_members_def)
  moreover have "map (\<lambda>x. the (cell h' (Node x))) (c1 @ p @ [n]) = lm_queue s @ [make_message (A_Mod 0) c vs]"
    unfolding e(3) c(1) [symmetric] by (simp add: w dl_world_of_def)
  moreover have "\<forall>x \<in> set (c1 @ p @ [n]). x < Suc (Suc n)"
    using c(2) by (fastforce intro: less_SucI)
  ultimately show ?thesis
    using a e(2) unfolding dl_state_def
    by (intro exI [of _ "dl_world_of h' (Suc (Suc n)) (ae_log (dl_done (lm_handled s))) (Node (Suc n)) ?a [1]"] conjI
        exI [of _ h'] exI [of _ "Suc (Suc n)"] exI [of _ "Node (Suc n)"] exI [of _ ?a] exI [of _ "p @ [n]"] exI [of _ c1])
      (simp_all add: lossy_send_def)
qed

lemma dl_turn:
  assumes "dl_state w s" and "\<forall>m \<in> set (lm_queue s). fits storage_spec m"
  shows "\<exists>w'. pool_turn delegating f w = ok w' \<and> dl_state w' (lossy_turn 100 s)"
proof (cases "lm_idle s")
  case True
  with assms(1) have "pool_turn delegating f w = ok w" "lossy_turn 100 s = s"
    by (auto simp: dl_state_def pool_turn_def dl_world_of_def lossy_turn_def)
  with assms(1) show ?thesis
    by simp
next
  case False
  obtain h n cur a p c1 where
      w: "w = dl_world_of h n (ae_log (dl_done (lm_handled s))) cur a (if lm_idle s then [] else [1])"
      and m: "mailbox h (o_mbox a) Ready p c1 []" and c: "map (\<lambda>x. the (cell h (Node x))) (c1 @ p) = lm_queue s"
        "\<forall>x \<in> set (c1 @ p). x < n"
      and a: "lm_stalled s \<longleftrightarrow> c1 \<noteq> []" "o_super a = 0" "o_contacts a = ae_contacts (dl_done (lm_handled s))"
        "o_user a = dl_none\<lparr>dm_printed := ae_user (dl_done (lm_handled s))\<rparr>"
    using assms(1) unfolding dl_state_def by (elim exE conjE)
  let ?s = "lossy_turn 100 s"
  have jobs: "w_jobs w = [1]"
    using False by (simp add: w dl_world_of_def)
  have objs: "1 < length (w_objs w)" "w_objs w ! 1 = Actor_Obj Storage ''storage'' a"
      "executor_of (o_super a) w = ok (Pool 100)" "mailbox (w_heap w) (o_mbox a) Ready p c1 []" "0 < (100::nat)"
      "types_of w = dl_types" "w_log w = ae_log (dl_done (lm_handled s))"
    using m by (simp_all add: w a(2) dl_executor_of) (simp_all add: dl_world_of_def types_of_def dl_types_def)
  have sel: "pr_actor delegating Storage (deliver delegating f) 1 = dl_storage 1"
    by (simp add: delegating_sel)
  have q: "map (\<lambda>x. the (cell (w_heap w) (Node x))) (c1 @ p) = lm_queue s"
      "c1 = [] \<longrightarrow> (\<forall>m \<in> set (lm_queue s). fits storage_spec m)"
    using c(1) assms(2) by (simp_all add: w dl_world_of_def)
  have r: "(if c1 = [] then fold (effect 1 (types_of w) storage_spec) (take 100 (lm_queue s))
        \<lparr>ae_contacts = o_contacts a, ae_log = w_log w, ae_user = dl_get (o_user a)\<rparr>
      else \<lparr>ae_contacts = o_contacts a, ae_log = w_log w, ae_user = dl_get (o_user a)\<rparr>) = dl_done (lm_handled ?s)"
    using False by (simp add: objs(6,7) a(1,3,4) dl_done_def dl_get_def actor_env_eta lossy_turn_def)
  obtain h' a' p' d1 where t: "pool_turn delegating f w = ok (w\<lparr>w_heap := h', w_log := ae_log (dl_done (lm_handled ?s)),
        w_objs := (w_objs w)[1 := Actor_Obj Storage ''storage'' a'], w_jobs := []\<rparr>)"
      "mailbox h' (o_mbox a') Ready p' d1 []" "d1 @ p' = drop 100 (c1 @ p)" "d1 = [] \<longrightarrow> p' = []"
      "map (\<lambda>x. the (cell h' (Node x))) (d1 @ p') = drop 100 (lm_queue s)" "o_flags a' = St_Empty" "o_super a' = o_super a"
      "o_user a' = dl_put (ae_user (dl_done (lm_handled ?s))) (o_user a)" "o_contacts a' = ae_contacts (dl_done (lm_handled ?s))"
    using dl_own.turn_takes [OF jobs objs(1-3) sel objs(4,5) q] unfolding r by blast
  have "pool_turn delegating f w = ok (dl_world_of h' n (ae_log (dl_done (lm_handled ?s))) cur a' [])"
    unfolding t(1) by (simp add: w dl_world_of_def)
  moreover have "\<forall>x \<in> set (d1 @ p'). x < n"
    using c(2) unfolding t(3) by (meson in_set_dropD)
  moreover have "drop 100 (lm_queue s) \<noteq> [] \<longleftrightarrow> d1 \<noteq> []"
    unfolding t(5) [symmetric] using t(4) by auto
  ultimately show ?thesis
    using t(2,5-9) a(2,4) False unfolding dl_state_def
    by (intro exI [of _ "dl_world_of h' n (ae_log (dl_done (lm_handled ?s))) cur a' []"] conjI exI [of _ h'] exI [of _ n]
        exI [of _ cur] exI [of _ a'])
      (assumption, rule exI [of _ p'], rule exI [of _ d1], simp add: lossy_turn_def dl_put_def)
qed

lemma dl_turns:
  assumes "dl_state w s" and "\<forall>m \<in> set (lm_queue s). fits storage_spec m"
  shows "\<exists>w'. pool_turns delegating f k w = ok w' \<and> dl_state w' ((lossy_turn 100 ^^ k) s)"
  using assms
proof (induction k arbitrary: w s)
  case (Suc k)
  obtain w1 where w1: "pool_turn delegating f w = ok w1" "dl_state w1 (lossy_turn 100 s)"
    using dl_turn [OF Suc.prems] by blast
  obtain w' where "pool_turns delegating f k w1 = ok w'" "dl_state w' ((lossy_turn 100 ^^ k) (lossy_turn 100 s))"
    using Suc.IH [OF w1(2)] Suc.prems(2) lossy_queue_subset [of 100 s] by blast
  with w1(1) show ?case
    by (auto simp: funpow_swap1)
qed simp

definition dl_message :: "string \<times> val list \<Rightarrow> message" where
  "dl_message r = make_message (A_Mod 0) (fst r) (snd r)"

lemma dl_delegate_all_ok:
  assumes "dl_state w s" and "\<forall>m \<in> set (lm_queue s). fits storage_spec m" and "\<forall>r \<in> set rs. fits storage_spec (dl_message r)"
  shows "\<exists>w'. dl_delegate_all (Suc (Suc f)) ts rs w = ok w' \<and> dl_state w' (lossy_run 100 ts (map dl_message rs) s) \<and>
    (\<forall>m \<in> set (lm_queue (lossy_run 100 ts (map dl_message rs) s)). fits storage_spec m)"
  using assms
proof (induction rs arbitrary: w s ts)
  case (Cons r rs)
  let ?s1 = "(lossy_turn 100 ^^ nth_default 0 ts 0) s"
  let ?s2 = "lossy_send (dl_message r) ?s1"
  obtain c vs where r: "r = (c, vs)"
    by (cases r)
  obtain w1 where w1: "pool_turns delegating (Suc (Suc f)) (nth_default 0 ts 0) w = ok w1" "dl_state w1 ?s1"
    using dl_turns [OF Cons.prems(1,2)] by blast
  obtain w2 where w2: "main_delegate_send (deliver delegating (Suc (Suc f))) 0 ''storage'' c vs w1 = ok w2" "dl_state w2 ?s2"
    using dl_delegate [OF w1(2), of f c vs] unfolding r dl_message_def fst_conv snd_conv by blast
  have "\<forall>m \<in> set (lm_queue ?s2). fits storage_spec m"
    using Cons.prems(2,3) lossy_queue_subset [of 100 s] by (auto simp: lossy_send_def lossy_turns)
  from Cons.IH [OF w2(2) this, of "tl ts"] Cons.prems(3) w1(1) w2(1) show ?case
    by (simp add: r)
qed simp

lemma dl_run_ok:
  assumes "2 \<le> f" and "\<forall>r \<in> set rs. fits storage_spec (dl_message r)"
  shows "\<exists>w. dl_run f ts rs k = ok w \<and>
    dl_state w ((lossy_turn 100 ^^ k) (lossy_run 100 ts (map dl_message rs) (lossy_send dl_link lossy_start)))"
proof -
  obtain g where f: "f = Suc (Suc g)"
    using that [of "f - 2"] assms(1) by simp
  obtain w1 where 1: "main_send (deliver delegating f) 0 addr_empty ''create'' [] dl_start = ok w1"
      "dl_state w1 (lossy_send dl_link lossy_start)"
    using dl_created unfolding f by blast
  have "\<forall>m \<in> set (lm_queue (lossy_send dl_link lossy_start)). fits storage_spec m"
    by (auto simp: lossy_send_def lossy_start_def dl_link_def fits_def builtin_def)
  from dl_delegate_all_ok [OF 1(2) this assms(2)] obtain w2 where
      2: "dl_delegate_all f ts rs w1 = ok w2" "dl_state w2 (lossy_run 100 ts (map dl_message rs) (lossy_send dl_link lossy_start))"
      "\<forall>m \<in> set (lm_queue (lossy_run 100 ts (map dl_message rs) (lossy_send dl_link lossy_start))). fits storage_spec m"
    unfolding f by blast
  obtain w where "pool_turns delegating f k w2 = ok w"
      "dl_state w ((lossy_turn 100 ^^ k) (lossy_run 100 ts (map dl_message rs) (lossy_send dl_link lossy_start)))"
    using dl_turns [OF 2(2,3)] by blast
  then show ?thesis
    unfolding dl_run_def 1(1) and_then_simps 2(1) by blast
qed

lemma dl_requests_fit: "\<forall>r \<in> set dl_requests. fits storage_spec (dl_message r)"
  by (auto simp: dl_requests_def dl_message_def fits_def storage_spec_def builtin_def
      intro: exI [of _ "[]"] exI [of _ "[V_String ''payload'']"])

lemma dl_all_done:
  "dl_done (dl_link # map dl_message dl_requests) =
    \<lparr>ae_contacts = [''network'' \<mapsto> A_Mod 0], ae_log = [],
     ae_user = [''update:payload'', ''find'', ''remote'', ''status'']\<rparr>"
  by (simp add: dl_done_def dl_link_def dl_message_def dl_requests_def effect_def storage_spec_def dl_types_def emplace_def
      nth_default_def)

section \<open>Properties\<close>

text \<open>
  C13. For any requests that fit the handlers of the storage, and for any number of jobs the worker runs between the
  lines of \<open>main\<close>, each to its end before the next line, the program does to the storage what the abstract mailbox
  says: each turn handles the first hundred messages, and what a turn leaves over is lost by the next one. In
  particular, when all requests are sent before the worker gets a turn, the storage handles the introduction and 99
  of them, then nothing: it is idle with the rest in its mailbox. That moves which do not overlap are those of
  the abstract mailbox, step by step, is \<open>Whole_Jobs\<close>; schedules in which a job overlaps a send are not covered
  and can leave the abstract mailbox, as C5 shows.
\<close>

theorem delegate_refines_lossy_mailbox:
  assumes "2 \<le> f" and "\<forall>r \<in> set rs. fits storage_spec (dl_message r)"
  shows "\<exists>w. dl_run f ts rs k = ok w \<and>
    (let s = (lossy_turn 100 ^^ k) (lossy_run 100 ts (map dl_message rs) (lossy_send dl_link lossy_start)) in
     dl_state w s \<and> (ts = [] \<and> 0 < k \<longrightarrow> lm_idle s \<and> lm_handled s = take 100 (dl_link # map dl_message rs) \<and>
       lm_queue s = drop 100 (dl_link # map dl_message rs)))"
proof -
  let ?s0 = "lossy_send dl_link lossy_start"
  let ?s = "(lossy_turn 100 ^^ k) (lossy_run 100 ts (map dl_message rs) ?s0)"
  have "ts = [] \<and> 0 < k \<longrightarrow> lm_idle ?s \<and> lm_handled ?s = take 100 (dl_link # map dl_message rs) \<and>
      lm_queue ?s = drop 100 (dl_link # map dl_message rs)"
    by (auto simp: lossy_turns lossy_run_no_turns lossy_turn_def lossy_send_def lossy_start_def)
  with dl_run_ok [OF assms, of ts k] show ?thesis
    by (auto simp: Let_def)
qed

text \<open>A thousand requests for the status, sent before the worker starts: 99 are answered.\<close>

lemma delegate_refines_lossy_mailbox_witness:
  "\<exists>w a. dl_run 2 [] (replicate 1000 (''status'', [])) 5 = ok w \<and> w_objs w ! 1 = Actor_Obj Storage ''storage'' a \<and>
    dm_printed (o_user a) = replicate 99 ''status''"
proof -
  have fit: "\<forall>r \<in> set (replicate 1000 (''status'', [])). fits storage_spec (dl_message r)"
    by (auto simp: dl_message_def fits_def storage_spec_def builtin_def intro: exI [of _ "[]"])
  let ?m = "dl_message (''status'', [])"
  have e: "effect 1 dl_types storage_spec ?m e = e\<lparr>ae_user := ae_user e @ [''status'']\<rparr>" for e
    by (simp add: effect_def dl_message_def storage_spec_def)
  have many: "ae_user (fold (effect 1 dl_types storage_spec) (replicate n ?m) e) = ae_user e @ replicate n ''status''" for n e
    by (induction n arbitrary: e) (simp_all add: e [unfolded One_nat_def])
  have "take 100 (dl_link # replicate 1000 ?m) = dl_link # replicate 99 ?m"
    by (simp add: take_Cons')
  moreover have "ae_user (dl_done (dl_link # replicate 99 ?m)) = replicate 99 ''status''"
    unfolding dl_done_def fold_simps many by (simp add: effect_def dl_link_def)
  ultimately have d: "ae_user (dl_done (take 100 (dl_link # replicate 1000 ?m))) = replicate 99 ''status''"
    by simp
  obtain w s where w: "dl_run 2 [] (replicate 1000 (''status'', [])) 5 = ok w" "dl_state w s"
      "lm_handled s = take 100 (dl_link # replicate 1000 ?m)"
    using delegate_refines_lossy_mailbox [OF order_refl fit, of "[]" 5] unfolding Let_def map_replicate by auto
  from w(2) obtain a where "w_objs w ! 1 = Actor_Obj Storage ''storage'' a"
      "o_user a = dl_none\<lparr>dm_printed := ae_user (dl_done (lm_handled s))\<rparr>"
    unfolding dl_state_def by (auto simp: dl_world_of_def)
  with w(1) d show ?thesis
    by (auto simp: w(3))
qed

text \<open>
  C40. The program delegates as it means to when no job of the worker overlaps a line of \<open>main\<close>: whatever jobs it runs
  between the lines, each to its end, as soon as it has run one after the last line the storage has handled the four
  requests, in the order they were sent and once each, it knows its supervisor, nothing was reported, and it is idle
  with its mailbox empty. A job that does overlap a send can leave a request unhandled, as C5 shows.
\<close>

theorem delegate_handles_all:
  assumes "2 \<le> f" and "0 < k"
  shows "\<exists>w a. dl_main f ts k = ok w \<and> w_objs w ! 1 = Actor_Obj Storage ''storage'' a \<and>
    dm_printed (o_user a) = [''update:payload'', ''find'', ''remote'', ''status''] \<and>
    o_contacts a = [''network'' \<mapsto> A_Mod 0] \<and> w_log w = [] \<and>
    mailbox (w_heap w) (o_mbox a) Ready [] [] [] \<and> o_flags a = St_Empty \<and> w_jobs w = []"
proof -
  let ?s = "lossy_run 100 ts (map dl_message dl_requests) (lossy_send dl_link lossy_start)"
  have "\<not> lm_stalled ?s \<and> length (lm_queue ?s) \<le> length [dl_link] + length (map dl_message dl_requests) \<and>
      lm_handled ?s @ lm_queue ?s = [] @ [dl_link] @ map dl_message dl_requests"
    using lossy_run_short [of "lossy_send dl_link lossy_start" "map dl_message dl_requests" 100 ts]
    by (simp add: lossy_send_def lossy_start_def dl_requests_def)
  moreover have "\<not> lm_idle ?s"
    by (rule lossy_run_busy) (simp add: dl_requests_def)
  ultimately have s: "(lossy_turn 100 ^^ k) ?s = \<lparr>lm_idle = True, lm_stalled = False, lm_queue = [],
      lm_handled = dl_link # map dl_message dl_requests\<rparr>"
    using assms(2) by (simp add: lossy_turns lossy_turn_short dl_requests_def)
  show ?thesis
    using dl_run_ok [OF assms(1) dl_requests_fit, of ts k] unfolding s dl_main_def dl_state_def
    by (auto simp: dl_all_done dl_world_of_def)
qed

lemma delegate_handles_all_witness:
  "\<exists>w a. dl_main 2 [0, 1, 0, 3] 1 = ok w \<and> w_objs w ! 1 = Actor_Obj Storage ''storage'' a \<and>
    dm_printed (o_user a) = [''update:payload'', ''find'', ''remote'', ''status'']"
  using delegate_handles_all [of 2 1 "[0, 1, 0, 3]"] by auto

end
