(* ===== verification/Intrusive_Ptr.thy ===== *)
theory Intrusive_Ptr
  imports AF_Prelude "HOL-Library.Word"
begin

text \<open>
  Reference counts and the pointers that keep them: \<open>detail/ref_counted.hpp\<close>,
  \<open>impl/detail/ref_counted.ipp\<close>, \<open>detail/intrusive_ptr.hpp\<close>, and what the handle
  \<open>base/actor.hpp\<close> that wraps such a pointer is made of. One thread; \<open>Ref_Counted_Conc\<close> has many.
\<close>

section \<open>State\<close>

text \<open>
  \<open>rs_count\<close>: the counter \<open>rc_\<close> of every object that has not been deleted. \<open>rs_ptr\<close>: the member
  \<open>ptr_\<close> of every \<open>intrusive_ptr\<close> object there is, \<open>None\<close> inside for the null pointer.
\<close>

record rc_state =
  rs_count :: "nat \<Rightarrow> 64 word option"
  rs_ptr :: "nat \<Rightarrow> nat option option"

section \<open>Reference counts\<close>

definition ref_counted_ctor :: "64 word" where
  "ref_counted_ctor = 1"

definition ref_counted_copy :: "64 word \<Rightarrow> 64 word" where
  "ref_counted_copy other = 1"

definition ref_counted_assign :: "64 word \<Rightarrow> 64 word \<Rightarrow> 64 word" where
  "ref_counted_assign this other = this"

definition count_of :: "nat \<Rightarrow> rc_state \<Rightarrow> 64 word eff" where
  "count_of obj s = (case rs_count s obj of None \<Rightarrow> fail Wild_Deref | Some c \<Rightarrow> ok c)"

definition set_count :: "nat \<Rightarrow> 64 word option \<Rightarrow> rc_state \<Rightarrow> rc_state" where
  "set_count obj c s = s\<lparr>rs_count := (rs_count s)(obj := c)\<rparr>"

definition rc_new :: "nat \<Rightarrow> rc_state \<Rightarrow> rc_state" where
  "rc_new obj s = set_count obj (Some ref_counted_ctor) s"

definition rc_ref :: "nat \<Rightarrow> rc_state \<Rightarrow> rc_state eff" where
  "rc_ref obj s = and_then (count_of obj s) (\<lambda>c. ok (set_count obj (Some (c + 1)) s))"

definition rc_unique :: "nat \<Rightarrow> rc_state \<Rightarrow> bool eff" where
  "rc_unique obj s = and_then (count_of obj s) (\<lambda>c. ok (c = 1))"

definition fetch_sub :: "nat \<Rightarrow> rc_state \<Rightarrow> (64 word \<times> rc_state) eff" where
  "fetch_sub obj s = and_then (count_of obj s) (\<lambda>c. ok (c, set_count obj (Some (c - 1)) s))"

definition rc_deref :: "nat \<Rightarrow> rc_state \<Rightarrow> rc_state eff" where
  "rc_deref obj s =
     and_then (rc_unique obj s) (\<lambda>u.
     if u then ok (set_count obj None s)
     else and_then (fetch_sub obj s) (\<lambda>(old, s). if old = 1 then ok (set_count obj None s) else ok s))"

section \<open>Intrusive pointers\<close>

definition ptr_get :: "nat \<Rightarrow> rc_state \<Rightarrow> nat option eff" where
  "ptr_get v s = (case rs_ptr s v of None \<Rightarrow> fail Wild_Deref | Some p \<Rightarrow> ok p)"

definition set_var :: "nat \<Rightarrow> nat option option \<Rightarrow> rc_state \<Rightarrow> rc_state" where
  "set_var v p s = s\<lparr>rs_ptr := (rs_ptr s)(v := p)\<rparr>"

definition set_ptr :: "nat \<Rightarrow> nat option \<Rightarrow> bool \<Rightarrow> rc_state \<Rightarrow> rc_state eff" where
  "set_ptr v raw add_ref s =
     (let s = set_var v (Some raw) s in
      case raw of Some obj \<Rightarrow> if add_ref then rc_ref obj s else ok s | None \<Rightarrow> ok s)"

definition ptr_null :: "nat \<Rightarrow> rc_state \<Rightarrow> rc_state eff" where
  "ptr_null v s = ok (set_var v (Some None) s)"

definition ptr_raw :: "nat \<Rightarrow> nat option \<Rightarrow> bool \<Rightarrow> rc_state \<Rightarrow> rc_state eff" where
  "ptr_raw v raw add_ref s = set_ptr v raw add_ref s"

definition ptr_detach :: "nat \<Rightarrow> rc_state \<Rightarrow> (nat option \<times> rc_state) eff" where
  "ptr_detach v s =
     and_then (ptr_get v s) (\<lambda>result.
     ok (result, if result \<noteq> None then set_var v (Some None) s else s))"

definition ptr_move :: "nat \<Rightarrow> nat \<Rightarrow> rc_state \<Rightarrow> rc_state eff" where
  "ptr_move v other s = and_then (ptr_detach other s) (\<lambda>(p, s). ok (set_var v (Some p) s))"

definition ptr_copy :: "nat \<Rightarrow> nat \<Rightarrow> rc_state \<Rightarrow> rc_state eff" where
  "ptr_copy v other s = and_then (ptr_get other s) (\<lambda>p. set_ptr v p True s)"

text \<open>\<open>if (p) intrusive_ptr_release(p)\<close>.\<close>

definition give_back :: "nat option \<Rightarrow> rc_state \<Rightarrow> rc_state eff" where
  "give_back p s = (case p of Some obj \<Rightarrow> rc_deref obj s | None \<Rightarrow> ok s)"

definition ptr_dtor :: "nat \<Rightarrow> rc_state \<Rightarrow> rc_state eff" where
  "ptr_dtor v s =
     and_then (ptr_get v s) (\<lambda>p.
     and_then (give_back p s) (\<lambda>s. ok (set_var v None s)))"

definition ptr_swap :: "nat \<Rightarrow> nat \<Rightarrow> rc_state \<Rightarrow> rc_state eff" where
  "ptr_swap v other s =
     and_then (ptr_get v s) (\<lambda>p. and_then (ptr_get other s) (\<lambda>q.
     ok (set_var other (Some p) (set_var v (Some q) s))))"

definition ptr_reset :: "nat \<Rightarrow> nat option \<Rightarrow> bool \<Rightarrow> rc_state \<Rightarrow> rc_state eff" where
  "ptr_reset v new add_ref s =
     and_then (ptr_get v s) (\<lambda>old.
     and_then (set_ptr v new add_ref s) (\<lambda>s. give_back old s))"

text \<open>
  Assignment takes its argument by value: a temporary \<open>t\<close>, copied or moved from \<open>other\<close>, is swapped
  with \<open>*this\<close> and destroyed.
\<close>

definition ptr_assign_raw :: "nat \<Rightarrow> nat option \<Rightarrow> rc_state \<Rightarrow> rc_state eff" where
  "ptr_assign_raw v p s = ptr_reset v p True s"

definition ptr_assign :: "nat \<Rightarrow> nat \<Rightarrow> rc_state \<Rightarrow> rc_state eff" where
  "ptr_assign v t s = and_then (ptr_swap v t s) (\<lambda>s. ptr_dtor t s)"

definition ptr_assign_copy :: "nat \<Rightarrow> nat \<Rightarrow> nat \<Rightarrow> rc_state \<Rightarrow> rc_state eff" where
  "ptr_assign_copy t v other s = and_then (ptr_copy t other s) (\<lambda>s. ptr_assign v t s)"

definition ptr_assign_move :: "nat \<Rightarrow> nat \<Rightarrow> nat \<Rightarrow> rc_state \<Rightarrow> rc_state eff" where
  "ptr_assign_move t v other s = and_then (ptr_move t other s) (\<lambda>s. ptr_assign v t s)"

text \<open>Conversions to \<open>bool\<close> and comparisons read the pointer only.\<close>

definition ptr_bool :: "nat \<Rightarrow> rc_state \<Rightarrow> bool eff" where
  "ptr_bool v s = and_then (ptr_get v s) (\<lambda>p. ok (p \<noteq> None))"

definition ptr_eq :: "nat \<Rightarrow> nat option \<Rightarrow> rc_state \<Rightarrow> bool eff" where
  "ptr_eq v q s = and_then (ptr_get v s) (\<lambda>p. ok (p = q))"

section \<open>The handles actor and supervisor\<close>

text \<open>
  Both wrap one \<open>intrusive_ptr\<close>, the variable of the same number. Assignments build a temporary handle
  \<open>t\<close> and swap. The constructor from a raw pointer takes a reference of its own. This is \<open>actor\<close>; its
  other members and \<open>supervisor\<close> are in \<open>Handles\<close>.
\<close>

definition handle_null :: "nat \<Rightarrow> rc_state \<Rightarrow> rc_state eff" where
  "handle_null v s = ptr_null v s"

definition handle_ptr :: "nat \<Rightarrow> nat \<Rightarrow> rc_state \<Rightarrow> rc_state eff" where
  "handle_ptr v p s = ptr_move v p s"

definition handle_raw :: "nat \<Rightarrow> nat option \<Rightarrow> rc_state \<Rightarrow> rc_state eff" where
  "handle_raw v raw s = ptr_raw v raw True s"

definition handle_swap :: "nat \<Rightarrow> nat \<Rightarrow> rc_state \<Rightarrow> rc_state eff" where
  "handle_swap v other s = ptr_swap v other s"

definition handle_assign_raw :: "nat \<Rightarrow> nat \<Rightarrow> nat option \<Rightarrow> rc_state \<Rightarrow> rc_state eff" where
  "handle_assign_raw t v raw s =
     and_then (handle_raw t raw s) (\<lambda>s. and_then (handle_swap v t s) (\<lambda>s. ptr_dtor t s))"

definition handle_assign_ptr :: "nat \<Rightarrow> nat \<Rightarrow> nat \<Rightarrow> rc_state \<Rightarrow> rc_state eff" where
  "handle_assign_ptr t v p s =
     and_then (handle_ptr t p s) (\<lambda>s. and_then (handle_swap v t s) (\<lambda>s. ptr_dtor t s))"

definition handle_assign_null :: "nat \<Rightarrow> rc_state \<Rightarrow> rc_state eff" where
  "handle_assign_null v s = ptr_reset v None True s"

section \<open>Accounting\<close>

definition points_to :: "nat option option \<Rightarrow> nat \<Rightarrow> nat" where
  "points_to p obj = (if p = Some (Some obj) then 1 else 0)"

definition owners :: "(nat \<Rightarrow> nat option option) \<Rightarrow> nat \<Rightarrow> nat" where
  "owners vs obj = card {v. vs v = Some (Some obj)}"

text \<open>\<open>count_ok c k\<close>: an object with counter \<open>c\<close> has \<open>k\<close> owners; it exists exactly when it has one.
  Every object there is has the count \<open>n\<close> says, which is not zero; \<open>n\<close> is zero elsewhere.\<close>

fun count_ok :: "64 word option \<Rightarrow> nat \<Rightarrow> bool" where
  "count_ok None k \<longleftrightarrow> k = 0"
| "count_ok (Some c) k \<longleftrightarrow> unat c = k \<and> 0 < k"

lemma count_ok_case: "count_ok c k = (case c of None \<Rightarrow> k = 0 | Some c \<Rightarrow> unat c = k \<and> 0 < k)"
  by (cases c) simp_all

definition counted :: "(nat \<Rightarrow> nat) \<Rightarrow> rc_state \<Rightarrow> bool" where
  "counted n s \<longleftrightarrow> (\<forall>obj. count_ok (rs_count s obj) (n obj))"

lemma set_var_fields [simp]:
  "rs_count (set_var v p s) = rs_count s" "rs_ptr (set_var v p s) = (rs_ptr s)(v := p)"
  by (simp_all add: set_var_def)

lemma set_count_fields [simp]:
  "rs_count (set_count obj c s) = (rs_count s)(obj := c)" "rs_ptr (set_count obj c s) = rs_ptr s"
  by (simp_all add: set_count_def)

lemma counted_cong: "rs_count s = rs_count s' \<Longrightarrow> counted n s = counted n s'"
  by (simp add: counted_def)

lemma counted_set_var [simp]: "counted n (set_var v p s) = counted n s"
  by (rule counted_cong) simp

lemma counted_set_count:
  assumes "counted n s" and "count_ok c k"
  shows "counted (n(obj := k)) (set_count obj c s)"
  using assms by (simp add: counted_def)

lemma owners_upd:
  assumes "finite (dom vs)"
  shows "owners (vs(v := p)) obj + points_to (vs v) obj = owners vs obj + points_to p obj"
proof -
  define A where "A = {w. vs w = Some (Some obj)} - {v}"
  have A: "finite A" "v \<notin> A"
    unfolding A_def by (auto intro: finite_subset [OF _ assms])
  have "{w. vs w = Some (Some obj)} = (if vs v = Some (Some obj) then insert v A else A)"
    "{w. (vs(v := p)) w = Some (Some obj)} = (if p = Some (Some obj) then insert v A else A)"
    unfolding A_def by auto
  with A show ?thesis
    unfolding owners_def points_to_def by simp
qed

lemma rc_ref_ok:
  assumes "counted n s" and "0 < n obj" and "n obj < 2 ^ 64 - 1"
  shows "\<exists>s'. rc_ref obj s = ok s' \<and> rs_ptr s' = rs_ptr s \<and> counted (n(obj := Suc (n obj))) s'"
proof -
  obtain c where c: "rs_count s obj = Some c" "unat c = n obj"
    using assms(1,2) unfolding counted_def by (cases "rs_count s obj") (metis count_ok.simps not_gr0)+
  have "unat (c + 1) = Suc (n obj)"
    using c assms(3) by (simp add: unat_word_ariths)
  with c counted_set_count [where c = "Some (c + 1)" and k = "Suc (n obj)", OF assms(1)] show ?thesis
    by (simp add: rc_ref_def count_of_def)
qed

lemma rc_deref_ok:
  assumes "counted n s" and "0 < n obj"
  shows "\<exists>s'. rc_deref obj s = ok s' \<and> rs_ptr s' = rs_ptr s \<and> counted (n(obj := n obj - 1)) s'"
proof -
  obtain c where c: "rs_count s obj = Some c" "unat c = n obj"
    using assms(1,2) unfolding counted_def by (cases "rs_count s obj") (metis count_ok.simps not_gr0)+
  show ?thesis
  proof (cases "c = 1")
    case True
    with c counted_set_count [where c = None and k = 0, OF assms(1)] show ?thesis
      by (simp add: rc_deref_def rc_unique_def count_of_def)
  next
    case False
    have "unat c \<noteq> 1"
      using False by (metis unat_1 word_unat_eq_iff)
    then have "1 < n obj"
      using c assms(2) by simp
    moreover have "unat (c - 1) = n obj - 1"
      using c assms(2) by (metis unat_minus_one unat_0 less_numeral_extra(3))
    ultimately show ?thesis
      using c False counted_set_count [where c = "Some (c - 1)" and k = "n obj - 1", OF assms(1)]
      by (simp add: rc_deref_def rc_unique_def fetch_sub_def count_of_def)
  qed
qed


section \<open>Sequences of operations\<close>

text \<open>
  The operations a program can apply, \<open>Ref\<close>, \<open>Deref\<close> and \<open>New\<close> included, which it may call on a raw
  pointer. \<open>raw obj\<close> counts the references to \<open>obj\<close> that are held outside of intrusive pointers.
\<close>

datatype ptr_op =
    New nat
  | Ref nat
  | Deref nat
  | Null nat
  | Raw nat "nat option" bool
  | Copy nat nat
  | Move nat nat
  | Dtor nat
  | Swap nat nat
  | Reset nat "nat option" bool
  | Detach nat
  | Assign_Copy nat nat nat
  | Assign_Move nat nat nat

fun run_op :: "ptr_op \<Rightarrow> rc_state \<Rightarrow> rc_state eff" where
  "run_op (New obj) s = ok (rc_new obj s)"
| "run_op (Ref obj) s = rc_ref obj s"
| "run_op (Deref obj) s = rc_deref obj s"
| "run_op (Null v) s = ptr_null v s"
| "run_op (Raw v p b) s = ptr_raw v p b s"
| "run_op (Copy v w) s = ptr_copy v w s"
| "run_op (Move v w) s = ptr_move v w s"
| "run_op (Dtor v) s = ptr_dtor v s"
| "run_op (Swap v w) s = ptr_swap v w s"
| "run_op (Reset v p b) s = ptr_reset v p b s"
| "run_op (Detach v) s = and_then (ptr_detach v s) (\<lambda>(_, s). ok s)"
| "run_op (Assign_Copy t v w) s = ptr_assign_copy t v w s"
| "run_op (Assign_Move t v w) s = ptr_assign_move t v w s"

text \<open>The rules of the game: objects used have an owner, pointers used exist, new ones do not.\<close>

fun raw_ok :: "(nat \<Rightarrow> nat) \<Rightarrow> rc_state \<Rightarrow> nat option \<Rightarrow> bool \<Rightarrow> bool" where
  "raw_ok raw s None b \<longleftrightarrow> True"
| "raw_ok raw s (Some obj) b \<longleftrightarrow> (if b then 0 < owners (rs_ptr s) obj + raw obj else 0 < raw obj)"

fun op_ok :: "(nat \<Rightarrow> nat) \<Rightarrow> rc_state \<Rightarrow> ptr_op \<Rightarrow> bool" where
  "op_ok raw s (New obj) \<longleftrightarrow> rs_count s obj = None"
| "op_ok raw s (Ref obj) \<longleftrightarrow> 0 < owners (rs_ptr s) obj + raw obj"
| "op_ok raw s (Deref obj) \<longleftrightarrow> 0 < raw obj"
| "op_ok raw s (Null v) \<longleftrightarrow> rs_ptr s v = None"
| "op_ok raw s (Raw v p b) \<longleftrightarrow> rs_ptr s v = None \<and> raw_ok raw s p b"
| "op_ok raw s (Copy v w) \<longleftrightarrow> rs_ptr s v = None \<and> rs_ptr s w \<noteq> None"
| "op_ok raw s (Move v w) \<longleftrightarrow> rs_ptr s v = None \<and> rs_ptr s w \<noteq> None"
| "op_ok raw s (Dtor v) \<longleftrightarrow> rs_ptr s v \<noteq> None"
| "op_ok raw s (Swap v w) \<longleftrightarrow> rs_ptr s v \<noteq> None \<and> rs_ptr s w \<noteq> None"
| "op_ok raw s (Reset v p b) \<longleftrightarrow> rs_ptr s v \<noteq> None \<and> raw_ok raw s p b"
| "op_ok raw s (Detach v) \<longleftrightarrow> rs_ptr s v \<noteq> None"
| "op_ok raw s (Assign_Copy t v w) \<longleftrightarrow> rs_ptr s t = None \<and> rs_ptr s v \<noteq> None \<and> rs_ptr s w \<noteq> None"
| "op_ok raw s (Assign_Move t v w) \<longleftrightarrow> rs_ptr s t = None \<and> rs_ptr s v \<noteq> None \<and> rs_ptr s w \<noteq> None"

text \<open>What the pointers hold afterwards, and the references outside of them.\<close>

fun ptrs_after :: "ptr_op \<Rightarrow> (nat \<Rightarrow> nat option option) \<Rightarrow> nat \<Rightarrow> nat option option" where
  "ptrs_after (Null v) vs = vs(v \<mapsto> None)"
| "ptrs_after (Raw v p b) vs = vs(v \<mapsto> p)"
| "ptrs_after (Copy v w) vs = vs(v := vs w)"
| "ptrs_after (Move v w) vs = vs(w \<mapsto> None, v := vs w)"
| "ptrs_after (Dtor v) vs = vs(v := None)"
| "ptrs_after (Swap v w) vs = vs(v := vs w, w := vs v)"
| "ptrs_after (Reset v p b) vs = vs(v \<mapsto> p)"
| "ptrs_after (Detach v) vs = vs(v \<mapsto> None)"
| "ptrs_after (Assign_Copy t v w) vs = vs(v := vs w)"
| "ptrs_after (Assign_Move t v w) vs = vs(w \<mapsto> None, v := vs w)"
| "ptrs_after _ vs = vs"

fun raw_after :: "ptr_op \<Rightarrow> (nat \<Rightarrow> nat option option) \<Rightarrow> (nat \<Rightarrow> nat) \<Rightarrow> nat \<Rightarrow> nat" where
  "raw_after (New obj) vs raw = raw(obj := 1)"
| "raw_after (Ref obj) vs raw = raw(obj := Suc (raw obj))"
| "raw_after (Deref obj) vs raw = raw(obj := raw obj - 1)"
| "raw_after (Raw v p b) vs raw = (\<lambda>obj. raw obj - (if b then 0 else points_to (Some p) obj))"
| "raw_after (Reset v p b) vs raw = (\<lambda>obj. raw obj - (if b then 0 else points_to (Some p) obj))"
| "raw_after (Detach v) vs raw = (\<lambda>obj. raw obj + points_to (vs v) obj)"
| "raw_after _ vs raw = raw"

definition need :: "(nat \<Rightarrow> nat) \<Rightarrow> (nat \<Rightarrow> nat option option) \<Rightarrow> nat \<Rightarrow> nat" where
  "need raw vs obj = owners vs obj + raw obj"

definition accounted :: "(nat \<Rightarrow> nat) \<Rightarrow> rc_state \<Rightarrow> bool" where
  "accounted raw s \<longleftrightarrow> finite (dom (rs_ptr s)) \<and> counted (need raw (rs_ptr s)) s"

lemma points_to_simps [simp]:
  "points_to None obj = 0" "points_to (Some None) obj = 0"
  "points_to (Some (Some x)) obj = (if x = obj then 1 else 0)"
  by (simp_all add: points_to_def)

lemma points_to_owners: "finite (dom vs) \<Longrightarrow> points_to (vs v) obj \<le> owners vs obj"
  using owners_upd [of vs v None obj] by simp

lemma owners_set:
  "finite (dom vs) \<Longrightarrow> owners (vs(v := p)) obj = owners vs obj + points_to p obj - points_to (vs v) obj"
  using owners_upd [of vs v p obj] by simp

lemma count_present: "counted n s \<Longrightarrow> rs_count s obj = None \<longleftrightarrow> n obj = 0"
  unfolding counted_def by (cases "rs_count s obj") (metis count_ok.simps less_numeral_extra(3) option.distinct(1))+

text \<open>Taking and giving back the reference a pointer value stands for.\<close>

lemma set_ptr_ok:
  assumes "counted n s" and "\<And>obj. p = Some obj \<Longrightarrow> b \<Longrightarrow> 0 < n obj \<and> n obj < 2 ^ 64 - 1"
  shows "\<exists>s'. set_ptr v p b s = ok s' \<and> rs_ptr s' = (rs_ptr s)(v \<mapsto> p) \<and>
    counted (\<lambda>obj. n obj + (if b then points_to (Some p) obj else 0)) s'"
proof (cases "\<exists>obj. p = Some obj \<and> b")
  case True
  then obtain obj where p: "p = Some obj" "b"
    by blast
  have "(\<lambda>x. n x + (if b then points_to (Some p) x else 0)) = n(obj := Suc (n obj))"
    by (auto simp: p)
  then show ?thesis
    using rc_ref_ok [of n "set_var v (Some p) s" obj] assms p by (auto simp: set_ptr_def)
next
  case False
  then have "(\<lambda>x. n x + (if b then points_to (Some p) x else 0)) = n"
    by (cases p) auto
  with False assms(1) show ?thesis
    by (cases p) (auto simp: set_ptr_def)
qed

lemma give_back_ok:
  assumes "counted n s" and "\<And>obj. p = Some obj \<Longrightarrow> 0 < n obj"
  shows "\<exists>s'. give_back p s = ok s' \<and> rs_ptr s' = rs_ptr s \<and> counted (\<lambda>obj. n obj - points_to (Some p) obj) s'"
proof (cases p)
  case None
  with assms(1) show ?thesis by (simp add: give_back_def)
next
  case (Some obj)
  have "(\<lambda>x. n x - points_to (Some p) x) = n(obj := n obj - 1)"
    by (auto simp: Some)
  then show ?thesis
    using rc_deref_ok [of n s obj] assms Some by (simp add: give_back_def)
qed


text \<open>Every operation.\<close>

lemma ptr_get_ok: "rs_ptr s v = Some p \<Longrightarrow> ptr_get v s = ok p"
  by (simp add: ptr_get_def)

lemma ptr_dtor_ok:
  assumes "counted n s" and "rs_ptr s v = Some p" and "\<And>obj. p = Some obj \<Longrightarrow> 0 < n obj"
  shows "\<exists>s'. ptr_dtor v s = ok s' \<and> rs_ptr s' = (rs_ptr s)(v := None) \<and>
    counted (\<lambda>obj. n obj - points_to (Some p) obj) s'"
proof -
  obtain s1 where "give_back p s = ok s1" "rs_ptr s1 = rs_ptr s" "counted (\<lambda>obj. n obj - points_to (Some p) obj) s1"
    using give_back_ok [OF assms(1), of p] assms(3) by blast
  with ptr_get_ok [OF assms(2)] show ?thesis by (simp add: ptr_dtor_def)
qed

lemma ptr_assign_ok:
  assumes "counted n s" and "rs_ptr s v = Some p" and "rs_ptr s t = Some q" and "v \<noteq> t"
    and "\<And>obj. p = Some obj \<Longrightarrow> 0 < n obj"
  shows "\<exists>s'. ptr_assign v t s = ok s' \<and> rs_ptr s' = (rs_ptr s)(v \<mapsto> q, t := None) \<and>
    counted (\<lambda>obj. n obj - points_to (Some p) obj) s'"
proof -
  let ?s = "set_var t (Some p) (set_var v (Some q) s)"
  have "ptr_swap v t s = ok ?s"
    using assms(2,3) by (simp add: ptr_swap_def ptr_get_ok)
  moreover have "rs_ptr ?s t = Some p" "counted n ?s"
    using assms(1) by simp_all
  ultimately show ?thesis
    using ptr_dtor_ok [of n ?s t p] assms(4,5) by (auto simp: ptr_assign_def fun_upd_twist)
qed

lemma ptr_move_ok:
  assumes "rs_ptr s w = Some p"
  shows "\<exists>s'. ptr_move v w s = ok s' \<and> rs_ptr s' = (rs_ptr s)(w \<mapsto> None, v \<mapsto> p) \<and> rs_count s' = rs_count s"
  using assms by (cases p) (auto simp: ptr_move_def ptr_detach_def ptr_get_ok)

lemma ptr_copy_ok:
  assumes "counted n s" and "rs_ptr s w = Some p" and "\<And>obj. p = Some obj \<Longrightarrow> 0 < n obj \<and> n obj < 2 ^ 64 - 1"
  shows "\<exists>s'. ptr_copy v w s = ok s' \<and> rs_ptr s' = (rs_ptr s)(v \<mapsto> p) \<and>
    counted (\<lambda>obj. n obj + points_to (Some p) obj) s'"
  using set_ptr_ok [OF assms(1), of p True v] assms(3) ptr_get_ok [OF assms(2)] by (auto simp: ptr_copy_def)

lemma owner_counts:
  assumes "finite (dom vs)" and "vs v = Some (Some obj)"
  shows "0 < need raw vs obj"
  using points_to_owners [OF assms(1), of v obj] assms(2) by (simp add: need_def)

lemma op_done:
  assumes "run_op op s = ok s'" and "rs_ptr s' = ptrs_after op (rs_ptr s)" and "counted n s'" and "finite (dom (rs_ptr s))"
    and "\<And>obj. n obj = need (raw_after op (rs_ptr s) raw) (ptrs_after op (rs_ptr s)) obj"
  shows "\<exists>s'. run_op op s = ok s' \<and> rs_ptr s' = ptrs_after op (rs_ptr s) \<and>
    accounted (raw_after op (rs_ptr s) raw) s'"
proof -
  have "n = need (raw_after op (rs_ptr s) raw) (ptrs_after op (rs_ptr s))"
    using assms(5) by blast
  moreover have "finite (dom (ptrs_after op (rs_ptr s)))"
    using assms(4) by (cases op) auto
  ultimately show ?thesis
    using assms(1,2,3) by (auto simp: accounted_def)
qed

lemma run_op_ok:
  assumes a: "accounted raw s" and o: "op_ok raw s op" and m: "\<And>obj. need raw (rs_ptr s) obj < 2 ^ 64 - 1"
  shows "\<exists>s'. run_op op s = ok s' \<and> rs_ptr s' = ptrs_after op (rs_ptr s) \<and>
    accounted (raw_after op (rs_ptr s) raw) s'"
proof -
  have f: "finite (dom (rs_ptr s))" and c: "counted (need raw (rs_ptr s)) s"
    using a by (simp_all add: accounted_def)
  let ?n = "need raw (rs_ptr s)"
  have pos: "rs_ptr s v = Some (Some obj) \<Longrightarrow> 0 < ?n obj" for v obj
    by (rule owner_counts [OF f])
  have own: "owners ((rs_ptr s)(v := p)) obj = owners (rs_ptr s) obj + points_to p obj - points_to (rs_ptr s v) obj" for v p obj
    by (rule owners_set [OF f])
  have own2: "owners ((rs_ptr s)(v := p, w := q)) obj =
      owners ((rs_ptr s)(v := p)) obj + points_to q obj - points_to (((rs_ptr s)(v := p)) w) obj" for v p w q obj
    by (rule owners_set) (use f in simp)
  have le: "points_to (rs_ptr s v) obj \<le> owners (rs_ptr s) obj" for v obj
    by (rule points_to_owners [OF f])
  have rawp: "0 < ?n obj \<and> ?n obj < 2 ^ 64 - 1" if "raw_ok raw s p b" "p = Some obj" "b" for p b obj
    using that m [of obj] by (simp add: need_def)
  have le_raw: "points_to (Some p) obj \<le> raw obj" if "raw_ok raw s p b" "\<not> b" for p b obj
    using that by (cases p) auto
  show ?thesis
  proof (cases op)
    case (New obj)
    have "?n obj = 0"
      using count_present [OF c, of obj] o New by simp
    moreover have "counted (?n(obj := 1)) (rc_new obj s)"
      unfolding rc_new_def by (rule counted_set_count [OF c]) (simp add: ref_counted_ctor_def)
    ultimately show ?thesis
      by (intro op_done [where n = "?n(obj := 1)" and s' = "rc_new obj s"])
        (use f in \<open>auto simp: New need_def rc_new_def\<close>)
  next
    case (Ref obj)
    have "0 < ?n obj"
      using o Ref by (simp add: need_def)
    then obtain s' where "rc_ref obj s = ok s'" "rs_ptr s' = rs_ptr s" "counted (?n(obj := Suc (?n obj))) s'"
      using rc_ref_ok [OF c _ m] by blast
    then show ?thesis
      by (intro op_done [where n = "?n(obj := Suc (?n obj))" and s' = s']) (use f in \<open>auto simp: Ref need_def\<close>)
  next
    case (Deref obj)
    have "0 < ?n obj"
      using o Deref by (simp add: need_def)
    then obtain s' where "rc_deref obj s = ok s'" "rs_ptr s' = rs_ptr s" "counted (?n(obj := ?n obj - 1)) s'"
      using rc_deref_ok [OF c] by blast
    then show ?thesis
      by (intro op_done [where n = "?n(obj := ?n obj - 1)" and s' = s']) (use f o in \<open>auto simp: Deref need_def\<close>)
  next
    case (Null v)
    show ?thesis
      by (rule op_done [where n = ?n and s' = "set_var v (Some None) s"])
        (use f c o own in \<open>auto simp: Null need_def ptr_null_def\<close>)
  next
    case (Raw v p b)
    let ?m = "\<lambda>obj. ?n obj + (if b then points_to (Some p) obj else 0)"
    have r: "raw_ok raw s p b" "rs_ptr s v = None"
      using o Raw by simp_all
    obtain s' where "set_ptr v p b s = ok s'" "rs_ptr s' = (rs_ptr s)(v \<mapsto> p)" "counted ?m s'"
      using set_ptr_ok [OF c, of p b v] rawp [OF r(1)] by blast
    then show ?thesis
      by (intro op_done [where n = ?m and s' = s'])
        (use f r own le_raw [OF r(1)] in \<open>auto simp: Raw need_def ptr_raw_def\<close>)
  next
    case (Copy v w)
    then obtain p where p: "rs_ptr s w = Some p" "rs_ptr s v = None"
      using o by auto
    let ?m = "\<lambda>obj. ?n obj + points_to (Some p) obj"
    obtain s' where "ptr_copy v w s = ok s'" "rs_ptr s' = (rs_ptr s)(v \<mapsto> p)" "counted ?m s'"
      using ptr_copy_ok [OF c p(1), of v] pos p m by blast
    then show ?thesis
      by (intro op_done [where n = ?m and s' = s']) (use f p own in \<open>auto simp: Copy need_def\<close>)
  next
    case (Move v w)
    then obtain p where p: "rs_ptr s w = Some p" "rs_ptr s v = None"
      using o by auto
    then have "v \<noteq> w"
      by auto
    note p = p this
    obtain s' where "ptr_move v w s = ok s'" "rs_ptr s' = (rs_ptr s)(w \<mapsto> None, v \<mapsto> p)" "rs_count s' = rs_count s"
      using ptr_move_ok [OF p(1)] by blast
    then show ?thesis
      by (intro op_done [where n = ?n and s' = s'])
        (use f c p own own2 le [of w] counted_cong [of s' s] in \<open>auto simp: Move need_def\<close>)
  next
    case (Dtor v)
    then obtain p where p: "rs_ptr s v = Some p"
      using o by auto
    let ?m = "\<lambda>obj. ?n obj - points_to (Some p) obj"
    obtain s' where "ptr_dtor v s = ok s'" "rs_ptr s' = (rs_ptr s)(v := None)" "counted ?m s'"
      using ptr_dtor_ok [OF c p] pos p by blast
    then show ?thesis
      by (intro op_done [where n = ?m and s' = s'])
        (use f p own le [of v] in \<open>auto simp: Dtor need_def\<close>)
  next
    case (Swap v w)
    then obtain p q where p: "rs_ptr s v = Some p" "rs_ptr s w = Some q"
      using o by auto
    let ?s = "set_var w (Some p) (set_var v (Some q) s)"
    have "owners ((rs_ptr s)(v \<mapsto> q, w \<mapsto> p)) obj = owners (rs_ptr s) obj" for obj
      using own2 [of v "Some q" w "Some p" obj] own [of v "Some q" obj] le [of v obj] le [of w obj] p
      by (cases "v = w") auto
    moreover have "ptr_swap v w s = ok ?s"
      using p by (simp add: ptr_swap_def ptr_get_ok)
    ultimately show ?thesis
      by (intro op_done [where n = ?n and s' = ?s]) (use f c p in \<open>auto simp: Swap need_def\<close>)
  next
    case (Reset v p b)
    then obtain q where q: "rs_ptr s v = Some q" and r: "raw_ok raw s p b"
      using o by auto
    let ?m = "\<lambda>obj. ?n obj + (if b then points_to (Some p) obj else 0)"
    let ?k = "\<lambda>obj. ?m obj - points_to (Some q) obj"
    obtain s1 where s1: "set_ptr v p b s = ok s1" "rs_ptr s1 = (rs_ptr s)(v \<mapsto> p)" "counted ?m s1"
      using set_ptr_ok [OF c, of p b v] rawp [OF r] by blast
    have "q = Some obj \<Longrightarrow> 0 < ?m obj" for obj
      using pos q by auto
    then obtain s2 where s2: "give_back q s1 = ok s2" "rs_ptr s2 = rs_ptr s1" "counted ?k s2"
      using give_back_ok [OF s1(3), of q] by blast
    have "ptr_reset v p b s = ok s2"
      using s1 s2 by (simp add: ptr_reset_def ptr_get_ok [of s v q, OF q])
    moreover have "?k obj = need (raw_after op (rs_ptr s) raw) (ptrs_after op (rs_ptr s)) obj" for obj
      using own [of v "Some p" obj] le [of v obj] le_raw [OF r, of obj] q by (auto simp: Reset need_def)
    ultimately show ?thesis
      by (intro op_done [where n = ?k and s' = s2]) (use f s1 s2 in \<open>auto simp: Reset\<close>)
  next
    case (Detach v)
    then obtain q where q: "rs_ptr s v = Some q"
      using o by auto
    let ?s = "if q \<noteq> None then set_var v (Some None) s else s"
    have "ptr_detach v s = ok (q, ?s)" "rs_ptr ?s = (rs_ptr s)(v \<mapsto> None)" "counted ?n ?s"
      using q c by (auto simp: ptr_detach_def ptr_get_ok [of s v q, OF q])
    then show ?thesis
      by (intro op_done [where n = ?n and s' = ?s]) (use f q own le [of v] in \<open>auto simp: Detach need_def\<close>)
  next
    case (Assign_Copy t v w)
    then obtain p q where p: "rs_ptr s w = Some p" "rs_ptr s v = Some q" "rs_ptr s t = None"
      using o by auto
    then have "v \<noteq> t"
      by auto
    note p = p this
    let ?m = "\<lambda>obj. ?n obj + points_to (Some p) obj"
    let ?k = "\<lambda>obj. ?m obj - points_to (Some q) obj"
    obtain s1 where s1: "ptr_copy t w s = ok s1" "rs_ptr s1 = (rs_ptr s)(t \<mapsto> p)" "counted ?m s1"
      using ptr_copy_ok [OF c p(1), of t] pos p m by blast
    have "q = Some obj \<Longrightarrow> 0 < ?m obj" for obj
      using pos p by auto
    then obtain s2 where s2: "ptr_assign v t s1 = ok s2" "rs_ptr s2 = (rs_ptr s1)(v \<mapsto> p, t := None)" "counted ?k s2"
      using ptr_assign_ok [OF s1(3), of v q t p] p s1(2) by auto
    have "rs_ptr s2 = (rs_ptr s)(v \<mapsto> p)"
      using s1 s2 p by (auto simp: fun_eq_iff)
    moreover have "?k obj = need (raw_after op (rs_ptr s) raw) (ptrs_after op (rs_ptr s)) obj" for obj
      using own [of v "Some p" obj] le [of v obj] p by (auto simp: Assign_Copy need_def)
    ultimately show ?thesis
      by (intro op_done [where n = ?k and s' = s2]) (use f s1 s2 p in \<open>auto simp: Assign_Copy ptr_assign_copy_def\<close>)
  next
    case (Assign_Move t v w)
    then obtain p q where p: "rs_ptr s w = Some p" "rs_ptr s v = Some q" "rs_ptr s t = None"
      using o by auto
    then have "v \<noteq> t" "w \<noteq> t"
      by auto
    note p = p this
    let ?q = "if v = w then None else q"
    let ?k = "\<lambda>obj. ?n obj - points_to (Some ?q) obj"
    obtain s1 where s1: "ptr_move t w s = ok s1" "rs_ptr s1 = (rs_ptr s)(w \<mapsto> None, t \<mapsto> p)" "rs_count s1 = rs_count s"
      using ptr_move_ok [OF p(1)] by blast
    have c1: "counted ?n s1"
      using c counted_cong [OF s1(3)] by simp
    have "?q = Some obj \<Longrightarrow> 0 < ?n obj" for obj
      using pos p by (auto split: if_splits)
    then obtain s2 where s2: "ptr_assign v t s1 = ok s2" "rs_ptr s2 = (rs_ptr s1)(v \<mapsto> p, t := None)" "counted ?k s2"
      using ptr_assign_ok [OF c1, of v ?q t p] p s1(2) by (cases "v = w") auto
    have "rs_ptr s2 = (rs_ptr s)(w \<mapsto> None, v \<mapsto> p)"
      using s1 s2 p by (auto simp: fun_eq_iff)
    moreover have "?k obj = need (raw_after op (rs_ptr s) raw) (ptrs_after op (rs_ptr s)) obj" for obj
      using own2 [of w "Some None" v "Some p" obj] own [of w "Some None" obj] le [of v obj] le [of w obj] p
      by (auto simp: Assign_Move need_def)
    ultimately show ?thesis
      by (intro op_done [where n = ?k and s' = s2]) (use f s1 s2 p in \<open>auto simp: Assign_Move ptr_assign_move_def\<close>)
  qed
qed

text \<open>A sequence of operations, each obeying the rules in the state it meets.\<close>

primrec run_ops :: "ptr_op list \<Rightarrow> rc_state \<Rightarrow> rc_state eff" where
  "run_ops [] s = ok s"
| "run_ops (op # ops) s = and_then (run_op op s) (run_ops ops)"

primrec ops_ok :: "(nat \<Rightarrow> nat) \<Rightarrow> rc_state \<Rightarrow> ptr_op list \<Rightarrow> bool" where
  "ops_ok raw s [] \<longleftrightarrow> True"
| "ops_ok raw s (op # ops) \<longleftrightarrow> op_ok raw s op \<and>
     (\<forall>s'. run_op op s = ok s' \<longrightarrow> ops_ok (raw_after op (rs_ptr s) raw) s' ops)"

primrec ptrs_after_all :: "ptr_op list \<Rightarrow> (nat \<Rightarrow> nat option option) \<Rightarrow> nat \<Rightarrow> nat option option" where
  "ptrs_after_all [] vs = vs"
| "ptrs_after_all (op # ops) vs = ptrs_after_all ops (ptrs_after op vs)"

primrec raw_after_all :: "ptr_op list \<Rightarrow> (nat \<Rightarrow> nat option option) \<Rightarrow> (nat \<Rightarrow> nat) \<Rightarrow> nat \<Rightarrow> nat" where
  "raw_after_all [] vs raw = raw"
| "raw_after_all (op # ops) vs raw = raw_after_all ops (ptrs_after op vs) (raw_after op vs raw)"

lemma need_grows:
  assumes "finite (dom vs)"
  shows "need (raw_after op vs raw) (ptrs_after op vs) obj \<le> Suc (need raw vs obj)"
proof -
  have p1: "points_to p x \<le> 1" for p x
    by (simp add: points_to_def)
  note own = owners_set [OF assms]
  have own2: "owners (vs(v := p, w := q)) obj =
      owners (vs(v := p)) obj + points_to q obj - points_to ((vs(v := p)) w) obj" for v p w q
    by (rule owners_set) (use assms in simp)
  have le: "points_to (vs v) obj \<le> owners vs obj" for v
    by (rule points_to_owners [OF assms])
  have sw: "owners (vs(v := vs w, w := vs v)) obj \<le> owners vs obj" for v w
    using own2 [of v "vs w" w "vs v"] own [of v "vs w" obj] le [of v] le [of w] by (cases "v = w") auto
  have mv: "owners (vs(w \<mapsto> None, v := vs w)) obj \<le> owners vs obj" for v w
    using own2 [of w "Some None" v "vs w"] own [of w "Some None" obj] le [of w] by (cases "v = w") auto
  show ?thesis
  proof (cases op)
    case (Raw v p b)
    show ?thesis
      using own [of v "Some p" obj] p1 [of "Some p" obj] le [of v] by (cases b) (simp_all add: Raw need_def)
  next
    case (Copy v w)
    show ?thesis
      using own [of v "vs w" obj] p1 [of "vs w" obj] le [of v] by (simp add: Copy need_def)
  next
    case (Reset v p b)
    show ?thesis
      using own [of v "Some p" obj] p1 [of "Some p" obj] le [of v] by (cases b) (simp_all add: Reset need_def)
  next
    case (Detach v)
    show ?thesis
      using own [of v "Some None" obj] le [of v] by (simp add: Detach need_def)
  next
    case (Assign_Copy t v w)
    show ?thesis
      using own [of v "vs w" obj] p1 [of "vs w" obj] le [of v] by (simp add: Assign_Copy need_def)
  qed (use own sw mv in \<open>auto simp: need_def intro: le_SucI\<close>)
qed

lemma run_ops_ok:
  assumes "accounted raw s" and "ops_ok raw s ops" and "\<forall>obj. need raw (rs_ptr s) obj + length ops < 2 ^ 64"
  shows "\<exists>s'. run_ops ops s = ok s' \<and> rs_ptr s' = ptrs_after_all ops (rs_ptr s) \<and>
    accounted (raw_after_all ops (rs_ptr s) raw) s'"
  using assms
proof (induction ops arbitrary: raw s)
  case (Cons op ops)
  have "need raw (rs_ptr s) obj < 2 ^ 64 - 1" for obj
    using Cons.prems(3) [rule_format, of obj] by simp
  then obtain s1 where s1: "run_op op s = ok s1" "rs_ptr s1 = ptrs_after op (rs_ptr s)"
      "accounted (raw_after op (rs_ptr s) raw) s1"
    using run_op_ok [OF Cons.prems(1), of op] Cons.prems(2) by auto
  have "need (raw_after op (rs_ptr s) raw) (rs_ptr s1) obj + length ops < 2 ^ 64" for obj
    using need_grows [of "rs_ptr s" op raw obj] Cons.prems(1) Cons.prems(3) [rule_format, of obj]
    unfolding accounted_def s1(2) by simp
  with Cons.IH [OF s1(3)] Cons.prems(2) s1 show ?case
    by simp
qed simp

end
