(* ===== verification/Handles.thy ===== *)
theory Handles
  imports Intrusive_Ptr Message
begin

text \<open>
  The handles of the two kinds of modules, \<open>base/actor.hpp\<close> and \<open>base/supervisor.hpp\<close>, whole, and the rest of
  \<open>detail/intrusive_ptr.hpp\<close>: casts and comparisons. A program that uses handles is a program that uses the
  pointers of \<open>Intrusive_Ptr\<close>, operation by operation, so the accounting of references carries over.
\<close>

section \<open>Casts and comparisons of intrusive pointers\<close>

text \<open>
  \<open>(ptr_) ? dynamic_cast<C*>(get()) : nullptr\<close>, from which a pointer with a reference of its own is made; \<open>is_a\<close>
  tells which objects are of class \<open>C\<close>. A static cast gives the pointer for every object.
\<close>

definition ptr_downcast :: "(nat \<Rightarrow> bool) \<Rightarrow> nat \<Rightarrow> nat \<Rightarrow> rc_state \<Rightarrow> rc_state eff" where
  "ptr_downcast is_a v other s =
     and_then (ptr_get other s) (\<lambda>p.
     ptr_raw v (case p of Some obj \<Rightarrow> if is_a obj then Some obj else None | None \<Rightarrow> None) True s)"

definition ptr_upcast :: "nat \<Rightarrow> nat \<Rightarrow> rc_state \<Rightarrow> rc_state eff" where
  "ptr_upcast v other s =
     and_then (ptr_get other s) (\<lambda>p. ptr_raw v (case p of Some obj \<Rightarrow> Some obj | None \<Rightarrow> None) True s)"

definition static_pointer_cast :: "nat \<Rightarrow> nat \<Rightarrow> rc_state \<Rightarrow> rc_state eff" where
  "static_pointer_cast v r s = ptr_upcast v r s"

definition dynamic_pointer_cast :: "(nat \<Rightarrow> bool) \<Rightarrow> nat \<Rightarrow> nat \<Rightarrow> rc_state \<Rightarrow> rc_state eff" where
  "dynamic_pointer_cast is_a v r s = ptr_downcast is_a v r s"

text \<open>Objects are ordered by their place; the null pointer is before all of them.\<close>

fun place_less :: "nat option \<Rightarrow> nat option \<Rightarrow> bool" where
  "place_less _ None \<longleftrightarrow> False"
| "place_less None (Some b) \<longleftrightarrow> True"
| "place_less (Some a) (Some b) \<longleftrightarrow> a < b"

definition ptr_less :: "nat \<Rightarrow> nat \<Rightarrow> rc_state \<Rightarrow> bool eff" where
  "ptr_less x y s = and_then (ptr_get x s) (\<lambda>p. and_then (ptr_get y s) (\<lambda>q. ok (place_less p q)))"

definition ptr_less_raw :: "nat \<Rightarrow> nat option \<Rightarrow> rc_state \<Rightarrow> bool eff" where
  "ptr_less_raw x q s = and_then (ptr_get x s) (\<lambda>p. ok (place_less p q))"

definition raw_less_ptr :: "nat option \<Rightarrow> nat \<Rightarrow> rc_state \<Rightarrow> bool eff" where
  "raw_less_ptr p y s = and_then (ptr_get y s) (\<lambda>q. ok (place_less p q))"

definition get_pointer :: "nat \<Rightarrow> rc_state \<Rightarrow> nat option eff" where
  "get_pointer p s = ptr_get p s"

definition swap_ptrs :: "nat \<Rightarrow> nat \<Rightarrow> rc_state \<Rightarrow> rc_state eff" where
  "swap_ptrs a b s = ptr_swap a b s"

section \<open>The handle actor\<close>

text \<open>
  Its constructors and assignments that take a pointer are in \<open>Intrusive_Ptr\<close> (\<open>handle_null\<close>, \<open>handle_ptr\<close>,
  \<open>handle_raw\<close> and the assignments). Those the compiler makes move the member. Observers that call through the
  pointer are undefined for an empty handle.
\<close>

definition actor_default :: "nat \<Rightarrow> rc_state \<Rightarrow> rc_state eff" where
  "actor_default v s = ptr_null v s"

definition actor_move :: "nat \<Rightarrow> nat \<Rightarrow> rc_state \<Rightarrow> rc_state eff" where
  "actor_move v a s = ptr_move v a s"

definition actor_assign_move :: "nat \<Rightarrow> nat \<Rightarrow> nat \<Rightarrow> rc_state \<Rightarrow> rc_state eff" where
  "actor_assign_move t v a s = ptr_assign_move t v a s"

definition actor_dtor :: "nat \<Rightarrow> rc_state \<Rightarrow> rc_state eff" where
  "actor_dtor v s = ptr_dtor v s"

definition actor_arrow :: "nat \<Rightarrow> rc_state \<Rightarrow> nat option eff" where
  "actor_arrow v s = ptr_get v s"

definition through :: "nat option \<Rightarrow> nat eff" where
  "through p = (case p of Some obj \<Rightarrow> ok obj | None \<Rightarrow> fail Null_Deref)"

definition actor_handle_address :: "nat \<Rightarrow> rc_state \<Rightarrow> addr eff" where
  "actor_handle_address v s =
     and_then (ptr_get v s) (\<lambda>p. and_then (through p) (\<lambda>obj. addr_ctor (Some obj)))"

definition actor_handle_type :: "(nat \<Rightarrow> string) \<Rightarrow> nat \<Rightarrow> rc_state \<Rightarrow> string eff" where
  "actor_handle_type types v s = and_then (ptr_get v s) (\<lambda>p. and_then (through p) (\<lambda>obj. ok (types obj)))"

definition actor_bool :: "nat \<Rightarrow> rc_state \<Rightarrow> bool eff" where
  "actor_bool v s = ptr_bool v s"

definition actor_not :: "nat \<Rightarrow> rc_state \<Rightarrow> bool eff" where
  "actor_not v s = and_then (ptr_bool v s) (\<lambda>b. ok (\<not> b))"

section \<open>The handle supervisor\<close>

text \<open>The address is made of the pointer itself, which must not be null.\<close>

definition supervisor_default :: "nat \<Rightarrow> rc_state \<Rightarrow> rc_state eff" where
  "supervisor_default v s = ptr_null v s"

definition supervisor_move :: "nat \<Rightarrow> nat \<Rightarrow> rc_state \<Rightarrow> rc_state eff" where
  "supervisor_move v a s = ptr_move v a s"

definition supervisor_assign_move :: "nat \<Rightarrow> nat \<Rightarrow> nat \<Rightarrow> rc_state \<Rightarrow> rc_state eff" where
  "supervisor_assign_move t v a s = ptr_assign_move t v a s"

definition supervisor_null :: "nat \<Rightarrow> rc_state \<Rightarrow> rc_state eff" where
  "supervisor_null v s = ptr_null v s"

definition supervisor_ptr :: "nat \<Rightarrow> nat \<Rightarrow> rc_state \<Rightarrow> rc_state eff" where
  "supervisor_ptr v p s = ptr_move v p s"

definition supervisor_raw :: "nat \<Rightarrow> nat option \<Rightarrow> rc_state \<Rightarrow> rc_state eff" where
  "supervisor_raw v raw s = ptr_raw v raw True s"

definition supervisor_swap :: "nat \<Rightarrow> nat \<Rightarrow> rc_state \<Rightarrow> rc_state eff" where
  "supervisor_swap v other s = ptr_swap v other s"

definition supervisor_assign_null :: "nat \<Rightarrow> rc_state \<Rightarrow> rc_state eff" where
  "supervisor_assign_null v s = ptr_reset v None True s"

definition supervisor_assign_ptr :: "nat \<Rightarrow> nat \<Rightarrow> nat \<Rightarrow> rc_state \<Rightarrow> rc_state eff" where
  "supervisor_assign_ptr t v p s =
     and_then (supervisor_ptr t p s) (\<lambda>s. and_then (supervisor_swap v t s) (\<lambda>s. ptr_dtor t s))"

definition supervisor_assign_raw :: "nat \<Rightarrow> nat \<Rightarrow> nat option \<Rightarrow> rc_state \<Rightarrow> rc_state eff" where
  "supervisor_assign_raw t v raw s =
     and_then (supervisor_raw t raw s) (\<lambda>s. and_then (supervisor_swap v t s) (\<lambda>s. ptr_dtor t s))"

definition supervisor_dtor :: "nat \<Rightarrow> rc_state \<Rightarrow> rc_state eff" where
  "supervisor_dtor v s = ptr_dtor v s"

definition supervisor_arrow :: "nat \<Rightarrow> rc_state \<Rightarrow> nat option eff" where
  "supervisor_arrow v s = ptr_get v s"

definition supervisor_get :: "nat \<Rightarrow> rc_state \<Rightarrow> nat option eff" where
  "supervisor_get v s = ptr_get v s"

definition supervisor_handle_address :: "nat \<Rightarrow> rc_state \<Rightarrow> addr eff" where
  "supervisor_handle_address v s = and_then (ptr_get v s) addr_ctor"

definition supervisor_handle_type :: "(nat \<Rightarrow> string) \<Rightarrow> nat \<Rightarrow> rc_state \<Rightarrow> string eff" where
  "supervisor_handle_type types v s = and_then (ptr_get v s) (\<lambda>p. and_then (through p) (\<lambda>obj. ok (types obj)))"

definition supervisor_bool :: "nat \<Rightarrow> rc_state \<Rightarrow> bool eff" where
  "supervisor_bool v s = ptr_bool v s"

definition supervisor_not :: "nat \<Rightarrow> rc_state \<Rightarrow> bool eff" where
  "supervisor_not v s = and_then (ptr_bool v s) (\<lambda>b. ok (\<not> b))"

section \<open>Programs with handles\<close>

text \<open>
  The operations on handles of either class, casts, and those on pointers and raw references. In an assignment
  \<open>t\<close> is the temporary.
\<close>

datatype handle_class = An_Actor | A_Supervisor

datatype handle_op =
    H_Default handle_class nat
  | H_Null handle_class nat
  | H_Ptr handle_class nat nat
  | H_Raw handle_class nat "nat option"
  | H_Move handle_class nat nat
  | H_Assign_Null handle_class nat
  | H_Assign_Ptr handle_class nat nat nat
  | H_Assign_Raw handle_class nat nat "nat option"
  | H_Assign_Move handle_class nat nat nat
  | H_Dtor handle_class nat
  | H_Upcast nat nat
  | H_Downcast "nat \<Rightarrow> bool" nat nat
  | H_Op ptr_op

fun run_handle :: "handle_op \<Rightarrow> rc_state \<Rightarrow> rc_state eff" where
  "run_handle (H_Default c v) s = (case c of An_Actor \<Rightarrow> actor_default v s | A_Supervisor \<Rightarrow> supervisor_default v s)"
| "run_handle (H_Null c v) s = (case c of An_Actor \<Rightarrow> handle_null v s | A_Supervisor \<Rightarrow> supervisor_null v s)"
| "run_handle (H_Ptr c v p) s = (case c of An_Actor \<Rightarrow> handle_ptr v p s | A_Supervisor \<Rightarrow> supervisor_ptr v p s)"
| "run_handle (H_Raw c v p) s = (case c of An_Actor \<Rightarrow> handle_raw v p s | A_Supervisor \<Rightarrow> supervisor_raw v p s)"
| "run_handle (H_Move c v a) s = (case c of An_Actor \<Rightarrow> actor_move v a s | A_Supervisor \<Rightarrow> supervisor_move v a s)"
| "run_handle (H_Assign_Null c v) s =
     (case c of An_Actor \<Rightarrow> handle_assign_null v s | A_Supervisor \<Rightarrow> supervisor_assign_null v s)"
| "run_handle (H_Assign_Ptr c t v p) s =
     (case c of An_Actor \<Rightarrow> handle_assign_ptr t v p s | A_Supervisor \<Rightarrow> supervisor_assign_ptr t v p s)"
| "run_handle (H_Assign_Raw c t v p) s =
     (case c of An_Actor \<Rightarrow> handle_assign_raw t v p s | A_Supervisor \<Rightarrow> supervisor_assign_raw t v p s)"
| "run_handle (H_Assign_Move c t v a) s =
     (case c of An_Actor \<Rightarrow> actor_assign_move t v a s | A_Supervisor \<Rightarrow> supervisor_assign_move t v a s)"
| "run_handle (H_Dtor c v) s = (case c of An_Actor \<Rightarrow> actor_dtor v s | A_Supervisor \<Rightarrow> supervisor_dtor v s)"
| "run_handle (H_Upcast v w) s = static_pointer_cast v w s"
| "run_handle (H_Downcast is_a v w) s = dynamic_pointer_cast is_a v w s"
| "run_handle (H_Op op) s = run_op op s"

primrec run_handles :: "handle_op list \<Rightarrow> rc_state \<Rightarrow> rc_state eff" where
  "run_handles [] s = ok s"
| "run_handles (h # hs) s = and_then (run_handle h s) (run_handles hs)"

text \<open>What an operation is in terms of pointers, given what these hold.\<close>

fun pointer_ops :: "handle_op \<Rightarrow> (nat \<Rightarrow> nat option option) \<Rightarrow> ptr_op list" where
  "pointer_ops (H_Default c v) vs = [ptr_op.Null v]"
| "pointer_ops (H_Null c v) vs = [ptr_op.Null v]"
| "pointer_ops (H_Ptr c v p) vs = [Move v p]"
| "pointer_ops (H_Raw c v p) vs = [Raw v p True]"
| "pointer_ops (H_Move c v a) vs = [Move v a]"
| "pointer_ops (H_Assign_Null c v) vs = [Reset v None True]"
| "pointer_ops (H_Assign_Ptr c t v p) vs = [Move t p, Swap v t, Dtor t]"
| "pointer_ops (H_Assign_Raw c t v p) vs = [Raw t p True, Swap v t, Dtor t]"
| "pointer_ops (H_Assign_Move c t v a) vs = [Assign_Move t v a]"
| "pointer_ops (H_Dtor c v) vs = [Dtor v]"
| "pointer_ops (H_Upcast v w) vs = [Raw v (the (vs w)) True]"
| "pointer_ops (H_Downcast is_a v w) vs =
     [Raw v (case the (vs w) of Some obj \<Rightarrow> if is_a obj then Some obj else None | None \<Rightarrow> None) True]"
| "pointer_ops (H_Op op) vs = [op]"

fun source_ok :: "handle_op \<Rightarrow> (nat \<Rightarrow> nat option option) \<Rightarrow> bool" where
  "source_ok (H_Upcast v w) vs \<longleftrightarrow> vs w \<noteq> None"
| "source_ok (H_Downcast is_a v w) vs \<longleftrightarrow> vs w \<noteq> None"
| "source_ok _ vs \<longleftrightarrow> True"

lemmas handle_defs = actor_default_def supervisor_default_def handle_null_def supervisor_null_def handle_ptr_def
  supervisor_ptr_def handle_raw_def supervisor_raw_def actor_move_def supervisor_move_def handle_assign_null_def
  supervisor_assign_null_def handle_assign_ptr_def supervisor_assign_ptr_def handle_assign_raw_def
  supervisor_assign_raw_def handle_swap_def supervisor_swap_def actor_assign_move_def supervisor_assign_move_def
  actor_dtor_def supervisor_dtor_def static_pointer_cast_def dynamic_pointer_cast_def ptr_upcast_def ptr_downcast_def

lemma run_ops_Nil: "run_ops [] = ok"
  by (simp add: fun_eq_iff)

lemma run_ops_Cons: "run_ops (op # ops) = (\<lambda>s. and_then (run_op op s) (run_ops ops))"
  by (simp add: fun_eq_iff)

lemma and_then_ok: "and_then r ok = r"
  by (cases r) (auto simp: and_then_def split: sum.splits)

lemma run_handle_ops: "source_ok h (rs_ptr s) \<Longrightarrow> run_handle h s = run_ops (pointer_ops h (rs_ptr s)) s"
  by (cases h) (auto simp: handle_defs run_ops_Nil run_ops_Cons and_then_ok ptr_get_def split: handle_class.splits option.splits
      cong del: and_then_weak_cong)

lemma pointer_ops_length: "length (pointer_ops h vs) \<le> 3"
  by (cases h) simp_all

text \<open>The rules for a sequence of them, and what is left outside of pointers.\<close>

primrec handles_ok :: "(nat \<Rightarrow> nat) \<Rightarrow> rc_state \<Rightarrow> handle_op list \<Rightarrow> bool" where
  "handles_ok raw s [] \<longleftrightarrow> True"
| "handles_ok raw s (h # hs) \<longleftrightarrow>
     source_ok h (rs_ptr s) \<and> ops_ok raw s (pointer_ops h (rs_ptr s)) \<and>
     (\<forall>s'. run_handle h s = ok s' \<longrightarrow>
        handles_ok (raw_after_all (pointer_ops h (rs_ptr s)) (rs_ptr s) raw) s' hs)"

primrec handle_ops :: "handle_op list \<Rightarrow> (nat \<Rightarrow> nat option option) \<Rightarrow> ptr_op list" where
  "handle_ops [] vs = []"
| "handle_ops (h # hs) vs = pointer_ops h vs @ handle_ops hs (ptrs_after_all (pointer_ops h vs) vs)"

lemma ptrs_after_all_append [simp]: "ptrs_after_all (xs @ ys) vs = ptrs_after_all ys (ptrs_after_all xs vs)"
  by (induction xs arbitrary: vs) simp_all

lemma raw_after_all_append [simp]:
  "raw_after_all (xs @ ys) vs raw = raw_after_all ys (ptrs_after_all xs vs) (raw_after_all xs vs raw)"
  by (induction xs arbitrary: vs raw) simp_all

lemma finite_ptrs_after: "finite (dom vs) \<Longrightarrow> finite (dom (ptrs_after op vs))"
  by (cases op) auto

lemma need_grows_all:
  "finite (dom vs) \<Longrightarrow> need (raw_after_all ops vs raw) (ptrs_after_all ops vs) obj \<le> need raw vs obj + length ops"
proof (induction ops arbitrary: vs raw)
  case (Cons op ops)
  have "need (raw_after op vs raw) (ptrs_after op vs) obj \<le> Suc (need raw vs obj)"
    by (rule need_grows [OF Cons.prems])
  with Cons.IH [OF finite_ptrs_after [OF Cons.prems, of op], of "raw_after op vs raw"] show ?case
    by simp
qed simp

lemma run_handles_ok:
  assumes "accounted raw s" and "handles_ok raw s hs" and "\<forall>obj. need raw (rs_ptr s) obj + 3 * length hs < 2 ^ 64"
  shows "\<exists>s'. run_handles hs s = ok s' \<and> rs_ptr s' = ptrs_after_all (handle_ops hs (rs_ptr s)) (rs_ptr s) \<and>
    accounted (raw_after_all (handle_ops hs (rs_ptr s)) (rs_ptr s) raw) s'"
  using assms
proof (induction hs arbitrary: raw s)
  case (Cons h hs)
  let ?ops = "pointer_ops h (rs_ptr s)" and ?raw = "raw_after_all (pointer_ops h (rs_ptr s)) (rs_ptr s) raw"
  have b: "need raw (rs_ptr s) obj + 3 + 3 * length hs < 2 ^ 64" for obj
    using Cons.prems(3) [rule_format, of obj] by simp
  have ops: "source_ok h (rs_ptr s)" "ops_ok raw s ?ops"
    using Cons.prems(2) by simp_all
  have "need raw (rs_ptr s) obj + length ?ops < 2 ^ 64" for obj
    using b [of obj] pointer_ops_length [of h "rs_ptr s"] by linarith
  then obtain s1 where s1: "run_ops ?ops s = ok s1" "rs_ptr s1 = ptrs_after_all ?ops (rs_ptr s)" "accounted ?raw s1"
    using run_ops_ok [OF Cons.prems(1) ops(2)] by blast
  have r: "run_handle h s = ok s1"
    using run_handle_ops [OF ops(1)] s1(1) by simp
  have "finite (dom (rs_ptr s))"
    using Cons.prems(1) by (simp add: accounted_def)
  then have "need ?raw (rs_ptr s1) obj + 3 * length hs < 2 ^ 64" for obj
    using need_grows_all [of "rs_ptr s" ?ops raw obj] b [of obj] pointer_ops_length [of h "rs_ptr s"]
    unfolding s1(2) by linarith
  moreover have "handles_ok ?raw s1 hs"
    using Cons.prems(2) r by simp
  ultimately obtain s' where "run_handles hs s1 = ok s'"
      "rs_ptr s' = ptrs_after_all (handle_ops hs (rs_ptr s1)) (rs_ptr s1)"
      "accounted (raw_after_all (handle_ops hs (rs_ptr s1)) (rs_ptr s1) ?raw) s'"
    using Cons.IH [OF s1(3)] by blast
  with r show ?case
    by (simp add: s1(2))
qed simp

text \<open>The observers, for a handle that is there.\<close>

lemma handle_observers:
  assumes "rs_ptr s v = Some p"
  shows "actor_handle_address v s = (case p of Some obj \<Rightarrow> ok (A_Mod obj) | None \<Rightarrow> fail Null_Deref)"
    and "supervisor_handle_address v s = (case p of Some obj \<Rightarrow> ok (A_Mod obj) | None \<Rightarrow> fail Assert_Failed)"
    and "actor_handle_type types v s = (case p of Some obj \<Rightarrow> ok (types obj) | None \<Rightarrow> fail Null_Deref)"
    and "supervisor_handle_type types v s = actor_handle_type types v s"
    and "actor_bool v s = ok (p \<noteq> None)" and "supervisor_not v s = ok (p = None)"
  using assms
  by (auto simp: actor_handle_address_def supervisor_handle_address_def actor_handle_type_def supervisor_handle_type_def
      actor_bool_def supervisor_not_def ptr_get_def ptr_bool_def through_def addr_ctor_def split: option.splits)

section \<open>Property\<close>

text \<open>
  C28. Reference counting is sound for programs that use handles: any sequence of operations on handles of either
  class, on pointers and on raw references that obeys the rules (no use of a handle that was not constructed,
  no release of a reference one does not hold) runs without touching a deleted object, leaves in every handle
  what its assignments say, and afterwards an object exists exactly when some handle, pointer or raw
  reference owns it, its count being the number of owners. The bound keeps the 64-bit counter from wrapping.
\<close>

theorem handles_are_counted:
  assumes "accounted raw s" and "handles_ok raw s hs" and "\<forall>obj. need raw (rs_ptr s) obj + 3 * length hs < 2 ^ 64"
  shows "\<exists>s'. run_handles hs s = ok s' \<and> rs_ptr s' = ptrs_after_all (handle_ops hs (rs_ptr s)) (rs_ptr s) \<and>
    (\<forall>obj. count_ok (rs_count s' obj)
      (owners (rs_ptr s') obj + raw_after_all (handle_ops hs (rs_ptr s)) (rs_ptr s) raw obj))"
proof -
  obtain s' where s': "run_handles hs s = ok s'" "rs_ptr s' = ptrs_after_all (handle_ops hs (rs_ptr s)) (rs_ptr s)"
      "accounted (raw_after_all (handle_ops hs (rs_ptr s)) (rs_ptr s) raw) s'"
    using run_handles_ok [OF assms] by blast
  then have "count_ok (rs_count s' obj)
      (owners (rs_ptr s') obj + raw_after_all (handle_ops hs (rs_ptr s)) (rs_ptr s) raw obj)" for obj
    by (simp add: accounted_def counted_def need_def)
  with s'(1,2) show ?thesis by blast
qed

text \<open>
  What \<open>spawn_actor\<close> and the vector of a supervisor do: a new object, a temporary handle made of its address,
  a handle moved from that, the end of both. The reference the object was born with is left.
\<close>

definition demo_empty :: rc_state where
  "demo_empty = \<lparr>rs_count = (\<lambda>_. None), rs_ptr = (\<lambda>_. None)\<rparr>"

definition demo_spawn :: "handle_op list" where
  "demo_spawn = [H_Op (New 7), H_Raw An_Actor 2 (Some 7), H_Move An_Actor 3 2, H_Dtor An_Actor 2, H_Dtor An_Actor 3]"

lemma handles_ok_step:
  assumes "run_handle h s = ok s1" and "source_ok h (rs_ptr s)" and "ops_ok raw s (pointer_ops h (rs_ptr s))"
    and "handles_ok (raw_after_all (pointer_ops h (rs_ptr s)) (rs_ptr s) raw) s1 hs"
  shows "handles_ok raw s (h # hs)"
  using assms by simp

lemma handles_ok_last:
  "source_ok h (rs_ptr s) \<Longrightarrow> ops_ok raw s (pointer_ops h (rs_ptr s)) \<Longrightarrow> handles_ok raw s [h]"
  by simp

lemma demo_spawn_runs:
  "run_handle (H_Op (New 7)) demo_empty = ok \<lparr>rs_count = [7 \<mapsto> 1], rs_ptr = Map.empty\<rparr>"
  "run_handle (H_Raw An_Actor 2 (Some 7)) \<lparr>rs_count = [7 \<mapsto> 1], rs_ptr = Map.empty\<rparr> =
    ok \<lparr>rs_count = [7 \<mapsto> 2], rs_ptr = [2 \<mapsto> Some 7]\<rparr>"
  "run_handle (H_Move An_Actor 3 2) \<lparr>rs_count = [7 \<mapsto> 2], rs_ptr = [2 \<mapsto> Some 7]\<rparr> =
    ok \<lparr>rs_count = [7 \<mapsto> 2], rs_ptr = [2 \<mapsto> None, 3 \<mapsto> Some 7]\<rparr>"
  "run_handle (H_Dtor An_Actor 2) \<lparr>rs_count = [7 \<mapsto> 2], rs_ptr = [2 \<mapsto> None, 3 \<mapsto> Some 7]\<rparr> =
    ok \<lparr>rs_count = [7 \<mapsto> 2], rs_ptr = [3 \<mapsto> Some 7]\<rparr>"
  by (auto simp: demo_empty_def rc_new_def set_count_def ref_counted_ctor_def handle_defs ptr_raw_def set_ptr_def set_var_def
      rc_ref_def count_of_def ptr_move_def ptr_detach_def ptr_get_def ptr_dtor_def give_back_def fun_eq_iff)

lemma demo_spawn_ok: "handles_ok (\<lambda>_. 0) demo_empty demo_spawn"
  unfolding demo_spawn_def
  by (rule handles_ok_step [OF demo_spawn_runs(1)], simp, simp add: demo_empty_def)
    (rule handles_ok_step [OF demo_spawn_runs(2)], simp, simp,
     rule handles_ok_step [OF demo_spawn_runs(3)], simp, simp,
     rule handles_ok_step [OF demo_spawn_runs(4)], simp, simp, simp)

lemma handles_are_counted_witness:
  "\<exists>s'. run_handles demo_spawn demo_empty = ok s' \<and> rs_ptr s' = Map.empty \<and> rs_count s' 7 = Some 1"
proof -
  have "accounted (\<lambda>_. 0) demo_empty"
    by (simp add: accounted_def counted_def need_def demo_empty_def owners_def)
  moreover have "\<forall>obj. need (\<lambda>_. 0) (rs_ptr demo_empty) obj + 3 * length demo_spawn < 2 ^ 64"
    by (simp add: need_def demo_empty_def owners_def demo_spawn_def)
  ultimately obtain s' where s': "run_handles demo_spawn demo_empty = ok s'"
      "rs_ptr s' = ptrs_after_all (handle_ops demo_spawn (rs_ptr demo_empty)) (rs_ptr demo_empty)"
      "\<forall>obj. count_ok (rs_count s' obj) (owners (rs_ptr s') obj +
         raw_after_all (handle_ops demo_spawn (rs_ptr demo_empty)) (rs_ptr demo_empty) (\<lambda>_. 0) obj)"
    using handles_are_counted [OF _ demo_spawn_ok] by blast
  have p: "rs_ptr s' = Map.empty"
    using s'(2) by (auto simp: demo_spawn_def demo_empty_def)
  have "owners (rs_ptr s') 7 = 0"
    by (simp add: p owners_def)
  moreover have "raw_after_all (handle_ops demo_spawn (rs_ptr demo_empty)) (rs_ptr demo_empty) (\<lambda>_. 0) 7 = 1"
    by (simp add: demo_spawn_def demo_empty_def)
  ultimately obtain c where "rs_count s' 7 = Some c" "unat c = 1"
    using s'(3) [rule_format, of 7] by (auto simp: count_ok_case split: option.splits)
  then have "rs_count s' 7 = Some 1"
    by (metis unat_1 word_unat_eq_iff)
  with s'(1) p show ?thesis by blast
qed

end
