(* ===== verification/World_Crew.thy ===== *)
theory World_Crew
  imports World_Actors
begin

text \<open>
  Several actors of a pool in one world. Each has its own mailbox on the common heap and what one of them does
  leaves those of the others alone, so together they are as many abstract mailboxes (\<open>lossy\<close>) and the queue of
  the pool, in which every actor that is not idle waits once.
\<close>

section \<open>The abstract pool\<close>

record crew =
  cr_box :: "nat \<Rightarrow> lossy"
  cr_jobs :: "nat list"

definition crew_send :: "nat \<Rightarrow> message \<Rightarrow> crew \<Rightarrow> crew" where
  "crew_send i m c =
     c\<lparr>cr_box := (cr_box c)(i := lossy_send m (cr_box c i)),
       cr_jobs := (if lm_idle (cr_box c i) then cr_jobs c @ [i] else cr_jobs c)\<rparr>"

definition crew_turn :: "nat \<Rightarrow> crew \<Rightarrow> crew" where
  "crew_turn mx c =
     (case cr_jobs c of
        [] \<Rightarrow> c
      | i # js \<Rightarrow> c\<lparr>cr_box := (cr_box c)(i := lossy_turn mx (cr_box c i)), cr_jobs := js\<rparr>)"

definition crew_start :: crew where
  "crew_start = \<lparr>cr_box = (\<lambda>_. lossy_start), cr_jobs = []\<rparr>"

lemma crew_send_box: "cr_box (crew_send i m c) = (cr_box c)(i := lossy_send m (cr_box c i))"
  by (simp add: crew_send_def)

lemma crew_send_handled: "lm_handled (cr_box (crew_send i m c) j) = lm_handled (cr_box c j)"
  by (simp add: crew_send_box lossy_send_def)

text \<open>A pool that keeps up: every queue fits into one run and none is left over.\<close>

definition crew_fit :: "nat \<Rightarrow> nat \<Rightarrow> crew \<Rightarrow> bool" where
  "crew_fit mx b c \<longleftrightarrow>
     distinct (cr_jobs c) \<and> length (cr_jobs c) \<le> b \<and>
     (\<forall>i. (i \<in> set (cr_jobs c) \<longleftrightarrow> \<not> lm_idle (cr_box c i)) \<and> \<not> lm_stalled (cr_box c i) \<and>
        length (lm_queue (cr_box c i)) \<le> mx \<and> (lm_idle (cr_box c i) \<longrightarrow> lm_queue (cr_box c i) = []))"

definition crew_settle :: "crew \<Rightarrow> crew" where
  "crew_settle c =
     \<lparr>cr_box = (\<lambda>i. \<lparr>lm_idle = True, lm_stalled = False, lm_queue = [],
        lm_handled = lm_handled (cr_box c i) @ lm_queue (cr_box c i)\<rparr>), cr_jobs = []\<rparr>"

lemma crew_drain: "crew_fit mx b c \<Longrightarrow> b \<le> k \<Longrightarrow> (crew_turn mx ^^ k) c = crew_settle c"
proof (induction k arbitrary: b c)
  case 0
  then show ?case
    by (intro crew.equality ext lossy.equality) (auto simp: crew_fit_def crew_settle_def)
next
  case (Suc k)
  show ?case
  proof (cases "cr_jobs c")
    case Nil
    then have "crew_turn mx c = c"
      by (simp add: crew_turn_def)
    moreover have "crew_fit mx 0 c"
      using Suc.prems(1) Nil by (simp add: crew_fit_def)
    ultimately show ?thesis
      using Suc.IH [of 0 c] by (simp only: funpow_Suc_right o_apply)
  next
    case (Cons i js)
    let ?b = "\<lparr>lm_idle = True, lm_stalled = False, lm_queue = [], lm_handled = lm_handled (cr_box c i) @ lm_queue (cr_box c i)\<rparr>"
    have i: "\<not> lm_idle (cr_box c i)" "\<not> lm_stalled (cr_box c i)" "length (lm_queue (cr_box c i)) \<le> mx" "i \<notin> set js"
      using Suc.prems(1) Cons unfolding crew_fit_def by auto
    then have t: "crew_turn mx c = c\<lparr>cr_box := (cr_box c)(i := ?b), cr_jobs := js\<rparr>"
      using Cons by (simp add: crew_turn_def lossy_turn_def)
    have "crew_fit mx (length js) (crew_turn mx c)"
      using Suc.prems(1) Cons i(4) unfolding t crew_fit_def by auto
    moreover have "length js \<le> k"
      using Suc.prems Cons by (simp add: crew_fit_def)
    ultimately have "(crew_turn mx ^^ k) (crew_turn mx c) = crew_settle (crew_turn mx c)"
      by (rule Suc.IH)
    also have "\<dots> = crew_settle c"
      unfolding t by (intro crew.equality ext) (simp_all add: crew_settle_def)
    finally show ?thesis
      by (simp add: funpow_swap1)
  qed
qed

lemma crew_send_all:
  assumes "distinct is" and "\<forall>i \<in> set is. lm_idle (cr_box c i)"
  shows "fold (\<lambda>i. crew_send i m) is c =
    c\<lparr>cr_box := (\<lambda>j. if j \<in> set is then lossy_send m (cr_box c j) else cr_box c j), cr_jobs := cr_jobs c @ is\<rparr>"
  using assms
proof (induction "is" arbitrary: c)
  case (Cons i "is")
  have "\<forall>j \<in> set is. lm_idle (cr_box (crew_send i m c) j)"
    using Cons.prems by (auto simp: crew_send_box)
  then have e: "fold (\<lambda>i. crew_send i m) is (crew_send i m c) =
      (crew_send i m c)\<lparr>cr_box := (\<lambda>j. if j \<in> set is then lossy_send m (cr_box (crew_send i m c) j) else cr_box (crew_send i m c) j),
        cr_jobs := cr_jobs (crew_send i m c) @ is\<rparr>"
    using Cons by simp
  show ?case
    unfolding fold.simps o_apply e using Cons.prems by (intro crew.equality ext) (auto simp: crew_send_def)
qed simp

lemma crew_fit_sent:
  assumes "distinct is" and "length is \<le> b" and "0 < mx"
  shows "crew_fit mx b (fold (\<lambda>i. crew_send i m) is (crew_settle c))"
proof -
  have "\<forall>i \<in> set is. lm_idle (cr_box (crew_settle c) i)"
    by (simp add: crew_settle_def)
  from crew_send_all [OF assms(1) this, of m] assms show ?thesis
    by (auto simp: crew_fit_def crew_settle_def lossy_send_def Suc_le_eq)
qed

section \<open>The actors of a world as a crew\<close>

text \<open>The mailbox of actor \<open>i\<close> with its nodes \<open>X\<close>, all of them older than \<open>n\<close>.\<close>

definition in_box :: "message heap \<Rightarrow> nat \<Rightarrow> nat \<Rightarrow> 'u actor_members \<Rightarrow> lossy \<Rightarrow> nat set \<Rightarrow> bool" where
  "in_box h n i a s X \<longleftrightarrow>
     (\<exists>p c1. mailbox h (o_mbox a) Ready p c1 [] \<and> q_this (o_mbox a) = i \<and> X = set (c1 @ p) \<and> X \<subseteq> {..<n} \<and>
        map (\<lambda>x. the (cell h (Node x))) (c1 @ p) = lm_queue s \<and> (lm_stalled s \<longleftrightarrow> c1 \<noteq> []) \<and>
        (o_flags a = St_Empty \<longleftrightarrow> lm_idle s))"

definition serves :: "nat \<Rightarrow> nat set \<Rightarrow> (nat \<Rightarrow> nat set) \<Rightarrow> nat \<Rightarrow> ('k, 'u) world \<Rightarrow> crew \<Rightarrow> bool" where
  "serves mx A X n w c \<longleftrightarrow>
     w_jobs w = cr_jobs c \<and> distinct (cr_jobs c) \<and> set (cr_jobs c) = {i \<in> A. \<not> lm_idle (cr_box c i)} \<and>
     (\<forall>i \<in> A. \<exists>k t a. i < length (w_objs w) \<and> w_objs w ! i = Actor_Obj k t a \<and>
        executor_of (o_super a) w = ok (Pool mx) \<and> in_box (w_heap w) n i a (cr_box c i) (X i)) \<and>
     (\<forall>i \<in> A. \<forall>j \<in> A. i \<noteq> j \<longrightarrow> X i \<inter> X j = {})"

lemma servesD:
  assumes "serves mx A X n w c" and "i \<in> A"
  shows "\<exists>k t a. i < length (w_objs w) \<and> w_objs w ! i = Actor_Obj k t a \<and>
    executor_of (o_super a) w = ok (Pool mx) \<and> in_box (w_heap w) n i a (cr_box c i) (X i)"
  using assms by (simp add: serves_def)

lemma in_box_old: "in_box h n i a s X \<Longrightarrow> x \<in> X \<Longrightarrow> x < n"
  by (auto simp: in_box_def)

lemma serves_old: "serves mx A X n w c \<Longrightarrow> i \<in> A \<Longrightarrow> x \<in> X i \<Longrightarrow> x < n"
  using servesD in_box_old by blast

text \<open>What happens elsewhere on the heap does not matter, nor do other members of the actor.\<close>

lemma in_box_frame:
  assumes b: "in_box h n i a s X" and g: "agree_off B h h'" "plist_foot i X \<inter> B = {}" and "n \<le> n'"
    and a: "o_mbox a' = o_mbox a" "o_flags a' = o_flags a"
  shows "in_box h' n' i a' s X"
proof -
  obtain p c1 where p: "mailbox h (o_mbox a) Ready p c1 []" "q_this (o_mbox a) = i" "X = set (c1 @ p)" "X \<subseteq> {..<n}"
      "map (\<lambda>x. the (cell h (Node x))) (c1 @ p) = lm_queue s" "lm_stalled s \<longleftrightarrow> c1 \<noteq> []" "o_flags a = St_Empty \<longleftrightarrow> lm_idle s"
    using b unfolding in_box_def by blast
  have "mailbox h' (o_mbox a) Ready p c1 []"
    using g(2) p(2,3) by (intro mailbox_agree [OF p(1) g(1)]) (auto simp: mbox_foot_def plist_foot_def)
  moreover have "map (\<lambda>x. the (cell h' (Node x))) (c1 @ p) = lm_queue s"
    using g p(3) unfolding p(5) [symmetric]
    by (intro map_cong refl arg_cong [of _ _ the]) (auto simp: agree_off_def plist_foot_def)
  moreover have "X \<subseteq> {..<n'}"
    using p(4) assms(4) by auto
  ultimately show ?thesis
    unfolding in_box_def a using p by - (rule exI [of _ p], rule exI [of _ c1], simp)
qed

lemma executor_kept:
  assumes "executor_of v w = ok x" and "w_objs w ! i = Actor_Obj k t a" and "w_objs w' = (w_objs w)[i := b]"
  shows "executor_of v w' = ok x"
  using assms by (cases "v = i") (auto simp: executor_of_def)

text \<open>One actor takes a step: its own nodes and new ones are all it touches.\<close>

lemma serves_step:
  assumes s: "serves mx A X n w c" and i: "i \<in> A" "w_objs w ! i = Actor_Obj k t a"
    and w': "w_objs w' = (w_objs w)[i := Actor_Obj k t a']" "o_super a' = o_super a" "w_jobs w' = js"
      "agree_off (plist_foot i Y) (w_heap w) (w_heap w')"
    and Y: "Y \<subseteq> X i \<union> {n..<n'}" "X' \<subseteq> Y" "n \<le> n'"
    and b: "in_box (w_heap w') n' i a' b X'"
    and js: "distinct js" "set js = {j \<in> A. \<not> lm_idle (((cr_box c)(i := b)) j)}"
  shows "serves mx A (X(i := X')) n' w' (c\<lparr>cr_box := (cr_box c)(i := b), cr_jobs := js\<rparr>)"
proof -
  have "\<exists>k t a. j < length (w_objs w') \<and> w_objs w' ! j = Actor_Obj k t a \<and> executor_of (o_super a) w' = ok (Pool mx) \<and>
      in_box (w_heap w') n' j a (((cr_box c)(i := b)) j) ((X(i := X')) j)" if j: "j \<in> A" for j
  proof -
    obtain k1 t1 a1 where 1: "j < length (w_objs w)" "w_objs w ! j = Actor_Obj k1 t1 a1"
        "executor_of (o_super a1) w = ok (Pool mx)" "in_box (w_heap w) n j a1 (cr_box c j) (X j)"
      using servesD [OF s j] by blast
    note x = executor_kept [OF 1(3) i(2) w'(1)]
    show ?thesis
    proof (cases "j = i")
      case True
      with 1 i(2) x w'(1,2) b show ?thesis by simp
    next
      case False
      have "X j \<inter> X i = {}"
        using s i(1) j False by (simp add: serves_def)
      then have "plist_foot j (X j) \<inter> plist_foot i Y = {}"
        using Y(1) in_box_old [OF 1(4)] False by (fastforce simp: plist_foot_def)
      from in_box_frame [OF 1(4) w'(4) this Y(3) refl refl] False 1 x w'(1) show ?thesis
        by simp
    qed
  qed
  moreover have "(X(i := X')) j \<inter> (X(i := X')) l = {}" if jl: "j \<in> A" "l \<in> A" "j \<noteq> l" for j l
  proof -
    have "X m \<inter> X' = {}" if m: "m \<in> A" "m \<noteq> i" for m
    proof -
      have "X m \<inter> X i = {}"
        using s i(1) m by (simp add: serves_def)
      moreover have "\<forall>x \<in> X m. x < n"
        using servesD [OF s m(1)] in_box_old by blast
      ultimately show ?thesis
        using Y(1,2) by fastforce
    qed
    with jl s show ?thesis
      by (auto simp: serves_def)
  qed
  ultimately show ?thesis
    using js w'(3) unfolding serves_def by simp
qed

text \<open>What main and the supervisor do on the heap, outside of the mailboxes.\<close>

lemma serves_frame:
  assumes s: "serves mx A X n w c" and g: "agree_off B (w_heap w) (w_heap w')"
    and B: "\<And>i. i \<in> A \<Longrightarrow> {Head_S i, Sep_S i, Tail_S i} \<inter> B = {}" "\<And>i x. i \<in> A \<Longrightarrow> x \<in> X i \<Longrightarrow> Node x \<notin> B"
    and o: "\<And>i k t a. i \<in> A \<Longrightarrow> w_objs w ! i = Actor_Obj k t a \<Longrightarrow> i < length (w_objs w) \<Longrightarrow>
      i < length (w_objs w') \<and> (\<exists>a'. w_objs w' ! i = Actor_Obj k t a' \<and> o_mbox a' = o_mbox a \<and> o_flags a' = o_flags a \<and>
        executor_of (o_super a') w' = executor_of (o_super a) w)"
    and "w_jobs w' = w_jobs w" "n \<le> n'"
  shows "serves mx A X n' w' c"
proof -
  have "\<exists>k t a. i < length (w_objs w') \<and> w_objs w' ! i = Actor_Obj k t a \<and> executor_of (o_super a) w' = ok (Pool mx) \<and>
      in_box (w_heap w') n' i a (cr_box c i) (X i)" if i: "i \<in> A" for i
  proof -
    obtain k t a where 1: "i < length (w_objs w)" "w_objs w ! i = Actor_Obj k t a"
        "executor_of (o_super a) w = ok (Pool mx)" "in_box (w_heap w) n i a (cr_box c i) (X i)"
      using servesD [OF s i] by blast
    obtain a' where a': "i < length (w_objs w')" "w_objs w' ! i = Actor_Obj k t a'" "o_mbox a' = o_mbox a"
        "o_flags a' = o_flags a" "executor_of (o_super a') w' = executor_of (o_super a) w"
      using o [OF i 1(2,1)] by blast
    have "plist_foot i (X i) \<inter> B = {}"
      using B(1) [OF i] B(2) [OF i] by (auto simp: plist_foot_def)
    from in_box_frame [OF 1(4) g this assms(7) a'(3,4)] a' 1(3) show ?thesis
      by auto
  qed
  with s assms(6) show ?thesis
    by (simp add: serves_def)
qed

text \<open>A new actor, idle and with nothing in its mailbox.\<close>

lemma in_box_new: "in_box (pl_ctor q d h) n q (actor_members_of v u (coop_ctor q d h ())) lossy_start {}"
proof -
  have "mailbox (pl_ctor q d h) (a_mbox (coop_ctor q d h ())) Ready [] [] []"
    using coop_ctor_ok(1) [of q d h "()"] by (simp add: holds_def coop_ctor_eval)
  then show ?thesis
    unfolding in_box_def
    by - (rule exI [of _ "[]"], rule exI [of _ "[]"],
      simp add: actor_members_of_def coop_ctor_eval srq_ctor_def lossy_start_def)
qed

lemma serves_new:
  assumes s: "serves mx A X n w c" and i: "i \<notin> A" "i < length (w_objs w)" "w_objs w ! i = Actor_Obj k t a"
      "executor_of (o_super a) w = ok (Pool mx)"
    and b: "in_box (w_heap w) n i a (cr_box c i) {}" "lm_idle (cr_box c i)"
  shows "serves mx (insert i A) (X(i := {})) n w c"
  using assms unfolding serves_def by auto

lemma serves_none: "w_jobs w = [] \<Longrightarrow> serves mx {} X n w crew_start"
  by (simp add: serves_def crew_start_def)

section \<open>Delivery and turns\<close>

lemma crew_deliver:
  assumes s: "serves mx A X n w c" and i: "i \<in> A" "w_objs w ! i = Actor_Obj k t a" and x: "n \<le> x" "live (w_heap w) (Node x)"
  shows "\<exists>h q r d. deliver P (Suc f) i (Node x) w =
      ok (w\<lparr>w_heap := h,
            w_objs := (w_objs w)[i := Actor_Obj k t (a\<lparr>o_mbox := q, o_flags := St_Busy, o_device := d, o_rc := r\<rparr>)],
            w_jobs := cr_jobs (crew_send i (the (cell (w_heap w) (Node x))) c)\<rparr>) \<and>
    serves mx A (X(i := insert x (X i))) (Suc x)
      (w\<lparr>w_heap := h,
         w_objs := (w_objs w)[i := Actor_Obj k t (a\<lparr>o_mbox := q, o_flags := St_Busy, o_device := d, o_rc := r\<rparr>)],
         w_jobs := cr_jobs (crew_send i (the (cell (w_heap w) (Node x))) c)\<rparr>)
      (crew_send i (the (cell (w_heap w) (Node x))) c) \<and>
    cell h = cell (w_heap w)"
proof -
  let ?m = "the (cell (w_heap w) (Node x))"
  let ?c = "crew_send i ?m c" and ?b = "lossy_send ?m (cr_box c i)"
  have 1: "i < length (w_objs w)" "executor_of (o_super a) w = ok (Pool mx)" "in_box (w_heap w) n i a (cr_box c i) (X i)"
    using servesD [OF s i(1)] i(2) by auto
  obtain p c1 where p: "mailbox (w_heap w) (o_mbox a) Ready p c1 []" "q_this (o_mbox a) = i" "X i = set (c1 @ p)"
      "map (\<lambda>x. the (cell (w_heap w) (Node x))) (c1 @ p) = lm_queue (cr_box c i)" "lm_stalled (cr_box c i) \<longleftrightarrow> c1 \<noteq> []"
      "o_flags a = St_Empty \<longleftrightarrow> lm_idle (cr_box c i)"
    using 1(3) unfolding in_box_def by blast
  have old: "\<forall>y \<in> X i. y < n"
    using in_box_old [OF 1(3)] by blast
  then have "x \<notin> set (c1 @ p)"
    using x(1) p(3) by (metis leD)
  from deliver_pooled [OF 1(1) i(2) 1(2) p(1) _ x(2) this, of P f] obtain h q r d where e: "deliver P (Suc f) i (Node x) w =
      ok (w\<lparr>w_heap := h,
            w_objs := (w_objs w)[i := Actor_Obj k t (a\<lparr>o_mbox := q, o_flags := St_Busy, o_device := d, o_rc := r\<rparr>)],
            w_jobs := (if o_flags a = St_Empty then w_jobs w @ [i] else w_jobs w)\<rparr>)"
      "mailbox h q Ready (p @ [x]) c1 []" "cell h = cell (w_heap w)" "q_this q = i"
      "agree_off (plist_foot i (insert x (X i))) (w_heap w) h"
    unfolding p(2,3) by auto
  let ?a = "a\<lparr>o_mbox := q, o_flags := St_Busy, o_device := d, o_rc := r\<rparr>"
  let ?w = "w\<lparr>w_heap := h, w_objs := (w_objs w)[i := Actor_Obj k t ?a], w_jobs := cr_jobs ?c\<rparr>"
  have j: "w_jobs w = cr_jobs c" "distinct (cr_jobs c)" "set (cr_jobs c) = {i \<in> A. \<not> lm_idle (cr_box c i)}"
    using s by (simp_all add: serves_def)
  have jobs: "(if o_flags a = St_Empty then w_jobs w @ [i] else w_jobs w) = cr_jobs ?c"
    using p(6) j(1) by (simp add: crew_send_def)
  have m: "map (\<lambda>x. the (cell h (Node x))) (c1 @ p @ [x]) = lm_queue ?b"
    using p(4) by (simp add: e(3) lossy_send_def)
  have "insert x (X i) \<subseteq> {..<Suc x}"
    using old x(1) by (auto intro: less_SucI less_le_trans)
  then have "in_box h (Suc x) i ?a ?b (insert x (X i))"
    unfolding in_box_def
    by - (rule exI [of _ "p @ [x]"], rule exI [of _ c1], use e(2,4) p(3,5) m in \<open>auto simp: lossy_send_def\<close>)
  moreover have "distinct (cr_jobs ?c)" "set (cr_jobs ?c) = {j \<in> A. \<not> lm_idle (((cr_box c)(i := ?b)) j)}"
    using j i(1) by (auto simp: crew_send_def lossy_send_def)
  ultimately have "serves mx A (X(i := insert x (X i))) (Suc x) ?w (c\<lparr>cr_box := (cr_box c)(i := ?b), cr_jobs := cr_jobs ?c\<rparr>)"
    using x(1) e(5) by (intro serves_step [OF s i, where Y = "insert x (X i)"]) auto
  moreover have "c\<lparr>cr_box := (cr_box c)(i := ?b), cr_jobs := cr_jobs ?c\<rparr> = ?c"
    by (simp add: crew_send_def)
  ultimately show ?thesis
    using e(1,3) unfolding jobs
    by - (rule exI [of _ h], rule exI [of _ q], rule exI [of _ r], rule exI [of _ d], simp)
qed

context own_actor
begin

lemma crew_turn_ok:
  assumes s: "serves mx A X l w b" and j: "cr_jobs b = n # js" "w_objs w ! n = Actor_Obj k t a" and mx: "0 < mx"
    and c: "pr_actor P k (deliver P f) n = c" and fit: "\<forall>m \<in> set (lm_queue (cr_box b n)). fits user m"
  defines "e \<equiv> \<lparr>ae_contacts = o_contacts a, ae_log = w_log w, ae_user = get (o_user a)\<rparr>"
  defines "r \<equiv> if lm_stalled (cr_box b n) then e else fold (effect n (types_of w) user) (take mx (lm_queue (cr_box b n))) e"
  shows "\<exists>h a' X'. pool_turn P f w =
      ok (w\<lparr>w_heap := h, w_log := ae_log r, w_objs := (w_objs w)[n := Actor_Obj k t a'], w_jobs := js\<rparr>) \<and>
    serves mx A X' l (w\<lparr>w_heap := h, w_log := ae_log r, w_objs := (w_objs w)[n := Actor_Obj k t a'], w_jobs := js\<rparr>) (crew_turn mx b) \<and>
    o_super a' = o_super a \<and> o_user a' = put (ae_user r) (o_user a) \<and> o_contacts a' = ae_contacts r"
proof -
  let ?s = "cr_box b n"
  have jobs: "w_jobs w = n # js" "distinct (n # js)" "set (n # js) = {i \<in> A. \<not> lm_idle (cr_box b i)}"
    using s j(1) by (simp_all add: serves_def)
  then have n: "n \<in> A" "\<not> lm_idle ?s"
    by auto
  have 1: "n < length (w_objs w)" "executor_of (o_super a) w = ok (Pool mx)" "in_box (w_heap w) l n a ?s (X n)"
    using servesD [OF s n(1)] j(2) by auto
  obtain p c1 where p: "mailbox (w_heap w) (o_mbox a) Ready p c1 []" "q_this (o_mbox a) = n" "X n = set (c1 @ p)" "X n \<subseteq> {..<l}"
      "map (\<lambda>x. the (cell (w_heap w) (Node x))) (c1 @ p) = lm_queue ?s" "lm_stalled ?s \<longleftrightarrow> c1 \<noteq> []"
    using 1(3) unfolding in_box_def by blast
  have r: "(if c1 = [] then fold (effect n (types_of w) user) (take mx (lm_queue ?s)) e else e) = r"
    using p(6) by (simp add: r_def)
  obtain h a' p' d1 where t: "pool_turn P f w =
        ok (w\<lparr>w_heap := h, w_log := ae_log r, w_objs := (w_objs w)[n := Actor_Obj k t a'], w_jobs := js\<rparr>)"
      "mailbox h (o_mbox a') Ready p' d1 []" "d1 @ p' = drop mx (c1 @ p)" "d1 = [] \<longrightarrow> p' = []"
      "map (\<lambda>x. the (cell h (Node x))) (d1 @ p') = drop mx (lm_queue ?s)" "q_this (o_mbox a') = q_this (o_mbox a)"
      "agree_off (plist_foot n (X n)) (w_heap w) h"
      "o_flags a' = St_Empty" "o_super a' = o_super a" "o_user a' = put (ae_user r) (o_user a)" "o_contacts a' = ae_contacts r"
    using turn_takes [OF jobs(1) 1(1) j(2) 1(2) c p(1) mx p(5)] fit unfolding e_def [symmetric] r p(2,3) by blast
  let ?w = "w\<lparr>w_heap := h, w_log := ae_log r, w_objs := (w_objs w)[n := Actor_Obj k t a'], w_jobs := js\<rparr>"
  let ?b = "lossy_turn mx ?s"
  have b: "?b = \<lparr>lm_idle = True, lm_stalled = drop mx (lm_queue ?s) \<noteq> [], lm_queue = drop mx (lm_queue ?s),
        lm_handled = (if lm_stalled ?s then lm_handled ?s else lm_handled ?s @ take mx (lm_queue ?s))\<rparr>"
    using n(2) by (simp add: lossy_turn_def)
  have sub: "set (d1 @ p') \<subseteq> X n"
    unfolding t(3) p(3) by (rule set_drop_subset)
  have "drop mx (lm_queue ?s) \<noteq> [] \<longleftrightarrow> d1 \<noteq> []"
    unfolding t(5) [symmetric] using t(4) by auto
  then have "in_box h l n a' ?b (set (d1 @ p'))"
    unfolding in_box_def b
    by - (rule exI [of _ p'], rule exI [of _ d1], use t(2,5,6,8) sub p(2,4) in auto)
  moreover have "set js = {j \<in> A. \<not> lm_idle (((cr_box b)(n := ?b)) j)}"
    using jobs(2,3) by (auto simp: b)
  ultimately have "serves mx A (X(n := set (d1 @ p'))) l ?w (b\<lparr>cr_box := (cr_box b)(n := ?b), cr_jobs := js\<rparr>)"
    using t(7,9) sub jobs(2) by (intro serves_step [OF s n(1) j(2), where Y = "X n"]) auto
  then have "serves mx A (X(n := set (d1 @ p'))) l ?w (crew_turn mx b)"
    using j(1) by (simp add: crew_turn_def)
  with t(1,9-11) show ?thesis
    by blast
qed

end

end
