(* ===== verification/Smart_Send.thy ===== *)
theory Smart_Send
  imports World_Crew Round_Robin
begin

text \<open>
  The program \<open>examples/smart-send/main.cpp\<close> in the world: \<open>main\<close> has its supervisor create the workers, sends it
  tasks, which it hands to the workers in turn, and broadcasts tasks to all of them, while the worker thread of the
  pool takes turns whenever it is scheduled. The handlers of the workers are those of \<open>Round_Robin\<close>.
\<close>

section \<open>The workers\<close>

datatype ss_class = Worker | Lite

text \<open>
  The members of either class. The two counters are global in the program; here each worker keeps the part it
  has counted itself, and the value of the variable is the sum of these (\<open>ss_downloads\<close>, \<open>ss_works\<close>).
\<close>

record ss_members =
  sm_worker :: worker
  sm_actors :: "nat list"
  sm_supervisors :: "nat list"
  sm_cursor :: nat

definition ss_idle :: worker where
  "ss_idle = \<lparr>w_tmp = [], w_downloads = 0, w_works = 0\<rparr>"

definition ss_none :: ss_members where
  "ss_none = \<lparr>sm_worker = ss_idle, sm_actors = [], sm_supervisors = [], sm_cursor = 0\<rparr>"

type_synonym ss_world = "(ss_class, ss_members) world"
type_synonym ss_actor = "(ss_class, ss_members) actor_view"
type_synonym ss_sup = "(ss_class, ss_members) sup_view"
type_synonym ss_deliver = "(ss_class, ss_members) deliver"

definition ss_put :: "worker \<Rightarrow> ss_members \<Rightarrow> ss_members" where
  "ss_put u m = m\<lparr>sm_worker := u\<rparr>"

definition worker_spec :: "worker handler_spec" where
  "worker_spec n =
     (if n = ''download''
      then Some ([T_User 1], \<lambda>vs u. case vs of [V_User t (V_String url # others)] \<Rightarrow>
        u\<lparr>w_tmp := url, w_downloads := w_downloads u + 1\<rparr> | _ \<Rightarrow> u)
      else if n = ''work_data''
      then Some ([T_User 2], \<lambda>vs u. case vs of [V_User t (V_String data # others)] \<Rightarrow>
        u\<lparr>w_tmp := data, w_works := w_works u + 1\<rparr> | _ \<Rightarrow> u)
      else None)"

lemma worker_handlers:
  "cm_handlers (worker_ctor self types) n =
     (if n = ''work_data'' then Some worker_work_data else if n = ''download'' then Some worker_download
      else cm_handlers (actor_ctor self types) n)"
  by (simp add: worker_ctor_def actor_ctor_handlers)

lemma worker_calls:
  "\<exists>vs'. c_call worker_download vs s = ok (vs', s\<lparr>a_env := (a_env s)\<lparr>ae_user := snd (the (worker_spec ''download'')) vs (ae_user (a_env s))\<rparr>\<rparr>)"
  "\<exists>vs'. c_call worker_work_data vs s = ok (vs', s\<lparr>a_env := (a_env s)\<lparr>ae_user := snd (the (worker_spec ''work_data'')) vs (ae_user (a_env s))\<rparr>\<rparr>)"
  by (auto simp: worker_download_def worker_work_data_def worker_spec_def set_worker_user_def Let_def split: list.splits val.splits)

interpretation worker: actor_module self types "worker_ctor self types" worker_spec
  for self :: nat and types
proof
  show "cm_type (worker_ctor self types) = types self"
    by (simp add: worker_ctor_def actor_ctor_def)
  show "cm_handlers (worker_ctor self types) ''add_link'' = Some (add_link self types)"
    and "cm_handlers (worker_ctor self types) ''remove_link'' = Some (remove_link types)"
    by (simp_all add: worker_handlers actor_ctor_handlers)
  show "cm_handlers (worker_ctor self types) n = None" if "n \<notin> builtin" "worker_spec n = None" for n
    using that by (auto simp: worker_handlers actor_ctor_handlers builtin_def worker_spec_def split: if_splits)
  show "\<exists>h. cm_handlers (worker_ctor self types) n = Some h \<and> c_args h = ts \<and>
      (\<forall>vs s. map ty_of vs = ts \<longrightarrow>
        (\<exists>vs'. c_call h vs s = ok (vs', s\<lparr>a_env := (a_env s)\<lparr>ae_user := f vs (ae_user (a_env s))\<rparr>\<rparr>)))"
    if "n \<notin> builtin" and sp: "worker_spec n = Some (ts, f)" for n ts f
  proof -
    have f: "f = snd (the (worker_spec n))"
      using sp by simp
    consider "n = ''download''" | "n = ''work_data''"
      using sp by (auto simp: worker_spec_def split: if_splits)
    then show ?thesis
    proof cases
      case 1
      with worker_calls(1) sp show ?thesis
        unfolding f by (intro exI [of _ worker_download]) (auto simp: worker_handlers worker_spec_def worker_download_def)
    next
      case 2
      with worker_calls(2) sp show ?thesis
        unfolding f by (intro exI [of _ worker_work_data]) (auto simp: worker_handlers worker_spec_def worker_work_data_def)
    qed
  qed
qed

interpretation ss: member sm_worker ss_put
  by unfold_locales (simp_all add: ss_put_def)

definition ss_worker :: "nat \<Rightarrow> (nat \<Rightarrow> string) \<Rightarrow> ss_actor comm_module" where
  "ss_worker self types =
     (let h = own (own_get sm_worker) (own_put ss_put) in
      add_handler ''work_data'' (h worker_work_data) (add_handler ''download'' (h worker_download) (actor_ctor self types)))"

lemma ss_worker_handlers:
  "cm_handlers (ss_worker self types) n =
     (if n \<in> builtin then cm_handlers (actor_ctor self types) n
      else map_option (own (own_get sm_worker) (own_put ss_put)) (cm_handlers (worker_ctor self types) n))"
  by (simp add: ss_worker_def worker_handlers actor_ctor_handlers builtin_def Let_def)

lemma ss_worker_module:
  "actor_module self types (ss_worker self types) (own_spec (own_get sm_worker) (own_put ss_put) worker_spec)"
  by (rule own_module [OF worker.actor_module_axioms])
    (simp_all add: ss_worker_handlers worker_handlers actor_ctor_handlers builtin_def ss_worker_def Let_def actor_ctor_def
      comm_ctor_def)

interpretation ss_own: own_actor sm_worker ss_put self "ss_worker self" worker_spec for self
  by (intro own_actor.intro own_actor_axioms.intro ss.member_axioms ss_worker_module)

section \<open>The supervisor\<close>

definition ss_add_actor :: "nat \<Rightarrow> ss_sup \<Rightarrow> ss_sup eff" where
  "ss_add_actor t s =
     and_then (keep_actor t s) (\<lambda>s.
     case v_env s of (u, w) \<Rightarrow> ok (s\<lparr>v_env := (u\<lparr>sm_actors := sm_actors u @ [t]\<rparr>, w)\<rparr>))"

definition ss_add_supervisor :: "nat \<Rightarrow> ss_sup \<Rightarrow> ss_sup eff" where
  "ss_add_supervisor t s =
     (case v_env s of (u, w) \<Rightarrow> ok (s\<lparr>v_env := (u\<lparr>sm_supervisors := sm_supervisors u @ [t]\<rparr>, w)\<rparr>))"

definition ss_create :: "ss_deliver \<Rightarrow> nat \<Rightarrow> ss_sup callable" where
  "ss_create dl self =
     Callable [] (\<lambda>vs s.
       and_then (world_spawn (new_actor Worker ''bot'' ss_none self) ss_add_actor ''bot'' dl self s) (\<lambda>(_, s). ok (vs, s)))"

definition ss_lite :: "ss_deliver \<Rightarrow> nat \<Rightarrow> (nat \<Rightarrow> string) \<Rightarrow> ss_sup comm_module" where
  "ss_lite dl self types = add_handler ''create'' (ss_create dl self) (sup_ctor (from_sup dl self) self types)"

definition ss_local :: "(ss_sup \<Rightarrow> ss_sup eff) \<Rightarrow> ptr \<Rightarrow> ss_sup \<Rightarrow> ss_sup eff" where
  "ss_local exec p s = exec (set_current_message p s)"

definition ss_next :: "ss_sup \<Rightarrow> ss_sup" where
  "ss_next s =
     (case v_env s of (u, w) \<Rightarrow>
      let cursor = Suc (sm_cursor u) in
      s\<lparr>v_env := (u\<lparr>sm_cursor := if cursor \<ge> length (sm_actors u) then 0 else cursor\<rparr>, w)\<rparr>)"

definition ss_redirect_robin :: "ss_deliver \<Rightarrow> nat \<Rightarrow> ptr \<Rightarrow> ss_sup \<Rightarrow> ss_sup eff" where
  "ss_redirect_robin dl self p s =
     (case v_env s of (u, _) \<Rightarrow>
      if sm_actors u \<noteq> []
      then and_then (from_sup dl self (sm_actors u ! sm_cursor u) p s) (\<lambda>s. ok (ss_next s))
      else delete_message p s)"

definition ss_enqueue_base :: "ss_deliver \<Rightarrow> nat \<Rightarrow> (ss_sup \<Rightarrow> ss_sup eff) \<Rightarrow> ptr \<Rightarrow> ss_sup \<Rightarrow> ss_sup eff" where
  "ss_enqueue_base dl self exec p s =
     and_then (get_value (v_heap s) p) (\<lambda>msg.
     if m_command msg \<in> smart_system then ss_local exec p s else ss_redirect_robin dl self p s)"

section \<open>The program\<close>

definition smart :: "(ss_class, ss_members) program" where
  "smart = \<lparr>pr_actor = (\<lambda>_ _. ss_worker), pr_sup = (\<lambda>_. ss_lite), pr_enqueue = (\<lambda>_. ss_enqueue_base)\<rparr>"

definition ss_start :: ss_world where
  "ss_start = snd (main_new_sup Lite ''network'' (Pool 100) ss_none empty_world)"

text \<open>\<open>make_task\<close> and \<open>make_task_broadcast\<close>, which call members of the supervisor, object 0.\<close>

definition ss_make_task :: "ss_deliver \<Rightarrow> string \<Rightarrow> val \<Rightarrow> ss_world \<Rightarrow> ss_world eff" where
  "ss_make_task dl command task w =
     and_then (sup_address 0) (\<lambda>a. main_send dl 0 a command [task] w)"

definition ss_make_task_broadcast :: "ss_deliver \<Rightarrow> string \<Rightarrow> val \<Rightarrow> ss_world \<Rightarrow> ss_world eff" where
  "ss_make_task_broadcast dl command task w =
     and_then (sup_address 0) (\<lambda>a.
     case main_new a command [task] w of (p, w) \<Rightarrow>
     and_then (sup_again 0 w) (\<lambda>s.
     and_then (broadcast (from_sup dl 0) p s) (\<lambda>s. ok (put_sup 0 s))))"

text \<open>
  The lines of \<open>main\<close>: what the bodies of its three loops do. The thread of the pool takes \<open>ts i\<close> turns before
  line \<open>i\<close>, and \<open>k\<close> turns while \<open>main\<close> sleeps at its end.
\<close>

datatype ss_line = Create | Task string val | Task_Broadcast string val

fun ss_call :: "ss_deliver \<Rightarrow> ss_line \<Rightarrow> ss_world \<Rightarrow> ss_world eff" where
  "ss_call dl Create w = main_send dl 0 addr_empty ''create'' [] w"
| "ss_call dl (Task c v) w = ss_make_task dl c v w"
| "ss_call dl (Task_Broadcast c v) w = ss_make_task_broadcast dl c v w"

primrec ss_run :: "nat \<Rightarrow> (nat \<Rightarrow> nat) \<Rightarrow> nat \<Rightarrow> ss_line list \<Rightarrow> ss_world \<Rightarrow> ss_world eff" where
  "ss_run f ts i [] w = ok w"
| "ss_run f ts i (l # ls) w =
     and_then (pool_turns smart f (ts i) w) (\<lambda>w.
     and_then (ss_call (deliver smart f) l w) (ss_run f ts (Suc i) ls))"

text \<open>The tasks.\<close>

definition download_data :: "string \<Rightarrow> string \<Rightarrow> string \<Rightarrow> val" where
  "download_data url user_name passwod = V_User 1 [V_String url, V_String user_name, V_String passwod]"

definition work_data :: "string \<Rightarrow> string \<Rightarrow> val" where
  "work_data data operator_name = V_User 2 [V_String data, V_String operator_name]"

definition ss_lines :: "nat \<Rightarrow> nat \<Rightarrow> ss_line list" where
  "ss_lines actors task =
     replicate (actors - 1) Create @ replicate (task - 1) (Task ''download'' (download_data ''fb'' ''jack'' ''1'')) @
     replicate (task - 1) (Task_Broadcast ''work_data'' (work_data ''fb'' ''jack''))"

text \<open>The counters, and the assertions at the end.\<close>

fun ss_part :: "(worker \<Rightarrow> 64 word) \<Rightarrow> (ss_class, ss_members) obj \<Rightarrow> 64 word" where
  "ss_part f (Actor_Obj k t a) = f (sm_worker (o_user a))"
| "ss_part f (Sup_Obj k t a) = 0"

definition ss_downloads :: "ss_world \<Rightarrow> 64 word" where
  "ss_downloads w = sum_list (map (ss_part w_downloads) (w_objs w))"

definition ss_works :: "ss_world \<Rightarrow> 64 word" where
  "ss_works w = sum_list (map (ss_part w_works) (w_objs w))"

definition ss_to_sleep :: "nat \<Rightarrow> nat \<Rightarrow> nat \<Rightarrow> (nat \<Rightarrow> nat) \<Rightarrow> nat \<Rightarrow> ss_world eff" where
  "ss_to_sleep actors task f ts k = and_then (ss_run f ts 0 (ss_lines actors task) ss_start) (pool_turns smart f k)"

definition ss_main :: "nat \<Rightarrow> (nat \<Rightarrow> nat) \<Rightarrow> nat \<Rightarrow> nat eff" where
  "ss_main f ts k =
     and_then (ss_to_sleep 10 10000 f ts k) (\<lambda>w.
     and_then (assert_that (ss_downloads w = 9999)) (\<lambda>_.
     and_then (assert_that (ss_works w = 9999)) (\<lambda>_. ok 0)))"

section \<open>The program, abstractly\<close>

text \<open>
  What is left of it: how many workers there are, whose turn it is, and the crew. A message to nobody is deleted.
\<close>

record ss_spec =
  sp_workers :: nat
  sp_cursor :: nat
  sp_crew :: crew

definition ss_link :: message where
  "ss_link = make_message (A_Mod 0) ''add_link'' []"

definition ss_message :: "string \<Rightarrow> val \<Rightarrow> message" where
  "ss_message c v = make_message (A_Mod 0) c [v]"

fun spec_line :: "ss_line \<Rightarrow> ss_spec \<Rightarrow> ss_spec" where
  "spec_line Create s =
     s\<lparr>sp_workers := Suc (sp_workers s), sp_crew := crew_send (Suc (sp_workers s)) ss_link (sp_crew s)\<rparr>"
| "spec_line (Task c v) s =
     (if sp_workers s = 0 then s
      else s\<lparr>sp_cursor := Suc (sp_cursor s) mod sp_workers s,
             sp_crew := crew_send (Suc (sp_cursor s)) (ss_message c v) (sp_crew s)\<rparr>)"
| "spec_line (Task_Broadcast c v) s =
     s\<lparr>sp_crew := fold (\<lambda>i. crew_send i (ss_message c v)) [1..<Suc (sp_workers s)] (sp_crew s)\<rparr>"

definition spec_turns :: "nat \<Rightarrow> ss_spec \<Rightarrow> ss_spec" where
  "spec_turns k s = s\<lparr>sp_crew := (crew_turn 100 ^^ k) (sp_crew s)\<rparr>"

primrec spec_run :: "(nat \<Rightarrow> nat) \<Rightarrow> nat \<Rightarrow> ss_line list \<Rightarrow> ss_spec \<Rightarrow> ss_spec" where
  "spec_run ts i [] s = s"
| "spec_run ts i (l # ls) s = spec_run ts (Suc i) ls (spec_line l (spec_turns (ts i) s))"

definition spec_start :: ss_spec where
  "spec_start = \<lparr>sp_workers = 0, sp_cursor = 0, sp_crew = crew_start\<rparr>"

section \<open>Running it\<close>

definition ss_done :: "nat \<Rightarrow> message list \<Rightarrow> worker actor_env" where
  "ss_done i ms =
     fold (effect i (\<lambda>_. ''network'') worker_spec) ms \<lparr>ae_contacts = Map.empty, ae_log = [], ae_user = ss_idle\<rparr>"

definition ss_sup_members :: "nat \<Rightarrow> nat \<Rightarrow> ptr \<Rightarrow> ss_members sup_members" where
  "ss_sup_members n cur p =
     \<lparr>so_contacts = (if n = 0 then [] else [(''bot'', map A_Mod [1..<Suc n])]), so_current = p, so_executor = Pool 100,
      so_user = \<lparr>sm_worker = ss_idle, sm_actors = [1..<Suc n], sm_supervisors = [], sm_cursor = cur\<rparr>\<rparr>"

definition ss_world_of ::
  "message heap \<Rightarrow> nat \<Rightarrow> nat list \<Rightarrow> nat \<Rightarrow> nat \<Rightarrow> ptr \<Rightarrow> (ss_class, ss_members) obj list \<Rightarrow> ss_world" where
  "ss_world_of h fr js n cur p os =
     \<lparr>w_heap = h, w_fresh = fr, w_log = [], w_objs = Sup_Obj Lite ''network'' (ss_sup_members n cur p) # os, w_jobs = js\<rparr>"

definition ss_did :: "nat \<Rightarrow> message list \<Rightarrow> (ss_class, ss_members) obj \<Rightarrow> bool" where
  "ss_did i ms b \<longleftrightarrow>
     (\<exists>a. b = Actor_Obj Worker ''bot'' a \<and> o_super a = 0 \<and> o_contacts a = ae_contacts (ss_done i ms) \<and>
        o_user a = ss_none\<lparr>sm_worker := ae_user (ss_done i ms)\<rparr>)"

text \<open>The messages there are: introductions, and tasks for handlers of the workers.\<close>

definition ss_known :: "message \<Rightarrow> bool" where
  "ss_known m \<longleftrightarrow>
     m = ss_link \<or> (\<exists>s vs. m = ss_message ''download'' (V_User 1 (V_String s # vs))) \<or>
     (\<exists>s vs. m = ss_message ''work_data'' (V_User 2 (V_String s # vs)))"

lemma ss_knownD:
  assumes "ss_known m"
  shows "m_sender m = A_Mod 0" "m_command m \<in> {''add_link'', ''download'', ''work_data''}" "fits worker_spec m"
proof -
  have "fits worker_spec (ss_message ''download'' (V_User 1 vs))" "fits worker_spec (ss_message ''work_data'' (V_User 2 vs))" for vs
    by (auto simp: ss_message_def message_eval fits_def builtin_def worker_spec_def intro!: exI [of _ "[v]" for v])
  moreover have "fits worker_spec ss_link"
    by (simp add: ss_link_def message_eval fits_def builtin_def)
  ultimately show "m_sender m = A_Mod 0" "m_command m \<in> {''add_link'', ''download'', ''work_data''}" "fits worker_spec m"
    using assms by (auto simp: ss_known_def ss_link_def ss_message_def message_eval)
qed

definition ss_state :: "ss_world \<Rightarrow> ss_spec \<Rightarrow> bool" where
  "ss_state w s \<longleftrightarrow>
     (\<exists>h fr p os X. w = ss_world_of h fr (cr_jobs (sp_crew s)) (sp_workers s) (sp_cursor s) p os \<and>
        length os = sp_workers s \<and> (if sp_workers s = 0 then sp_cursor s = 0 else sp_cursor s < sp_workers s) \<and>
        serves 100 {1..sp_workers s} X fr w (sp_crew s) \<and>
        (\<forall>i < sp_workers s. ss_did (Suc i) (lm_handled (cr_box (sp_crew s) (Suc i))) (os ! i)) \<and>
        (\<forall>i. \<forall>m \<in> set (lm_handled (cr_box (sp_crew s) i) @ lm_queue (cr_box (sp_crew s) i)). ss_known m) \<and>
        (\<forall>i > sp_workers s. cr_box (sp_crew s) i = lossy_start))"

lemma ss_start_state: "ss_state ss_start spec_start"
  by (auto simp: ss_state_def spec_start_def crew_start_def lossy_start_def ss_start_def main_new_sup_def new_sup_obj_def
      empty_world_def ss_world_of_def ss_sup_members_def ss_none_def serves_def)

lemma smart_sel:
  "pr_actor smart k dl = ss_worker" "pr_sup smart k = ss_lite" "pr_enqueue smart k = ss_enqueue_base"
  by (simp_all add: smart_def)

lemma known_effect:
  assumes "ss_known m" and "i \<noteq> 0" and "types 0 = ''network''"
  shows "effect i types worker_spec m e = effect i (\<lambda>_. ''network'') worker_spec m e"
    and "ae_log (effect i types worker_spec m e) = ae_log e"
  using ss_knownD [OF assms(1)] assms(2,3) by (auto simp: effect_def Let_def worker_spec_def)

lemma known_fold:
  assumes "\<forall>m \<in> set ms. ss_known m" and "i \<noteq> 0" and "types 0 = ''network''"
  shows "fold (effect i types worker_spec) ms e = fold (effect i (\<lambda>_. ''network'') worker_spec) ms e"
    and "ae_log (fold (effect i types worker_spec) ms e) = ae_log e"
  using assms(1) by (induction ms arbitrary: e) (simp_all add: known_effect [of _ i types, OF _ assms(2,3)] known_effect(2) [of _ i "\<lambda>_. ''network''", OF _ assms(2) refl])

lemma ss_done_log: "\<forall>m \<in> set ms. ss_known m \<Longrightarrow> i \<noteq> 0 \<Longrightarrow> ae_log (ss_done i ms) = []"
  by (simp add: ss_done_def known_fold(2))

lemma ss_turn:
  assumes "ss_state w s"
  shows "\<exists>w'. pool_turn smart f w = ok w' \<and> ss_state w' (spec_turns 1 s)"
proof -
  let ?c = "sp_crew s" and ?n = "sp_workers s"
  obtain h fr p os X where w: "w = ss_world_of h fr (cr_jobs ?c) ?n (sp_cursor s) p os"
      and l: "length os = ?n" "if ?n = 0 then sp_cursor s = 0 else sp_cursor s < ?n"
      and sv: "serves 100 {1..?n} X fr w ?c" and d: "\<forall>i < ?n. ss_did (Suc i) (lm_handled (cr_box ?c (Suc i))) (os ! i)"
      and k: "\<forall>i. \<forall>m \<in> set (lm_handled (cr_box ?c i) @ lm_queue (cr_box ?c i)). ss_known m"
      and z: "\<forall>i > ?n. cr_box ?c i = lossy_start"
    using assms unfolding ss_state_def by (elim exE conjE)
  show ?thesis
  proof (cases "cr_jobs ?c")
    case Nil
    then have "pool_turn smart f w = ok w" "spec_turns 1 s = s"
      by (simp_all add: w ss_world_of_def pool_turn_def spec_turns_def crew_turn_def)
    with assms show ?thesis by simp
  next
    case (Cons n js)
    have "n \<in> {1..?n}"
      using sv Cons by (auto simp: serves_def)
    then obtain i where i: "n = Suc i" "i < ?n"
      by (cases n) auto
    obtain a where a: "os ! i = Actor_Obj Worker ''bot'' a" "o_super a = 0" "o_contacts a = ae_contacts (ss_done n (lm_handled (cr_box ?c n)))"
        "o_user a = ss_none\<lparr>sm_worker := ae_user (ss_done n (lm_handled (cr_box ?c n)))\<rparr>"
      using d i unfolding ss_did_def by blast
    have ob: "w_objs w ! n = Actor_Obj Worker ''bot'' a" "w_log w = []" "types_of w 0 = ''network''"
      using i a(1) by (simp_all add: w ss_world_of_def types_of_def nth_default_def)
    have fit: "\<forall>m \<in> set (lm_queue (cr_box ?c n)). fits worker_spec m"
      using k ss_knownD(3) by auto
    let ?b = "lossy_turn 100 (cr_box ?c n)"
    have busy: "\<not> lm_idle (cr_box ?c n)"
      using sv Cons by (auto simp: serves_def)
    have hd: "lm_handled ?b = (if lm_stalled (cr_box ?c n) then lm_handled (cr_box ?c n)
        else lm_handled (cr_box ?c n) @ take 100 (lm_queue (cr_box ?c n)))" "lm_queue ?b = drop 100 (lm_queue (cr_box ?c n))"
      using busy by (simp_all add: lossy_turn_def)
    have known: "\<forall>m \<in> set (lm_handled ?b @ lm_queue ?b). ss_known m"
      using k unfolding hd by (auto dest: in_set_takeD in_set_dropD)
    have "ae_log (ss_done n (lm_handled (cr_box ?c n))) = []"
      using k i(1) by (intro ss_done_log) auto
    then have e: "\<lparr>ae_contacts = o_contacts a, ae_log = w_log w, ae_user = sm_worker (o_user a)\<rparr> = ss_done n (lm_handled (cr_box ?c n))"
      using actor_env_eta [of "ss_done n (lm_handled (cr_box ?c n))"] by (simp add: a(3,4) ob(2))
    have "\<forall>m \<in> set (take 100 (lm_queue (cr_box ?c n))). ss_known m"
      using k by (auto dest: in_set_takeD)
    then have r: "(if lm_stalled (cr_box ?c n) then ss_done n (lm_handled (cr_box ?c n))
        else fold (effect n (types_of w) worker_spec) (take 100 (lm_queue (cr_box ?c n))) (ss_done n (lm_handled (cr_box ?c n)))) =
        ss_done n (lm_handled ?b)"
      unfolding hd(1) ss_done_def using known_fold(1) [of "take 100 (lm_queue (cr_box ?c n))" n "types_of w"] i(1) ob(3) by simp
    have log: "ae_log (ss_done n (lm_handled ?b)) = []"
      using known i(1) by (intro ss_done_log) auto
    have sel: "pr_actor smart Worker (deliver smart f) n = ss_worker n"
      by (simp add: smart_sel)
    obtain h' a' X' where t: "pool_turn smart f w =
          ok (w\<lparr>w_heap := h', w_log := [], w_objs := (w_objs w)[n := Actor_Obj Worker ''bot'' a'], w_jobs := js\<rparr>)"
        "serves 100 {1..?n} X' fr (w\<lparr>w_heap := h', w_log := [], w_objs := (w_objs w)[n := Actor_Obj Worker ''bot'' a'], w_jobs := js\<rparr>)
          (crew_turn 100 ?c)"
        "o_super a' = o_super a" "o_user a' = ss_put (ae_user (ss_done n (lm_handled ?b))) (o_user a)"
        "o_contacts a' = ae_contacts (ss_done n (lm_handled ?b))"
      using ss_own.crew_turn_ok [OF sv Cons ob(1) _ sel fit] unfolding e r log by auto
    let ?w = "ss_world_of h' fr js ?n (sp_cursor s) p (os[i := Actor_Obj Worker ''bot'' a'])"
    have w': "w\<lparr>w_heap := h', w_log := [], w_objs := (w_objs w)[n := Actor_Obj Worker ''bot'' a'], w_jobs := js\<rparr> = ?w"
      using i(1) by (simp add: w ss_world_of_def)
    have c: "cr_jobs (crew_turn 100 ?c) = js" "cr_box (crew_turn 100 ?c) = (cr_box ?c)(n := ?b)"
      using Cons by (simp_all add: crew_turn_def)
    have "\<forall>j < ?n. ss_did (Suc j) (lm_handled (((cr_box ?c)(n := ?b)) (Suc j))) (os[i := Actor_Obj Worker ''bot'' a'] ! j)"
      using d l(1) i t(3-5) a(2,4) by (auto simp: nth_list_update ss_did_def ss_put_def)
    moreover have "\<forall>j. \<forall>m \<in> set (lm_handled (((cr_box ?c)(n := ?b)) j) @ lm_queue (((cr_box ?c)(n := ?b)) j)). ss_known m"
      using k known by auto
    ultimately have "ss_state ?w (spec_turns 1 s)"
      using t(2) l z i unfolding w' ss_state_def spec_turns_def
      by - (rule exI [of _ h'], rule exI [of _ fr], rule exI [of _ p], rule exI [of _ "os[i := Actor_Obj Worker ''bot'' a']"],
        rule exI [of _ X'], simp add: c)
    with t(1) show ?thesis
      unfolding w' by blast
  qed
qed

lemma ss_turns:
  assumes "ss_state w s"
  shows "\<exists>w'. pool_turns smart f k w = ok w' \<and> ss_state w' (spec_turns k s)"
  using assms
proof (induction k arbitrary: w s)
  case 0
  then show ?case by (simp add: spec_turns_def)
next
  case (Suc k)
  obtain w1 where w1: "pool_turn smart f w = ok w1" "ss_state w1 (spec_turns 1 s)"
    using ss_turn [OF Suc.prems] by blast
  have "spec_turns k (spec_turns 1 s) = spec_turns (Suc k) s"
    by (simp add: spec_turns_def funpow_swap1)
  with Suc.IH [OF w1(2)] w1(1) show ?case by simp
qed

section \<open>The lines of main\<close>

lemma ss_executor_of: "executor_of 0 (ss_world_of h fr js n cur p os) = ok (Pool 100)"
  by (simp add: executor_of_def ss_world_of_def ss_sup_members_def)

text \<open>Changes outside of the mailboxes, on the heap, of the supervisor, and to further modules.\<close>

lemma ss_serves:
  assumes "serves 100 {1..k} X m (ss_world_of h fr js n cur p os) c" and "agree_off B h h'" and "\<forall>i \<in> {1..k}. \<forall>x \<in> X i. Node x \<notin> B"
    and "\<forall>i \<in> {1..k}. {Head_S i, Sep_S i, Tail_S i} \<inter> B = {}" and "m \<le> m'" and "k \<le> length os"
    and "\<And>i. i < k \<Longrightarrow> os' ! i = os ! i \<and> (\<exists>ms. ss_did (Suc i) ms (os ! i))" and "length os \<le> length os'"
  shows "serves 100 {1..k} X m' (ss_world_of h' fr' js n' cur' p' os') c"
proof (rule serves_frame [OF assms(1)])
  show "agree_off B (w_heap (ss_world_of h fr js n cur p os)) (w_heap (ss_world_of h' fr' js n' cur' p' os'))"
    using assms(2) by (simp add: ss_world_of_def)
  show "w_jobs (ss_world_of h' fr' js n' cur' p' os') = w_jobs (ss_world_of h fr js n cur p os)"
    by (simp add: ss_world_of_def)
  fix i k' t a
  assume i: "i \<in> {1..k}" "w_objs (ss_world_of h fr js n cur p os) ! i = Actor_Obj k' t a"
  then obtain j where j: "i = Suc j" "j < k" "os ! j = Actor_Obj k' t a"
    by (cases i) (auto simp: ss_world_of_def)
  then have "o_super a = 0" "os' ! j = os ! j"
    using assms(7) [of j] by (auto simp: ss_did_def)
  moreover have ob: "i < length (w_objs (ss_world_of h' fr' js n' cur' p' os'))"
      "w_objs (ss_world_of h' fr' js n' cur' p' os') ! i = os' ! j"
    using j assms(6,8) by (simp_all add: ss_world_of_def)
  ultimately show "i < length (w_objs (ss_world_of h' fr' js n' cur' p' os')) \<and>
      (\<exists>a'. w_objs (ss_world_of h' fr' js n' cur' p' os') ! i = Actor_Obj k' t a' \<and> o_mbox a' = o_mbox a \<and> o_flags a' = o_flags a \<and>
        executor_of (o_super a') (ss_world_of h' fr' js n' cur' p' os') = executor_of (o_super a) (ss_world_of h fr js n cur p os))"
    using j(3) by (simp add: ss_executor_of)
qed (use assms(3-5) in auto)

text \<open>One message to one worker, however it comes about.\<close>

lemma ss_delivered:
  assumes s: "serves 100 {1..n} X m (ss_world_of h fr js n cur p os) c" and i: "i \<in> {1..n}" "length os = n"
    and d: "\<forall>j < n. ss_did (Suc j) (hs j) (os ! j)" and x: "m \<le> x" "cell h (Node x) = Some msg"
  shows "\<exists>h' os'. deliver smart (Suc f) i (Node x) (ss_world_of h fr js n cur p os) =
      ok (ss_world_of h' fr (cr_jobs (crew_send i msg c)) n cur p os') \<and>
    serves 100 {1..n} (X(i := insert x (X i))) (Suc x) (ss_world_of h' fr (cr_jobs (crew_send i msg c)) n cur p os') (crew_send i msg c) \<and>
    cell h' = cell h \<and> length os' = n \<and> (\<forall>j < n. ss_did (Suc j) (hs j) (os' ! j))"
proof -
  let ?w = "ss_world_of h fr js n cur p os"
  obtain j where j: "i = Suc j" "j < n"
    using i(1) by (cases i) auto
  obtain a where a: "os ! j = Actor_Obj Worker ''bot'' a" "o_super a = 0" "o_contacts a = ae_contacts (ss_done i (hs j))"
      "o_user a = ss_none\<lparr>sm_worker := ae_user (ss_done i (hs j))\<rparr>"
    using d j unfolding ss_did_def by blast
  have ob: "w_objs ?w ! i = Actor_Obj Worker ''bot'' a" "live (w_heap ?w) (Node x)" "the (cell (w_heap ?w) (Node x)) = msg"
    using j a(1) x(2) by (simp_all add: ss_world_of_def live_def)
  from crew_deliver [OF s i(1) ob(1) x(1) ob(2), of smart f] obtain h' q r dv where e:
      "deliver smart (Suc f) i (Node x) ?w = ok (?w\<lparr>w_heap := h',
          w_objs := (w_objs ?w)[i := Actor_Obj Worker ''bot'' (a\<lparr>o_mbox := q, o_flags := St_Busy, o_device := dv, o_rc := r\<rparr>)],
          w_jobs := cr_jobs (crew_send i msg c)\<rparr>)"
      "serves 100 {1..n} (X(i := insert x (X i))) (Suc x) (?w\<lparr>w_heap := h',
          w_objs := (w_objs ?w)[i := Actor_Obj Worker ''bot'' (a\<lparr>o_mbox := q, o_flags := St_Busy, o_device := dv, o_rc := r\<rparr>)],
          w_jobs := cr_jobs (crew_send i msg c)\<rparr>) (crew_send i msg c)" "cell h' = cell (w_heap ?w)"
    unfolding ob(3) by blast
  let ?os = "os[j := Actor_Obj Worker ''bot'' (a\<lparr>o_mbox := q, o_flags := St_Busy, o_device := dv, o_rc := r\<rparr>)]"
  have w: "?w\<lparr>w_heap := h',
      w_objs := (w_objs ?w)[i := Actor_Obj Worker ''bot'' (a\<lparr>o_mbox := q, o_flags := St_Busy, o_device := dv, o_rc := r\<rparr>)],
      w_jobs := cr_jobs (crew_send i msg c)\<rparr> = ss_world_of h' fr (cr_jobs (crew_send i msg c)) n cur p ?os"
    using j by (simp add: ss_world_of_def)
  have "\<forall>l < n. ss_did (Suc l) (hs l) (?os ! l)"
    using d j i(2) a(2-4) by (auto simp: nth_list_update ss_did_def)
  then show ?thesis
    using e i(2) unfolding w
    by - (rule exI [of _ h'], rule exI [of _ ?os], simp add: ss_world_of_def)
qed

lemma ss_task_steps:
  assumes "0 < n" and "c \<notin> smart_system"
  shows "ss_make_task (deliver smart (Suc (Suc f))) c v (ss_world_of h fr js n cur p os) =
    and_then (deliver smart (Suc f) ([1..<Suc n] ! cur) (Node fr)
        (ss_world_of (new_node h fr (ss_message c v)) (Suc fr) js n cur p os)) (\<lambda>w.
    and_then (sup_again 0 w) (\<lambda>s. ok (put_sup 0 (ss_next s))))"
  using assms unfolding ss_make_task_def
  by (simp add: ss_world_of_def ss_sup_members_def ss_message_def smart_sel ss_enqueue_base_def ss_redirect_robin_def heap_eval
      message_eval sup_eval world_eval Let_def and_then_assoc del: upt_Suc cong del: and_then_weak_cong)

lemma ss_next_steps:
  assumes "cur < n"
  shows "and_then (sup_again 0 (ss_world_of h fr js n cur p os)) (\<lambda>s. ok (put_sup 0 (ss_next s))) =
    ok (ss_world_of h fr js n (Suc cur mod n) p os)"
proof -
  have "n \<le> Suc cur \<Longrightarrow> Suc cur mod n = 0"
    using assms by (metis Suc_leI le_antisym mod_self)
  with assms show ?thesis
    by (simp add: ss_world_of_def ss_sup_members_def sup_again_def get_sup_def put_sup_def ss_next_def Let_def del: upt_Suc)
qed

lemma ss_task_nobody:
  assumes "c \<notin> smart_system"
  shows "ss_make_task (deliver smart (Suc (Suc f))) c v (ss_world_of h fr js 0 cur p os) =
    ok (ss_world_of ((new_node h fr (ss_message c v))\<lparr>cell := (cell h)(Node fr := None)\<rparr>) (Suc fr) js 0 cur p os)"
  using assms unfolding ss_make_task_def
  by (simp add: ss_world_of_def ss_sup_members_def ss_message_def smart_sel ss_enqueue_base_def ss_redirect_robin_def
      delete_message_def heap_eval message_eval sup_eval world_eval Let_def and_then_assoc del: upt_Suc cong del: and_then_weak_cong)

text \<open>A worker just constructed, with the reference of \<open>actors_\<close>, and the heap when it is sent its introduction.\<close>

definition ss_new :: "nat \<Rightarrow> (ss_class, ss_members) obj" where
  "ss_new n = Actor_Obj Worker ''bot''
     (actor_members_of 0 ss_none (coop_ctor (Suc n) message_default empty_heap ())\<lparr>o_rc := 2\<rparr>)"

definition ss_create_message :: message where
  "ss_create_message = make_message addr_empty ''create'' []"

definition ss_creating :: "message heap \<Rightarrow> nat \<Rightarrow> nat \<Rightarrow> message heap" where
  "ss_creating h fr n = new_node (pl_ctor (Suc n) message_default (new_node h fr ss_create_message)) (Suc fr) ss_link"

lemma ss_create_steps:
  assumes l: "length os = n"
    and dl: "deliver smart g (Suc n) (Node (Suc fr))
        (ss_world_of (ss_creating h fr n) (Suc (Suc fr)) js (Suc n) cur (Node fr) (os @ [ss_new n])) =
      ok (ss_world_of h' fr' js' (Suc n) cur (Node fr) os')"
    and c: "cell h' (Node fr) = Some ss_create_message"
  shows "ss_call (deliver smart (Suc g)) Create (ss_world_of h fr js n cur p os) =
    ok (ss_world_of h' fr' js' (Suc n) cur (Node fr) os')"
proof -
  have u: "[Suc 0..<Suc n] @ [Suc n] = [Suc 0..<Suc (Suc n)]" "map A_Mod [Suc 0..<Suc n] @ [A_Mod (Suc n)] = map A_Mod [Suc 0..<Suc (Suc n)]"
    by simp_all
  have cr: "''create'' \<in> smart_system"
    by (simp add: smart_system_def)
  note ev = ss_world_of_def ss_sup_members_def ss_creating_def ss_link_def ss_create_message_def ss_new_def smart_sel
    ss_enqueue_base_def ss_local_def ss_lite_def ss_create_def ss_add_actor_def cr heap_eval message_eval module_eval sup_eval
    world_eval coop_ctor_eval nth_append list_update_append ss_none_def ss_idle_def
  show ?thesis
  proof (cases n)
    case 0
    with l have "os = []" by simp
    with 0 dl c show ?thesis
      by (simp add: ev Let_def and_then_assoc cong del: and_then_weak_cong)
  next
    case (Suc k)
    with l dl c u show ?thesis
      by (simp add: ev Let_def and_then_assoc del: upt_Suc cong del: and_then_weak_cong)
  qed
qed

text \<open>Messages are known and only workers have mailboxes.\<close>

definition ss_crew :: "nat \<Rightarrow> crew \<Rightarrow> bool" where
  "ss_crew n c \<longleftrightarrow>
     (\<forall>i. \<forall>m \<in> set (lm_handled (cr_box c i) @ lm_queue (cr_box c i)). ss_known m) \<and> (\<forall>i > n. cr_box c i = lossy_start)"

definition ss_hands :: "nat \<Rightarrow> crew \<Rightarrow> (ss_class, ss_members) obj list \<Rightarrow> bool" where
  "ss_hands n c os \<longleftrightarrow> length os = n \<and> (\<forall>j < n. ss_did (Suc j) (lm_handled (cr_box c (Suc j))) (os ! j))"

lemma ss_state_iff:
  "ss_state w s \<longleftrightarrow>
     (\<exists>h fr p os X. w = ss_world_of h fr (cr_jobs (sp_crew s)) (sp_workers s) (sp_cursor s) p os \<and>
        (if sp_workers s = 0 then sp_cursor s = 0 else sp_cursor s < sp_workers s) \<and>
        serves 100 {1..sp_workers s} X fr w (sp_crew s) \<and> ss_hands (sp_workers s) (sp_crew s) os \<and>
        ss_crew (sp_workers s) (sp_crew s))"
  unfolding ss_state_def ss_crew_def ss_hands_def by blast

lemma ss_crew_send: "ss_crew n c \<Longrightarrow> ss_known m \<Longrightarrow> i \<le> n \<Longrightarrow> ss_crew n (crew_send i m c)"
  by (auto simp: ss_crew_def crew_send_box lossy_send_def)

lemma ss_hands_send: "ss_hands n (crew_send i m c) os = ss_hands n c os"
  by (simp add: ss_hands_def crew_send_handled)

lemma ss_hands_did: "ss_hands n c os \<Longrightarrow> \<forall>j < n. ss_did (Suc j) (lm_handled (cr_box c (Suc j))) (os ! j)"
  by (simp add: ss_hands_def)

lemma ss_workers_upt: "j < n \<Longrightarrow> [1..<Suc n] ! j = Suc j"
  by (simp del: upt_Suc)

text \<open>\<open>ss_delivered\<close> with the state kept.\<close>

lemma ss_sent:
  assumes s: "serves 100 {1..n} X m (ss_world_of h fr (cr_jobs c) n cur p os) c" and i: "i \<in> {1..n}"
    and o: "ss_hands n c os" and x: "m \<le> x" "cell h (Node x) = Some msg"
  shows "\<exists>h' os'. deliver smart (Suc f) i (Node x) (ss_world_of h fr (cr_jobs c) n cur p os) =
      ok (ss_world_of h' fr (cr_jobs (crew_send i msg c)) n cur p os') \<and>
    serves 100 {1..n} (X(i := insert x (X i))) (Suc x) (ss_world_of h' fr (cr_jobs (crew_send i msg c)) n cur p os')
      (crew_send i msg c) \<and>
    cell h' = cell h \<and> ss_hands n (crew_send i msg c) os'"
  using ss_delivered [OF s i _ ss_hands_did [OF o] x, of f] o unfolding ss_hands_send unfolding ss_hands_def by blast

lemma ss_hands_exist: "ss_hands n c os \<Longrightarrow> i < n \<Longrightarrow> \<exists>ms. ss_did (Suc i) ms (os ! i)"
  by (auto simp: ss_hands_def)

text \<open>\<open>make_task\<close>.\<close>

lemma ss_task_line:
  assumes st: "ss_state w s" and c: "c \<notin> smart_system" "ss_known (ss_message c v)"
  shows "\<exists>w'. ss_call (deliver smart (Suc (Suc f))) (Task c v) w = ok w' \<and> ss_state w' (spec_line (Task c v) s)"
proof -
  let ?c = "sp_crew s" and ?n = "sp_workers s" and ?m = "ss_message c v"
  obtain h fr p os X where w: "w = ss_world_of h fr (cr_jobs ?c) ?n (sp_cursor s) p os"
      and cu: "if ?n = 0 then sp_cursor s = 0 else sp_cursor s < ?n" and sv: "serves 100 {1..?n} X fr w ?c"
      and o: "ss_hands ?n ?c os" and k: "ss_crew ?n ?c"
    using st unfolding ss_state_iff by blast
  show ?thesis
  proof (cases "?n = 0")
    case True
    let ?w = "ss_world_of ((new_node h fr ?m)\<lparr>cell := (cell h)(Node fr := None)\<rparr>) (Suc fr) (cr_jobs ?c) ?n (sp_cursor s) p os"
    have "serves 100 {1..?n} X fr ?w ?c"
      using sv True by (simp add: w serves_def ss_world_of_def)
    then have "ss_state ?w s"
      unfolding ss_state_iff using cu o k True by (auto simp: serves_def ss_world_of_def)
    then show ?thesis
      using ss_task_nobody [OF c(1)] True by (simp add: w)
  next
    case False
    with cu have cu: "sp_cursor s < ?n" by simp
    let ?h = "new_node h fr ?m"
    have "agree_off {Node fr} h ?h"
      by (simp add: agree_off_def new_node_def)
    moreover have "\<forall>i \<in> {1..?n}. \<forall>x \<in> X i. Node x \<notin> {Node fr}"
      using serves_old [OF sv] by blast
    ultimately have sv1: "serves 100 {1..?n} X fr (ss_world_of ?h (Suc fr) (cr_jobs ?c) ?n (sp_cursor s) p os) ?c"
      using o ss_hands_exist [OF o] by (intro ss_serves [OF sv [unfolded w]]) (auto simp: ss_hands_def)
    let ?i = "Suc (sp_cursor s)"
    have "?i \<in> {1..?n}" using cu by simp
    from ss_sent [OF sv1 this o order_refl, of ?m f] obtain h' os' where d:
        "deliver smart (Suc f) ?i (Node fr) (ss_world_of ?h (Suc fr) (cr_jobs ?c) ?n (sp_cursor s) p os) =
          ok (ss_world_of h' (Suc fr) (cr_jobs (crew_send ?i ?m ?c)) ?n (sp_cursor s) p os')"
        "serves 100 {1..?n} (X(?i := insert fr (X ?i))) (Suc fr)
          (ss_world_of h' (Suc fr) (cr_jobs (crew_send ?i ?m ?c)) ?n (sp_cursor s) p os') (crew_send ?i ?m ?c)"
        "ss_hands ?n (crew_send ?i ?m ?c) os'"
      by (auto simp: new_node_def)
    let ?w = "ss_world_of h' (Suc fr) (cr_jobs (crew_send ?i ?m ?c)) ?n (?i mod ?n) p os'"
    have "ss_call (deliver smart (Suc (Suc f))) (Task c v) w = ok ?w"
      using False c(1) d(1) cu
      by (simp add: w ss_task_steps ss_next_steps ss_workers_upt del: upt_Suc)
    moreover have "serves 100 {1..?n} (X(?i := insert fr (X ?i))) (Suc fr) ?w (crew_send ?i ?m ?c)"
      using d(3) ss_hands_exist [OF d(3)] by (intro ss_serves [OF d(2), of "{}"]) (auto simp: ss_hands_def)
    then have "ss_state ?w (spec_line (Task c v) s)"
      unfolding ss_state_iff using False d(3) ss_crew_send [OF k c(2)] cu
      by - (rule exI [of _ h'], rule exI [of _ "Suc fr"], rule exI [of _ p], rule exI [of _ os'],
        rule exI [of _ "X(?i := insert fr (X ?i))"], simp)
    ultimately show ?thesis by blast
  qed
qed

lemma ss_creating_frame:
  "agree_off {Node fr, Node (Suc fr), Head_S (Suc n), Sep_S (Suc n), Tail_S (Suc n)} h (ss_creating h fr n)"
  by (simp add: agree_off_def ss_creating_def new_node_def pl_ctor_def)

lemma ss_creating_cells:
  "cell (ss_creating h fr n) (Node fr) = Some ss_create_message" "cell (ss_creating h fr n) (Node (Suc fr)) = Some ss_link"
  by (simp_all add: ss_creating_def new_node_def pl_ctor_def)

lemma ss_new_box:
  "\<exists>a. ss_new n = Actor_Obj Worker ''bot'' a \<and> o_super a = 0 \<and> in_box (ss_creating h fr n) m (Suc n) a lossy_start {}"
proof -
  let ?a = "actor_members_of 0 ss_none (coop_ctor (Suc n) message_default empty_heap ())"
  let ?d = "coop_ctor (Suc n) message_default (new_node h fr ss_create_message) ()"
  have b: "in_box (pl_ctor (Suc n) message_default (new_node h fr ss_create_message)) m (Suc n) (actor_members_of 0 ss_none ?d) lossy_start {}"
    by (rule in_box_new)
  have "agree_off {Node (Suc fr)} (pl_ctor (Suc n) message_default (new_node h fr ss_create_message)) (ss_creating h fr n)"
    by (simp add: agree_off_def ss_creating_def new_node_def)
  from in_box_frame [OF b this _ order_refl, of "?a\<lparr>o_rc := 2\<rparr>"] have "in_box (ss_creating h fr n) m (Suc n) (?a\<lparr>o_rc := 2\<rparr>) lossy_start {}"
    by (simp add: plist_foot_def actor_members_of_def coop_ctor_eval)
  moreover have "o_super ?a = 0"
    by (simp add: actor_members_of_def)
  ultimately show ?thesis
    by (simp add: ss_new_def)
qed

lemma ss_new_did: "ss_did (Suc n) [] (ss_new n)"
  by (simp add: ss_did_def ss_new_def ss_done_def ss_none_def ss_idle_def actor_members_of_def coop_ctor_eval)

lemma ss_create_line:
  assumes st: "ss_state w s"
  shows "\<exists>w'. ss_call (deliver smart (Suc (Suc f))) Create w = ok w' \<and> ss_state w' (spec_line Create s)"
proof -
  let ?c = "sp_crew s" and ?n = "sp_workers s"
  obtain h fr p os X where w: "w = ss_world_of h fr (cr_jobs ?c) ?n (sp_cursor s) p os"
      and cu: "if ?n = 0 then sp_cursor s = 0 else sp_cursor s < ?n" and sv: "serves 100 {1..?n} X fr w ?c"
      and o: "ss_hands ?n ?c os" and k: "ss_crew ?n ?c"
    using st unfolding ss_state_iff by blast
  let ?h = "ss_creating h fr ?n" and ?os = "os @ [ss_new ?n]"
  let ?w = "ss_world_of ?h (Suc (Suc fr)) (cr_jobs ?c) (Suc ?n) (sp_cursor s) (Node fr) ?os"
  have idle: "cr_box ?c (Suc ?n) = lossy_start"
    using k by (simp add: ss_crew_def)
  have l: "length os = ?n"
    using o by (simp add: ss_hands_def)
  have "\<forall>i \<in> {1..?n}. \<forall>x \<in> X i. Node x \<notin> {Node fr, Node (Suc fr), Head_S (Suc ?n), Sep_S (Suc ?n), Tail_S (Suc ?n)}"
    using serves_old [OF sv] by fastforce
  then have sv1: "serves 100 {1..?n} X fr ?w ?c"
    using ss_hands_exist [OF o] l by (intro ss_serves [OF sv [unfolded w] ss_creating_frame]) (auto simp: nth_append)
  obtain a where a: "ss_new ?n = Actor_Obj Worker ''bot'' a" "o_super a = 0" "in_box ?h fr (Suc ?n) a lossy_start {}"
    using ss_new_box by blast
  have "insert (Suc ?n) {1..?n} = {1..Suc ?n}"
    by auto
  moreover have "serves 100 (insert (Suc ?n) {1..?n}) (X(Suc ?n := {})) fr ?w ?c"
  proof (rule serves_new [OF sv1])
    show "w_objs ?w ! Suc ?n = Actor_Obj Worker ''bot'' a"
      using a(1) l by (simp add: ss_world_of_def nth_append)
    show "executor_of (o_super a) ?w = ok (Pool 100)"
      by (simp add: a(2) ss_executor_of)
  qed (use a(3) l idle in \<open>simp_all add: ss_world_of_def lossy_start_def\<close>)
  ultimately have sv2: "serves 100 {1..Suc ?n} (X(Suc ?n := {})) fr ?w ?c"
    by simp
  have o2: "ss_hands (Suc ?n) ?c ?os"
    using o ss_new_did idle by (auto simp: ss_hands_def nth_append less_Suc_eq lossy_start_def)
  have "Suc ?n \<in> {1..Suc ?n}" "fr \<le> Suc fr" by auto
  from ss_sent [OF sv2 this(1) o2 this(2) ss_creating_cells(2), of f] obtain h' os' where d:
      "deliver smart (Suc f) (Suc ?n) (Node (Suc fr)) ?w =
        ok (ss_world_of h' (Suc (Suc fr)) (cr_jobs (crew_send (Suc ?n) ss_link ?c)) (Suc ?n) (sp_cursor s) (Node fr) os')"
      "serves 100 {1..Suc ?n} (X(Suc ?n := insert (Suc fr) {})) (Suc (Suc fr))
        (ss_world_of h' (Suc (Suc fr)) (cr_jobs (crew_send (Suc ?n) ss_link ?c)) (Suc ?n) (sp_cursor s) (Node fr) os')
        (crew_send (Suc ?n) ss_link ?c)"
      "cell h' = cell ?h" "ss_hands (Suc ?n) (crew_send (Suc ?n) ss_link ?c) os'"
    by auto
  let ?w' = "ss_world_of h' (Suc (Suc fr)) (cr_jobs (crew_send (Suc ?n) ss_link ?c)) (Suc ?n) (sp_cursor s) (Node fr) os'"
  have "ss_call (deliver smart (Suc (Suc f))) Create w = ok ?w'"
    unfolding w by (rule ss_create_steps [OF l d(1)]) (simp add: d(3) ss_creating_cells)
  moreover have "ss_known ss_link"
    by (simp add: ss_known_def)
  then have "ss_crew (Suc ?n) (crew_send (Suc ?n) ss_link ?c)"
    using k by (intro ss_crew_send) (auto simp: ss_crew_def)
  then have "ss_state ?w' (spec_line Create s)"
    unfolding ss_state_iff using d(2,4) cu
    by - (rule exI [of _ h'], rule exI [of _ "Suc (Suc fr)"], rule exI [of _ "Node fr"], rule exI [of _ os'],
      rule exI [of _ "X(Suc ?n := {Suc fr})"], simp split: if_splits)
  ultimately show ?thesis by blast
qed

text \<open>\<open>make_task_broadcast\<close>: the supervisor as it walks through its contacts, with the message at \<open>q\<close>.\<close>

definition ss_view ::
  "message heap \<Rightarrow> nat \<Rightarrow> nat list \<Rightarrow> nat \<Rightarrow> nat \<Rightarrow> ptr \<Rightarrow> (ss_class, ss_members) obj list \<Rightarrow> ss_sup" where
  "ss_view h fr js n cur p os = get_sup (ss_sup_members n cur p) (ss_world_of h fr js n cur p os)"

lemma ss_view_simps:
  "sup_again 0 (ss_world_of h fr js n cur p os) = ok (ss_view h fr js n cur p os)"
  "put_sup 0 (ss_view h fr js n cur p os) = ss_world_of h fr js n cur p os"
  "(ss_view h fr js n cur p os)\<lparr>v_fresh := fr'\<rparr> = ss_view h fr' js n cur p os"
  "(ss_view h fr js n cur p os)\<lparr>v_heap := h'\<rparr> = ss_view h' fr js n cur p os"
  "v_heap (ss_view h fr js n cur p os) = h" "v_fresh (ss_view h fr js n cur p os) = fr"
  "v_contacts (ss_view h fr js n cur p os) = (if n = 0 then [] else [(''bot'', map A_Mod [1..<Suc n])])"
  by (simp_all add: ss_view_def ss_world_of_def ss_sup_members_def sup_again_def get_sup_def put_sup_def del: upt_Suc)

lemma ss_message_clone: "msg_clone (ss_message c v) = ss_message c v"
  by (simp add: ss_message_def message_eval)

lemma ss_broadcast_list:
  assumes "serves 100 {1..n} X fr (ss_world_of h fr (cr_jobs c) n cur p os) c" and "ss_hands n c os"
    and "cell h (Node q) = Some (ss_message cm v)" and "q < fr" and "\<forall>i \<in> {1..n}. q \<notin> X i" and "set is \<subseteq> {1..n}"
  shows "\<exists>h' fr' os' X'. broadcast_list (from_sup (deliver smart (Suc f)) 0) (Node q) (map A_Mod is)
        (ss_view h fr (cr_jobs c) n cur p os) =
      ok (ss_view h' fr' (cr_jobs (fold (\<lambda>i. crew_send i (ss_message cm v)) is c)) n cur p os') \<and>
    serves 100 {1..n} X' fr' (ss_world_of h' fr' (cr_jobs (fold (\<lambda>i. crew_send i (ss_message cm v)) is c)) n cur p os')
      (fold (\<lambda>i. crew_send i (ss_message cm v)) is c) \<and>
    ss_hands n (fold (\<lambda>i. crew_send i (ss_message cm v)) is c) os' \<and> cell h' (Node q) = Some (ss_message cm v) \<and>
    (\<forall>i \<in> {1..n}. q \<notin> X' i)"
  using assms
proof (induction "is" arbitrary: X fr h c os)
  case Nil
  then show ?case
    by - (rule exI [of _ h], rule exI [of _ fr], rule exI [of _ os], rule exI [of _ X], simp)
next
  case (Cons i "is")
  let ?m = "ss_message cm v"
  let ?h = "new_node h fr ?m"
  have "\<forall>i \<in> {1..n}. \<forall>x \<in> X i. Node x \<notin> {Node fr}"
    using serves_old [OF Cons.prems(1)] by blast
  moreover have "agree_off {Node fr} h ?h"
    by (simp add: agree_off_def new_node_def)
  ultimately have "serves 100 {1..n} X fr (ss_world_of ?h (Suc fr) (cr_jobs c) n cur p os) c"
    using Cons.prems(2) ss_hands_exist [OF Cons.prems(2)]
    by (intro ss_serves [OF Cons.prems(1)]) (auto simp: ss_hands_def)
  moreover have i: "i \<in> {1..n}"
    using Cons.prems(6) by simp
  ultimately obtain h1 os1 where d:
      "deliver smart (Suc f) i (Node fr) (ss_world_of ?h (Suc fr) (cr_jobs c) n cur p os) =
        ok (ss_world_of h1 (Suc fr) (cr_jobs (crew_send i ?m c)) n cur p os1)"
      "serves 100 {1..n} (X(i := insert fr (X i))) (Suc fr)
        (ss_world_of h1 (Suc fr) (cr_jobs (crew_send i ?m c)) n cur p os1) (crew_send i ?m c)"
      "cell h1 = cell ?h" "ss_hands n (crew_send i ?m c) os1"
    using ss_sent [of n X fr ?h "Suc fr" c cur p os i fr ?m f] Cons.prems(2) by (auto simp: new_node_def)
  have "broadcast_list (from_sup (deliver smart (Suc f)) 0) (Node q) (map A_Mod (i # is)) (ss_view h fr (cr_jobs c) n cur p os) =
      broadcast_list (from_sup (deliver smart (Suc f)) 0) (Node q) (map A_Mod is)
        (ss_view h1 (Suc fr) (cr_jobs (crew_send i ?m c)) n cur p os1)"
    using Cons.prems(3) d(1)
    by (simp add: ss_view_simps ss_message_clone get_value_def live_def addr_enqueue_def from_sup_def Let_def del: deliver.simps)
  moreover have "cell h1 (Node q) = Some ?m" "q < Suc fr" "\<forall>j \<in> {1..n}. q \<notin> (X(i := insert fr (X i))) j"
    using Cons.prems(3-5) by (simp_all add: d(3) new_node_def)
  ultimately show ?case
    using Cons.IH [OF d(2,4)] Cons.prems(6) by (simp del: deliver.simps broadcast_list.simps fun_upd_apply)
qed

lemma ss_crew_fold:
  "ss_crew n c \<Longrightarrow> ss_known m \<Longrightarrow> set is \<subseteq> {1..n} \<Longrightarrow> ss_crew n (fold (\<lambda>i. crew_send i m) is c)"
  by (induction "is" arbitrary: c) (simp_all add: ss_crew_send)

lemma ss_broadcast_line:
  assumes st: "ss_state w s" and c: "ss_known (ss_message c v)"
  shows "\<exists>w'. ss_call (deliver smart (Suc f)) (Task_Broadcast c v) w = ok w' \<and> ss_state w' (spec_line (Task_Broadcast c v) s)"
proof -
  let ?c = "sp_crew s" and ?n = "sp_workers s" and ?m = "ss_message c v"
  obtain h fr p os X where w: "w = ss_world_of h fr (cr_jobs ?c) ?n (sp_cursor s) p os"
      and cu: "if ?n = 0 then sp_cursor s = 0 else sp_cursor s < ?n" and sv: "serves 100 {1..?n} X fr w ?c"
      and o: "ss_hands ?n ?c os" and k: "ss_crew ?n ?c"
    using st unfolding ss_state_iff by blast
  let ?h = "new_node h fr ?m" and ?is = "[1..<Suc ?n]"
  let ?f = "fold (\<lambda>i. crew_send i ?m) ?is ?c"
  have q: "\<forall>i \<in> {1..?n}. fr \<notin> X i"
    using serves_old [OF sv] by blast
  moreover have "agree_off {Node fr} h ?h"
    by (simp add: agree_off_def new_node_def)
  ultimately have "serves 100 {1..?n} X (Suc fr) (ss_world_of ?h (Suc fr) (cr_jobs ?c) ?n (sp_cursor s) p os) ?c"
    using o ss_hands_exist [OF o] by (intro ss_serves [OF sv [unfolded w]]) (auto simp: ss_hands_def)
  moreover have "cell ?h (Node fr) = Some ?m" "set ?is \<subseteq> {1..?n}"
    by (auto simp: new_node_def)
  ultimately obtain h' fr' os' X' where b:
      "broadcast_list (from_sup (deliver smart (Suc f)) 0) (Node fr) (map A_Mod ?is)
          (ss_view ?h (Suc fr) (cr_jobs ?c) ?n (sp_cursor s) p os) =
        ok (ss_view h' fr' (cr_jobs ?f) ?n (sp_cursor s) p os')"
      "serves 100 {1..?n} X' fr' (ss_world_of h' fr' (cr_jobs ?f) ?n (sp_cursor s) p os') ?f"
      "ss_hands ?n ?f os'" "cell h' (Node fr) = Some ?m" "\<forall>i \<in> {1..?n}. fr \<notin> X' i"
    using ss_broadcast_list [of ?n X "Suc fr" ?h ?c "sp_cursor s" p os fr c v ?is f] o q by blast
  let ?h' = "h'\<lparr>cell := (cell h')(Node fr := None)\<rparr>"
  let ?w = "ss_world_of ?h' fr' (cr_jobs ?f) ?n (sp_cursor s) p os'"
  have "broadcast (from_sup (deliver smart (Suc f)) 0) (Node fr) (ss_view ?h (Suc fr) (cr_jobs ?c) ?n (sp_cursor s) p os) =
      ok (ss_view ?h' fr' (cr_jobs ?f) ?n (sp_cursor s) p os')"
    using b(1,4) by (cases "?n = 0") (simp_all add: broadcast_def ss_view_simps delete_message_def delete_node_def live_def del: upt_Suc)
  moreover have "main_new (A_Mod 0) c [v] w = (Node fr, ss_world_of ?h (Suc fr) (cr_jobs ?c) ?n (sp_cursor s) p os)"
    by (simp add: w main_new_def make_message_ptr_def ss_world_of_def ss_message_def)
  ultimately have "ss_call (deliver smart (Suc f)) (Task_Broadcast c v) w = ok ?w"
    by (simp add: ss_make_task_broadcast_def sup_address_def message_eval ss_view_simps del: upt_Suc deliver.simps)
  moreover have "agree_off {Node fr} h' ?h'"
    by (simp add: agree_off_def)
  then have "serves 100 {1..?n} X' fr' ?w ?f"
    using b(3,5) ss_hands_exist [OF b(3)] by (intro ss_serves [OF b(2)]) (auto simp: ss_hands_def)
  then have "ss_state ?w (spec_line (Task_Broadcast c v) s)"
    unfolding ss_state_iff using b(3) cu ss_crew_fold [OF k c]
    by - (rule exI [of _ ?h'], rule exI [of _ fr'], rule exI [of _ p], rule exI [of _ os'], rule exI [of _ X'],
      simp add: atLeastLessThanSuc_atLeastAtMost del: upt_Suc)
  ultimately show ?thesis by blast
qed

section \<open>The whole run\<close>

fun ss_line_ok :: "ss_line \<Rightarrow> bool" where
  "ss_line_ok Create = True"
| "ss_line_ok (Task c v) = (c \<notin> smart_system \<and> ss_known (ss_message c v))"
| "ss_line_ok (Task_Broadcast c v) = ss_known (ss_message c v)"

lemma ss_lines_ok: "\<forall>l \<in> set (ss_lines actors task). ss_line_ok l"
proof -
  have "ss_known (ss_message ''download'' (download_data ''fb'' ''jack'' ''1''))"
    "ss_known (ss_message ''work_data'' (work_data ''fb'' ''jack''))"
    by (auto simp: ss_known_def download_data_def work_data_def)
  then show ?thesis
    by (auto simp: ss_lines_def smart_system_def)
qed

lemma ss_line_step:
  assumes "ss_state w s" and "ss_line_ok l"
  shows "\<exists>w'. ss_call (deliver smart (Suc (Suc f))) l w = ok w' \<and> ss_state w' (spec_line l s)"
proof (cases l)
  case Create
  with ss_create_line [OF assms(1)] show ?thesis by simp
next
  case (Task c v)
  with ss_task_line [OF assms(1)] assms(2) show ?thesis by simp
next
  case (Task_Broadcast c v)
  with ss_broadcast_line [OF assms(1), of c v "Suc f"] assms(2) show ?thesis by simp
qed

lemma ss_run_refines:
  assumes "ss_state w s" and "\<forall>l \<in> set ls. ss_line_ok l"
  shows "\<exists>w'. ss_run (Suc (Suc f)) ts i ls w = ok w' \<and> ss_state w' (spec_run ts i ls s)"
  using assms
proof (induction ls arbitrary: w s i)
  case Nil
  then show ?case by simp
next
  case (Cons l ls)
  obtain w1 where w1: "pool_turns smart (Suc (Suc f)) (ts i) w = ok w1" "ss_state w1 (spec_turns (ts i) s)"
    using ss_turns [OF Cons.prems(1)] by blast
  obtain w2 where w2: "ss_call (deliver smart (Suc (Suc f))) l w1 = ok w2" "ss_state w2 (spec_line l (spec_turns (ts i) s))"
    using ss_line_step [OF w1(2), of l f] Cons.prems(2) by auto
  obtain w3 where "ss_run (Suc (Suc f)) ts (Suc i) ls w2 = ok w3"
      "ss_state w3 (spec_run ts (Suc i) ls (spec_line l (spec_turns (ts i) s)))"
    using Cons.IH [OF w2(2)] Cons.prems(2) by auto
  with w1(1) w2(1) show ?case by simp
qed

text \<open>
  C12. As long as no job of the pool overlaps a line of \<open>main\<close> (any number of jobs, each run to its end, between any
  two lines and during the sleep), the program \<open>smart-send\<close> gets to its sleep and through it without an error, and
  its world is then that of the abstract crew: the supervisor creates its workers, gives each task to the next of
  them and a broadcast to all; each worker has handled just what its mailbox gave it, at most 100 messages a turn,
  and whoever is not idle waits for the pool once. Nothing is said of schedules in which a job runs while \<open>main\<close>
  sends to the same actor; C5 has some that fail.
\<close>

theorem smart_send_refines_crew:
  "\<exists>w. ss_to_sleep actors task (Suc (Suc f)) ts k = ok w \<and>
     ss_state w (spec_turns k (spec_run ts 0 (ss_lines actors task) spec_start))"
proof -
  obtain w1 where w1: "ss_run (Suc (Suc f)) ts 0 (ss_lines actors task) ss_start = ok w1"
      "ss_state w1 (spec_run ts 0 (ss_lines actors task) spec_start)"
    using ss_run_refines [OF ss_start_state ss_lines_ok] by blast
  with ss_turns [OF w1(2), of "Suc (Suc f)" k] show ?thesis
    by (auto simp: ss_to_sleep_def)
qed

end
