(* ===== verification/Smart_Counts.thy ===== *)
theory Smart_Counts
  imports Smart_Send
begin

text \<open>
  The two counters at the end of \<open>examples/smart-send/main.cpp\<close>: how many of the messages its lines send are handled,
  in any schedule and when the pool keeps up.
\<close>

section \<open>Messages sent and handled\<close>

text \<open>Messages with a command, waiting or handled, and how many of them the lines send.\<close>

definition of_command :: "string \<Rightarrow> message list \<Rightarrow> nat" where
  "of_command c ms = length (filter (\<lambda>m. m_command m = c) ms)"

definition ss_total :: "string \<Rightarrow> nat \<Rightarrow> crew \<Rightarrow> nat" where
  "ss_total c n cr = (\<Sum>i = 1..n. of_command c (lm_handled (cr_box cr i) @ lm_queue (cr_box cr i)))"

definition ss_handled :: "string \<Rightarrow> nat \<Rightarrow> crew \<Rightarrow> nat" where
  "ss_handled c n cr = (\<Sum>i = 1..n. of_command c (lm_handled (cr_box cr i)))"

fun ss_sent :: "string \<Rightarrow> nat \<Rightarrow> ss_line list \<Rightarrow> nat" where
  "ss_sent c n [] = 0"
| "ss_sent c n (Create # ls) = of_bool (c = ''add_link'') + ss_sent c (Suc n) ls"
| "ss_sent c n (Task c' v # ls) = of_bool (n \<noteq> 0 \<and> c = c') + ss_sent c n ls"
| "ss_sent c n (Task_Broadcast c' v # ls) = n * of_bool (c = c') + ss_sent c n ls"

lemma of_command_append [simp]: "of_command c (ms @ ms') = of_command c ms + of_command c ms'"
  by (simp add: of_command_def)

lemma of_command_simps [simp]:
  "of_command c [] = 0" "of_command c (m # ms) = of_bool (m_command m = c) + of_command c ms"
  by (simp_all add: of_command_def)

lemma of_command_split: "of_command c (take k ms) + of_command c (drop k ms) = of_command c ms"
  using of_command_append [of c "take k ms" "drop k ms"] by simp

lemma ss_total_send: "ss_total c n (crew_send i m cr) = ss_total c n cr + of_bool (i \<in> {1..n} \<and> m_command m = c)"
proof -
  have "ss_total c n (crew_send i m cr) =
      (\<Sum>j = 1..n. of_command c (lm_handled (cr_box cr j) @ lm_queue (cr_box cr j)) + (if j = i then of_bool (m_command m = c) else 0))"
    unfolding ss_total_def by (intro sum.cong refl) (simp add: crew_send_box lossy_send_def)
  then show ?thesis
    unfolding ss_total_def sum.distrib by (auto simp: sum.delta)
qed

lemma ss_total_fold:
  "set is \<subseteq> {1..n} \<Longrightarrow>
    ss_total c n (fold (\<lambda>i. crew_send i m) is cr) = ss_total c n cr + length is * of_bool (m_command m = c)"
  by (induction "is" arbitrary: cr) (simp_all add: ss_total_send)

lemma lossy_turn_total:
  "of_command c (lm_handled (lossy_turn mx b) @ lm_queue (lossy_turn mx b)) \<le> of_command c (lm_handled b @ lm_queue b)"
  using of_command_split [of c mx "lm_queue b"] by (auto simp: lossy_turn_def)

lemma ss_total_turns: "ss_total c n ((crew_turn mx ^^ k) cr) \<le> ss_total c n cr"
proof (induction k)
  case (Suc k)
  have "ss_total c n (crew_turn mx b) \<le> ss_total c n b" for b
    unfolding ss_total_def crew_turn_def using lossy_turn_total by (auto intro!: sum_mono split: list.splits simp del: of_command_append)
  with Suc show ?case
    by (simp add: order_trans [of _ "ss_total c n ((crew_turn mx ^^ k) cr)"])
qed simp

lemma ss_total_line:
  assumes "ss_crew (sp_workers s) (sp_crew s)"
    and "if sp_workers s = 0 then sp_cursor s = 0 else sp_cursor s < sp_workers s"
  shows "ss_total c (sp_workers (spec_line l s)) (sp_crew (spec_line l s)) + ss_sent c (sp_workers (spec_line l s)) ls =
    ss_total c (sp_workers s) (sp_crew s) + ss_sent c (sp_workers s) (l # ls)"
proof (cases l)
  case Create
  have "cr_box (sp_crew s) (Suc (sp_workers s)) = lossy_start"
    using assms(1) by (simp add: ss_crew_def)
  then have "ss_total c (Suc (sp_workers s)) (sp_crew s) = ss_total c (sp_workers s) (sp_crew s)"
    by (simp add: ss_total_def lossy_start_def)
  with Create show ?thesis
    by (simp add: ss_total_send ss_link_def message_eval)
next
  case (Task c' v)
  with assms(2) show ?thesis
    by (auto simp: ss_total_send ss_message_def message_eval split: if_splits)
next
  case (Task_Broadcast c' v)
  have "set [1..<Suc (sp_workers s)] \<subseteq> {1..sp_workers s}"
    by auto
  with Task_Broadcast show ?thesis
    by (simp add: ss_total_fold ss_message_def message_eval del: upt_Suc)
qed

lemma ss_settle_total: "ss_total c n (crew_settle cr) = ss_total c n cr" "ss_handled c n (crew_settle cr) = ss_total c n cr"
  by (simp_all add: ss_total_def ss_handled_def crew_settle_def)

lemma crew_fit_line:
  assumes "sp_workers (spec_line l s) \<le> b" and "sp_crew s = crew_settle c"
  shows "crew_fit 100 b (sp_crew (spec_line l s))"
proof (cases l)
  case Create
  with assms show ?thesis
    using crew_fit_sent [of "[Suc (sp_workers s)]" b 100 ss_link c] by simp
next
  case (Task c' v)
  with assms show ?thesis
    using crew_fit_sent [of "[Suc (sp_cursor s)]" b 100 "ss_message c' v" c] crew_fit_sent [of "[]" b 100 "ss_message c' v" c]
    by auto
next
  case (Task_Broadcast c' v)
  with assms show ?thesis
    using crew_fit_sent [of "[1..<Suc (sp_workers s)]" b 100 "ss_message c' v" c] by (simp del: upt_Suc)
qed

lemma spec_turns_simps [simp]: "sp_workers (spec_turns k s) = sp_workers s" "sp_cursor (spec_turns k s) = sp_cursor s"
    "sp_crew (spec_turns k s) = (crew_turn 100 ^^ k) (sp_crew s)"
  by (simp_all add: spec_turns_def)

lemma ss_state_specs:
  assumes "ss_state w s"
  shows "ss_crew (sp_workers s) (sp_crew s)" "if sp_workers s = 0 then sp_cursor s = 0 else sp_cursor s < sp_workers s"
  using assms unfolding ss_state_iff by blast+

lemma spec_run_total:
  assumes "ss_state w s" and "\<forall>l \<in> set ls. ss_line_ok l"
  shows "ss_total c (sp_workers (spec_run ts i ls s)) (sp_crew (spec_run ts i ls s)) \<le>
    ss_total c (sp_workers s) (sp_crew s) + ss_sent c (sp_workers s) ls"
  using assms
proof (induction ls arbitrary: w s i)
  case (Cons l ls)
  obtain w1 where w1: "ss_state w1 (spec_turns (ts i) s)"
    using ss_turns [OF Cons.prems(1)] by blast
  then obtain w2 where w2: "ss_state w2 (spec_line l (spec_turns (ts i) s))"
    using ss_line_step [OF w1, of l] Cons.prems(2) by auto
  from Cons.IH [OF w2, of "Suc i"] Cons.prems(2) ss_total_line [OF ss_state_specs [OF w1], of c l ls]
    ss_total_turns [of c "sp_workers s" "ts i" 100 "sp_crew s"] show ?case
    by simp
qed simp

lemma spec_run_keeps_up:
  assumes "ss_state w s" and "\<forall>l \<in> set ls. ss_line_ok l" and "crew_fit 100 b (sp_crew s)" and "\<And>i. b \<le> ts i"
    and "sp_workers s + count_list ls Create \<le> b"
  shows "crew_fit 100 b (sp_crew (spec_run ts i ls s)) \<and>
    ss_total c (sp_workers (spec_run ts i ls s)) (sp_crew (spec_run ts i ls s)) =
    ss_total c (sp_workers s) (sp_crew s) + ss_sent c (sp_workers s) ls"
  using assms
proof (induction ls arbitrary: w s i)
  case (Cons l ls)
  obtain w1 where w1: "ss_state w1 (spec_turns (ts i) s)"
    using ss_turns [OF Cons.prems(1)] by blast
  then obtain w2 where w2: "ss_state w2 (spec_line l (spec_turns (ts i) s))"
    using ss_line_step [OF w1, of l] Cons.prems(2) by auto
  have d: "sp_crew (spec_turns (ts i) s) = crew_settle (sp_crew s)"
    using crew_drain [OF Cons.prems(3,4)] by simp
  have n: "sp_workers (spec_line l (spec_turns (ts i) s)) + count_list ls Create \<le> b"
    using Cons.prems(5) by (cases l) simp_all
  then have "crew_fit 100 b (sp_crew (spec_line l (spec_turns (ts i) s)))"
    by (intro crew_fit_line [OF _ d]) simp
  from Cons.IH [OF w2 _ this Cons.prems(4) n, of "Suc i"] Cons.prems(2) ss_total_line [OF ss_state_specs [OF w1], of c l ls] d
  show ?case
    by (simp add: ss_settle_total)
qed simp

text \<open>What the lines of \<open>main\<close> send.\<close>

lemma ss_sent_replicate:
  "ss_sent c n (replicate k Create @ ls) = k * of_bool (c = ''add_link'') + ss_sent c (n + k) ls"
  "ss_sent c n (replicate k (Task c' v) @ ls) = k * of_bool (n \<noteq> 0 \<and> c = c') + ss_sent c n ls"
  "ss_sent c n (replicate k (Task_Broadcast c' v)) = k * n * of_bool (c = c')"
  by (induction k arbitrary: n) simp_all

lemma ss_sent_lines:
  "ss_sent ''download'' 0 (ss_lines actors task) = (if actors \<le> 1 then 0 else task - 1)"
  "ss_sent ''work_data'' 0 (ss_lines actors task) = (task - 1) * (actors - 1)"
  by (simp_all add: ss_lines_def ss_sent_replicate)

lemma ss_lines_creates: "count_list (ss_lines actors task) Create = actors - 1"
proof -
  have "count_list (replicate k l) l' = (if l = l' then k else 0)" for k and l l' :: ss_line
    by (induction k) auto
  then show ?thesis
    by (simp add: ss_lines_def)
qed

section \<open>The counters\<close>

lemma known_counts:
  assumes "ss_known m" and "i \<noteq> 0"
  shows "w_downloads (ae_user (effect i types worker_spec m e)) = w_downloads (ae_user e) + of_bool (m_command m = ''download'')"
    and "w_works (ae_user (effect i types worker_spec m e)) = w_works (ae_user e) + of_bool (m_command m = ''work_data'')"
  using assms by (auto simp: ss_known_def ss_link_def ss_message_def message_eval effect_def Let_def worker_spec_def)

lemma ss_done_counts:
  assumes "\<forall>m \<in> set ms. ss_known m" and "i \<noteq> 0"
  shows "w_downloads (ae_user (ss_done i ms)) = of_nat (of_command ''download'' ms)"
    and "w_works (ae_user (ss_done i ms)) = of_nat (of_command ''work_data'' ms)"
proof -
  have "w_downloads (ae_user (fold (effect i (\<lambda>_. ''network'') worker_spec) ms e)) =
        w_downloads (ae_user e) + of_nat (of_command ''download'' ms) \<and>
      w_works (ae_user (fold (effect i (\<lambda>_. ''network'') worker_spec) ms e)) =
        w_works (ae_user e) + of_nat (of_command ''work_data'' ms)" for e
    using assms(1) by (induction ms arbitrary: e) (simp_all add: known_counts [OF _ assms(2)])
  then show "w_downloads (ae_user (ss_done i ms)) = of_nat (of_command ''download'' ms)"
    and "w_works (ae_user (ss_done i ms)) = of_nat (of_command ''work_data'' ms)"
    by (simp_all add: ss_done_def ss_idle_def)
qed

lemma ss_counters:
  assumes "ss_state w s"
  shows "ss_downloads w = of_nat (ss_handled ''download'' (sp_workers s) (sp_crew s))"
    and "ss_works w = of_nat (ss_handled ''work_data'' (sp_workers s) (sp_crew s))"
proof -
  let ?c = "sp_crew s" and ?n = "sp_workers s"
  obtain h fr p os X where w: "w = ss_world_of h fr (cr_jobs ?c) ?n (sp_cursor s) p os"
      and o: "ss_hands ?n ?c os" and k: "ss_crew ?n ?c"
    using assms unfolding ss_state_iff by blast
  have part: "ss_part f (os ! j) = f (ae_user (ss_done (Suc j) (lm_handled (cr_box ?c (Suc j)))))" if "j < ?n" for j f
    using o that unfolding ss_hands_def ss_did_def by force
  have known: "\<forall>m \<in> set (lm_handled (cr_box ?c i)). ss_known m" for i
    using k by (auto simp: ss_crew_def)
  have sum: "sum_list (map (ss_part f) (w_objs w)) = (\<Sum>i = 1..?n. f (ae_user (ss_done i (lm_handled (cr_box ?c i)))))" for f
  proof -
    have "sum_list (map (ss_part f) (w_objs w)) = sum_list (map (ss_part f) os)"
      by (simp add: w ss_world_of_def)
    also have "\<dots> = (\<Sum>j = 0..<?n. ss_part f (os ! j))"
      using o by (simp add: sum_list_sum_nth ss_hands_def)
    also have "\<dots> = (\<Sum>j = 0..<?n. f (ae_user (ss_done (Suc j) (lm_handled (cr_box ?c (Suc j))))))"
      by (intro sum.cong refl) (simp add: part)
    also have "\<dots> = (\<Sum>i = 1..?n. f (ae_user (ss_done i (lm_handled (cr_box ?c i)))))"
      using sum.shift_bounds_Suc_ivl [of "\<lambda>i. f (ae_user (ss_done i (lm_handled (cr_box ?c i))))" 0 ?n]
      by (simp add: atLeastLessThanSuc_atLeastAtMost)
    finally show ?thesis .
  qed
  show "ss_downloads w = of_nat (ss_handled ''download'' ?n ?c)"
    unfolding ss_downloads_def sum ss_handled_def of_nat_sum
    by (intro sum.cong refl) (simp add: ss_done_counts(1) [OF known])
  show "ss_works w = of_nat (ss_handled ''work_data'' ?n ?c)"
    unfolding ss_works_def sum ss_handled_def of_nat_sum
    by (intro sum.cong refl) (simp add: ss_done_counts(2) [OF known])
qed

lemma ss_handled_le: "ss_handled c n cr \<le> ss_total c n cr"
  unfolding ss_handled_def ss_total_def by (intro sum_mono) simp

lemma ss_start_total: "ss_total c (sp_workers spec_start) (sp_crew spec_start) = 0"
  by (simp add: spec_start_def ss_total_def)

lemma spec_start_fit: "crew_fit 100 b (sp_crew spec_start)"
  by (simp add: spec_start_def crew_fit_def crew_start_def lossy_start_def)

text \<open>
  C35. No schedule of \<open>smart-send\<close> handles more than its \<open>task - 1\<close> downloads and \<open>task - 1\<close> pieces of work for each
  worker, and a pool that takes a turn for every worker between any two lines of \<open>main\<close> and while it sleeps handles
  them all, which the program itself does not expect: its second assertion fails.
\<close>

theorem smart_send_handled:
  "\<exists>w d e. ss_to_sleep actors task (Suc (Suc f)) ts k = ok w \<and> ss_downloads w = of_nat d \<and> ss_works w = of_nat e \<and>
     d \<le> (if actors \<le> 1 then 0 else task - 1) \<and> e \<le> (task - 1) * (actors - 1) \<and>
     ((\<forall>i. actors - 1 \<le> ts i) \<and> actors - 1 \<le> k \<longrightarrow>
        d = (if actors \<le> 1 then 0 else task - 1) \<and> e = (task - 1) * (actors - 1) \<and>
        (actors = 10 \<and> task = 10000 \<longrightarrow> ss_main (Suc (Suc f)) ts k = fail Assert_Failed))"
proof -
  let ?s = "spec_run ts 0 (ss_lines actors task) spec_start" and ?b = "actors - 1"
  let ?n = "sp_workers ?s" and ?c = "sp_crew ?s" and ?e = "(crew_turn 100 ^^ k) (sp_crew ?s)"
  obtain w1 where w1: "ss_run (Suc (Suc f)) ts 0 (ss_lines actors task) ss_start = ok w1" "ss_state w1 ?s"
    using ss_run_refines [OF ss_start_state ss_lines_ok] by blast
  then obtain w where w: "ss_to_sleep actors task (Suc (Suc f)) ts k = ok w" "ss_state w (spec_turns k ?s)"
    using ss_turns [OF w1(2), of "Suc (Suc f)" k] by (auto simp: ss_to_sleep_def)
  have le: "ss_handled c ?n ?e \<le> ss_sent c 0 (ss_lines actors task)" for c
    using spec_run_total [OF ss_start_state ss_lines_ok, of c ts 0 actors task] ss_start_total [of c]
      ss_total_turns [of c ?n k 100 ?c] ss_handled_le [of c ?n ?e]
    by (simp add: spec_start_def)
  have eq: "ss_handled c ?n ?e = ss_sent c 0 (ss_lines actors task)" if t: "\<forall>i. ?b \<le> ts i" "?b \<le> k" for c
  proof -
    have "crew_fit 100 ?b ?c" "ss_total c ?n ?c = ss_sent c 0 (ss_lines actors task)"
      using spec_run_keeps_up [OF ss_start_state ss_lines_ok spec_start_fit, of ?b ts actors task 0 c] t(1) ss_start_total [of c]
      by (simp_all add: ss_lines_creates spec_start_def)
    with crew_drain [OF _ t(2)] show ?thesis
      by (simp add: ss_settle_total)
  qed
  have as: "ss_main (Suc (Suc f)) ts k = fail Assert_Failed" if "\<forall>i. ?b \<le> ts i" "?b \<le> k" "actors = 10" "task = 10000"
    using w(1) ss_counters(2) [OF w(2)] eq [OF that(1,2), of "''work_data''"] that(3,4)
    by (cases "ss_downloads w = 9999") (simp_all add: ss_main_def ss_sent_lines)
  show ?thesis
    by (rule exI [of _ w], rule exI [of _ "ss_handled ''download'' ?n ?e"], rule exI [of _ "ss_handled ''work_data'' ?n ?e"])
      (use w ss_counters [OF w(2)] le [of "''download''"] le [of "''work_data''"] eq [of "''download''"] eq [of "''work_data''"] as
        in \<open>auto simp: ss_sent_lines\<close>)
qed

lemma smart_send_handled_witness:
  "\<exists>w d e. ss_to_sleep 10 10000 2 (\<lambda>_. 9) 9 = ok w \<and> ss_downloads w = of_nat d \<and> ss_works w = of_nat e \<and>
     d = 9999 \<and> e = 89991 \<and> ss_main 2 (\<lambda>_. 9) 9 = fail Assert_Failed"
  using smart_send_handled [of 10 10000 0 "\<lambda>_. 9" 9] by (auto simp: numeral_2_eq_2)

end
