(* ===== verification/Handler_Test.thy ===== *)
theory Handler_Test
  imports World_Actors
begin

text \<open>
  The test program \<open>test/handler\<close>: one supervisor creates an actor of either class and every handler is sent one
  message with its arguments. Jobs run inline. The program is the code's own statement of what handlers do.
\<close>

section \<open>State\<close>

datatype ht_class = Ht_Supervisor | Ht_Storage | Ht_Handlers

text \<open>
  The counters are static members, kept here with the only object there is of their class, under their names.
  The destructors, and the counter of calls of \<open>executor_impl\<close>, are left out.
\<close>

type_synonym ht_counters = "string \<Rightarrow> 64 word"

record ht_members =
  ht_actors :: "nat list"
  ht_supervisors :: "nat list"
  ht_counters :: ht_counters

definition count_up :: "string \<Rightarrow> ht_counters \<Rightarrow> ht_counters" where
  "count_up x c = c(x := c x + 1)"

definition ht_put :: "ht_counters \<Rightarrow> ht_members \<Rightarrow> ht_members" where
  "ht_put c m = m\<lparr>ht_counters := c\<rparr>"

definition ht_new :: "ht_counters \<Rightarrow> ht_members" where
  "ht_new c = \<lparr>ht_actors = [], ht_supervisors = [], ht_counters = c\<rparr>"

type_synonym ht_world = "(ht_class, ht_members) world"
type_synonym ht_actor = "(ht_class, ht_members) actor_view"
type_synonym ht_sup = "(ht_class, ht_members) sup_view"
type_synonym ht_deliver = "(ht_class, ht_members) deliver"

definition ht_executor :: executor_kind where
  "ht_executor = Inline 100 True"

section \<open>The actors\<close>

text \<open>A handler that counts its calls and prints its arguments.\<close>

definition counting :: "string \<Rightarrow> ty list \<Rightarrow> ht_counters actor callable" where
  "counting x ts =
     Callable ts (\<lambda>vs s. ok (vs, s\<lparr>a_env := (a_env s)\<lparr>ae_user := count_up x (ae_user (a_env s))\<rparr>\<rparr>))"

definition st_init :: "ht_counters actor callable" where
  "st_init = counting ''init_counter'' []"

definition st_search :: "ht_counters actor callable" where
  "st_search = counting ''search_counter'' [T_String]"

definition st_add :: "ht_counters actor callable" where
  "st_add = counting ''add_counter'' [T_String, T_String]"

definition st_delete_table :: "ht_counters actor callable" where
  "st_delete_table = counting ''delete_table_counter'' [T_String, T_String, T_Int]"

definition st_create_table :: "ht_counters actor callable" where
  "st_create_table = counting ''create_table_counter'' [T_String, T_String, T_Int, T_Int]"

definition st_ctor :: "nat \<Rightarrow> (nat \<Rightarrow> string) \<Rightarrow> ht_actor comm_module" where
  "st_ctor self types =
     (let h = own (own_get ht_counters) (own_put ht_put) in
      add_handler ''create_table'' (h st_create_table) (add_handler ''delete_table'' (h st_delete_table)
        (add_handler ''add'' (h st_add) (add_handler ''search'' (h st_search) (add_handler ''init'' (h st_init)
          (actor_ctor self types))))))"

definition th_ptr_0 :: "ht_counters actor callable" where
  "th_ptr_0 = counting ''ptr_0_counter'' []"

definition th_ptr_1 :: "ht_counters actor callable" where
  "th_ptr_1 = counting ''ptr_1_counter'' []"

definition th_ptr_2 :: "ht_counters actor callable" where
  "th_ptr_2 = counting ''ptr_2_counter'' [T_Int]"

definition th_ptr_3 :: "ht_counters actor callable" where
  "th_ptr_3 = counting ''ptr_3_counter'' [T_Int, T_Int]"

definition th_ptr_4 :: "ht_counters actor callable" where
  "th_ptr_4 = counting ''ptr_4_counter'' [T_Int, T_Int, T_String]"

definition th_ctor :: "nat \<Rightarrow> (nat \<Rightarrow> string) \<Rightarrow> ht_actor comm_module" where
  "th_ctor self types =
     (let h = own (own_get ht_counters) (own_put ht_put) in
      add_handler ''ptr_4'' (h th_ptr_4) (add_handler ''ptr_3'' (h th_ptr_3) (add_handler ''ptr_2'' (h th_ptr_2)
        (add_handler ''ptr_1'' (h th_ptr_1) (add_handler ''ptr_0'' (h th_ptr_0) (actor_ctor self types))))))"

text \<open>What the constructors count.\<close>

definition st_counters :: ht_counters where
  "st_counters = count_up ''constructor_counter'' (\<lambda>_. 0)"

definition th_init :: ht_counters where
  "th_init = count_up ''init_counter'' (\<lambda>_. 0)"

section \<open>The supervisor\<close>

definition count_sup :: "string \<Rightarrow> ht_sup \<Rightarrow> ht_sup" where
  "count_sup x s = (case v_env s of (u, w) \<Rightarrow> s\<lparr>v_env := (u\<lparr>ht_counters := count_up x (ht_counters u)\<rparr>, w)\<rparr>)"

definition ht_add_actor :: "nat \<Rightarrow> ht_sup \<Rightarrow> ht_sup eff" where
  "ht_add_actor t s =
     and_then (keep_actor t s) (\<lambda>s.
     case v_env s of (u, w) \<Rightarrow>
       ok (count_sup ''add_actor_impl_counter'' (s\<lparr>v_env := (u\<lparr>ht_actors := ht_actors u @ [t]\<rparr>, w)\<rparr>)))"

definition ht_add_supervisor :: "nat \<Rightarrow> ht_sup \<Rightarrow> ht_sup eff" where
  "ht_add_supervisor t s =
     (case v_env s of (u, w) \<Rightarrow>
       ok (count_sup ''add_supervisor_impl_counter'' (s\<lparr>v_env := (u\<lparr>ht_supervisors := ht_supervisors u @ [t]\<rparr>, w)\<rparr>)))"

definition create_storage :: "ht_deliver \<Rightarrow> nat \<Rightarrow> ht_sup callable" where
  "create_storage dl self =
     Callable [] (\<lambda>vs s. and_then
       (world_spawn (new_actor Ht_Storage ''storage'' (ht_new st_counters) self) ht_add_actor ''storage'' dl self s)
       (\<lambda>(_, s). ok (vs, s)))"

definition create_test_handlers :: "ht_deliver \<Rightarrow> nat \<Rightarrow> ht_sup callable" where
  "create_test_handlers dl self =
     Callable [] (\<lambda>vs s. and_then
       (world_spawn (new_actor Ht_Handlers ''test_handlers'' (ht_new th_init) self) ht_add_actor ''test_handlers'' dl self s)
       (\<lambda>(_, s). ok (vs, s)))"

definition ht_ctor :: "ht_deliver \<Rightarrow> nat \<Rightarrow> (nat \<Rightarrow> string) \<Rightarrow> ht_sup comm_module" where
  "ht_ctor dl self types =
     add_handler ''create_test_handlers'' (create_test_handlers dl self)
       (add_handler ''create_storage'' (create_storage dl self) (sup_ctor (from_sup dl self) self types))"

definition ht_enqueue_base :: "(ht_sup \<Rightarrow> ht_sup eff) \<Rightarrow> ptr \<Rightarrow> ht_sup \<Rightarrow> ht_sup eff" where
  "ht_enqueue_base exec p s =
     and_then (get_value (v_heap s) p) (\<lambda>_.
     exec (set_current_message p (count_sup ''enqueue_base_counter'' s)))"

definition handler_test :: "(ht_class, ht_members) program" where
  "handler_test =
     \<lparr>pr_actor = (\<lambda>k _ self types. if k = Ht_Storage then st_ctor self types else th_ctor self types),
      pr_sup = (\<lambda>_. ht_ctor), pr_enqueue = (\<lambda>_ _ _. ht_enqueue_base)\<rparr>"

section \<open>The test\<close>

text \<open>Reading the members of an object; the supervisor is object 0.\<close>

definition ht_user :: "nat \<Rightarrow> ht_world \<Rightarrow> ht_members" where
  "ht_user n w = (case w_objs w ! n of Actor_Obj k t a \<Rightarrow> o_user a | Sup_Obj k t a \<Rightarrow> so_user a)"

definition counter :: "string \<Rightarrow> nat \<Rightarrow> ht_world \<Rightarrow> 64 word" where
  "counter x n w = ht_counters (ht_user n w) x"

definition actors_count :: "ht_world \<Rightarrow> nat" where
  "actors_count w = length (ht_actors (ht_user 0 w))"

definition supervisors_count :: "ht_world \<Rightarrow> nat" where
  "supervisors_count w = length (ht_supervisors (ht_user 0 w))"

definition last_actor :: "ht_world \<Rightarrow> nat eff" where
  "last_actor w =
     and_then (assert_that (actors_count w > 0)) (\<lambda>_. ok (last (ht_actors (ht_user 0 w))))"

definition last_supervisor :: "ht_world \<Rightarrow> nat eff" where
  "last_supervisor w =
     and_then (assert_that (supervisors_count w > 0)) (\<lambda>_. ok (last (ht_supervisors (ht_user 0 w))))"

definition require :: "bool \<Rightarrow> ht_world \<Rightarrow> ht_world eff" where
  "require b w = and_then (assert_that b) (\<lambda>_. ok w)"

text \<open>A handler of the last actor is called once: the counter is 0, the message is sent, the counter is 1.\<close>

definition calls :: "ht_deliver \<Rightarrow> string \<Rightarrow> string \<Rightarrow> val list \<Rightarrow> ht_world \<Rightarrow> ht_world eff" where
  "calls dl x name args w =
     and_then (last_actor w) (\<lambda>n.
     and_then (require (counter x n w = 0) w) (\<lambda>w.
     and_then (sup_address 0) (\<lambda>a.
     and_then (main_send dl n a name args w) (\<lambda>w.
     require (counter x n w = 1) w))))"

definition calls_handlers :: "ht_deliver \<Rightarrow> ht_world \<Rightarrow> ht_world eff" where
  "calls_handlers dl w =
     and_then (calls dl ''ptr_0_counter'' ''ptr_0'' [] w) (\<lambda>w.
     and_then (calls dl ''ptr_1_counter'' ''ptr_1'' [] w) (\<lambda>w.
     and_then (calls dl ''ptr_2_counter'' ''ptr_2'' [V_Int 1] w) (\<lambda>w.
     and_then (calls dl ''ptr_3_counter'' ''ptr_3'' [V_Int 1, V_Int 2] w) (\<lambda>w.
     calls dl ''ptr_4_counter'' ''ptr_4'' [V_Int 1, V_Int 2, V_String ''test''] w))))"

definition calls_storage :: "ht_deliver \<Rightarrow> ht_world \<Rightarrow> ht_world eff" where
  "calls_storage dl w =
     and_then (calls dl ''init_counter'' ''init'' [] w) (\<lambda>w.
     and_then (calls dl ''search_counter'' ''search'' [V_String ''key_1''] w) (\<lambda>w.
     and_then (calls dl ''add_counter'' ''add'' [V_String ''key_1'', V_String ''value_1''] w) (\<lambda>w.
     and_then (calls dl ''delete_table_counter'' ''delete_table'' [V_String ''test'', V_String ''/'', V_Int 12] w) (\<lambda>w.
     calls dl ''create_table_counter'' ''create_table'' [V_String ''test'', V_String ''/'', V_Int 1, V_Int 12] w))))"

definition ht_main :: "ht_deliver \<Rightarrow> ht_world eff" where
  "ht_main dl =
     (case main_new_sup Ht_Supervisor ''dummy_supervisor'' ht_executor
         (ht_new (count_up ''constructor_counter'' (\<lambda>_. 0))) empty_world of (supervisor, w) \<Rightarrow>
      and_then (require (counter ''constructor_counter'' 0 w = 1) w) (\<lambda>w.
      and_then (main_send dl supervisor addr_empty ''create_test_handlers'' [] w) (\<lambda>w.
      and_then (require (counter ''enqueue_base_counter'' 0 w = 1 \<and> counter ''add_actor_impl_counter'' 0 w = 1 \<and>
        counter ''init_counter'' 1 w = 1 \<and> actors_count w = 1) w) (\<lambda>w.
      and_then (calls_handlers dl w) (\<lambda>w.
      and_then (main_send dl supervisor addr_empty ''create_storage'' [] w) (\<lambda>w.
      and_then (require (counter ''enqueue_base_counter'' 0 w = 2 \<and> counter ''add_actor_impl_counter'' 0 w = 2 \<and>
        counter ''constructor_counter'' 2 w = 1 \<and> actors_count w = 2) w) (\<lambda>w.
      calls_storage dl w)))))))"

section \<open>A handler called within enqueue\<close>

context own_actor
begin

text \<open>An idle actor with an inline executor that gets a message for one of its handlers.\<close>

lemma own_idle:
  assumes r: "rest_links h n" and m: "cell h (Node x) = Some m"
    and u: "m_command m \<notin> builtin" "user (m_command m) = Some (ts, f)" and b: "m_body m = make_body vs" "map ty_of vs = ts"
    and x: "0 < mx" "rc \<noteq> 0" and c: "pr_actor P k dl n (types_of w) = c (types_of w)"
  shows "enqueue_base (\<lambda>_. executor_execute_actor P dl k (Inline mx True) n) (Node x) None
      \<lparr>a_heap = h, a_mbox = \<lparr>q_this = n, q_stack = Empty_D n, q_head = Null\<rparr>, a_flags = St_Empty, a_current = cu,
       a_executor = ex, a_rc = rc, a_alive = al, a_env = \<lparr>ae_contacts = cs, ae_log = lg, ae_user = (v, w)\<rparr>\<rparr> =
    ok \<lparr>a_heap = h\<lparr>nxt := (nxt h)(Node x := Sep_S n), prv := (prv h)(Node x := Head_S n), cell := (cell h)(Node x := None)\<rparr>,
       a_mbox = \<lparr>q_this = n, q_stack = Empty_D n, q_head = Null\<rparr>, a_flags = St_Empty, a_current = Node x,
       a_executor = ex, a_rc = rc, a_alive = al,
       a_env = \<lparr>ae_contacts = cs, ae_log = lg, ae_user = (put (f vs (get v)) v, w)\<rparr>\<rparr>"
proof -
  let ?e = "\<lparr>ae_contacts = cs, ae_log = lg, ae_user = (v, w)\<rparr>" and ?e' = "\<lparr>ae_contacts = cs, ae_log = lg, ae_user = (put (f vs (get v)) v, w)\<rparr>"
  let ?h = "h\<lparr>nxt := (nxt h)(Node x := Sep_S n), prv := (prv h)(Node x := Head_S n)\<rparr>"
  let ?s = "\<lambda>h e. \<lparr>a_heap = h, a_mbox = \<lparr>q_this = n, q_stack = Empty_D n, q_head = Null\<rparr>, a_flags = St_Busy,
    a_current = Node x, a_executor = ex, a_rc = rc + 1, a_alive = al, a_env = e\<rparr>"
  have "own_spec (own_get get) (own_put put) user (m_command m) = Some (ts, \<lambda>vs v. own_put put (f vs (own_get get v)) v)"
    using u(2) by (simp add: own_spec_def)
  from actor_module.handler [OF class_module u(1) this, of "types_of w"] obtain g where
      g: "cm_handlers (c (types_of w)) (m_command m) = Some g" "c_args g = ts"
        "\<And>vs s. map ty_of vs = ts \<Longrightarrow> \<exists>vs'. c_call g vs s = ok (vs', s\<lparr>a_env := (a_env s)\<lparr>ae_user :=
           own_put put (f vs (own_get get (ae_user (a_env s)))) (ae_user (a_env s))\<rparr>\<rparr>)"
    by blast
  from g(3) [OF b(2), of "?s ?h ?e"] obtain vs' where call: "c_call g vs (?s ?h ?e) = ok (vs', ?s ?h ?e')"
    by (auto simp: own_get_def own_put_def)
  have rd: "read_message act_ctx (current_message act_ctx (?s ?h ?e)) (?s ?h ?e) = ok m"
    using m by (simp add: get_value_def live_def)
  have ex: "actor_execute (types_of w) (c (types_of w)) (?s ?h ?e) =
      (if vs = [] then ok (?s ?h ?e') else write_body act_ctx (Node x) (if length vs = 1 then hd vs' else V_Tuple vs') (?s ?h ?e'))"
    using execute_handler [OF rd g(1)] invoke_made [OF rd b(1)] b(2) g(2) call by (simp add: actor_execute_def)
  have "\<exists>z. actor_execute (types_of w) (c (types_of w)) (?s ?h ?e) = ok (?s (?h\<lparr>cell := (cell h)(Node x := Some z)\<rparr>) ?e')"
  proof (cases "vs = []")
    case True
    have "(cell h)(Node x := Some m) = cell h"
      using m by auto
    with True ex show ?thesis
      by (intro exI [of _ m]) simp
  next
    case False
    with ex m show ?thesis
      by (auto simp: write_body_def set_value_def get_value_def live_def)
  qed
  then obtain z where z: "actor_execute (types_of w) (c (types_of w)) (?s ?h ?e) = ok (?s (?h\<lparr>cell := (cell h)(Node x := Some z)\<rparr>) ?e')"
    by blast
  have rc: "rc + 1 \<noteq> 1"
    using x(2) by simp
  show ?thesis
    using r m x(1) rc z c
    by (simp add: enqueue_idle executor_execute_actor_def inline_execute_def run_view_def run_first run_on_done release_blocked
        rest_links_def Let_def)
qed

end

section \<open>The handlers of the two classes\<close>

text \<open>A table of handlers: the counter and the types of the arguments of each.\<close>

type_synonym counting_table = "string \<Rightarrow> (string \<times> ty list) option"

definition st_table :: counting_table where
  "st_table n =
     (if n = ''init'' then Some (''init_counter'', [])
      else if n = ''search'' then Some (''search_counter'', [T_String])
      else if n = ''add'' then Some (''add_counter'', [T_String, T_String])
      else if n = ''delete_table'' then Some (''delete_table_counter'', [T_String, T_String, T_Int])
      else if n = ''create_table'' then Some (''create_table_counter'', [T_String, T_String, T_Int, T_Int])
      else None)"

definition th_table :: counting_table where
  "th_table n =
     (if n = ''ptr_0'' then Some (''ptr_0_counter'', [])
      else if n = ''ptr_1'' then Some (''ptr_1_counter'', [])
      else if n = ''ptr_2'' then Some (''ptr_2_counter'', [T_Int])
      else if n = ''ptr_3'' then Some (''ptr_3_counter'', [T_Int, T_Int])
      else if n = ''ptr_4'' then Some (''ptr_4_counter'', [T_Int, T_Int, T_String])
      else None)"

definition counting_spec :: "counting_table \<Rightarrow> ht_counters handler_spec" where
  "counting_spec tbl n = map_option (\<lambda>(x, ts). (ts, \<lambda>_. count_up x)) (tbl n)"

definition counting_ctor :: "counting_table \<Rightarrow> nat \<Rightarrow> (nat \<Rightarrow> string) \<Rightarrow> ht_counters actor comm_module" where
  "counting_ctor tbl self types =
     (actor_ctor self types)\<lparr>cm_handlers := \<lambda>n.
        if n \<in> builtin then cm_handlers (actor_ctor self types) n else map_option (\<lambda>(x, ts). counting x ts) (tbl n)\<rparr>"

lemma counting_module: "actor_module self types (counting_ctor tbl self types) (counting_spec tbl)"
  by unfold_locales
    (auto simp: counting_ctor_def counting_spec_def counting_def actor_ctor_handlers builtin_def actor_ctor_def comm_ctor_def)

interpretation ht: member ht_counters ht_put
  by unfold_locales (simp_all add: ht_put_def)

lemma ht_new_simps: "ht_counters (ht_new c) = c" "ht_put c (ht_new c') = ht_new c"
  by (simp_all add: ht_new_def ht_put_def)

lemmas ht_handlers = st_init_def st_search_def st_add_def st_delete_table_def st_create_table_def
  th_ptr_0_def th_ptr_1_def th_ptr_2_def th_ptr_3_def th_ptr_4_def

lemma st_module:
  "actor_module self types (st_ctor self types) (own_spec (own_get ht_counters) (own_put ht_put) (counting_spec st_table))"
  by (rule own_module [OF counting_module])
    (auto simp: st_ctor_def Let_def actor_ctor_handlers counting_ctor_def builtin_def st_table_def ht_handlers actor_ctor_def)

lemma th_module:
  "actor_module self types (th_ctor self types) (own_spec (own_get ht_counters) (own_put ht_put) (counting_spec th_table))"
  by (rule own_module [OF counting_module])
    (auto simp: th_ctor_def Let_def actor_ctor_handlers counting_ctor_def builtin_def th_table_def ht_handlers actor_ctor_def)

interpretation st: own_actor ht_counters ht_put self "st_ctor self" "counting_spec st_table" for self
  by (intro own_actor.intro own_actor_axioms.intro ht.member_axioms st_module)

interpretation th: own_actor ht_counters ht_put self "th_ctor self" "counting_spec th_table" for self
  by (intro own_actor.intro own_actor_axioms.intro ht.member_axioms th_module)

section \<open>The test passes\<close>

text \<open>The heap after actor \<open>n\<close> handled message \<open>x\<close>.\<close>

definition used :: "message heap \<Rightarrow> nat \<Rightarrow> nat \<Rightarrow> message heap" where
  "used h n x = h\<lparr>nxt := (nxt h)(Node x := Sep_S n), prv := (prv h)(Node x := Head_S n), cell := (cell h)(Node x := None)\<rparr>"

lemma rest_links_used: "rest_links (used h n x) m = rest_links h m"
  by (simp add: rest_links_def used_def)

context own_actor
begin

lemma send_idle:
  assumes o: "n < length (w_objs w)" "w_objs w ! n = Actor_Obj k t (at_rest n s cur rc cs v)"
      "executor_of s w = ok (Inline mx True)"
    and r: "rest_links (w_heap w) n" "0 < mx" "rc \<noteq> 0"
    and u: "name \<notin> builtin" "user name = Some (map ty_of args, f)"
    and c: "\<And>ts. pr_actor P k (deliver P g) n ts = c ts"
  shows "main_send (deliver P (Suc g)) n a name args w =
    ok (w\<lparr>w_heap := used (w_heap w) n (w_fresh w), w_fresh := Suc (w_fresh w),
          w_objs := (w_objs w)[n := Actor_Obj k t (at_rest n s (Node (w_fresh w)) rc cs (put (f args (get v)) v))]\<rparr>)"
proof -
  let ?x = "w_fresh w" and ?m = "make_message a name args"
  let ?h = "new_node (w_heap w) ?x ?m"
  have m: "cell ?h (Node ?x) = Some ?m" "m_command ?m = name" "m_body ?m = make_body args"
    by (simp_all add: new_node_def message_eval)
  have "rest_links ?h n"
    using r(1) by (simp add: rest_links_def new_node_def)
  note e = own_idle [OF this m(1) _ _ m(3) refl r(2,3) c, unfolded m(2), OF u]
  have h: "?h\<lparr>nxt := (nxt ?h)(Node ?x := Sep_S n), prv := (prv ?h)(Node ?x := Head_S n), cell := (cell ?h)(Node ?x := None)\<rparr> =
      used (w_heap w) n ?x"
    by (simp add: new_node_def used_def)
  show ?thesis
    using o(1,2) o(3) e unfolding h
    by (simp add: main_send_def main_new_def make_message_ptr_def executor_of_def get_actor_def put_actor_def at_rest_def srq_ctor_def)
qed

end

text \<open>The worlds the test goes through, after the first and the second actor are made.\<close>

definition boss_counters :: "64 word \<Rightarrow> ht_counters" where
  "boss_counters k =
     (\<lambda>_. 0)(''constructor_counter'' := 1, ''enqueue_base_counter'' := k, ''add_actor_impl_counter'' := k)"

definition boss :: "(string \<times> addr list) list \<Rightarrow> ptr \<Rightarrow> nat list \<Rightarrow> (ht_class, ht_members) obj" where
  "boss cs cur as = Sup_Obj Ht_Supervisor ''dummy_supervisor''
     \<lparr>so_contacts = cs, so_current = cur, so_executor = ht_executor,
      so_user = \<lparr>ht_actors = as, ht_supervisors = [], ht_counters = boss_counters (of_nat (length as))\<rparr>\<rparr>"

definition hand :: "ht_class \<Rightarrow> string \<Rightarrow> nat \<Rightarrow> ptr \<Rightarrow> ht_counters \<Rightarrow> (ht_class, ht_members) obj" where
  "hand k t n cur c = Actor_Obj k t (at_rest n 0 cur 2 [''dummy_supervisor'' \<mapsto> A_Mod 0] (ht_new c))"

definition ht_first :: "message heap \<Rightarrow> nat \<Rightarrow> ptr \<Rightarrow> ptr \<Rightarrow> ht_counters \<Rightarrow> ht_world" where
  "ht_first h fr b cur c =
     \<lparr>w_heap = h, w_fresh = fr, w_log = [],
      w_objs = [boss [(''test_handlers'', [A_Mod 1])] b [1], hand Ht_Handlers ''test_handlers'' 1 cur c], w_jobs = []\<rparr>"

definition ht_second ::
  "message heap \<Rightarrow> nat \<Rightarrow> ptr \<Rightarrow> (ht_class, ht_members) obj \<Rightarrow> ptr \<Rightarrow> ht_counters \<Rightarrow> ht_world" where
  "ht_second h fr b o1 cur c =
     \<lparr>w_heap = h, w_fresh = fr, w_log = [],
      w_objs = [boss [(''test_handlers'', [A_Mod 1]), (''storage'', [A_Mod 2])] b [1, 2], o1,
        hand Ht_Storage ''storage'' 2 cur c], w_jobs = []\<rparr>"

lemma ht_world_reads:
  "last_actor (ht_first h fr b cur c) = ok 1" "counter x 1 (ht_first h fr b cur c) = c x"
  "last_actor (ht_second h fr b o1 cur c) = ok 2" "counter x 2 (ht_second h fr b o1 cur c) = c x"
  by (simp_all add: last_actor_def actors_count_def counter_def ht_user_def ht_first_def ht_second_def boss_def hand_def at_rest_def
      ht_new_def)

lemma count_up_same: "count_up x c x = c x + 1"
  by (simp add: count_up_def)

lemma first_call:
  assumes "rest_links h 1" and "name \<notin> builtin" and "th_table name = Some (x, map ty_of args)" and "c x = 0"
  shows "calls (deliver handler_test (Suc f)) x name args (ht_first h fr b cur c) =
    ok (ht_first (used h 1 fr) (Suc fr) b (Node fr) (count_up x c))"
proof -
  have "main_send (deliver handler_test (Suc f)) 1 (A_Mod 0) name args (ht_first h fr b cur c) =
      ok (ht_first (used h 1 fr) (Suc fr) b (Node fr) (count_up x c))"
    using assms
    by (subst th.send_idle [where k = Ht_Handlers and t = "''test_handlers''" and s = 0 and mx = 100 and rc = 2 and cur = cur
          and cs = "[''dummy_supervisor'' \<mapsto> A_Mod 0]" and v = "ht_new c"])
      (simp_all add: ht_first_def hand_def boss_def executor_of_def ht_executor_def counting_spec_def handler_test_def ht_new_simps)
  with assms(4) show ?thesis
    by (simp add: calls_def ht_world_reads [unfolded One_nat_def] require_def sup_address_def addr_ctor_def count_up_same del: deliver.simps)
qed

lemma second_call:
  assumes "rest_links h 2" and "name \<notin> builtin" and "st_table name = Some (x, map ty_of args)" and "c x = 0"
  shows "calls (deliver handler_test (Suc f)) x name args (ht_second h fr b o1 cur c) =
    ok (ht_second (used h 2 fr) (Suc fr) b o1 (Node fr) (count_up x c))"
proof -
  have "main_send (deliver handler_test (Suc f)) 2 (A_Mod 0) name args (ht_second h fr b o1 cur c) =
      ok (ht_second (used h 2 fr) (Suc fr) b o1 (Node fr) (count_up x c))"
    using assms
    by (subst st.send_idle [where k = Ht_Storage and t = "''storage''" and s = 0 and mx = 100 and rc = 2 and cur = cur
          and cs = "[''dummy_supervisor'' \<mapsto> A_Mod 0]" and v = "ht_new c"])
      (simp_all add: ht_second_def hand_def boss_def executor_of_def ht_executor_def counting_spec_def handler_test_def ht_new_simps
        numeral_2_eq_2)
  with assms(4) show ?thesis
    by (simp add: calls_def ht_world_reads [unfolded One_nat_def] require_def sup_address_def addr_ctor_def count_up_same del: deliver.simps)
qed

lemma st_ctor_add_link: "cm_handlers (st_ctor self types) ''add_link'' = Some (add_link self types)"
  "cm_handlers (th_ctor self types) ''add_link'' = Some (add_link self types)"
  by (simp_all add: st_ctor_def th_ctor_def Let_def actor_ctor_handlers)

lemmas ht_eval = ht_executor_def handler_test_def ht_ctor_def ht_enqueue_base_def create_storage_def create_test_handlers_def
  ht_add_actor_def count_sup_def st_ctor_add_link boss_counters_def boss_def hand_def ht_first_def ht_second_def ht_new_def

definition ht_start :: ht_world where
  "ht_start = snd (main_new_sup Ht_Supervisor ''dummy_supervisor'' ht_executor
     (ht_new (count_up ''constructor_counter'' (\<lambda>_. 0))) empty_world)"

lemma first_created:
  "\<exists>h. main_send (deliver handler_test (Suc (Suc f))) 0 addr_empty ''create_test_handlers'' [] ht_start =
     ok (ht_first h 2 (Node 0) (Node 1) th_init) \<and> rest_links h 1"
  by (simp add: ht_eval ht_start_def at_rest_def heap_eval actor_eval message_eval module_eval sup_eval world_eval Let_def count_up_def)

lemma second_created:
  "\<exists>h'. main_send (deliver handler_test (Suc (Suc f))) 0 addr_empty ''create_storage'' [] (ht_first h fr b cur c) =
     ok (ht_second h' (Suc (Suc fr)) (Node fr) (hand Ht_Handlers ''test_handlers'' 1 cur c) (Node (Suc fr)) st_counters) \<and>
     rest_links h' 2"
  by (simp add: ht_eval at_rest_def heap_eval actor_eval message_eval module_eval sup_eval world_eval Let_def count_up_def)

lemma handlers_called:
  assumes "rest_links h 1"
  shows "\<exists>h' fr' cur'. calls_handlers (deliver handler_test (Suc f)) (ht_first h fr b cur th_init) =
    ok (ht_first h' fr' b cur' (fold count_up [''ptr_0_counter'', ''ptr_1_counter'', ''ptr_2_counter'', ''ptr_3_counter'', ''ptr_4_counter''] th_init))"
  using assms
  by (simp add: calls_handlers_def first_call rest_links_used th_table_def builtin_def th_init_def count_up_def del: deliver.simps) blast

lemma storage_called:
  assumes "rest_links h 2"
  shows "\<exists>h' fr' cur'. calls_storage (deliver handler_test (Suc f)) (ht_second h fr b o1 cur st_counters) =
    ok (ht_second h' fr' b o1 cur' (fold count_up [''init_counter'', ''search_counter'', ''add_counter'', ''delete_table_counter'', ''create_table_counter''] st_counters))"
  using assms
  by (simp add: calls_storage_def second_call rest_links_used st_table_def builtin_def st_counters_def count_up_def del: deliver.simps) blast

lemma ht_main_reads:
  "counter ''constructor_counter'' 0 ht_start = 1"
  "counter ''enqueue_base_counter'' 0 (ht_first h fr b cur c) = 1" "counter ''add_actor_impl_counter'' 0 (ht_first h fr b cur c) = 1"
  "actors_count (ht_first h fr b cur c) = 1"
  "counter ''enqueue_base_counter'' 0 (ht_second h fr b o1 cur c) = 2" "counter ''add_actor_impl_counter'' 0 (ht_second h fr b o1 cur c) = 2"
  "actors_count (ht_second h fr b o1 cur c) = 2"
  by (simp_all add: actors_count_def counter_def ht_user_def ht_eval ht_start_def main_new_sup_def new_sup_obj_def empty_world_def
      count_up_def)

text \<open>
  Every \<open>REQUIRE\<close> of the test holds, no message is skipped, and every counter of a handler is 1 at the end.
\<close>

lemma handler_test_passes:
  "\<exists>h fr cur o1 cur'. ht_main (deliver handler_test (Suc (Suc f))) =
     ok (ht_second h fr cur o1 cur'
       (fold count_up [''init_counter'', ''search_counter'', ''add_counter'', ''delete_table_counter'', ''create_table_counter''] st_counters))"
proof -
  obtain h where h: "main_send (deliver handler_test (Suc (Suc f))) 0 addr_empty ''create_test_handlers'' [] ht_start =
      ok (ht_first h 2 (Node 0) (Node 1) th_init)" "rest_links h 1"
    using first_created by blast
  obtain h1 fr1 cur1 c1 where h1: "calls_handlers (deliver handler_test (Suc (Suc f))) (ht_first h 2 (Node 0) (Node 1) th_init) =
      ok (ht_first h1 fr1 (Node 0) cur1 c1)"
    using handlers_called [OF h(2)] by blast
  obtain h2 where h2: "main_send (deliver handler_test (Suc (Suc f))) 0 addr_empty ''create_storage'' [] (ht_first h1 fr1 (Node 0) cur1 c1) =
      ok (ht_second h2 (Suc (Suc fr1)) (Node fr1) (hand Ht_Handlers ''test_handlers'' 1 cur1 c1) (Node (Suc fr1)) st_counters)"
      "rest_links h2 2"
    using second_created by blast
  obtain h3 fr3 cur3 where h3: "calls_storage (deliver handler_test (Suc (Suc f)))
        (ht_second h2 (Suc (Suc fr1)) (Node fr1) (hand Ht_Handlers ''test_handlers'' 1 cur1 c1) (Node (Suc fr1)) st_counters) =
      ok (ht_second h3 fr3 (Node fr1) (hand Ht_Handlers ''test_handlers'' 1 cur1 c1) cur3
        (fold count_up [''init_counter'', ''search_counter'', ''add_counter'', ''delete_table_counter'', ''create_table_counter''] st_counters))"
    using storage_called [OF h2(2)] by blast
  have start: "main_new_sup Ht_Supervisor ''dummy_supervisor'' ht_executor (ht_new (count_up ''constructor_counter'' (\<lambda>_. 0))) empty_world =
      (0, ht_start)"
    by (simp add: ht_start_def main_new_sup_def empty_world_def)
  have reads: "counter ''init_counter'' 1 (ht_first h 2 (Node 0) (Node 1) th_init) = 1"
      "counter ''constructor_counter'' 2 (ht_second h2 (Suc (Suc fr1)) (Node fr1) (hand Ht_Handlers ''test_handlers'' 1 cur1 c1) (Node (Suc fr1)) st_counters) = 1"
    unfolding ht_world_reads by (simp_all add: th_init_def st_counters_def count_up_def)
  show ?thesis
    by (simp only: ht_main_def start prod.case ht_main_reads require_def assert_that_simps and_then_simps h(1) reads simp_thms h1 h2(1) h3) blast
qed

end
