(* ===== verification/Unit_Tests.thy ===== *)
theory Unit_Tests
  imports Handles Message Type_List
begin

text \<open>
  The test programs \<open>test/intrusive_ptr\<close>, \<open>test/message\<close> and \<open>test/metaprogramming\<close>, run on the definitions of the
  code they test: what they require holds.
\<close>

section \<open>Pointers\<close>

text \<open>
  The objects of \<open>class0\<close> and \<open>class1\<close> are numbered in the order they are made; an object of \<open>class1\<close> is a
  subtype. A counter of instances goes up in a constructor and down in a destructor, so it is the number of the
  objects there are.
\<close>

record it_state =
  it_rc :: rc_state
  it_subtype :: "nat \<Rightarrow> bool"
  it_objects :: nat

definition it_start :: it_state where
  "it_start = \<lparr>it_rc = \<lparr>rs_count = (\<lambda>_. None), rs_ptr = (\<lambda>_. None)\<rparr>, it_subtype = (\<lambda>_. False), it_objects = 0\<rparr>"

definition instances :: "bool \<Rightarrow> it_state \<Rightarrow> nat" where
  "instances subtype s =
     length (filter (\<lambda>obj. rs_count (it_rc s) obj \<noteq> None \<and> it_subtype s obj = subtype) [0..<it_objects s])"

definition class0_instances :: "it_state \<Rightarrow> nat" where
  "class0_instances s = instances False s"

definition class1_instances :: "it_state \<Rightarrow> nat" where
  "class1_instances s = instances True s"

definition class0_ctor :: "bool \<Rightarrow> it_state \<Rightarrow> nat \<times> it_state" where
  "class0_ctor subtype s =
     (let obj = it_objects s in
      (obj, s\<lparr>it_rc := rc_new obj (it_rc s), it_subtype := (it_subtype s)(obj := subtype), it_objects := Suc obj\<rparr>))"

definition class1_ctor :: "it_state \<Rightarrow> nat \<times> it_state" where
  "class1_ctor s = class0_ctor True s"

definition on_rc :: "(rc_state \<Rightarrow> rc_state eff) \<Rightarrow> it_state \<Rightarrow> it_state eff" where
  "on_rc f s = and_then (f (it_rc s)) (\<lambda>r. ok (s\<lparr>it_rc := r\<rparr>))"

definition make_counted :: "(it_state \<Rightarrow> nat \<times> it_state) \<Rightarrow> nat \<Rightarrow> it_state \<Rightarrow> it_state eff" where
  "make_counted ctor v s = (case ctor s of (obj, s) \<Rightarrow> on_rc (ptr_raw v (Some obj) False) s)"

definition arrow :: "nat \<Rightarrow> it_state \<Rightarrow> nat eff" where
  "arrow v s = and_then (ptr_get v (it_rc s)) (\<lambda>p. case p of None \<Rightarrow> fail Null_Deref | Some obj \<Rightarrow> ok obj)"

definition unique :: "nat \<Rightarrow> it_state \<Rightarrow> bool eff" where
  "unique v s = and_then (arrow v s) (\<lambda>obj. rc_unique obj (it_rc s))"

definition is_subtype :: "nat \<Rightarrow> it_state \<Rightarrow> bool eff" where
  "is_subtype v s = and_then (arrow v s) (\<lambda>obj. and_then (count_of obj (it_rc s)) (\<lambda>_. ok (it_subtype s obj)))"

text \<open>The virtual \<open>create\<close> makes an object of the class it is called on.\<close>

definition create :: "nat \<Rightarrow> nat \<Rightarrow> it_state \<Rightarrow> it_state eff" where
  "create v t s =
     and_then (is_subtype v s) (\<lambda>sub. if sub then make_counted class1_ctor t s else make_counted (class0_ctor False) t s)"

definition get_test_rc :: "nat \<Rightarrow> it_state \<Rightarrow> it_state eff" where
  "get_test_rc t s = make_counted (class0_ctor False) t s"

definition get_test_ptr :: "nat \<Rightarrow> it_state \<Rightarrow> it_state eff" where
  "get_test_ptr t s = get_test_rc t s"

definition require_that :: "bool eff \<Rightarrow> it_state \<Rightarrow> it_state eff" where
  "require_that e s = and_then e (\<lambda>b. and_then (assert_that b) (\<lambda>_. ok s))"

text \<open>
  The sections. Variable \<open>t\<close> is the temporary a function returns; the elements of the vector are variables, and
  that it moves them when it grows is left out, for a move keeps the counts.
\<close>

definition section_make_counted :: "it_state \<Rightarrow> it_state eff" where
  "section_make_counted s =
     (let p = 0 in
      and_then (make_counted (class0_ctor False) p s) (\<lambda>s.
      and_then (require_that (ok (class0_instances s = 1)) s) (\<lambda>s.
      and_then (require_that (unique p s) s) (\<lambda>s.
      on_rc (ptr_dtor p) s))))"

definition section_reset :: "it_state \<Rightarrow> it_state eff" where
  "section_reset s =
     (let p0 = 0 in
      and_then (on_rc (ptr_null p0) s) (\<lambda>s.
      case class0_ctor False s of (obj, s) \<Rightarrow>
      and_then (on_rc (ptr_reset p0 (Some obj) False) s) (\<lambda>s.
      and_then (require_that (ok (class0_instances s = 1)) s) (\<lambda>s.
      and_then (require_that (unique p0 s) s) (\<lambda>s.
      on_rc (ptr_dtor p0) s)))))"

definition section_get_test_rc :: "it_state \<Rightarrow> it_state eff" where
  "section_get_test_rc s =
     (let p1 = 1; p2 = 2; t = 9 in
      and_then (on_rc (ptr_null p1) s) (\<lambda>s.
      and_then (get_test_rc t s) (\<lambda>s.
      and_then (on_rc (ptr_assign p1 t) s) (\<lambda>s.
      and_then (on_rc (ptr_copy p2 p1) s) (\<lambda>s.
      and_then (require_that (ok (class0_instances s = 1)) s) (\<lambda>s.
      and_then (require_that (and_then (unique p1 s) (\<lambda>b. ok (b = False))) s) (\<lambda>s.
      and_then (on_rc (ptr_dtor p2) s) (\<lambda>s.
      on_rc (ptr_dtor p1) s))))))))"

definition push_back :: "nat \<Rightarrow> nat \<Rightarrow> it_state \<Rightarrow> it_state eff" where
  "push_back e t s = and_then (on_rc (ptr_move e t) s) (on_rc (ptr_dtor t))"

definition section_list :: "it_state \<Rightarrow> it_state eff" where
  "section_list s =
     (let front = 0; t = 9 in
      and_then (get_test_ptr t s) (\<lambda>s.
      and_then (push_back front t s) (\<lambda>s.
      and_then (get_test_rc t s) (\<lambda>s.
      and_then (push_back 1 t s) (\<lambda>s.
      and_then (create front t s) (\<lambda>s.
      and_then (push_back 2 t s) (\<lambda>s.
      and_then (require_that (unique front s) s) (\<lambda>s.
      and_then (require_that (ok (class0_instances s = 3)) s) (\<lambda>s.
      and_then (on_rc (ptr_dtor front) s) (\<lambda>s.
      and_then (on_rc (ptr_dtor 1) s) (\<lambda>s.
      on_rc (ptr_dtor 2) s)))))))))))"

definition section_full_test :: "it_state \<Rightarrow> it_state eff" where
  "section_full_test s =
     (let p1 = 1; p2 = 2; t = 9 in
      and_then (make_counted (class0_ctor False) p1 s) (\<lambda>s.
      and_then (require_that (and_then (is_subtype p1 s) (\<lambda>b. ok (b = False))) s) (\<lambda>s.
      and_then (require_that (unique p1 s) s) (\<lambda>s.
      and_then (require_that (ok (class0_instances s = 1)) s) (\<lambda>s.
      and_then (require_that (ok (class1_instances s = 0)) s) (\<lambda>s.
      case class1_ctor s of (obj, s) \<Rightarrow>
      and_then (on_rc (ptr_reset p1 (Some obj) False) s) (\<lambda>s.
      and_then (require_that (is_subtype p1 s) s) (\<lambda>s.
      and_then (require_that (unique p1 s) s) (\<lambda>s.
      and_then (require_that (ok (class0_instances s = 0)) s) (\<lambda>s.
      and_then (require_that (ok (class1_instances s = 1)) s) (\<lambda>s.
      and_then (make_counted class1_ctor p2 s) (\<lambda>s.
      and_then (on_rc (ptr_upcast t p2) s) (\<lambda>s.
      and_then (on_rc (ptr_assign p1 t) s) (\<lambda>s.
      and_then (require_that (and_then (unique p1 s) (\<lambda>b. ok (b = False))) s) (\<lambda>s.
      and_then (require_that (ok (class0_instances s = 0)) s) (\<lambda>s.
      and_then (require_that (ok (class1_instances s = 1)) s) (\<lambda>s.
      and_then (require_that (and_then (ptr_get p2 (it_rc s)) (\<lambda>q. ptr_eq p1 q (it_rc s))) s) (\<lambda>s.
      and_then (on_rc (ptr_dtor p2) s) (\<lambda>s.
      on_rc (ptr_dtor p1) s)))))))))))))))))))"

definition intrusive_ptr_test :: "it_state \<Rightarrow> it_state eff" where
  "intrusive_ptr_test s =
     and_then (section_make_counted s) (\<lambda>s. and_then (section_reset s) (\<lambda>s. and_then (section_get_test_rc s) (\<lambda>s.
     and_then (section_list s) section_full_test)))"

lemmas it_eval = make_counted_def class0_ctor_def class1_ctor_def on_rc_def arrow_def unique_def is_subtype_def create_def
  get_test_rc_def get_test_ptr_def require_that_def push_back_def class0_instances_def class1_instances_def instances_def
  ptr_raw_def ptr_null_def ptr_get_def ptr_dtor_def ptr_reset_def ptr_assign_def ptr_swap_def ptr_copy_def ptr_move_def
  ptr_detach_def ptr_upcast_def ptr_eq_def set_ptr_def set_var_def set_count_def give_back_def rc_new_def rc_ref_def
  rc_unique_def rc_deref_def fetch_sub_def count_of_def ref_counted_ctor_def

text \<open>The program's counters are global, so the sections run one after the other; at the end no object is left.\<close>

lemma intrusive_ptr_test_passes:
  "\<exists>s. intrusive_ptr_test it_start = ok s \<and> class0_instances s = 0 \<and> class1_instances s = 0"
  by (simp add: intrusive_ptr_test_def section_make_counted_def section_reset_def section_get_test_rc_def section_list_def
      section_full_test_def it_start_def it_eval Let_def)

section \<open>Messages and type lists\<close>

definition message_test :: "unit eff" where
  "message_test =
     (let msg = message_default; msg_1 = message_ctor addr_empty ''1'' (Some (V_Int 1)) in
      and_then (msg_bool msg) (\<lambda>b. and_then (assert_that (b = False)) (\<lambda>_.
      and_then (msg_bool msg_1) (\<lambda>b. and_then (assert_that b) (\<lambda>_.
      and_then (assert_that (m_command msg_1 = ''1'')) (\<lambda>_.
      and_then (msg_body T_Int msg_1) (\<lambda>v. assert_that (v = V_Int 1))))))))"

lemma message_test_passes: "message_test = ok ()"
  by (simp add: message_test_def message_default_def message_ctor_def addr_empty_def msg_bool_def msg_body_def any_cast_def Let_def
      addr_move_ctor_def addr_swap_def)

definition l1 :: "string list" where
  "l1 = [''int'', ''float'', ''string'']"

definition r1 :: "string list" where
  "r1 = [''string'', ''float'', ''int'']"

definition metaprogramming_test :: bool where
  "metaprogramming_test =
     (type_list_at l1 0 = Some ''int'' \<and> type_list_at l1 1 = Some ''float'' \<and> type_list_at l1 2 = Some ''string'' \<and>
      type_list_size l1 = 3 \<and> type_list_size r1 = type_list_size l1 \<and> type_list_at l1 0 = type_list_at r1 2 \<and>
      type_list_at l1 1 = type_list_at r1 1 \<and> type_list_at l1 2 = type_list_at r1 0)"

lemma metaprogramming_test_passes: "metaprogramming_test"
  by (simp add: metaprogramming_test_def l1_def r1_def type_list_size_def type_list_at_def numeral_2_eq_2)

end
