(* ===== verification/Mailbox_Lifetime.thy ===== *)
theory Mailbox_Lifetime
  imports Coop_Actor
begin

text \<open>
  The two ends of a mailbox's life and the iterators of its cache: the remaining operators of
  \<open>intrusive_partitioned_list::iterator\<close>, the destructors of the list and of
  \<open>single_reader_queue\<close>, and what they leave of the heap. An actor's mailbox is a member, so its
  destruction is what happens to the messages an actor never handled.
\<close>

section \<open>The iterator\<close>

text \<open>
  An iterator is the pointer it wraps; the converting constructor is the identity. The postfix
  operators return the old iterator beside the new one.
\<close>

definition iter_ctor :: "ptr \<Rightarrow> ptr" where
  "iter_ctor init = init"

definition iter_post_inc :: "'m heap \<Rightarrow> ptr \<Rightarrow> (ptr \<times> ptr) eff" where
  "iter_post_inc h i = (let res = i in and_then (get_next h i) (\<lambda>i. ok (res, i)))"

definition iter_post_dec :: "'m heap \<Rightarrow> ptr \<Rightarrow> (ptr \<times> ptr) eff" where
  "iter_post_dec h i = (let res = i in and_then (get_prev h i) (\<lambda>i. ok (res, i)))"

definition iter_deref :: "'m heap \<Rightarrow> ptr \<Rightarrow> 'm eff" where
  "iter_deref h i = get_value h i"

definition iter_arrow :: "ptr \<Rightarrow> ptr" where
  "iter_arrow i = i"

definition iter_eq :: "ptr \<Rightarrow> ptr \<Rightarrow> bool" where
  "iter_eq i j \<longleftrightarrow> i = j"

definition iter_neq :: "ptr \<Rightarrow> ptr \<Rightarrow> bool" where
  "iter_neq i j \<longleftrightarrow> i \<noteq> j"

definition iter_next :: "'m heap \<Rightarrow> ptr \<Rightarrow> ptr eff" where
  "iter_next h i = and_then (get_next h i) (\<lambda>p. ok (iter_ctor p))"

text \<open>
  At an element of a partition the iterator is bidirectional: it reads that element, \<open>++\<close> in both
  forms and \<open>next()\<close> lead to the following element or the end of the partition, and \<open>--\<close> from
  there leads back.
\<close>

definition iter_at :: "'m heap \<Rightarrow> nat \<Rightarrow> ptr \<Rightarrow> bool" where
  "iter_at h x n \<longleftrightarrow>
     iter_deref h (Node x) = ok (the (cell h (Node x))) \<and> iter_inc h (Node x) = ok n \<and>
     iter_post_inc h (Node x) = ok (Node x, n) \<and> iter_next h (Node x) = ok n \<and>
     iter_dec h n = ok (Node x) \<and> iter_post_dec h n = ok (n, Node x)"

lemma iter_at_dseg:
  assumes "dseg h p (a @ x # b) r" and "live h r"
  shows "iter_at h x (first_or r b)"
proof -
  have d: "live h (Node x)" "dseg h (Node x) b r"
    using assms(1) by (simp_all add: dseg_append)
  have "live h (first_or r b)" "nxt h (Node x) = first_or r b" "prv h (first_or r b) = Node x"
    using d assms(2) by (cases b; auto dest: dseg_first dseg_last)+
  with d(1) show ?thesis
    by (simp add: iter_at_def iter_deref_def iter_inc_def iter_dec_def iter_post_inc_def
        iter_post_dec_def iter_next_def iter_ctor_def heap_simps)
qed

lemma iterators_walk:
  assumes "plist_rel h q c1 c2"
  shows "c1 = a @ x # b \<Longrightarrow> iter_at h x (first_or (pl_separator q) b)"
    and "c2 = a @ x # b \<Longrightarrow> iter_at h x (first_or (pl_end q) b)"
    and "iter_inc h (pl_separator q) = ok (pl_continuation q h)"
    and "iter_neq (pl_begin q h) (pl_separator q) \<longleftrightarrow> c1 \<noteq> []"
    and "iter_neq (pl_continuation q h) (pl_end q) \<longleftrightarrow> c2 \<noteq> []"
  using assms plist_relD(1,2) [OF assms]
  by (auto simp: plist_rel_def pl_separator_def pl_end_def pl_continuation_def iter_inc_def
      iter_neq_def heap_simps intro: iter_at_dseg)

section \<open>Destructors\<close>

text \<open>\<open>clear()\<close> and \<open>close()\<close> without a functor pass one that does nothing.\<close>

definition nop_functor :: "'m \<Rightarrow> unit \<Rightarrow> unit" where
  "nop_functor v u = u"

definition pl_clear_all :: "nat \<Rightarrow> 'm heap \<Rightarrow> 'm heap eff" where
  "pl_clear_all q h = and_then (pl_clear nop_functor q h ()) (\<lambda>(h, _). ok h)"

text \<open>
  The list's destructor clears it; then its members go, in reverse order of their declaration:
  \<open>tail_\<close>, \<open>separator_\<close>, \<open>head_\<close>. The destructor of a message that links hold does nothing to them.
\<close>

definition pl_members :: "nat \<Rightarrow> ptr list" where
  "pl_members q = [Head_S q, Sep_S q, Tail_S q]"

definition pl_dtor :: "nat \<Rightarrow> 'm heap \<Rightarrow> 'm heap eff" where
  "pl_dtor q h =
     and_then (pl_clear_all q h) (\<lambda>h.
     ok (fold (\<lambda>p h. h\<lparr>cell := (cell h)(p := None)\<rparr>) (rev (pl_members q)) h))"

definition srq_close_all :: "'m heap \<Rightarrow> srq \<Rightarrow> ('m heap \<times> srq) eff" where
  "srq_close_all h s = and_then (close nop_functor h s ()) (\<lambda>(h, s, _). ok (h, s))"

text \<open>
  The destructor of the queue, and the whole destruction of a mailbox: that body, then the member
  \<open>cache_\<close>. The destructor of an actor has an empty body and destroys the member \<open>mailbox_\<close>.
\<close>

definition srq_dtor :: "'m heap \<Rightarrow> srq \<Rightarrow> ('m heap \<times> srq) eff" where
  "srq_dtor h s = (if \<not> closed s then srq_close_all h s else ok (h, s))"

definition mailbox_dtor :: "'m heap \<Rightarrow> srq \<Rightarrow> 'm heap eff" where
  "mailbox_dtor h s = and_then (srq_dtor h s) (\<lambda>(h, s). pl_dtor (q_this s) h)"

definition coop_dtor :: "('m, 'e) act \<Rightarrow> 'm heap eff" where
  "coop_dtor s = mailbox_dtor (a_heap s) (a_mbox s)"

section \<open>What is left\<close>

text \<open>
  \<open>ended_lives h q xs h'\<close>: from \<open>h\<close> to \<open>h'\<close> exactly the messages \<open>xs\<close> and the sentinels of the
  mailbox \<open>q\<close> ceased to exist.
\<close>

definition ended_lives :: "'m heap \<Rightarrow> nat \<Rightarrow> nat list \<Rightarrow> 'm heap \<Rightarrow> bool" where
  "ended_lives h q xs h' \<longleftrightarrow>
     (\<forall>p. cell h' p = (if p \<in> Node ` set xs \<union> set (pl_members q) then None else cell h p))"

lemma nop_functor_fold [simp]: "fold (\<lambda>x. nop_functor (v x)) xs u = u"
  by (induction xs) (simp_all add: nop_functor_def)

lemma pl_dtor_ok:
  assumes "plist_rel h q c1 c2"
  shows "\<exists>h'. pl_dtor q h = ok h' \<and> ended_lives h q (c1 @ c2) h'"
  using pl_clear_ok(1) [OF assms, of nop_functor "()"]
  by (auto simp: pl_dtor_def pl_clear_all_def pl_members_def free_nodes_def ended_lives_def)

text \<open>\<open>close\<close> does not move the queue.\<close>

lemma fetch_new_data_this: "fetch_new_data h s e = ok (b, h', s') \<Longrightarrow> q_this s' = q_this s"
  by (auto simp: fetch_new_data_def and_then_ok_iff Let_def split: if_splits)

lemma same_this: "s\<lparr>q_head := p\<rparr> = t\<lparr>q_head := p\<rparr> \<Longrightarrow> q_this s = q_this t"
  by (cases s; cases t; simp)

lemma close_this: "close f h s st = ok (h', s', st') \<Longrightarrow> q_this s' = q_this s"
  by (auto simp: close_def and_then_ok_iff Let_def dest!: fetch_new_data_this same_this split: if_splits prod.splits)

lemma close_frees:
  assumes "mailbox h s m p c1 c2" and "m \<noteq> Closed"
  shows "\<exists>h' s'. srq_close_all h s = ok (h', s') \<and> plist_rel h' (q_this s) [] [] \<and>
           cell h' = cell (free_nodes h (p @ c1 @ c2))"
proof -
  obtain hs ss where r: "mbox_rel h s m hs ss c1 c2" "p = hs @ rev ss"
    using assms(1) by (auto simp: mailbox_def)
  obtain h' s' n where c: "close nop_functor h s () = ok (h', s', ())"
      "mbox_rel h' s' n [] [] [] []" "cell h' = cell (free_nodes h (p @ c1 @ c2))"
  proof (cases m)
    case Ready
    with r close_ready [of h s hs ss c1 c2 nop_functor "()"] that show ?thesis by auto
  next
    case Blocked
    with r have "ss = []"
      using stack_rel_mode(4) [OF mbox_relD(2) [OF r(1)]] by auto
    with Blocked r close_blocked [of h s hs c1 c2 nop_functor "()"] that show ?thesis by auto
  qed (use assms(2) in simp)
  have "plist_rel h' (q_this s) [] []"
    using mbox_relD(3) [OF c(2)] close_this [OF c(1)] by simp
  with c show ?thesis
    by (simp add: srq_close_all_def)
qed

text \<open>
  A mailbox in any mode, whatever is pending and cached: its destruction runs without a fault and
  ends the lives of exactly its messages and its three sentinels, each once (a second deletion
  would be a fault). Nothing is leaked, also when the reader was blocked and \<open>close\<close> therefore
  left the queue open, or when it was closed before and the cache was filled since.
\<close>

lemma mailbox_dtor_ok:
  assumes "mailbox h s m p c1 c2" and "m = Closed \<longrightarrow> p = []"
  shows "\<exists>h'. mailbox_dtor h s = ok h' \<and> ended_lives h (q_this s) (p @ c1 @ c2) h'"
proof (cases "m = Closed")
  case True
  then have "closed s" "p = []"
    using assms mailbox_modes(1) [OF assms(1)] by simp_all
  with pl_dtor_ok [OF mailbox_plist [OF assms(1)]] show ?thesis
    by (simp add: mailbox_dtor_def srq_dtor_def)
next
  case False
  obtain h1 s1 where c: "srq_close_all h s = ok (h1, s1)" "plist_rel h1 (q_this s) [] []"
      "cell h1 = cell (free_nodes h (p @ c1 @ c2))"
    using close_frees [OF assms(1) False] by blast
  then have "q_this s1 = q_this s"
    by (auto simp: srq_close_all_def and_then_ok_iff dest: close_this)
  moreover obtain h2 where "pl_dtor (q_this s) h1 = ok h2" "ended_lives h1 (q_this s) [] h2"
    using pl_dtor_ok [OF c(2)] by auto
  moreover have "\<not> closed s"
    using False mailbox_modes(1) [OF assms(1)] by simp
  ultimately show ?thesis
    using c(1,3) by (auto simp: mailbox_dtor_def srq_dtor_def ended_lives_def free_nodes_def)
qed

text \<open>
  From the constructor to the destructor: a mailbox made in free memory, filled with messages and
  destroyed leaves the heap it was made in, without the messages it was given.
\<close>

lemma put_all_kept:
  assumes "mailbox h s Ready xs c1 c2" and "\<forall>y \<in> set ys. live h (Node y) \<and> y \<notin> set c1 \<union> set c2"
    and "distinct (xs @ ys)"
  shows "\<exists>h' s'. put_all mailbox_put ys (h, s) = ok (h', s') \<and> mailbox h' s' Ready (xs @ ys) c1 c2 \<and>
           cell h' = cell h \<and> q_this s' = q_this s"
  using assms
proof (induction ys arbitrary: h s xs)
  case (Cons y ys)
  obtain h1 s1 where e: "enqueue h s (Node y) = ok (Success, h1, s1)" "mailbox h1 s1 Ready (xs @ [y]) c1 c2"
      "cell h1 = cell h" "q_this s1 = q_this s"
    using mailbox_enqueue [OF Cons.prems(1), of y] Cons.prems(2,3) by auto
  then show ?case
    using Cons.IH [of h1 s1 "xs @ [y]"] Cons.prems(2,3) by (auto simp: mailbox_put_def live_def)
qed simp

lemma mailbox_life:
  assumes "\<forall>y \<in> set ys. live h (Node y)" and "distinct ys" and "\<forall>p \<in> set (pl_members q). cell h p = None"
  shows "\<exists>h1 s1 h2. put_all mailbox_put ys (pl_ctor q d h, srq_ctor q) = ok (h1, s1) \<and>
           mailbox_dtor h1 s1 = ok h2 \<and> cell h2 = cell (free_nodes h ys)"
proof -
  have "\<forall>y \<in> set ys. live (pl_ctor q d h) (Node y)"
    using assms(1) by (simp add: pl_ctor_def live_def)
  then obtain h1 s1 where p: "put_all mailbox_put ys (pl_ctor q d h, srq_ctor q) = ok (h1, s1)"
      "mailbox h1 s1 Ready ys [] []" "cell h1 = cell (pl_ctor q d h)" "q_this s1 = q"
    using put_all_kept [OF mailbox_init, of ys q d h] assms(2) by (auto simp: srq_ctor_def)
  obtain h2 where "mailbox_dtor h1 s1 = ok h2" "ended_lives h1 q ys h2"
    using mailbox_dtor_ok [OF p(2)] p(4) by auto
  moreover have "cell h2 r = cell (free_nodes h ys) r" for r
    using calculation(2) p(3) assms(3)
    by (cases "r \<in> set (pl_members q)")
      (auto simp: ended_lives_def free_nodes_def pl_ctor_def pl_members_def)
  ultimately show ?thesis
    using p(1) by blast
qed

lemma coop_dtor_ok:
  "holds s m p c1 c2 \<Longrightarrow> m = Closed \<longrightarrow> p = [] \<Longrightarrow>
     \<exists>h'. coop_dtor s = ok h' \<and> ended_lives (a_heap s) (q_this (a_mbox s)) (p @ c1 @ c2) h'"
  by (simp add: coop_dtor_def holds_def mailbox_dtor_ok)

section \<open>Property\<close>

text \<open>
  C16. The destruction of a mailbox, in any mode and whatever it holds, runs without a fault and ends the
  lives of exactly its messages, pending or cached, and of its three sentinels: nothing else is
  touched, nothing is leaked and nothing is deleted twice.
\<close>

theorem mailbox_destroyed:
  assumes "mailbox h s m p c1 c2" and "m = Closed \<longrightarrow> p = []"
  shows "\<exists>h'. mailbox_dtor h s = ok h' \<and>
           (\<forall>r. cell h' r =
             (if r \<in> Node ` set (p @ c1 @ c2) \<union> {Head_S (q_this s), Sep_S (q_this s), Tail_S (q_this s)}
              then None else cell h r))"
  using mailbox_dtor_ok [OF assms] by (simp add: ended_lives_def pl_members_def)

lemma mailbox_destroyed_witness:
  "\<exists>h s h'. put_all mailbox_put [6, 5] (pl_ctor 0 0 (new_node (new_node (new_node empty_heap 5 50) 6 60) 7 70),
       srq_ctor 0) = ok (h, s) \<and>
     mailbox_dtor h s = ok h' \<and> cell h' (Node 5) = None \<and> cell h' (Node 6) = None \<and>
     cell h' (Node 7) = Some (70 :: nat) \<and> cell h' (Sep_S 0) = None"
proof -
  let ?h = "new_node (new_node (new_node empty_heap 5 50) 6 60) 7 (70 :: nat)"
  obtain h s where s: "put_all mailbox_put [6, 5] (pl_ctor 0 0 ?h, srq_ctor 0) = ok (h, s)"
      "mailbox h s Ready [6, 5] [] []" "cell h = cell (pl_ctor 0 0 ?h)" "q_this s = 0"
    using put_all_kept [OF mailbox_init, of "[6, 5]" 0 0 ?h]
    by (auto simp: srq_ctor_def new_node_def pl_ctor_def live_def)
  show ?thesis
    using mailbox_destroyed [OF s(2)] s(1,3,4) by (auto simp: pl_ctor_def new_node_def)
qed

end
