(* ===== verification/Await_Conc.thy ===== *)
theory Await_Conc
  imports Reader_Queue
begin

text \<open>
  The synchronized access of \<open>single_reader_queue\<close>: one thread in \<open>synchronized_await\<close>, with or without
  a timeout, and any number of threads in \<open>synchronized_enqueue\<close>, on one mutex and one condition variable.
  A step of a thread is one operation on the queue, on the mutex or on the condition variable; operations
  of the queue are single steps by the linearizability proved in \<open>Reader_Queue_Conc\<close>. No wake-up is lost:
  once a message is there, the reader returns.
\<close>

section \<open>State\<close>

text \<open>
  The reader: before the assertion and \<open>can_fetch_more\<close>, before \<open>try_block\<close>, before the lock, before a
  test of \<open>blocked\<close> with the lock held, asleep on the condition variable, woken and about to take the lock
  again, the same after a timeout, before \<open>try_unblock\<close> with the lock held, returned (the version without
  a timeout returns nothing; it is at \<open>R_Done True\<close>).
\<close>

datatype awaiting =
    R_Start
  | R_Try
  | R_Lock
  | R_Check
  | R_Wait
  | R_Woken
  | R_Timeout
  | R_Unblock
  | R_Done bool

text \<open>
  A producer: before \<open>enqueue\<close> of its message, before the lock, before \<open>notify_one\<close>, before the unlock,
  returned.
\<close>

datatype producing = P_Enqueue nat | P_Lock | P_Notify | P_Unlock | P_Done bool

record 'm synchronized =
  sy_heap :: "'m heap"
  sy_mbox :: srq
  sy_locked :: bool
  sy_reader :: awaiting
  sy_producers :: "producing list"

section \<open>The code\<close>

text \<open>One step of \<open>synchronized_await\<close>; \<open>None\<close> when the thread has to wait.\<close>

definition await_step :: "'m synchronized \<Rightarrow> 'm synchronized eff" where
  "await_step y =
     (case sy_reader y of
        R_Start \<Rightarrow>
          and_then (assert_that (\<not> closed (sy_mbox y))) (\<lambda>_.
          and_then (can_fetch_more (sy_mbox y)) (\<lambda>more.
          ok (y\<lparr>sy_reader := if more then R_Done True else R_Try\<rparr>)))
      | R_Try \<Rightarrow>
          (case try_block (sy_mbox y) of (b, s) \<Rightarrow>
             ok (y\<lparr>sy_mbox := s, sy_reader := if b then R_Lock else R_Done True\<rparr>))
      | R_Lock \<Rightarrow> if sy_locked y then None else ok (y\<lparr>sy_locked := True, sy_reader := R_Check\<rparr>)
      | R_Check \<Rightarrow>
          ok (y\<lparr>sy_locked := False, sy_reader := if blocked (sy_mbox y) then R_Wait else R_Done True\<rparr>)
      | R_Wait \<Rightarrow> None
      | R_Woken \<Rightarrow> if sy_locked y then None else ok (y\<lparr>sy_locked := True, sy_reader := R_Check\<rparr>)
      | R_Timeout \<Rightarrow> if sy_locked y then None else ok (y\<lparr>sy_locked := True, sy_reader := R_Unblock\<rparr>)
      | R_Unblock \<Rightarrow>
          (case try_unblock (sy_mbox y) of (b, s) \<Rightarrow>
             ok (y\<lparr>sy_mbox := s, sy_locked := False, sy_reader := R_Done (\<not> b)\<rparr>))
      | R_Done _ \<Rightarrow> None)"

text \<open>\<open>notify_one\<close>: the reader is the only one that ever waits.\<close>

definition notify_reader :: "'m synchronized \<Rightarrow> 'm synchronized" where
  "notify_reader y = (if sy_reader y = R_Wait then y\<lparr>sy_reader := R_Woken\<rparr> else y)"

definition at_producer :: "nat \<Rightarrow> producing \<Rightarrow> 'm synchronized \<Rightarrow> 'm synchronized" where
  "at_producer i p y = y\<lparr>sy_producers := (sy_producers y)[i := p]\<rparr>"

text \<open>One step of \<open>synchronized_enqueue\<close>, the switch over the result of \<open>enqueue\<close> included.\<close>

definition synchronized_enqueue_step :: "nat \<Rightarrow> 'm synchronized \<Rightarrow> 'm synchronized eff" where
  "synchronized_enqueue_step i y =
     (case sy_producers y ! i of
        P_Enqueue x \<Rightarrow>
          and_then (enqueue (sy_heap y) (sy_mbox y) (Node x)) (\<lambda>(r, h, s).
          ok (at_producer i
                (case r of Unblocked_Reader \<Rightarrow> P_Lock | Success \<Rightarrow> P_Done True | Queue_Closed \<Rightarrow> P_Done False)
                (y\<lparr>sy_heap := h, sy_mbox := s\<rparr>)))
      | P_Lock \<Rightarrow> if sy_locked y then None else ok (at_producer i P_Notify (y\<lparr>sy_locked := True\<rparr>))
      | P_Notify \<Rightarrow> ok (at_producer i P_Unlock (notify_reader y))
      | P_Unlock \<Rightarrow> ok (at_producer i (P_Done True) (y\<lparr>sy_locked := False\<rparr>))
      | P_Done _ \<Rightarrow> None)"

section \<open>Schedules\<close>

text \<open>
  The steps of the program, and its moves: the condition variable may also wake the reader for no reason,
  and tell it, asleep or woken, that the timeout has passed.
\<close>

inductive sync_step :: "'m synchronized \<Rightarrow> 'm synchronized \<Rightarrow> bool" where
  reads: "await_step y = ok z \<Longrightarrow> sync_step y z"
| writes: "i < length (sy_producers y) \<Longrightarrow> synchronized_enqueue_step i y = ok z \<Longrightarrow> sync_step y z"

inductive sync_move :: "bool \<Rightarrow> 'm synchronized \<Rightarrow> 'm synchronized \<Rightarrow> bool" for timed where
  steps: "sync_step y z \<Longrightarrow> sync_move timed y z"
| spurious: "sy_reader y = R_Wait \<Longrightarrow> sync_move timed y (y\<lparr>sy_reader := R_Woken\<rparr>)"
| times_out: "timed \<Longrightarrow> sy_reader y \<in> {R_Wait, R_Woken} \<Longrightarrow> sync_move timed y (y\<lparr>sy_reader := R_Timeout\<rparr>)"

definition sync_start :: "'m heap \<Rightarrow> srq \<Rightarrow> nat list \<Rightarrow> 'm synchronized" where
  "sync_start h s xs =
     \<lparr>sy_heap = h, sy_mbox = s, sy_locked = False, sy_reader = R_Start, sy_producers = map P_Enqueue xs\<rparr>"

section \<open>Invariant\<close>

fun to_come :: "producing \<Rightarrow> nat list" where
  "to_come (P_Enqueue x) = [x]"
| "to_come _ = []"

definition reader_holds :: "awaiting \<Rightarrow> nat" where
  "reader_holds r = (if r \<in> {R_Check, R_Unblock} then 1 else 0)"

definition producer_holds :: "producing \<Rightarrow> nat" where
  "producer_holds p = (if p \<in> {P_Notify, P_Unlock} then 1 else 0)"

lemma producer_holds_simps [simp]:
  "producer_holds (P_Enqueue x) = 0" "producer_holds P_Lock = 0" "producer_holds P_Notify = 1"
  "producer_holds P_Unlock = 1" "producer_holds (P_Done b) = 0"
  by (simp_all add: producer_holds_def)

definition lock_ok :: "'m synchronized \<Rightarrow> bool" where
  "lock_ok y \<longleftrightarrow>
     reader_holds (sy_reader y) + sum_list (map producer_holds (sy_producers y)) = (if sy_locked y then 1 else 0)"

definition mail_ok :: "nat list \<Rightarrow> nat list \<Rightarrow> nat list \<Rightarrow> qmode \<Rightarrow> nat list \<Rightarrow> 'm synchronized \<Rightarrow> bool" where
  "mail_ok hs c1 c2 m ss y \<longleftrightarrow>
     mbox_rel (sy_heap y) (sy_mbox y) m hs ss c1 c2 \<and> m \<noteq> Closed \<and>
     (\<forall>x \<in> set (concat (map to_come (sy_producers y))). live (sy_heap y) (Node x)) \<and>
     distinct (concat (map to_come (sy_producers y)) @ hs @ ss @ c1 @ c2) \<and>
     P_Done False \<notin> set (sy_producers y)"

text \<open>Where the reader can be, given the mode and the messages; who will wake it.\<close>

definition reader_ok :: "bool \<Rightarrow> nat list \<Rightarrow> qmode \<Rightarrow> nat list \<Rightarrow> awaiting \<Rightarrow> producing list \<Rightarrow> bool" where
  "reader_ok timed hs m ss r ps \<longleftrightarrow>
     (case r of
        R_Start \<Rightarrow> m = Ready
      | R_Try \<Rightarrow> m = Ready \<and> hs = []
      | R_Done b \<Rightarrow> m = Ready \<and> (b \<longrightarrow> hs @ rev ss \<noteq> []) \<and> (\<not> b \<longrightarrow> timed)
      | R_Wait \<Rightarrow> hs = [] \<and> (m = Ready \<longrightarrow> ss \<noteq> [] \<and> (P_Lock \<in> set ps \<or> P_Notify \<in> set ps))
      | R_Timeout \<Rightarrow> timed \<and> hs = [] \<and> (m = Ready \<longrightarrow> ss \<noteq> [])
      | R_Unblock \<Rightarrow> timed \<and> hs = [] \<and> (m = Ready \<longrightarrow> ss \<noteq> [])
      | _ \<Rightarrow> hs = [] \<and> (m = Ready \<longrightarrow> ss \<noteq> []))"

definition sync_inv :: "bool \<Rightarrow> nat list \<Rightarrow> nat list \<Rightarrow> nat list \<Rightarrow> 'm synchronized \<Rightarrow> bool" where
  "sync_inv timed hs c1 c2 y \<longleftrightarrow>
     lock_ok y \<and> (\<exists>m ss. mail_ok hs c1 c2 m ss y \<and> reader_ok timed hs m ss (sy_reader y) (sy_producers y))"

lemma sync_invI:
  "lock_ok y \<Longrightarrow> mail_ok hs c1 c2 m ss y \<Longrightarrow> reader_ok timed hs m ss (sy_reader y) (sy_producers y) \<Longrightarrow>
     sync_inv timed hs c1 c2 y"
  by (auto simp: sync_inv_def)

lemma sync_invE:
  assumes "sync_inv timed hs c1 c2 y"
  obtains m ss where "lock_ok y" "mail_ok hs c1 c2 m ss y" "reader_ok timed hs m ss (sy_reader y) (sy_producers y)"
  using assms by (auto simp: sync_inv_def)

text \<open>The operations of the queue, as the invariant sees them.\<close>

lemma mail_ok_try_block:
  assumes "mail_ok hs c1 c2 m ss y" and "try_block (sy_mbox y) = (b, s)"
  shows "b \<longleftrightarrow> m = Ready \<and> ss = []" and "mail_ok hs c1 c2 (if b then Blocked else m) ss (y\<lparr>sy_mbox := s\<rparr>)"
  using assms try_block_rel(1,2) [of "sy_heap y" "sy_mbox y" m hs ss c1 c2]
  by (auto simp: mail_ok_def split: if_splits)

lemma mail_ok_try_unblock:
  assumes "mail_ok hs c1 c2 m ss y" and "try_unblock (sy_mbox y) = (b, s)"
  shows "b \<longleftrightarrow> m = Blocked" and "mail_ok hs c1 c2 Ready ss (y\<lparr>sy_mbox := s\<rparr>)"
  using assms try_unblock_rel(1,2) [of "sy_heap y" "sy_mbox y" m hs ss c1 c2]
  by (cases m; auto simp: mail_ok_def)+

lemma mail_ok_reads:
  assumes "mail_ok hs c1 c2 m ss y"
  shows "\<not> closed (sy_mbox y)" and "blocked (sy_mbox y) \<longleftrightarrow> m = Blocked"
    and "can_fetch_more (sy_mbox y) = ok (hs @ rev ss \<noteq> [])" and "m = Ready \<or> m = Blocked" and "m = Blocked \<Longrightarrow> ss = []"
  using assms can_fetch_more_rel [of "sy_heap y" "sy_mbox y" m hs ss c1 c2] stack_rel_mode(4) mbox_relD(2)
  by (cases m; fastforce simp: mail_ok_def mbox_mode)+

lemma mail_ok_fields [simp]:
  "mail_ok hs c1 c2 m ss (y\<lparr>sy_reader := r\<rparr>) = mail_ok hs c1 c2 m ss y"
  "mail_ok hs c1 c2 m ss (y\<lparr>sy_locked := l\<rparr>) = mail_ok hs c1 c2 m ss y"
  by (simp_all add: mail_ok_def)

text \<open>The reader's steps and the moves of the condition variable.\<close>

lemma await_step_inv:
  assumes "sync_inv timed hs c1 c2 y" and "await_step y = ok z"
  shows "sync_inv timed hs c1 c2 z"
proof -
  obtain m ss where i: "lock_ok y" "mail_ok hs c1 c2 m ss y" "reader_ok timed hs m ss (sy_reader y) (sy_producers y)"
    using assms(1) by (rule sync_invE)
  note r = mail_ok_reads [OF i(2)]
  obtain b s where b: "try_block (sy_mbox y) = (b, s)"
    by force
  obtain u t where u: "try_unblock (sy_mbox y) = (u, t)"
    by force
  note d = await_step_def lock_ok_def reader_ok_def reader_holds_def
  show ?thesis
  proof (cases "sy_reader y")
    case R_Try
    with i b assms(2) mail_ok_try_block [OF i(2) b] show ?thesis
      by (intro sync_invI [where m = "if b then Blocked else m" and ss = ss]) (auto simp: d)
  next
    case R_Unblock
    with i u assms(2) mail_ok_try_unblock [OF i(2) u] r(4) show ?thesis
      by (intro sync_invI [where m = Ready and ss = ss]) (auto simp: d split: if_splits)
  qed (rule sync_invI [where m = m and ss = ss]; use i r assms(2) in \<open>auto simp: d split: if_splits\<close>)+
qed

lemma reader_moves_inv:
  assumes "sync_inv timed hs c1 c2 y" and "sy_reader y \<in> {R_Wait, R_Woken}" and "r \<in> {R_Woken, R_Timeout}"
    and "r = R_Timeout \<Longrightarrow> timed"
  shows "sync_inv timed hs c1 c2 (y\<lparr>sy_reader := r\<rparr>)"
proof -
  obtain m ss where i: "lock_ok y" "mail_ok hs c1 c2 m ss y" "reader_ok timed hs m ss (sy_reader y) (sy_producers y)"
    using assms(1) by (rule sync_invE)
  have "lock_ok (y\<lparr>sy_reader := r\<rparr>)"
    using i(1) assms(2,3) by (auto simp: lock_ok_def reader_holds_def)
  moreover have "reader_ok timed hs m ss r (sy_producers y)"
    using i(3) assms(2-) by (auto simp: reader_ok_def)
  ultimately show ?thesis
    using i(2) by (intro sync_invI) simp_all
qed

text \<open>The producers' steps.\<close>

lemma enqueue_step_inv:
  assumes "sync_inv timed hs c1 c2 y" and "i < length (sy_producers y)" and "synchronized_enqueue_step i y = ok z"
  shows "sync_inv timed hs c1 c2 z"
proof -
  obtain us p vs where t: "sy_producers y = us @ p # vs" "i = length us"
    using split_at_thread [OF assms(2)] by metis
  obtain m ss where i: "lock_ok y" "mail_ok hs c1 c2 m ss y" "reader_ok timed hs m ss (sy_reader y) (sy_producers y)"
    using assms(1) by (rule sync_invE)
  note d = synchronized_enqueue_step_def at_producer_def lock_ok_def t
  show ?thesis
  proof (cases p)
    case (P_Enqueue x)
    have x: "mbox_rel (sy_heap y) (sy_mbox y) m hs ss c1 c2" "m \<noteq> Closed" "live (sy_heap y) (Node x)"
        "x \<notin> set hs \<union> set ss \<union> set c1 \<union> set c2"
      using i(2) P_Enqueue by (auto simp: mail_ok_def t)
    obtain h s where e: "enqueue (sy_heap y) (sy_mbox y) (Node x) =
          ok (if m = Blocked then Unblocked_Reader else Success, h, s)"
        "mbox_rel h s Ready hs (x # ss) c1 c2" "cell h = cell (sy_heap y)"
      using enqueue_rel [OF x] by blast
    define q where "q = (if m = Blocked then P_Lock else P_Done True)"
    have z: "z = y\<lparr>sy_heap := h, sy_mbox := s, sy_producers := us @ q # vs\<rparr>"
      using assms(3) e(1) P_Enqueue by (simp add: d q_def split: if_splits)
    have "mail_ok hs c1 c2 Ready (x # ss) z"
      using i(2) P_Enqueue e(2,3) by (auto simp: z mail_ok_def live_def t q_def)
    moreover have "lock_ok z"
      using i(1) P_Enqueue by (cases "sy_locked y") (auto simp: z d q_def)
    moreover have "m = Ready \<or> m = Blocked"
      using mail_ok_reads(4) [OF i(2)] .
    then have "reader_ok timed hs Ready (x # ss) (sy_reader z) (sy_producers z)"
      using i(3) P_Enqueue by (cases "sy_reader y") (auto simp: z reader_ok_def t q_def)
    ultimately show ?thesis
      by (intro sync_invI)
  next
    case P_Notify
    then have z: "z = notify_reader y\<lparr>sy_producers := us @ P_Unlock # vs\<rparr>"
      using assms(3) by (simp add: d notify_reader_def split: if_splits)
    have "mail_ok hs c1 c2 m ss z"
      using i(2) P_Notify by (auto simp: z notify_reader_def mail_ok_def t)
    moreover have "lock_ok z"
      using i(1) P_Notify by (auto simp: z notify_reader_def d reader_holds_def split: if_splits)
    moreover have "reader_ok timed hs m ss (sy_reader z) (sy_producers z)"
      using i(3) P_Notify by (cases "sy_reader y") (auto simp: z notify_reader_def reader_ok_def t)
    ultimately show ?thesis
      by (intro sync_invI)
  next
    case P_Lock
    then have z: "z = y\<lparr>sy_locked := True, sy_producers := us @ P_Notify # vs\<rparr>" "\<not> sy_locked y"
      using assms(3) by (simp_all add: d split: if_splits)
    have "mail_ok hs c1 c2 m ss z"
      using i(2) P_Lock by (auto simp: z mail_ok_def t)
    moreover have "lock_ok z"
      using i(1) P_Lock z(2) by (simp add: z(1) d)
    moreover have "reader_ok timed hs m ss (sy_reader z) (sy_producers z)"
      using i(3) P_Lock by (cases "sy_reader y") (auto simp: z reader_ok_def t)
    ultimately show ?thesis
      by (intro sync_invI)
  next
    case P_Unlock
    then have z: "z = y\<lparr>sy_locked := False, sy_producers := us @ P_Done True # vs\<rparr>"
      using assms(3) by (simp add: d)
    have "mail_ok hs c1 c2 m ss z"
      using i(2) P_Unlock by (auto simp: z mail_ok_def t)
    moreover have "lock_ok z"
      using i(1) P_Unlock by (simp add: z d split: if_splits)
    moreover have "reader_ok timed hs m ss (sy_reader z) (sy_producers z)"
      using i(3) P_Unlock by (cases "sy_reader y") (auto simp: z reader_ok_def t)
    ultimately show ?thesis
      by (intro sync_invI)
  qed (use assms(3) in \<open>simp add: d\<close>)
qed

lemma sync_step_inv: "sync_step y z \<Longrightarrow> sync_inv timed hs c1 c2 y \<Longrightarrow> sync_inv timed hs c1 c2 z"
  by (erule sync_step.cases) (auto intro: await_step_inv enqueue_step_inv)

lemma sync_move_inv: "sync_move timed y z \<Longrightarrow> sync_inv timed hs c1 c2 y \<Longrightarrow> sync_inv timed hs c1 c2 z"
  by (erule sync_move.cases) (auto intro: sync_step_inv reader_moves_inv)

lemma sync_moves_inv: "(sync_move timed)\<^sup>*\<^sup>* y z \<Longrightarrow> sync_inv timed hs c1 c2 y \<Longrightarrow> sync_inv timed hs c1 c2 z"
  by (induction rule: rtranclp_induct) (auto intro: sync_move_inv)

lemma sync_start_inv:
  assumes "mbox_rel h s Ready hs ss c1 c2" and "\<forall>x \<in> set xs. live h (Node x)" and "distinct (xs @ hs @ ss @ c1 @ c2)"
  shows "sync_inv timed hs c1 c2 (sync_start h s xs)"
proof -
  have "concat (map to_come (map P_Enqueue xs)) = xs" "sum_list (map producer_holds (map P_Enqueue xs)) = 0"
    by (induction xs) (simp_all add: producer_holds_def)
  with assms show ?thesis
    by (auto simp: sync_inv_def sync_start_def lock_ok_def mail_ok_def reader_ok_def reader_holds_def)
qed

section \<open>Returning\<close>

text \<open>How many moves the threads have left once the reader is sure to find a message.\<close>

fun reader_left :: "awaiting \<Rightarrow> nat" where
  "reader_left R_Start = 7"
| "reader_left R_Try = 6"
| "reader_left R_Lock = 6"
| "reader_left R_Wait = 5"
| "reader_left R_Woken = 4"
| "reader_left R_Timeout = 3"
| "reader_left R_Check = 2"
| "reader_left R_Unblock = 2"
| "reader_left (R_Done _) = 0"

fun producer_left :: "producing \<Rightarrow> nat" where
  "producer_left (P_Enqueue _) = 4"
| "producer_left P_Lock = 3"
| "producer_left P_Notify = 2"
| "producer_left P_Unlock = 1"
| "producer_left (P_Done _) = 0"

definition sync_rank :: "'m synchronized \<Rightarrow> nat" where
  "sync_rank y = reader_left (sy_reader y) + sum_list (map producer_left (sy_producers y))"

text \<open>The reader is sure to return: a message is there, or its timeout has passed.\<close>

definition message_there :: "'m synchronized \<Rightarrow> bool" where
  "message_there y \<longleftrightarrow> can_fetch_more (sy_mbox y) = ok True"

definition settled :: "'m synchronized \<Rightarrow> bool" where
  "settled y \<longleftrightarrow> message_there y \<or> sy_reader y \<in> {R_Timeout, R_Unblock, R_Done True, R_Done False}"

text \<open>It will return true.\<close>

definition sure :: "'m synchronized \<Rightarrow> bool" where
  "sure y \<longleftrightarrow> message_there y \<and> sy_reader y \<noteq> R_Done False"

lemma there_iff: "mail_ok hs c1 c2 m ss y \<Longrightarrow> message_there y \<longleftrightarrow> hs @ rev ss \<noteq> []"
  using mail_ok_reads(3) by (fastforce simp: message_there_def)

lemma there_fields [simp]:
  "message_there (y\<lparr>sy_reader := r\<rparr>) = message_there y"
  "message_there (y\<lparr>sy_locked := l\<rparr>) = message_there y"
  by (simp_all add: message_there_def)

lemma await_step_settled:
  assumes "sync_inv timed hs c1 c2 y" and "settled y" and "await_step y = ok z"
  shows "settled z \<and> sync_rank z < sync_rank y \<and> (sure y \<longrightarrow> sure z)"
proof -
  obtain m ss where i: "lock_ok y" "mail_ok hs c1 c2 m ss y" "reader_ok timed hs m ss (sy_reader y) (sy_producers y)"
    using assms(1) by (rule sync_invE)
  note r = mail_ok_reads [OF i(2)]
  obtain b s where b: "try_block (sy_mbox y) = (b, s)"
    by force
  obtain u t where u: "try_unblock (sy_mbox y) = (u, t)"
    by force
  note d = await_step_def settled_def sure_def sync_rank_def reader_ok_def there_iff [OF i(2)]
  show ?thesis
  proof (cases "sy_reader y")
    case R_Try
    with i b assms mail_ok_try_block [OF i(2) b] there_iff [OF mail_ok_try_block(2) [OF i(2) b]] show ?thesis
      by (auto simp: d)
  next
    case R_Unblock
    with i u r(5) assms mail_ok_try_unblock [OF i(2) u] there_iff [OF mail_ok_try_unblock(2) [OF i(2) u]] show ?thesis
      by (auto simp: d)
  qed (use i r assms(2,3) in \<open>auto simp: d split: if_splits\<close>)
qed

lemma enqueue_step_settled:
  assumes "sync_inv timed hs c1 c2 y" and "settled y"
    and "i < length (sy_producers y)" and "synchronized_enqueue_step i y = ok z"
  shows "settled z \<and> sync_rank z < sync_rank y \<and> (sure y \<longrightarrow> sure z)"
proof -
  obtain us p vs where t: "sy_producers y = us @ p # vs" "i = length us"
    using split_at_thread [OF assms(3)] by metis
  obtain m ss where i: "lock_ok y" "mail_ok hs c1 c2 m ss y" "reader_ok timed hs m ss (sy_reader y) (sy_producers y)"
    using assms(1) by (rule sync_invE)
  note d = synchronized_enqueue_step_def at_producer_def sync_rank_def settled_def sure_def message_there_def t
  show ?thesis
  proof (cases p)
    case (P_Enqueue x)
    have x: "mbox_rel (sy_heap y) (sy_mbox y) m hs ss c1 c2" "m \<noteq> Closed" "live (sy_heap y) (Node x)"
        "x \<notin> set hs \<union> set ss \<union> set c1 \<union> set c2"
      using i(2) P_Enqueue by (auto simp: mail_ok_def t)
    obtain h s where e: "enqueue (sy_heap y) (sy_mbox y) (Node x) =
          ok (if m = Blocked then Unblocked_Reader else Success, h, s)"
        "mbox_rel h s Ready hs (x # ss) c1 c2"
      using enqueue_rel [OF x] by blast
    have "can_fetch_more s = ok True"
      using can_fetch_more_rel [OF e(2)] by simp
    with assms(4) e(1) P_Enqueue show ?thesis
      by (auto simp: d split: if_splits)
  next
    case P_Notify
    with assms(2,4) show ?thesis
      by (auto simp: d notify_reader_def split: if_splits)
  qed (use assms(2,4) in \<open>auto simp: d split: if_splits\<close>)
qed

lemma sync_move_settled:
  assumes "sync_move timed y z" and "sync_inv timed hs c1 c2 y" and "settled y"
  shows "settled z \<and> sync_rank z < sync_rank y \<and> (sure y \<longrightarrow> sure z)"
  using assms(1)
proof cases
  case steps
  with await_step_settled [OF assms(2,3)] enqueue_step_settled [OF assms(2,3)] show ?thesis
    by (auto elim!: sync_step.cases)
qed (use assms(3) in \<open>auto simp: settled_def sure_def sync_rank_def\<close>)

lemma sync_moves_settled:
  assumes "(sync_move timed ^^ k) y z" and "sync_inv timed hs c1 c2 y" and "settled y"
  shows "settled z \<and> k + sync_rank z \<le> sync_rank y \<and> (sure y \<longrightarrow> sure z)"
  using assms(1)
proof (induction k arbitrary: z)
  case (Suc k)
  then obtain x where x: "(sync_move timed ^^ k) y x" "sync_move timed x z"
    by auto
  have "sync_inv timed hs c1 c2 x"
    using sync_moves_inv [OF relpowp_imp_rtranclp [OF x(1)] assms(2)] .
  with Suc.IH [OF x(1)] sync_move_settled [OF x(2)] show ?case
    by fastforce
qed (use assms(3) in simp)

text \<open>A state in which no thread can take a step, if the reader is sure to return, is one in which all have.\<close>

lemma stuck_is_done:
  assumes "sync_inv timed hs c1 c2 y" and "settled y" and "\<nexists>z. sync_step y z"
  shows "(\<exists>b. sy_reader y = R_Done b) \<and> set (sy_producers y) \<subseteq> {P_Done True}"
proof -
  obtain m ss where i: "lock_ok y" "mail_ok hs c1 c2 m ss y" "reader_ok timed hs m ss (sy_reader y) (sy_producers y)"
    using assms(1) by (rule sync_invE)
  have e: "\<not> (\<exists>z. synchronized_enqueue_step i y = ok z)" if "i < length (sy_producers y)" for i
    using assms(3) that by (auto intro: sync_step.writes)
  have a: "\<not> (\<exists>z. await_step y = ok z)"
    using assms(3) by (auto intro: sync_step.reads)
  have free: "producer_holds p = 0" if p: "p \<in> set (sy_producers y)" for p
  proof -
    obtain i where "i < length (sy_producers y)" "sy_producers y ! i = p"
      using p by (auto simp: in_set_conv_nth)
    with e [of i] show ?thesis
      by (cases p) (auto simp: synchronized_enqueue_step_def)
  qed
  then have 0: "sum_list (map producer_holds (sy_producers y)) = 0"
    by simp
  have r0: "sy_reader y \<notin> {R_Start, R_Try, R_Check, R_Unblock}"
    using a mail_ok_reads [OF i(2)] by (auto simp: await_step_def split: prod.splits)
  then have l: "\<not> sy_locked y"
    using i(1) 0 by (auto simp: lock_ok_def reader_holds_def split: if_splits)
  have p: "p = P_Done True" if p: "p \<in> set (sy_producers y)" for p
  proof -
    obtain i where n: "i < length (sy_producers y)" "sy_producers y ! i = p"
      using p by (auto simp: in_set_conv_nth)
    show ?thesis
    proof (cases p)
      case (P_Enqueue x)
      have x: "mbox_rel (sy_heap y) (sy_mbox y) m hs ss c1 c2" "m \<noteq> Closed" "live (sy_heap y) (Node x)"
          "x \<notin> set hs \<union> set ss \<union> set c1 \<union> set c2"
        using i(2) P_Enqueue p by (force simp: mail_ok_def)+
      with enqueue_rel [OF x] n P_Enqueue e [OF n(1)] show ?thesis
        by (auto simp: synchronized_enqueue_step_def)
    next
      case P_Lock
      with n e [OF n(1)] l show ?thesis
        by (auto simp: synchronized_enqueue_step_def)
    qed (use p free [OF p] i(2) in \<open>auto simp: mail_ok_def\<close>)
  qed
  have "sy_reader y \<notin> {R_Lock, R_Woken, R_Timeout}"
    using a l by (auto simp: await_step_def)
  moreover have "sy_reader y \<noteq> R_Wait"
    using i(3) p [of P_Lock] p [of P_Notify] assms(2) there_iff [OF i(2)] mail_ok_reads(4,5) [OF i(2)] by (auto simp: reader_ok_def settled_def)
  ultimately show ?thesis
    using r0 p by (cases "sy_reader y") auto
qed

text \<open>No assertion fails.\<close>

lemma steps_do_not_fail:
  assumes "sync_inv timed hs c1 c2 y"
  shows "await_step y \<noteq> fail e" and "i < length (sy_producers y) \<Longrightarrow> synchronized_enqueue_step i y \<noteq> fail e"
proof -
  obtain m ss where i: "lock_ok y" "mail_ok hs c1 c2 m ss y"
    using assms by (rule sync_invE)
  show "await_step y \<noteq> fail e"
    using mail_ok_reads [OF i(2)] by (cases "sy_reader y") (auto simp: await_step_def split: prod.splits)
  assume n: "i < length (sy_producers y)"
  show "synchronized_enqueue_step i y \<noteq> fail e"
  proof (cases "sy_producers y ! i")
    case (P_Enqueue x)
    with n have p: "P_Enqueue x \<in> set (sy_producers y)"
      by (metis nth_mem)
    have x: "mbox_rel (sy_heap y) (sy_mbox y) m hs ss c1 c2" "m \<noteq> Closed" "live (sy_heap y) (Node x)"
        "x \<notin> set hs \<union> set ss \<union> set c1 \<union> set c2"
      using i(2) p by (force simp: mail_ok_def)+
    with enqueue_rel [OF x] P_Enqueue show ?thesis
      by (auto simp: synchronized_enqueue_step_def)
  qed (auto simp: synchronized_enqueue_step_def)
qed

text \<open>The bound.\<close>

lemma sync_move_length: "sync_move timed y z \<Longrightarrow> length (sy_producers z) = length (sy_producers y)"
proof (erule sync_move.cases)
  show "length (sy_producers z) = length (sy_producers y)" if "y = a" "z = b" "sync_step a b" for a b
    using that(3) unfolding that(1,2)
    by (auto elim!: sync_step.cases simp: await_step_def synchronized_enqueue_step_def at_producer_def notify_reader_def
        and_then_ok_iff split: awaiting.splits producing.splits if_splits prod.splits)
qed simp_all

lemma sync_moves_length: "(sync_move timed)\<^sup>*\<^sup>* y z \<Longrightarrow> length (sy_producers z) = length (sy_producers y)"
  by (induction rule: rtranclp_induct) (auto dest: sync_move_length)

lemma sync_rank_le: "sync_rank y \<le> 7 + 4 * length (sy_producers y)"
proof -
  have "producer_left p \<le> 4" for p
    by (cases p) simp_all
  then have "sum_list (map producer_left ps) \<le> 4 * length ps" for ps
    by (induction ps) (simp_all add: add_mono trans_le_add1)
  moreover have "reader_left r \<le> 7" for r
    by (cases r) simp_all
  ultimately show ?thesis
    by (simp add: sync_rank_def add_mono)
qed

section \<open>Property\<close>

text \<open>
  C19. Waiting for messages, under every interleaving of the reader and any number of producers, with wake-ups
  for no reason and, in the version with a timeout, its passing at any time. No assertion fails. No wake-up is
  lost: when the reader sleeps and the queue is no longer blocked, some producer is about to notify it. As soon as a
  message is there or the timeout has passed, at most \<open>7\<close> moves and \<open>4\<close> per producer are left, and
  when no thread can go on without the help of a needless wake-up or a timeout all have returned, the
  producers with true. The reader returns with the queue unblocked; true means that there is a message, and it
  returns true if one is there before it returns; false is returned only by the version with a timeout.
\<close>

theorem synchronized_await_returns:
  assumes "mailbox h s Ready p c1 c2" and "\<forall>x \<in> set xs. live h (Node x)" and "distinct (xs @ p @ c1 @ c2)"
    and "(sync_move timed)\<^sup>*\<^sup>* (sync_start h s xs) y"
  shows "(\<forall>e. await_step y \<noteq> fail e \<and> (\<forall>i < length xs. synchronized_enqueue_step i y \<noteq> fail e)) \<and>
    (sy_reader y = R_Wait \<and> \<not> blocked (sy_mbox y) \<longrightarrow>
       P_Lock \<in> set (sy_producers y) \<or> P_Notify \<in> set (sy_producers y)) \<and>
    (\<forall>b. sy_reader y = R_Done b \<longrightarrow>
       \<not> blocked (sy_mbox y) \<and> (b \<longrightarrow> can_fetch_more (sy_mbox y) = ok True) \<and> (\<not> b \<longrightarrow> timed)) \<and>
    (can_fetch_more (sy_mbox y) = ok True \<or> sy_reader y = R_Timeout \<longrightarrow>
       (\<forall>k z. (sync_move timed ^^ k) y z \<longrightarrow> k \<le> 7 + 4 * length xs \<and>
          ((\<nexists>z'. sync_step z z') \<longrightarrow>
             (\<exists>b. sy_reader z = R_Done b \<and>
                (can_fetch_more (sy_mbox y) = ok True \<and> sy_reader y \<noteq> R_Done False \<longrightarrow> b)) \<and>
             set (sy_producers z) \<subseteq> {P_Done True})))"
proof -
  obtain hs ss where r: "mbox_rel h s Ready hs ss c1 c2" "p = hs @ rev ss"
    using assms(1) by (auto simp: mailbox_def)
  have inv: "sync_inv timed hs c1 c2 y"
    using sync_moves_inv [OF assms(4) sync_start_inv [OF r(1) assms(2)]] assms(3) r(2) by simp
  obtain m ss where i: "mail_ok hs c1 c2 m ss y" "reader_ok timed hs m ss (sy_reader y) (sy_producers y)"
    using inv by (rule sync_invE)
  note f = mail_ok_reads [OF i(1)]
  have n: "length (sy_producers y) = length xs"
    using sync_moves_length [OF assms(4)] by (simp add: sync_start_def)
  have "await_step y \<noteq> fail e \<and> (\<forall>i < length xs. synchronized_enqueue_step i y \<noteq> fail e)" for e
    using steps_do_not_fail [OF inv] n by simp
  moreover have "P_Lock \<in> set (sy_producers y) \<or> P_Notify \<in> set (sy_producers y)"
    if "sy_reader y = R_Wait" "\<not> blocked (sy_mbox y)"
    using i(2) f that by (auto simp: reader_ok_def)
  moreover have "\<not> blocked (sy_mbox y) \<and> (b \<longrightarrow> can_fetch_more (sy_mbox y) = ok True) \<and> (\<not> b \<longrightarrow> timed)"
    if "sy_reader y = R_Done b" for b
    using i(2) f that by (auto simp: reader_ok_def)
  moreover have "k \<le> 7 + 4 * length xs \<and> ((\<nexists>z'. sync_step z z') \<longrightarrow>
      (\<exists>b. sy_reader z = R_Done b \<and> (can_fetch_more (sy_mbox y) = ok True \<and> sy_reader y \<noteq> R_Done False \<longrightarrow> b)) \<and>
      set (sy_producers z) \<subseteq> {P_Done True})"
    if t: "can_fetch_more (sy_mbox y) = ok True \<or> sy_reader y = R_Timeout" and z: "(sync_move timed ^^ k) y z" for k z
  proof -
    have "settled y"
      using t by (auto simp: settled_def message_there_def)
    note s = sync_moves_settled [OF z inv this]
    have "k \<le> 7 + 4 * length xs"
      using s sync_rank_le [of y] n by simp
    moreover have "(\<exists>b. sy_reader z = R_Done b \<and> (sure y \<longrightarrow> b)) \<and> set (sy_producers z) \<subseteq> {P_Done True}"
      if "\<nexists>z'. sync_step z z'"
      using stuck_is_done [OF sync_moves_inv [OF relpowp_imp_rtranclp [OF z] inv] _ that] s by (auto simp: sure_def)
    ultimately show ?thesis
      by (auto simp: sure_def message_there_def)
  qed
  ultimately show ?thesis
    by blast
qed

text \<open>
  The reader finds nothing, blocks the queue and falls asleep; a producer enqueues. Whatever happens then, the
  reader returns true.
\<close>

lemma synchronized_await_returns_witness:
  "\<exists>y. (sync_move True)\<^sup>*\<^sup>* (sync_start (pl_ctor 0 0 (new_node empty_heap 5 (50 :: nat))) (srq_ctor 0) [5]) y \<and>
     sy_reader y = R_Wait \<and> sy_producers y = [P_Lock] \<and>
     (\<forall>z. (sync_move True)\<^sup>*\<^sup>* y z \<and> (\<nexists>z'. sync_step z z') \<longrightarrow> sy_reader z = R_Done True)"
proof -
  let ?h = "pl_ctor 0 0 (new_node empty_heap 5 (50 :: nat))"
  have m: "mailbox ?h (srq_ctor 0) Ready [] [] []" "live ?h (Node 5)"
    by (rule mailbox_init) (simp add: live_def pl_ctor_def new_node_def)
  define y0 where "y0 = sync_start ?h (srq_ctor 0) [5]"
  define y1 where "y1 = y0\<lparr>sy_reader := R_Try\<rparr>"
  define y2 where "y2 = y0\<lparr>sy_mbox := (srq_ctor 0)\<lparr>q_stack := Blocked_D 0\<rparr>, sy_reader := R_Lock\<rparr>"
  define y3 where "y3 = y2\<lparr>sy_locked := True, sy_reader := R_Check\<rparr>"
  define y4 where "y4 = y2\<lparr>sy_locked := False, sy_reader := R_Wait\<rparr>"
  define y5 where "y5 = y4\<lparr>sy_heap := ?h\<lparr>nxt := (nxt ?h)(Node 5 := Null)\<rparr>, sy_mbox := (srq_ctor 0)\<lparr>q_stack := Node 5\<rparr>,
    sy_producers := [P_Lock]\<rparr>"
  note d = y0_def y1_def y2_def y3_def y4_def y5_def sync_start_def srq_ctor_def await_step_def synchronized_enqueue_step_def
    at_producer_def queue_pointers can_fetch_more_def try_block_def enqueue_def set_next_def
  have "await_step y0 = ok y1" "await_step y1 = ok y2" "await_step y2 = ok y3" "await_step y3 = ok y4"
    by (simp_all add: d)
  moreover have "synchronized_enqueue_step 0 y4 = ok y5"
    using m(2) by (simp add: d)
  ultimately have s: "sync_move True y0 y1" "sync_move True y1 y2" "sync_move True y2 y3" "sync_move True y3 y4"
      "sync_move True y4 y5"
    by (auto intro!: sync_move.steps intro: sync_step.intros simp: d)
  then have r: "(sync_move True)\<^sup>*\<^sup>* y0 y5"
    by (meson converse_rtranclp_into_rtranclp r_into_rtranclp)
  have y: "can_fetch_more (sy_mbox y5) = ok True" "sy_reader y5 = R_Wait" "sy_producers y5 = [P_Lock]"
    by (simp_all add: d)
  have "sy_reader z = R_Done True" if z: "(sync_move True)\<^sup>*\<^sup>* y5 z" "\<nexists>z'. sync_step z z'" for z
  proof -
    obtain k where k: "(sync_move True ^^ k) y5 z"
      using z(1) by (meson rtranclp_imp_relpowp)
    have "\<exists>b. sy_reader z = R_Done b \<and> b"
      using synchronized_await_returns [OF m(1) _ _ r [unfolded y0_def]] m(2) y k z(2) by simp
    then show ?thesis
      by auto
  qed
  with r y show ?thesis
    unfolding y0_def by blast
qed

end
