(* ===== verification/Whole_Jobs.thy ===== *)
theory Whole_Jobs
  imports Coop_Actor_Conc World_Actors
begin

text \<open>
  What the coarse turns of the whole-program models are in terms of the atomic steps of
  \<open>Coop_Actor_Conc\<close>: an \<open>enqueue_base\<close> that no worker disturbs does what \<open>lossy_send\<close> does, and a job that
  no sender and no other worker disturbs does what \<open>lossy_turn\<close> does.
\<close>

section \<open>The job of a worker, step by step\<close>

definition job_steps :: "nat \<Rightarrow> nat \<Rightarrow> sched \<Rightarrow> sched \<Rightarrow> bool" where
  "job_steps mx w s s' \<longleftrightarrow> (\<exists>k. take_turns mx (replicate k (Worker w)) s = ok s')"

lemma job_steps_refl [simp]: "job_steps mx w s s"
  by (auto simp: job_steps_def intro: exI [of _ 0])

lemma job_steps_step:
  assumes "w < length (k_workers s)" and "worker_step mx w s = ok s1" and "job_steps mx w s1 s2"
  shows "job_steps mx w s s2"
proof -
  obtain k where "take_turns mx (replicate k (Worker w)) s1 = ok s2"
    using assms(3) by (auto simp: job_steps_def)
  with assms(1,2) have "take_turns mx (replicate (Suc k) (Worker w)) s = ok s2"
    by simp
  then show ?thesis
    unfolding job_steps_def by blast
qed

text \<open>The state of the actor while the worker \<open>w\<close> is at \<open>p\<close>, the rest as in \<open>s\<close>.\<close>

definition working :: "sched \<Rightarrow> nat \<Rightarrow> stage \<Rightarrow> nat list \<Rightarrow> nat list \<Rightarrow> nat list \<Rightarrow> nat list \<Rightarrow> nat list \<Rightarrow> bool \<Rightarrow> sched" where
  "working s w p c hs ss hm lm b =
     s\<lparr>k_workers := (k_workers s)[w := p], k_cache := c, k_head := hs, k_stack := ss, k_handled := hm, k_lost := lm,
       k_blocked := b\<rparr>"

lemmas working_step = working_def worker_step_def reader_pop_def got_next_def stack_block_def stack_unblock_def at_worker_def

lemma working_length [simp]: "length (k_workers (working s w p c hs ss hm lm b)) = length (k_workers s)"
  by (simp add: working_def)

lemma fetch_head:
  assumes "w < length (k_workers s)"
  shows "job_steps mx w (working s w (K_Next cached n) (c @ hs) [] [] hm lm False) t \<Longrightarrow>
    job_steps mx w (working s w (K_Next cached n) c hs [] hm lm False) t"
proof (induction hs arbitrary: c)
  case (Cons x hs)
  then have "job_steps mx w (working s w (K_Next cached n) (c @ [x]) hs [] hm lm False) t"
    by simp
  then show ?case
    by (rule job_steps_step [rotated 2]) (use assms in \<open>simp_all add: working_step\<close>)
qed simp

lemma fetch_stack:
  assumes "w < length (k_workers s)"
    and "job_steps mx w (working s w (K_Next cached n) (c @ ss) [] [] hm lm False) t"
  shows "job_steps mx w (working s w (K_Next cached n) c [] ss hm lm False) t"
proof (cases ss)
  case (Cons x xs)
  with assms have "job_steps mx w (working s w (K_Next cached n) (c @ [x]) xs [] hm lm False) t"
    by (simp add: fetch_head)
  then show ?thesis
    by (rule job_steps_step [rotated 2]) (use assms(1) Cons in \<open>simp_all add: working_step\<close>)
qed (use assms in simp)

text \<open>The release: \<open>flags_\<close> is cleared, the mailbox unblocked, the reference of the job given back.\<close>

lemma release_steps:
  assumes "w < length (k_workers s)" and "k_rc s = Suc (Suc r)"
  shows "job_steps mx w (working s w K_Flags c [] [] hm lm b)
    (working s w K_Idle c [] [] hm lm False\<lparr>k_flags := St_Empty, k_rc := Suc r\<rparr>)"
proof -
  let ?t = "working s w K_Idle c [] [] hm lm False\<lparr>k_flags := St_Empty, k_rc := Suc r\<rparr>"
  have "job_steps mx w (working s w K_Sub c [] [] hm lm False\<lparr>k_flags := St_Empty\<rparr>) ?t"
    by (rule job_steps_step [OF _ _ job_steps_refl]) (use assms in \<open>simp_all add: working_step\<close>)
  then have "job_steps mx w (working s w K_Deref c [] [] hm lm False\<lparr>k_flags := St_Empty\<rparr>) ?t"
    by (rule job_steps_step [rotated 2]) (use assms in \<open>simp_all add: working_step\<close>)
  then have "job_steps mx w (working s w K_Unblock c [] [] hm lm b\<lparr>k_flags := St_Empty\<rparr>) ?t"
    by (rule job_steps_step [rotated 2]) (use assms in \<open>simp_all add: working_step\<close>)
  then show ?thesis
    by (rule job_steps_step [rotated 2]) (use assms in \<open>simp_all add: working_step\<close>)
qed

lemma last_steps:
  assumes "w < length (k_workers s)" and "k_rc s = Suc (Suc r)"
  shows "job_steps mx w (working s w K_Last c [] [] hm lm False)
    (working s w K_Idle c [] [] hm lm False\<lparr>k_flags := St_Empty, k_rc := Suc r\<rparr>)"
proof (cases "c = []")
  case True
  have "job_steps mx w (working s w K_Last_Try c [] [] hm lm False)
    (working s w K_Idle c [] [] hm lm False\<lparr>k_flags := St_Empty, k_rc := Suc r\<rparr>)"
    by (rule job_steps_step [OF _ _ release_steps [OF assms, where b = True]]) (use assms True in \<open>simp_all add: working_step\<close>)
  then show ?thesis
    by (rule job_steps_step [rotated 2]) (use assms True in \<open>simp_all add: working_step\<close>)
next
  case False
  show ?thesis
    by (rule job_steps_step [OF _ _ release_steps [OF assms, where b = False]]) (use assms False in \<open>simp_all add: working_step\<close>)
qed

text \<open>The second loop, which handles, entered with everything in the cache.\<close>

lemma handle_steps:
  assumes w: "w < length (k_workers s)" and rc: "k_rc s = Suc (Suc r)"
  shows "n < mx \<Longrightarrow> job_steps mx w (working s w (K_Next False n) c [] [] hm lm False)
    (working s w K_Idle (drop (mx - n) c) [] [] (hm @ take (mx - n) c) lm False\<lparr>k_flags := St_Empty, k_rc := Suc r\<rparr>)"
proof (induction c arbitrary: n hm)
  case Nil
  have "job_steps mx w (working s w (K_Try False n) [] [] [] hm lm False)
    (working s w K_Idle [] [] [] hm lm False\<lparr>k_flags := St_Empty, k_rc := Suc r\<rparr>)"
    by (rule job_steps_step [OF _ _ release_steps [OF w rc, where b = True]]) (use w in \<open>simp_all add: working_step\<close>)
  then have "job_steps mx w (working s w (K_Next False n) [] [] [] hm lm False)
    (working s w K_Idle [] [] [] hm lm False\<lparr>k_flags := St_Empty, k_rc := Suc r\<rparr>)"
    by (rule job_steps_step [rotated 2]) (use w in \<open>simp_all add: working_step\<close>)
  then show ?case
    by simp
next
  case (Cons x c)
  let ?t = "working s w K_Idle (drop (mx - n) (x # c)) [] [] (hm @ take (mx - n) (x # c)) lm False\<lparr>k_flags := St_Empty, k_rc := Suc r\<rparr>"
  obtain d where d: "mx - n = Suc d" "mx - Suc n = d"
    using Cons.prems by (cases "mx - n") auto
  have "job_steps mx w (working s w (K_Loop False (Suc n)) c [] [] (hm @ [x]) lm False) ?t"
  proof (cases "Suc n < mx")
    case True
    then have "job_steps mx w (working s w (K_Next False (Suc n)) c [] [] (hm @ [x]) lm False) ?t"
      using Cons.IH [of "Suc n" "hm @ [x]"] d by simp
    then show ?thesis
      by (rule job_steps_step [rotated 2]) (use w True in \<open>simp_all add: working_step\<close>)
  next
    case False
    then have "job_steps mx w (working s w K_Last c [] [] (hm @ [x]) lm False) ?t"
      using last_steps [OF w rc] d by simp
    then show ?thesis
      by (rule job_steps_step [rotated 2]) (use w False in \<open>simp_all add: working_step\<close>)
  qed
  then show ?case
    by (rule job_steps_step [rotated 2]) (use w in \<open>simp_all add: working_step\<close>)
qed

text \<open>The first loop, which deletes what an earlier run has left over.\<close>

lemma drop_steps:
  assumes w: "w < length (k_workers s)" and rc: "k_rc s = Suc (Suc r)"
  shows "n < mx \<Longrightarrow> c \<noteq> [] \<Longrightarrow> job_steps mx w (working s w (K_Next True n) c [] [] hm lm False)
    (working s w K_Idle (drop (mx - n) c) [] [] hm (lm @ take (mx - n) c) False\<lparr>k_flags := St_Empty, k_rc := Suc r\<rparr>)"
proof (induction c arbitrary: n lm)
  case (Cons x c)
  let ?t = "working s w K_Idle (drop (mx - n) (x # c)) [] [] hm (lm @ take (mx - n) (x # c)) False\<lparr>k_flags := St_Empty, k_rc := Suc r\<rparr>"
  obtain d where d: "mx - n = Suc d" "mx - Suc n = d"
    using Cons.prems by (cases "mx - n") auto
  have "job_steps mx w (working s w (K_Loop True (Suc n)) c [] [] hm (lm @ [x]) False) ?t"
  proof (cases "Suc n < mx \<and> c \<noteq> []")
    case True
    then have "job_steps mx w (working s w (K_Next True (Suc n)) c [] [] hm (lm @ [x]) False) ?t"
      using Cons.IH [of "Suc n" "lm @ [x]"] d by simp
    then show ?thesis
      by (rule job_steps_step [rotated 2]) (use w True in \<open>simp_all add: working_step\<close>)
  next
    case stop: False
    have "job_steps mx w (working s w (K_Loop False (Suc n)) c [] [] hm (lm @ [x]) False) ?t"
    proof (cases "Suc n < mx")
      case True
      with stop have "job_steps mx w (working s w (K_Next False (Suc n)) c [] [] hm (lm @ [x]) False) ?t"
        using handle_steps [OF w rc, of "Suc n" mx "[]" hm "lm @ [x]"] d by simp
      then show ?thesis
        by (rule job_steps_step [rotated 2]) (use w True in \<open>simp_all add: working_step\<close>)
    next
      case False
      then have "job_steps mx w (working s w K_Last c [] [] hm (lm @ [x]) False) ?t"
        using last_steps [OF w rc] d by simp
      then show ?thesis
        by (rule job_steps_step [rotated 2]) (use w False in \<open>simp_all add: working_step\<close>)
    qed
    then show ?thesis
      by (rule job_steps_step [rotated 2]) (use w stop in \<open>auto simp: working_step\<close>)
  qed
  then show ?case
    by (rule job_steps_step [rotated 2]) (use w in \<open>simp_all add: working_step\<close>)
qed simp

section \<open>Undisturbed moves\<close>

text \<open>
  Nobody is inside \<open>enqueue_base\<close>, \<open>run\<close> or the release, and the actor is queued at most once. Seen from
  outside it is idle or queued, has its queue of messages, and is stalled when its cache holds leftovers.
\<close>

definition settled :: "sched \<Rightarrow> bool" where
  "settled s \<longleftrightarrow> set (k_senders s) \<subseteq> {S_Idle} \<and> set (k_workers s) \<subseteq> {K_Idle} \<and> k_head s = [] \<and> \<not> k_blocked s \<and>
     (k_jobs s = 0 \<and> k_flags s = St_Empty \<or> k_jobs s = 1 \<and> k_flags s = St_Busy) \<and> k_rc s = Suc (k_jobs s) \<and> k_alive s"

definition outside :: "(nat \<Rightarrow> message) \<Rightarrow> sched \<Rightarrow> lossy" where
  "outside f s =
     \<lparr>lm_idle = (k_jobs s = 0), lm_stalled = (k_cache s \<noteq> []), lm_queue = map f (k_cache s @ k_stack s),
      lm_handled = map f (k_handled s)\<rparr>"

lemma settled_init: "settled (sched_init senders workers)"
  by (auto simp: settled_def sched_init_def)

lemma idle_update: "set xs \<subseteq> {x} \<Longrightarrow> xs[i := x] = xs"
  by (metis list_update_beyond list_update_id not_le nth_mem singletonD subsetD)

lemma all_idle: "set xs \<subseteq> {x} \<Longrightarrow> i < length xs \<Longrightarrow> xs ! i = x"
  by (metis nth_mem singletonD subsetD)

text \<open>An \<open>enqueue_base\<close>: two steps when the actor is queued already, six when it has to be scheduled.\<close>

lemma undisturbed_send:
  assumes "settled s" and "i < length (k_senders s)"
  shows "\<exists>k s'. take_turns mx (replicate k (Sender i x)) s = ok s' \<and> settled s' \<and>
    outside f s' = lossy_send (f x) (outside f s)"
proof (cases "k_jobs s = 0")
  case True
  let ?s = "s\<lparr>k_stack := k_stack s @ [x], k_sent := k_sent s @ [x], k_flags := St_Busy, k_rc := k_rc s + 1,
    k_jobs := k_jobs s + 1\<rparr>"
  have idle: "k_senders s ! i = S_Idle" "(k_senders s)[i := S_Idle] = k_senders s"
    using assms by (simp_all add: settled_def all_idle idle_update)
  have "take_turns mx (replicate 6 (Sender i x)) s = ok ?s"
    using assms True idle
    by (simp add: settled_def sender_step_def sched_defs eval_nat_numeral)
  moreover have "settled ?s \<and> outside f ?s = lossy_send (f x) (outside f s)"
    using assms True by (simp add: settled_def outside_def lossy_send_def)
  ultimately show ?thesis
    by blast
next
  case False
  let ?s = "s\<lparr>k_stack := k_stack s @ [x], k_sent := k_sent s @ [x]\<rparr>"
  have idle: "k_senders s ! i = S_Idle" "(k_senders s)[i := S_Idle] = k_senders s"
    using assms by (simp_all add: settled_def all_idle idle_update)
  have "take_turns mx (replicate 2 (Sender i x)) s = ok ?s"
    using assms False idle
    by (simp add: settled_def sender_step_def sched_defs eval_nat_numeral)
  moreover have "settled ?s \<and> outside f ?s = lossy_send (f x) (outside f s)"
    using assms False by (simp add: settled_def outside_def lossy_send_def)
  ultimately show ?thesis
    by blast
qed

lemma job_steps_run:
  assumes s: "settled s" "k_jobs s = 1" and w: "w < length (k_workers s)" and mx: "0 < mx"
  defines "q \<equiv> k_cache s @ k_stack s"
  defines "s' \<equiv> s\<lparr>k_jobs := 0, k_flags := St_Empty, k_rc := 1, k_cache := drop mx q, k_stack := [],
    k_handled := (if k_cache s = [] then k_handled s @ take mx q else k_handled s),
    k_lost := (if k_cache s = [] then k_lost s else k_lost s @ take mx q)\<rparr>"
  shows "job_steps mx w s s'"
proof -
  let ?s = "s\<lparr>k_jobs := 0\<rparr>"
  have idle: "k_workers s ! w = K_Idle" "(k_workers s)[w := K_Idle] = k_workers s" "\<not> (\<exists>p \<in> set (k_workers s). reading p)"
    using s w by (auto simp: settled_def all_idle idle_update reading_def)
  have ws: "w < length (k_workers ?s)" and rc: "k_rc ?s = Suc (Suc 0)"
    using s w by (simp_all add: settled_def)
  have frame: "k_head s = []" "\<not> k_blocked s"
    using s by (simp_all add: settled_def)
  let ?hm = "if k_cache s = [] then k_handled s @ take mx q else k_handled s"
  let ?lm = "if k_cache s = [] then k_lost s else k_lost s @ take mx q"
  have "working ?s w K_Idle (drop mx q) [] [] ?hm ?lm False\<lparr>k_flags := St_Empty, k_rc := Suc 0\<rparr> = s'"
    using idle(2) frame by (intro sched.equality) (simp_all add: s'_def working_def)
  moreover have "job_steps mx w (working ?s w (K_Next (k_cache s \<noteq> []) 0) q [] [] (k_handled s) (k_lost s) False)
      (working ?s w K_Idle (drop mx q) [] [] ?hm ?lm False\<lparr>k_flags := St_Empty, k_rc := Suc 0\<rparr>)"
    using handle_steps [OF ws rc, of 0 mx q "k_handled s" "k_lost s"]
      drop_steps [OF ws rc, of 0 mx q "k_handled s" "k_lost s"] mx
    by (cases "k_cache s = []") (simp_all add: q_def)
  ultimately have "job_steps mx w (working ?s w (K_Next (k_cache s \<noteq> []) 0) q [] [] (k_handled s) (k_lost s) False) s'"
    by simp
  then have there: "job_steps mx w
      (working ?s w (K_Next (k_cache s \<noteq> []) 0) (k_cache s) [] (k_stack s) (k_handled s) (k_lost s) False) s'"
    unfolding q_def by (rule fetch_stack [OF ws])
  have "job_steps mx w
      (working ?s w (K_Loop True 0) (k_cache s) [] (k_stack s) (k_handled s) (k_lost s) False) s'"
  proof (cases "k_cache s = []")
    case True
    with there have "job_steps mx w
        (working ?s w (K_Loop False 0) (k_cache s) [] (k_stack s) (k_handled s) (k_lost s) False) s'"
      by (elim job_steps_step [rotated 2]) (use ws mx in \<open>simp_all add: working_step\<close>)
    then show ?thesis
      by (rule job_steps_step [rotated 2]) (use ws True in \<open>simp_all add: working_step\<close>)
  next
    case False
    with there show ?thesis
      by (elim job_steps_step [rotated 2]) (use ws mx in \<open>simp_all add: working_step\<close>)
  qed
  then show ?thesis
    by (rule job_steps_step [rotated 2]) (use s w idle frame in \<open>simp_all add: working_step\<close>)
qed

text \<open>The job of a queued actor.\<close>

lemma undisturbed_job:
  assumes "settled s" and "w < length (k_workers s)" and "0 < mx"
  shows "\<exists>k s'. take_turns mx (replicate k (Worker w)) s = ok s' \<and> settled s' \<and>
    outside f s' = lossy_turn mx (outside f s)"
proof (cases "k_jobs s = 0")
  case True
  then have "lossy_turn mx (outside f s) = outside f s"
    by (simp add: lossy_turn_def outside_def)
  with assms(1) show ?thesis
    by (intro exI [of _ 0] exI [of _ s]) simp
next
  case False
  then have jobs: "k_jobs s = 1"
    using assms(1) by (auto simp: settled_def)
  obtain k where k: "take_turns mx (replicate k (Worker w)) s = ok (s\<lparr>k_jobs := 0, k_flags := St_Empty, k_rc := 1,
      k_cache := drop mx (k_cache s @ k_stack s), k_stack := [],
      k_handled := (if k_cache s = [] then k_handled s @ take mx (k_cache s @ k_stack s) else k_handled s),
      k_lost := (if k_cache s = [] then k_lost s else k_lost s @ take mx (k_cache s @ k_stack s))\<rparr>)"
    using job_steps_run [OF assms(1) jobs assms(2,3)] unfolding job_steps_def by blast
  show ?thesis
    by (rule exI, rule exI, rule conjI [OF k])
      (use assms(1) jobs in \<open>simp add: settled_def outside_def lossy_turn_def take_map drop_map\<close>)
qed

end
