(* ===== verification/Spec2Isabelle.thy ===== *)
theory Spec2Isabelle
  imports Mailbox_Spec Actor Supervisor Executor_Stop Ref_Counted_Conc Alloc Type_List
    Reader_Queue_Conc Coop_Actor_Conc Profiled Round_Robin Databases Spawn_Actor Key_Value Communication Add_Method Delegate Handles Smart_Counts Handler_Test
    Unit_Tests Mailbox_Lifetime Await_Conc Whole_Jobs
begin

text \<open>
  A verification library for the C++ actor framework under \<open>src/header/actors-framework\<close> and the
  programs under \<open>src/examples\<close> and \<open>src/test\<close> that use it. Paths below are relative to
  these directories.

  The program. An actor is a module with a mailbox, a table of handlers and contacts. \<open>send\<close> makes
  a message and calls \<open>enqueue\<close> of the receiver; an idle actor then hands itself to the executor of
  its supervisor, one of whose workers calls \<open>run\<close>, which takes at most
  \<open>max_throughput\<close> messages from the mailbox and executes the handler of each. A supervisor is a
  module without a mailbox: its class decides in \<open>enqueue_base\<close> what becomes of a message, usually
  it executes it at once. Supervisors spawn actors and supervisors, introduce them to each other
  (\<open>add_link\<close>) and redirect messages to their contacts (\<open>delegate\<close>).

  How C++ is modelled. Every operation is a function on an explicit state; \<open>'a eff\<close>
  (\<open>AF_Prelude\<close>) is its result: a value, a fault (a failed assertion, an exception, undefined
  behaviour through a null or dangling pointer), or \<open>None\<close> for a loop that does not end. A
  \<open>unique_ptr\<close> that goes out of scope deletes its message; a string moved from is empty. Machine
  integers are words of their width where they can wrap. Messages live on a heap that maps pointers to their
  links and contents (\<open>Msg_Heap\<close>), so that aliasing, leaks and accesses to deleted messages are
  visible.

  The framework, bottom up:

  \<^item> \<open>Partitioned_List\<close>: \<open>detail/intrusive_partitioned_list.hpp\<close>, the doubly
    linked cache of a mailbox, with the lists it represents (\<open>plist_rel\<close>) as invariant.
    \<open>Reader_Queue\<close>: \<open>detail/single_reader_queue.hpp\<close>, the stack of new messages, the
    list \<open>head_\<close> and the cache (\<open>mailbox\<close>). \<open>Fifo_Interface\<close> is the
    contract that this queue and the job list of the pool are instances of. \<open>Mailbox_Spec\<close> gives
    the mailbox as a machine on lists and proves that the pointer code refines it on every sequence of
    operations. \<open>Reader_Queue_Conc\<close> splits \<open>enqueue\<close> and \<open>try_pop\<close> into
    their atomic steps and shows them linearizable for any number of producers.
    \<open>Await_Conc\<close>: \<open>synchronized_enqueue\<close> and \<open>synchronized_await\<close> as threads with a
    mutex and a condition variable. \<open>Mailbox_Lifetime\<close>: the iterators of the cache, and the destructors: a mailbox takes exactly
    its messages with it.
  \<^item> \<open>Message\<close>, \<open>Comm_Module\<close>: \<open>base/message.hpp\<close>,
    \<open>base/address.hpp\<close>, \<open>detail/any.hpp\<close>, \<open>base/handler.hpp\<close>,
    \<open>base/communication_module.hpp\<close>: bodies with their types, dispatch by command, the casts of the
    arguments. The locale \<open>ctx_laws\<close> is what dispatch needs of a module's state; actors and
    supervisors are its instances.
  \<^item> \<open>Executable\<close>, \<open>Coop_Actor\<close>: \<open>base/cooperative_actor.hpp\<close>, the
    scheduling half of an actor: \<open>enqueue_base\<close>, \<open>run\<close> with its loops, reference
    counting while scheduled. The locale \<open>message_body\<close> is what \<open>run\<close> relies on when
    it calls the virtual \<open>execute\<close>; from it follows what a run handles and in which order
    (\<open>drive\<close>). \<open>Coop_Actor_Conc\<close> has the same code as steps of concurrent senders and
    workers, its invariant, and the interleavings that go wrong.
  \<^item> \<open>Actor\<close>: \<open>base/actor_abstract.hpp\<close>, and the two halves joined: the locale
    \<open>actor_module\<close>, for classes whose handlers keep to their own members, is an instance of
    \<open>message_body\<close>.
  \<^item> \<open>Supervisor\<close>: \<open>base/supervisor_abstract.hpp\<close>, \<open>send.hpp\<close>,
    \<open>link.hpp\<close>: contacts, spawning, links, delegation, broadcast, for any way the receivers treat
    what is delivered to them.
  \<^item> \<open>Work_Sharing\<close>, \<open>Executor\<close>, \<open>Executor_Stop\<close>: the thread pool
    of \<open>executor/\<close> as a step relation of its threads over all interleavings: no job is lost, no
    wake-up is lost, and \<open>stop\<close> returns with everything released (by a well-founded rank).
    \<open>Profiled\<close>: the profiling executor and its policy.
  \<^item> \<open>Intrusive_Ptr\<close>, \<open>Handles\<close>, \<open>Ref_Counted_Conc\<close>,
    \<open>Alloc\<close>, \<open>Type_List\<close>: reference counts, the handles \<open>base/actor.hpp\<close> and
    \<open>base/supervisor.hpp\<close> made of them, aligned allocation, the compile-time functions on
    types.

  Whole programs:

  \<^item> \<open>World\<close> puts all modules of a program on one heap; \<open>deliver\<close> is the virtual
    \<open>enqueue\<close>, with the executor of the receiver's supervisor behind it: either one that runs an
    actor within \<open>enqueue\<close>, or a pool, whose workers take turns between the lines of
    \<open>main\<close> (\<open>pool_turn\<close>; one turn is one job run to its end).
    \<open>World_Mail\<close> and \<open>World_Actors\<close> say what delivery, delegation and turns amount to
    for the contents of a mailbox, and give the mailbox of an actor in a pool as an abstract queue
    (\<open>lossy\<close>), which \<open>Delegate\<close> refines. \<open>Whole_Jobs\<close> says how this queue follows from
    the atomic steps of \<open>Coop_Actor_Conc\<close>: a send that no worker disturbs and a job that nobody
    disturbs are its moves; C5 has moves that do disturb each other. What is proved of one
    mailbox holds beside others on the same heap: the lemmas of \<open>Coop_Actor\<close> carry a frame
    (\<open>holds_in\<close>), and \<open>World_Crew\<close> puts any number of such actors together.
  \<^item> \<open>Delegate\<close>, \<open>Spawn_Actor\<close>, \<open>Databases\<close>,
    \<open>Communication\<close>, \<open>Add_Method\<close>: the programs \<open>delegate\<close>,
    \<open>spawn_actor\<close>, \<open>spawn_supervisor\<close>, \<open>communication\<close> and
    \<open>add_method\<close>, each run from the first line of \<open>main\<close>, the first two under every
    schedule in which no job of a worker overlaps a line of \<open>main\<close>.
    \<open>Network\<close> and \<open>Key_Value\<close>: the test network, with turns of other
    threads in each pass of its loop, and \<open>key-value-storage\<close>. \<open>Round_Robin\<close>: the classes of \<open>smart-send\<close> and
    what its supervisor sends; \<open>Smart_Send\<close>: the whole program, a supervisor and its workers, which
    refines an abstract crew under these schedules; \<open>Smart_Counts\<close>: its counters.
  \<^item> \<open>Handler_Test\<close>, \<open>Unit_Tests\<close>: the tests of handlers, pointers, messages and
    type lists under \<open>src/test\<close>, run on the definitions above; they pass.

  What the properties show. Each is next to the code it is about, numbered in the order of importance. The
  mailbox, its concurrent use, the pool and the reference counts are correct in the sense above. Where the code
  does not do what it means to, the property states what it does: messages beyond \<open>max_throughput\<close>
  are lost by the next run, \<open>count\<close> reorders messages, removing a link is undefined behaviour, an
  actor can miss a wake-up or be run by two workers at a time, two of the example programs end in an
  exception and one in a failed assertion.

  Bounds and fuel. \<open>deliver\<close> nests as deep as calls of \<open>enqueue\<close> do, which its fuel
  bounds; the properties hold for every fuel from the small number they name (each program nests at most that
  deep), and there they state that a result is reached. Other loops are total functions, or
  \<open>partial_function\<close> where they may run forever; the properties then prove that a value is
  returned. A reference count is a 64 bit word; the theorems about it assume fewer than \<open>2 ^ 64\<close>
  references. Weak memory is not modelled: an interleaving is one of sequentially consistent steps.

  Conventions. The entries of an \<open>unordered_map\<close> are iterated in the order of insertion. Allocation
  of modules and messages succeeds and gives a place that was not used before. The destructors that run at
  the end of a \<open>main\<close> are left out. Clock readings, condition variable wake-ups and the results of jobs are
  arguments or free choices. Text printed to the standard streams is kept only where a property speaks of it.

  Not modelled. \<open>config.hpp\<close>, \<open>forwards.hpp\<close>, \<open>core.hpp\<close>,
  \<open>basic_actor.hpp\<close> and \<open>detail/string_view.hpp\<close> are macros, aliases and includes;
  \<open>detail/pmr\<close> renames parts of \<open>std::pmr\<close>, of which the framework uses the class of
  memory resources only. \<open>mdb_t\<close> and \<open>mdispatcher_t\<close> repeat the
  overrides of \<open>database_t\<close>. \<open>main\<close> of \<open>key-value-storage\<close> calls a
  function \<open>spawn_actor\<close> that does not exist, so one request is run in a world where its modules
  are linked. The other test programs under
  \<open>src/test\<close> test \<open>std::any\<close>, \<open>std::pmr\<close> and \<open>std::string_view\<close>.
\<close>

end
